(* ===== verification/Prelude.thy ===== *)
theory Prelude
  imports Main "HOL-Library.Word"
begin

text \<open>
  Shared vocabulary of the development: machine integers at the widths C gives them
  on the i386, the result type of kernel operations, and the generic facts on
  results, lists and maps that the component theories use.

  A kernel function either returns (\<open>Ok\<close>), stops the machine (\<open>Panic\<close>, with the
  string it passes to \<^verbatim>\<open>panic\<close>), gives up the CPU on a wait channel (\<open>Sleep\<close>), or spins on a lock
  that another CPU holds (\<open>Spin\<close>).
\<close>

type_synonym u8 = "8 word"
type_synonym u16 = "16 word"
type_synonym u32 = "32 word"

section \<open>Results of kernel operations\<close>

text \<open>
  A wait channel is the address of a kernel object; only its identity matters. The
  number tells the objects of a kind apart (a table index, or a page address).
\<close>

datatype chan =
    ChProc nat | ChTicks | ChLog | ChBuf nat | ChBufLock nat | ChInodeLock nat
  | ChPipeRead u32 | ChPipeWrite u32 | ChInput

datatype 'a outcome = Ok 'a | Panic string | Sleep chan | Spin

text \<open>Sequential composition: the C statement sequence, with early stop on a panic.\<close>

fun obind :: "'a outcome \<Rightarrow> ('a \<Rightarrow> 'b outcome) \<Rightarrow> 'b outcome" where
  "obind (Ok x) f = f x"
| "obind (Panic m) f = Panic m"
| "obind (Sleep c) f = Sleep c"
| "obind Spin f = Spin"

fun is_ok :: "'a outcome \<Rightarrow> bool" where
  "is_ok (Ok x) = True"
| "is_ok r = False"

named_theorems outcome_simps

lemma obind_cong [fundef_cong]:
  "m = m' \<Longrightarrow> (\<And>x. m' = Ok x \<Longrightarrow> f x = g x) \<Longrightarrow> obind m f = obind m' g"
  by (cases m') auto

lemma obind_eq_Ok [outcome_simps]:
  "(obind m f = Ok y) = (\<exists>x. m = Ok x \<and> f x = Ok y)"
  by (cases m) auto

lemma obind_eq_Panic [outcome_simps]:
  "(obind m f = Panic e) = (m = Panic e \<or> (\<exists>x. m = Ok x \<and> f x = Panic e))"
  by (cases m) auto

lemma obind_eq_Sleep [outcome_simps]:
  "(obind m f = Sleep c) = (m = Sleep c \<or> (\<exists>x. m = Ok x \<and> f x = Sleep c))"
  by (cases m) auto

lemma obind_assoc: "obind (obind m f) g = obind m (\<lambda>x. obind (f x) g)"
  by (cases m) auto

lemma obind_Ok_right [simp]: "obind m Ok = m"
  by (cases m) auto

lemma is_ok_iff: "is_ok m = (\<exists>x. m = Ok x)"
  by (cases m) auto

lemma outcome_if_Ok [outcome_simps]:
  "((if b then Panic e else m) = Ok x) = (\<not> b \<and> m = Ok x)"
  "((if b then m else Panic e) = Ok x) = (b \<and> m = Ok x)"
  by auto

section \<open>First match in a table\<close>

text \<open>
  The kernel's tables are arrays scanned from index 0, as in
  \<^verbatim>\<open>for(p = ptable.proc; p < &ptable.proc[NPROC]; p++) if(...) goto found;\<close>.
\<close>

fun scan_from :: "('a \<Rightarrow> bool) \<Rightarrow> nat \<Rightarrow> 'a list \<Rightarrow> nat option" where
  "scan_from P i [] = None"
| "scan_from P i (x # xs) = (if P x then Some i else scan_from P (Suc i) xs)"

definition scan :: "('a \<Rightarrow> bool) \<Rightarrow> 'a list \<Rightarrow> nat option" where
  "scan P xs = scan_from P 0 xs"

lemma scan_from_Some:
  "scan_from P k xs = Some i \<longleftrightarrow>
     k \<le> i \<and> i < k + length xs \<and> P (xs ! (i - k)) \<and> (\<forall>j < i - k. \<not> P (xs ! j))"
proof (induction xs arbitrary: k)
  case Nil
  then show ?case by auto
next
  case (Cons x xs)
  show ?case
  proof (cases "P x")
    case True
    then show ?thesis
      by (auto simp: nth_Cons split: nat.splits)
  next
    case False
    have "scan_from P k (x # xs) = Some i \<longleftrightarrow> scan_from P (Suc k) xs = Some i"
      using False by simp
    also have "\<dots> \<longleftrightarrow> Suc k \<le> i \<and> i < Suc k + length xs \<and> P (xs ! (i - Suc k)) \<and>
        (\<forall>j < i - Suc k. \<not> P (xs ! j))"
      by (rule Cons.IH)
    also have "\<dots> \<longleftrightarrow> k \<le> i \<and> i < k + length (x # xs) \<and> P ((x # xs) ! (i - k)) \<and>
        (\<forall>j < i - k. \<not> P ((x # xs) ! j))"
    proof (cases "k < i")
      case True
      then obtain d where d: "i = Suc (k + d)" by (metis less_iff_Suc_add)
      show ?thesis using False unfolding d
        by (auto simp: nth_Cons All_less_Suc2 less_Suc_eq_0_disj)
    next
      case le: False
      then show ?thesis using False by (cases "i = k") auto
    qed
    finally show ?thesis .
  qed
qed

lemma scan_Some:
  "scan P xs = Some i \<longleftrightarrow> i < length xs \<and> P (xs ! i) \<and> (\<forall>j < i. \<not> P (xs ! j))"
  by (simp add: scan_def scan_from_Some)

lemma scan_from_None: "scan_from P k xs = None \<longleftrightarrow> (\<forall>x \<in> set xs. \<not> P x)"
  by (induction xs arbitrary: k) auto

lemma scan_None: "scan P xs = None \<longleftrightarrow> (\<forall>x \<in> set xs. \<not> P x)"
  by (simp add: scan_def scan_from_None)

lemma scan_SomeD:
  assumes "scan P xs = Some i"
  shows "i < length xs" "P (xs ! i)"
  using assms by (auto simp: scan_Some)

section \<open>Lists\<close>

lemma list_update_nth_neq [simp]: "i \<noteq> j \<Longrightarrow> xs[i := x] ! j = xs ! j"
  by (rule nth_list_update_neq)

lemma in_set_list_update: "y \<in> set (xs[i := x]) \<Longrightarrow> y = x \<or> y \<in> set xs"
  using set_update_subset_insert by fastforce

lemma sum_list_update_nat:
  fixes f :: "'a \<Rightarrow> nat"
  assumes "i < length xs"
  shows "sum_list (map f (xs[i := x])) + f (xs ! i) = sum_list (map f xs) + f x"
  using assms
proof (induction xs arbitrary: i)
  case Nil
  then show ?case by simp
next
  case (Cons y ys)
  then show ?case by (cases i) auto
qed

section \<open>Unsigned 32-bit arithmetic\<close>

lemma unat_max32 [simp]: "unat (-1::u32) = 4294967295"
  by (simp add: unsigned_minus_1_eq_mask mask_eq_exp_minus_1)

lemma unat_lt32 [simp]: "unat (a::u32) < 4294967296"
  using unsigned_less [of a] by simp

lemma unat_of_nat32: "n < 4294967296 \<Longrightarrow> unat (of_nat n :: u32) = n"
  by (simp add: unat_of_nat take_bit_eq_mod)

lemma unat_add32: "unat (a::u32) + unat b < 4294967296 \<Longrightarrow> unat (a + b) = unat a + unat b"
  by (simp add: unat_word_ariths)

lemma unat_sub32: "unat (b::u32) \<le> unat a \<Longrightarrow> unat (a - b) = unat a - unat b"
  by (simp add: unat_sub word_le_nat_alt)

lemma unat_sub_wrap32:
  "unat (a::u32) < unat b \<Longrightarrow> unat (a - b) = 4294967296 + unat a - unat b"
  by (simp add: unat_sub_if_size word_size)

lemma unat_diff_Suc:
  fixes x a :: u32
  assumes "x \<noteq> a"
  shows "unat (x - a) = Suc (unat (x - (a + 1)))"
proof -
  have "x - a \<noteq> 0" using assms by simp
  then have "unat (x - a - 1) = unat (x - a) - 1" "0 < unat (x - a)"
    by (simp_all add: unat_minus_one unat_gt_0)
  then show ?thesis by (simp add: diff_diff_eq)
qed

lemma add_mod_inj:
  fixes x i j n :: nat
  assumes "(x + i) mod n = (x + j) mod n" "i < n" "j < n"
  shows "i = j"
proof -
  have e: "(x + k) mod n = (if x mod n + k < n then x mod n + k else x mod n + k - n)" if "k < n" for k
  proof -
    have "x mod n < n" using that by simp
    then have "x mod n + k - n < n" using that by linarith
    moreover have "(x + k) mod n = (x mod n + k) mod n" by (rule mod_add_left_eq [symmetric])
    ultimately show ?thesis using that by (cases "x mod n + k < n") (simp_all add: le_mod_geq not_less)
  qed
  show ?thesis using assms(1) unfolding e [OF assms(2)] e [OF assms(3)]
    using assms(2,3) by (auto split: if_splits)
qed

end
