(* ===== verification/CString.thy ===== *)
theory CString
  imports Prelude
begin

text \<open>
  The memory and string routines of \<^verbatim>\<open>string.c\<close> (kernel) and of \<^verbatim>\<open>ulib.c\<close> (user
  programs), over a byte-addressed 32-bit memory. A routine that only looks at a string
  through a pointer takes the pointer's view, the byte at each offset (\<open>cstr\<close>).
  The lemmas give each routine its reference behaviour: which bytes change and to what.
\<close>

unbundle bit_operations_syntax

type_synonym mem = "u32 \<Rightarrow> u8"
type_synonym cstr = "nat \<Rightarrow> u8"

text \<open>The bytes at and after address \<open>p\<close>.\<close>

definition view :: "mem \<Rightarrow> u32 \<Rightarrow> cstr" where
  "view m p = (\<lambda>i. m (p + of_nat i))"

section \<open>Words in memory\<close>

definition load32 :: "mem \<Rightarrow> u32 \<Rightarrow> u32" where
  "load32 m a = (ucast (m a) :: u32) OR push_bit 8 (ucast (m (a + 1)))
     OR push_bit 16 (ucast (m (a + 2))) OR push_bit 24 (ucast (m (a + 3)))"

definition store32 :: "mem \<Rightarrow> u32 \<Rightarrow> u32 \<Rightarrow> mem" where
  "store32 m a v = m(a := ucast v, a + 1 := ucast (drop_bit 8 v),
     a + 2 := ucast (drop_bit 16 v), a + 3 := ucast (drop_bit 24 v))"

section \<open>memset\<close>

text \<open>The string instructions \<^verbatim>\<open>rep stosb\<close> and \<^verbatim>\<open>rep stosl\<close> of \<^verbatim>\<open>x86.h\<close>.\<close>

fun stosb :: "mem \<Rightarrow> u32 \<Rightarrow> u8 \<Rightarrow> nat \<Rightarrow> mem" where
  "stosb m a c 0 = m"
| "stosb m a c (Suc n) = stosb (m(a := c)) (a + 1) c n"

fun stosl :: "mem \<Rightarrow> u32 \<Rightarrow> u32 \<Rightarrow> nat \<Rightarrow> mem" where
  "stosl m a v 0 = m"
| "stosl m a v (Suc n) = stosl (store32 m a v) (a + 4) v n"

definition memset :: "mem \<Rightarrow> u32 \<Rightarrow> u32 \<Rightarrow> u32 \<Rightarrow> mem" where
  "memset m dst c n =
     (if dst mod 4 = 0 \<and> n mod 4 = 0 then
        let c = c AND 0xFF in
        stosl m dst (push_bit 24 c OR push_bit 16 c OR push_bit 8 c OR c) (unat (n div 4))
      else stosb m dst (ucast c) (unat n))"

section \<open>memcmp, memmove\<close>

fun memcmp :: "cstr \<Rightarrow> cstr \<Rightarrow> nat \<Rightarrow> int" where
  "memcmp s1 s2 0 = 0"
| "memcmp s1 s2 (Suc n) =
     (if s1 0 \<noteq> s2 0 then uint (s1 0) - uint (s2 0)
      else memcmp (\<lambda>i. s1 (Suc i)) (\<lambda>i. s2 (Suc i)) n)"

text \<open>The two copy loops of \<^verbatim>\<open>memmove\<close>: backwards from the ends, or forwards.\<close>

fun copy_down :: "mem \<Rightarrow> u32 \<Rightarrow> u32 \<Rightarrow> nat \<Rightarrow> mem" where
  "copy_down m d s 0 = m"
| "copy_down m d s (Suc n) = copy_down (m(d - 1 := m (s - 1))) (d - 1) (s - 1) n"

fun copy_up :: "mem \<Rightarrow> u32 \<Rightarrow> u32 \<Rightarrow> nat \<Rightarrow> mem" where
  "copy_up m d s 0 = m"
| "copy_up m d s (Suc n) = copy_up (m(d := m s)) (d + 1) (s + 1) n"

definition memmove :: "mem \<Rightarrow> u32 \<Rightarrow> u32 \<Rightarrow> u32 \<Rightarrow> mem" where
  "memmove m dst src n =
     (if src < dst \<and> src + n > dst then copy_down m (dst + n) (src + n) (unat n)
      else copy_up m dst src (unat n))"

definition memcpy :: "mem \<Rightarrow> u32 \<Rightarrow> u32 \<Rightarrow> u32 \<Rightarrow> mem" where
  "memcpy m dst src n = memmove m dst src n"

section \<open>Strings\<close>

fun strncmp :: "cstr \<Rightarrow> cstr \<Rightarrow> nat \<Rightarrow> int" where
  "strncmp p q 0 = 0"
| "strncmp p q (Suc n) =
     (if p 0 \<noteq> 0 \<and> p 0 = q 0 then strncmp (\<lambda>i. p (Suc i)) (\<lambda>i. q (Suc i)) n
      else uint (p 0) - uint (q 0))"

text \<open>
  \<^verbatim>\<open>strncpy(s, t, n)\<close>: \<open>s\<close> is the destination before the call, \<open>i\<close> the next index.
  The second loop pads with NUL.
\<close>

fun strncpy_pad :: "cstr \<Rightarrow> nat \<Rightarrow> nat \<Rightarrow> cstr" where
  "strncpy_pad s i 0 = s"
| "strncpy_pad s i (Suc n) = strncpy_pad (s(i := 0)) (Suc i) n"

fun strncpy_loop :: "cstr \<Rightarrow> cstr \<Rightarrow> nat \<Rightarrow> nat \<Rightarrow> cstr" where
  "strncpy_loop s t i 0 = s"
| "strncpy_loop s t i (Suc n) =
     (if t i \<noteq> 0 then strncpy_loop (s(i := t i)) t (Suc i) n
      else strncpy_pad (s(i := t i)) (Suc i) n)"

definition strncpy :: "cstr \<Rightarrow> cstr \<Rightarrow> int \<Rightarrow> cstr" where
  "strncpy s t n = strncpy_loop s t 0 (nat n)"

fun safestrcpy_loop :: "cstr \<Rightarrow> cstr \<Rightarrow> nat \<Rightarrow> nat \<Rightarrow> cstr" where
  "safestrcpy_loop s t i 0 = s(i := 0)"
| "safestrcpy_loop s t i (Suc n) =
     (if t i \<noteq> 0 then safestrcpy_loop (s(i := t i)) t (Suc i) n
      else (s(i := t i))(Suc i := 0))"

definition safestrcpy :: "cstr \<Rightarrow> cstr \<Rightarrow> int \<Rightarrow> cstr" where
  "safestrcpy s t n = (if n \<le> 0 then s else safestrcpy_loop s t 0 (nat (n - 1)))"

text \<open>
  \<^verbatim>\<open>strlen\<close> and the \<^verbatim>\<open>ulib.c\<close> routines run to the terminating NUL, so they return
  only where there is one: \<open>None\<close> is a scan that never stops.
\<close>

partial_function (option) strlen_from :: "cstr \<Rightarrow> nat \<Rightarrow> nat option" where
  "strlen_from s n = (if s n = 0 then Some n else strlen_from s (Suc n))"

definition strlen :: "cstr \<Rightarrow> nat option" where
  "strlen s = strlen_from s 0"

partial_function (option) strcpy_from :: "cstr \<Rightarrow> cstr \<Rightarrow> nat \<Rightarrow> cstr option" where
  "strcpy_from s t i =
     (if t i \<noteq> 0 then strcpy_from (s(i := t i)) t (Suc i) else Some (s(i := t i)))"

definition strcpy :: "cstr \<Rightarrow> cstr \<Rightarrow> cstr option" where
  "strcpy s t = strcpy_from s t 0"

partial_function (option) strcmp_from :: "cstr \<Rightarrow> cstr \<Rightarrow> nat \<Rightarrow> int option" where
  "strcmp_from p q i =
     (if p i \<noteq> 0 \<and> p i = q i then strcmp_from p q (Suc i)
      else Some (uint (p i) - uint (q i)))"

definition strcmp :: "cstr \<Rightarrow> cstr \<Rightarrow> int option" where
  "strcmp p q = strcmp_from p q 0"

text \<open>\<open>Some None\<close> is the null pointer, \<open>Some (Some i)\<close> the pointer \<open>s + i\<close>.\<close>

partial_function (option) strchr_from :: "cstr \<Rightarrow> u8 \<Rightarrow> nat \<Rightarrow> nat option option" where
  "strchr_from s c i =
     (if s i = 0 then Some None
      else if s i = c then Some (Some i)
      else strchr_from s c (Suc i))"

definition strchr :: "cstr \<Rightarrow> u8 \<Rightarrow> nat option option" where
  "strchr s c = strchr_from s c 0"

partial_function (option) atoi_from :: "cstr \<Rightarrow> nat \<Rightarrow> int \<Rightarrow> int option" where
  "atoi_from s i n =
     (if 48 \<le> s i \<and> s i \<le> 57 then atoi_from s (Suc i) (n * 10 + uint (s i) - 48)
      else Some n)"

definition atoi :: "cstr \<Rightarrow> int option" where
  "atoi s = atoi_from s 0 0"

text \<open>A view that is the string \<open>xs\<close> followed by NUL.\<close>

definition is_cstr :: "cstr \<Rightarrow> u8 list \<Rightarrow> bool" where
  "is_cstr s xs \<longleftrightarrow> 0 \<notin> set xs \<and> (\<forall>i < length xs. s i = xs ! i) \<and> s (length xs) = 0"

section \<open>What the routines do\<close>

lemma stosb_apply:
  "n \<le> 2 ^ 32 \<Longrightarrow> stosb m a c n x = (if unat (x - a) < n then c else m x)"
proof (induction n arbitrary: m a)
  case 0
  then show ?case by simp
next
  case (Suc n)
  show ?case
  proof (cases "x = a")
    case True
    with Suc show ?thesis by auto
  next
    case False
    with Suc show ?thesis by (simp add: unat_diff_Suc)
  qed
qed

lemma copy_up_apply:
  assumes "n \<le> 2 ^ 32" and "d = s \<or> n \<le> unat (d - s)"
  shows "copy_up m d s n x = (if unat (x - d) < n then m (s + (x - d)) else m x)"
  using assms
proof (induction n arbitrary: m d s)
  case 0
  then show ?case by simp
next
  case (Suc n)
  have IH: "copy_up (m(d := m s)) (d + 1) (s + 1) n x =
      (if unat (x - (d + 1)) < n then (m(d := m s)) (s + 1 + (x - (d + 1))) else (m(d := m s)) x)"
    by (rule Suc.IH) (use Suc.prems in auto)
  show ?case
  proof (cases "x = d")
    case True
    with Suc.prems IH show ?thesis by auto
  next
    case False
    have u: "unat (x - d) = Suc (unat (x - (d + 1)))" using False by (rule unat_diff_Suc)
    have eq: "s + 1 + (x - (d + 1)) = s + (x - d)" by simp
    have ne: "s + (x - d) \<noteq> d" if "unat (x - d) < Suc n"
    proof
      assume "s + (x - d) = d"
      then have "d - s = x - d" by (simp add: algebra_simps)
      with that Suc.prems False show False by auto
    qed
    show ?thesis using IH u ne False unfolding eq by auto
  qed
qed

lemma copy_down_apply:
  assumes "n \<le> 2 ^ 32" and "s = d \<or> n \<le> unat (s - d)"
  shows "copy_down m (d + of_nat n) (s + of_nat n) n x =
    (if unat (x - d) < n then m (s + (x - d)) else m x)"
  using assms
proof (induction n arbitrary: m)
  case 0
  then show ?case by simp
next
  case (Suc n)
  let ?m = "m(d + of_nat n := m (s + of_nat n))"
  have IH: "copy_down ?m (d + of_nat n) (s + of_nat n) n x =
      (if unat (x - d) < n then ?m (s + (x - d)) else ?m x)"
    by (rule Suc.IH) (use Suc.prems in auto)
  have un: "unat (of_nat n :: u32) = n"
    using Suc.prems by (simp add: unat_of_nat32)
  have x: "(x = d + of_nat n) = (unat (x - d) = n)"
  proof
    assume "unat (x - d) = n"
    then have "of_nat (unat (x - d)) = (of_nat n :: u32)" by simp
    then have "x - d = of_nat n" by simp
    then show "x = d + of_nat n" by (simp add: algebra_simps)
  qed (simp add: un)
  have ne: "s + (x - d) \<noteq> d + of_nat n \<or> s = d" if "unat (x - d) < n"
  proof (rule ccontr)
    assume "\<not> ?thesis"
    then have e: "s + (x - d) = d + of_nat n" and sd: "s \<noteq> d" by auto
    then have "s - d = of_nat n - (x - d)" by (simp add: algebra_simps)
    then have "unat (s - d) = n - unat (x - d)"
      using that un by (metis (no_types, lifting) less_imp_le_nat unat_sub word_le_nat_alt)
    with Suc.prems sd show False by auto
  qed
  show ?case using IH x ne Suc.prems by (auto simp: algebra_simps)
qed

lemma memmove_apply:
  assumes "unat src + unat n < 2 ^ 32" and "unat dst + unat n \<le> 2 ^ 32"
  shows "memmove m dst src n x = (if unat (x - dst) < unat n then m (src + (x - dst)) else m x)"
proof -
  have sn: "unat (src + n) = unat src + unat n" using assms(1) by (simp add: unat_add32)
  have n32: "unat n \<le> 2 ^ 32" using assms by simp
  show ?thesis
  proof (cases "src < dst \<and> src + n > dst")
    case True
    then have "unat (src - dst) = 2 ^ 32 + unat src - unat dst"
      by (simp add: unat_sub_if_size word_less_nat_alt word_size)
    with assms have "src = dst \<or> unat n \<le> unat (src - dst)" by simp arith
    from copy_down_apply [OF n32 this, of m x] True show ?thesis
      by (simp add: memmove_def)
  next
    case False
    have "dst = src \<or> unat n \<le> unat (dst - src)"
      using False assms sn by (auto simp: unat_sub_if_size word_less_nat_alt word_size not_less word_le_nat_alt word_unat_eq_iff split: if_splits)
    from copy_up_apply [OF n32 this] False show ?thesis
      by (auto simp: memmove_def)
  qed
qed

lemma ne_offsets32 [simp]:
  "(a::u32) + 1 \<noteq> a" "a + 2 \<noteq> a" "a + 3 \<noteq> a" "a \<noteq> a + 1" "a \<noteq> a + 2" "a \<noteq> a + 3"
  "a + 1 \<noteq> a + 2" "a + 1 \<noteq> a + 3" "a + 2 \<noteq> a + 3"
  "a + 2 \<noteq> a + 1" "a + 3 \<noteq> a + 1" "a + 3 \<noteq> a + 2"
  by simp_all

lemma load32_store32: "load32 (store32 m a v) a = v"
proof (rule bit_word_eqI)
  fix n assume "n < LENGTH(32)"
  then have "n < 32" by simp
  then show "bit (load32 (store32 m a v) a) n = bit v n"
    unfolding load32_def store32_def
    by (cases "n < 8"; cases "n < 16"; cases "n < 24") (auto simp: bit_simps)
qed

lemma store32_apply:
  "store32 m a v x =
     (if unat (x - a) < 4 then ucast (drop_bit (8 * unat (x - a)) v) else m x)"
proof (cases "unat (x - a) < 4")
  case True
  then have "unat (x - a) = 0 \<or> unat (x - a) = 1 \<or> unat (x - a) = 2 \<or> unat (x - a) = 3"
    by arith
  then have "x - a = 0 \<or> x - a = 1 \<or> x - a = 2 \<or> x - a = 3"
    by (auto simp: word_unat_eq_iff)
  then have "x = a \<or> x = a + 1 \<or> x = a + 2 \<or> x = a + 3" by (auto simp: algebra_simps)
  then show ?thesis by (auto simp: store32_def)
next
  case False
  then have "x \<noteq> a" "x \<noteq> a + 1" "x \<noteq> a + 2" "x \<noteq> a + 3" by auto
  with False show ?thesis by (simp add: store32_def)
qed

definition replicate4 :: "u8 \<Rightarrow> u32" where
  "replicate4 c = push_bit 24 (ucast c) OR push_bit 16 (ucast c) OR push_bit 8 (ucast c) OR ucast c"

lemma stosl_replicate4:
  "n \<le> 2 ^ 30 \<Longrightarrow> stosl m a (replicate4 c) n = stosb m a c (4 * n)"
proof (induction n arbitrary: m a)
  case 0
  then show ?case by simp
next
  case (Suc n)
  have b: "(ucast (replicate4 c) :: u8) = c" "(ucast (drop_bit 8 (replicate4 c)) :: u8) = c"
    "(ucast (drop_bit 16 (replicate4 c)) :: u8) = c" "(ucast (drop_bit 24 (replicate4 c)) :: u8) = c"
    by (rule bit_word_eqI; auto simp: replicate4_def bit_simps dest: bit_imp_le_length)+
  have "4 * Suc n = Suc (Suc (Suc (Suc (4 * n))))" by simp
  then have "stosb m a c (4 * Suc n) = stosb (m(a := c, a + 1 := c, a + 2 := c, a + 3 := c)) (a + 4) c (4 * n)"
    by (simp only: stosb.simps) (simp add: add.assoc)
  with Suc show ?case by (simp add: store32_def b)
qed

lemma memset_apply:
  "memset m dst c n x = (if unat (x - dst) < unat n then ucast c else m x)"
proof -
  have n32: "unat n \<le> 2 ^ 32" by (simp add: less_imp_le)
  have c: "(let c = c AND 0xFF in push_bit 24 c OR push_bit 16 c OR push_bit 8 c OR c)
      = replicate4 (ucast c)"
  proof (rule bit_word_eqI)
    fix n assume "n < LENGTH(32)"
    moreover have m: "(0xFF :: u32) = mask 8" by (simp add: mask_eq_exp_minus_1)
    ultimately show "bit (let c = c AND 0xFF in
        push_bit 24 c OR push_bit 16 c OR push_bit 8 c OR c) n =
        bit (replicate4 (ucast c)) n"
      unfolding Let_def replicate4_def m
      by (cases "n < 8"; cases "n < 16"; cases "n < 24") (auto simp: bit_simps)
  qed
  show ?thesis
  proof (cases "dst mod 4 = 0 \<and> n mod 4 = 0")
    case True
    then have "unat (n mod 4) = 0" by simp
    then have n4: "unat n mod 4 = 0" by (simp add: unat_mod)
    have d: "unat (n div 4) = unat n div 4" by (simp add: unat_div)
    have "unat n div 4 \<le> 2 ^ 30" using n32 by (simp add: div_le_mono)
    then have "memset m dst c n = stosb m dst (ucast c) (4 * (unat n div 4))"
      using True c by (simp add: memset_def Let_def d stosl_replicate4)
    also have "4 * (unat n div 4) = unat n" using n4 by presburger
    finally show ?thesis using n32 by (simp add: stosb_apply)
  next
    case False
    then show ?thesis using n32 by (auto simp: memset_def stosb_apply)
  qed
qed

lemma load32_cong:
  "(\<And>i. i < 4 \<Longrightarrow> m (a + of_nat i) = m' (a + of_nat i)) \<Longrightarrow> load32 m a = load32 m' a"
proof -
  assume e: "\<And>i. i < 4 \<Longrightarrow> m (a + of_nat i) = m' (a + of_nat i)"
  from e [of 0] e [of 1] e [of 2] e [of 3] show ?thesis by (simp add: load32_def)
qed

lemma load32_store32_other:
  assumes "4 \<le> unat (b - a)" and "4 \<le> unat (a - b)"
  shows "load32 (store32 m a v) b = load32 m b"
proof (rule load32_cong)
  fix i :: nat assume i: "i < 4"
  have "\<not> unat (b + of_nat i - a) < 4"
  proof
    let ?k = "b + of_nat i - a"
    assume k: "unat ?k < 4"
    have ui: "unat (of_nat i :: u32) = i" using i by (simp add: unat_of_nat32)
    show False
    proof (cases "unat ?k \<le> i")
      case True
      have "a - b = of_nat i - ?k" by simp
      then have "unat (a - b) = i - unat ?k" using True ui by (metis unat_sub32)
      with i assms(2) show False by simp
    next
      case False
      have "b - a = ?k - of_nat i" by simp
      then have "unat (b - a) = unat ?k - i" using False ui by (metis nat_le_linear unat_sub32)
      with k assms(1) show False by simp
    qed
  qed
  then show "store32 m a v (b + of_nat i) = m (b + of_nat i)" by (simp add: store32_apply)
qed

lemma strncmp_eq_0:
  "strncmp p q n = 0 \<longleftrightarrow> (\<forall>i < n. (\<forall>j < i. p j \<noteq> 0) \<longrightarrow> p i = q i)"
proof (induction n arbitrary: p q)
  case 0
  then show ?case by simp
next
  case (Suc n)
  have ex: "(\<forall>i < Suc n. (\<forall>j < i. p j \<noteq> 0) \<longrightarrow> p i = q i) \<longleftrightarrow>
     p 0 = q 0 \<and> (p 0 \<noteq> 0 \<longrightarrow> (\<forall>i < n. (\<forall>j < i. p (Suc j) \<noteq> 0) \<longrightarrow> p (Suc i) = q (Suc i)))"
    by (simp add: All_less_Suc2) blast
  show ?case unfolding ex using Suc.IH by (auto simp: word_uint_eq_iff)
qed

lemma strncpy_pad_apply:
  "strncpy_pad s i n k = (if i \<le> k \<and> k < i + n then 0 else s k)"
  by (induction n arbitrary: s i) auto

lemma strncpy_loop_apply:
  "strncpy_loop s t i n k =
     (if i \<le> k \<and> k < i + n then (if \<forall>j. i \<le> j \<and> j < k \<longrightarrow> t j \<noteq> 0 then t k else 0) else s k)"
proof (induction n arbitrary: s i)
  case 0
  then show ?case by auto
next
  case (Suc n)
  show ?case
  proof (cases "t i = 0")
    case True
    then show ?thesis by (auto simp: strncpy_pad_apply)
  next
    case False
    have "(\<forall>j. i \<le> j \<and> j < k \<longrightarrow> t j \<noteq> 0) = (\<forall>j. Suc i \<le> j \<and> j < k \<longrightarrow> t j \<noteq> 0)"
      using False by (metis Suc_leI le_eq_less_or_eq le_neq_implies_less less_or_eq_imp_le Suc_leD)
    with False Suc show ?thesis by auto
  qed
qed

lemma strncpy_apply:
  "strncpy s t n k =
     (if k < nat n then (if \<forall>j < k. t j \<noteq> 0 then t k else 0) else s k)"
  by (simp add: strncpy_def strncpy_loop_apply)

text \<open>
  The copy stops at the source's NUL or when one byte of the destination is left; either
  way the destination is terminated, and no byte at or after \<open>n\<close> is written.
\<close>

lemma safestrcpy_loop_copies:
  "\<exists>k. i \<le> k \<and> k \<le> i + n \<and> safestrcpy_loop s t i n k = 0 \<and>
     (\<forall>j. i \<le> j \<and> j < k \<longrightarrow> safestrcpy_loop s t i n j = t j \<and> t j \<noteq> 0) \<and>
     (k = i + n \<or> t k = 0) \<and>
     (\<forall>x. x < i \<or> i + n < x \<longrightarrow> safestrcpy_loop s t i n x = s x)"
proof (induction n arbitrary: s i)
  case 0
  then show ?case by (intro exI [of _ i]) auto
next
  case (Suc n)
  show ?case
  proof (cases "t i = 0")
    case True
    then show ?thesis by (intro exI [of _ i]) auto
  next
    case False
    from Suc.IH [of "Suc i" "s(i := t i)"] obtain k where k: "Suc i \<le> k" "k \<le> Suc i + n"
      "safestrcpy_loop (s(i := t i)) t (Suc i) n k = 0"
      "\<forall>j. Suc i \<le> j \<and> j < k \<longrightarrow> safestrcpy_loop (s(i := t i)) t (Suc i) n j = t j \<and> t j \<noteq> 0"
      "k = Suc i + n \<or> t k = 0"
      "\<forall>x. x < Suc i \<or> Suc i + n < x \<longrightarrow> safestrcpy_loop (s(i := t i)) t (Suc i) n x = (s(i := t i)) x"
      by blast
    have "\<forall>j. i \<le> j \<and> j < k \<longrightarrow> safestrcpy_loop s t i (Suc n) j = t j \<and> t j \<noteq> 0"
    proof (intro allI impI)
      fix j assume "i \<le> j \<and> j < k"
      then show "safestrcpy_loop s t i (Suc n) j = t j \<and> t j \<noteq> 0"
        using k(4,6) False by (cases "j = i") auto
    qed
    moreover have "\<forall>x. x < i \<or> i + Suc n < x \<longrightarrow> safestrcpy_loop s t i (Suc n) x = s x"
      using k(6) False by auto
    ultimately show ?thesis using k False by (intro exI [of _ k]) auto
  qed
qed

lemma safestrcpy_copies:
  assumes "0 < n"
  obtains k where "k < nat n" "safestrcpy s t n k = 0"
    "\<And>j. j < k \<Longrightarrow> safestrcpy s t n j = t j \<and> t j \<noteq> 0"
    "Suc k = nat n \<or> t k = 0" "\<And>x. nat n \<le> x \<Longrightarrow> safestrcpy s t n x = s x"
proof -
  have e: "safestrcpy s t n = safestrcpy_loop s t 0 (nat (n - 1))" "nat n = Suc (nat (n - 1))"
    using assms by (simp_all add: safestrcpy_def)
  obtain k where "k \<le> nat (n - 1)" "safestrcpy s t n k = 0"
    "\<forall>j < k. safestrcpy s t n j = t j \<and> t j \<noteq> 0" "k = nat (n - 1) \<or> t k = 0"
    "\<forall>x > nat (n - 1). safestrcpy s t n x = s x"
    using safestrcpy_loop_copies [of 0 "nat (n - 1)" s t] unfolding e by auto
  then show ?thesis using that [of k] e(2) by auto
qed

lemma strlen_from_eq:
  assumes "s k = 0" "i \<le> k" "\<And>j. i \<le> j \<Longrightarrow> j < k \<Longrightarrow> s j \<noteq> 0"
  shows "strlen_from s i = Some k"
  using assms(2,3)
proof (induction "k - i" arbitrary: i)
  case 0
  with assms(1) show ?case by (simp add: strlen_from.simps)
next
  case (Suc d)
  then have "s i \<noteq> 0" by simp
  moreover have "strlen_from s (Suc i) = Some k" using Suc by auto
  ultimately show ?case by (simp add: strlen_from.simps [of s i])
qed

lemma strlen_is_cstr: "is_cstr s xs \<Longrightarrow> strlen s = Some (length xs)"
  unfolding strlen_def is_cstr_def
  by (rule strlen_from_eq) (auto simp: in_set_conv_nth)


lemma strcpy_from_eq:
  assumes "t k = 0" "i \<le> k" "\<And>j. i \<le> j \<Longrightarrow> j < k \<Longrightarrow> t j \<noteq> 0"
  shows "strcpy_from s t i = Some (\<lambda>x. if i \<le> x \<and> x \<le> k then t x else s x)"
  using assms(2,3)
proof (induction "k - i" arbitrary: i s)
  case 0
  then have "k = i" by simp
  with assms(1) show ?case by (simp add: strcpy_from.simps) (auto simp: fun_eq_iff)
next
  case (Suc d)
  then have "t i \<noteq> 0" by simp
  moreover have "strcpy_from (s(i := t i)) t (Suc i) =
      Some (\<lambda>x. if Suc i \<le> x \<and> x \<le> k then t x else (s(i := t i)) x)"
    using Suc by auto
  ultimately show ?case using Suc.hyps(2)
    by (simp add: strcpy_from.simps [of s t i]) (auto simp: fun_eq_iff)
qed

lemma strcpy_is_cstr:
  assumes "is_cstr t xs"
  shows "strcpy s t = Some (\<lambda>i. if i \<le> length xs then t i else s i)"
proof -
  have "t (length xs) = 0" "\<And>j. j < length xs \<Longrightarrow> t j \<noteq> 0"
    using assms by (auto simp: is_cstr_def in_set_conv_nth)
  then show ?thesis by (simp add: strcpy_def strcpy_from_eq [where k = "length xs"])
qed

lemma strcmp_from_eq:
  assumes "\<not> (p k \<noteq> 0 \<and> p k = q k)" "i \<le> k"
    "\<And>j. i \<le> j \<Longrightarrow> j < k \<Longrightarrow> p j \<noteq> 0" "\<And>j. i \<le> j \<Longrightarrow> j < k \<Longrightarrow> p j = q j"
  shows "strcmp_from p q i = Some (uint (p k) - uint (q k))"
  using assms(2-4)
proof (induction "k - i" arbitrary: i)
  case 0
  then have "k = i" by simp
  with assms(1) show ?case by (auto simp: strcmp_from.simps [of p q i])
next
  case (Suc d)
  then have "i < k" by simp
  with Suc.prems have "p i \<noteq> 0" "p i = q i" by auto
  moreover have "strcmp_from p q (Suc i) = Some (uint (p k) - uint (q k))"
    by (rule Suc.hyps(1)) (use Suc.hyps(2) \<open>i < k\<close> Suc.prems(2,3) in auto)
  ultimately show ?case by (simp add: strcmp_from.simps [of p q i])
qed

lemma strcmp_is_cstr:
  assumes "is_cstr p xs" and "is_cstr q ys"
  shows "\<exists>r. strcmp p q = Some r \<and> (r = 0 \<longleftrightarrow> xs = ys)"
proof -
  define D where "D = (\<lambda>k. \<not> (p k \<noteq> 0 \<and> p k = q k))"
  have "D (length xs)" using assms(1) by (simp add: D_def is_cstr_def)
  define k where "k = (LEAST k. D k)"
  have k: "D k" and kle: "k \<le> length xs" and before: "\<And>j. j < k \<Longrightarrow> \<not> D j"
    using \<open>D (length xs)\<close> by (auto simp: k_def intro: LeastI Least_le dest: not_less_Least)
  have r: "strcmp p q = Some (uint (p k) - uint (q k))"
    unfolding strcmp_def using k before unfolding D_def by (intro strcmp_from_eq) blast+
  have "p k = q k \<longleftrightarrow> xs = ys"
  proof
    assume e: "p k = q k"
    with k have "p k = 0" by (simp add: D_def)
    with kle assms(1) have kx: "k = length xs"
      by (metis is_cstr_def le_neq_implies_less nth_mem)
    have qk: "q k = 0" using e \<open>p k = 0\<close> by simp
    have "k = length ys"
    proof (rule linorder_cases [of k "length ys"])
      assume "k < length ys"
      with assms(2) qk have "0 \<in> set ys" unfolding is_cstr_def by (metis nth_mem)
      with assms(2) show ?thesis by (simp add: is_cstr_def)
    next
      assume "length ys < k"
      with before [of "length ys"] assms(2) have "p (length ys) = 0 \<or> False"
        by (auto simp: D_def is_cstr_def)
      with before [OF \<open>length ys < k\<close>] show ?thesis by (simp add: D_def)
    qed
    moreover have "xs ! j = ys ! j" if "j < k" for j
      using that before [OF that] kx \<open>k = length ys\<close> assms by (auto simp: D_def is_cstr_def)
    ultimately show "xs = ys" using kx by (simp add: nth_equalityI)
  next
    assume "xs = ys"
    with assms kle show "p k = q k" unfolding is_cstr_def by (metis le_neq_implies_less)
  qed
  then show ?thesis using r by (auto simp: word_uint_eq_iff)
qed

lemma strchr_from_eq:
  assumes "\<And>j. i \<le> j \<Longrightarrow> j < k \<Longrightarrow> s j \<noteq> 0 \<and> s j \<noteq> c" "i \<le> k" "s k = 0 \<or> s k = c"
  shows "strchr_from s c i = Some (if s k = 0 then None else Some k)"
  using assms(1,2)
proof (induction "k - i" arbitrary: i)
  case 0
  then have "k = i" by simp
  with assms(3) show ?case by (auto simp: strchr_from.simps [of s c i])
next
  case (Suc d)
  then have i: "s i \<noteq> 0" "s i \<noteq> c" by auto
  moreover have "strchr_from s c (Suc i) = Some (if s k = 0 then None else Some k)"
    using Suc by auto
  ultimately show ?case by (simp add: strchr_from.simps [of s c i])
qed

lemma atoi_from_step:
  "48 \<le> s i \<Longrightarrow> s i \<le> 57 \<Longrightarrow> atoi_from s i n = atoi_from s (Suc i) (n * 10 + uint (s i) - 48)"
  "\<not> (48 \<le> s i \<and> s i \<le> 57) \<Longrightarrow> atoi_from s i n = Some n"
  by (auto simp: atoi_from.simps [of s i])

end
