(* ===== verification/Rand.thy ===== *)
theory Rand
  imports Prelude
begin

text \<open>
  \<^verbatim>\<open>rand.c\<close>: the MT19937 generator and \<^verbatim>\<open>random_at_most\<close>, from which the lottery
  scheduler draws. \<^verbatim>\<open>long\<close> and \<^verbatim>\<open>unsigned long\<close> are 32 bits wide on the i386. The
  static variables \<open>mt\<close> and \<open>mti\<close> are the state that each draw passes on.
\<close>

unbundle bit_operations_syntax

abbreviation MT_N :: nat where "MT_N \<equiv> 624"
abbreviation MT_M :: nat where "MT_M \<equiv> 397"

definition MATRIX_A :: u32 where "MATRIX_A = 0x9908b0df"
definition UPPER_MASK :: u32 where "UPPER_MASK = 0x80000000"
definition LOWER_MASK :: u32 where "LOWER_MASK = 0x7fffffff"
definition TEMPERING_MASK_B :: u32 where "TEMPERING_MASK_B = 0x9d2c5680"
definition TEMPERING_MASK_C :: u32 where "TEMPERING_MASK_C = 0xefc60000"
definition RAND_MAX :: u32 where "RAND_MAX = 0x7fffffff"

record rng =
  mt :: "u32 list"
  mti :: nat

text \<open>The static initialisers: \<^verbatim>\<open>mti = N+1\<close> says that \<open>mt\<close> was never seeded.\<close>

definition rng_init :: rng where
  "rng_init = \<lparr>mt = replicate MT_N 0, mti = MT_N + 1\<rparr>"

fun sgen_fill :: "u32 list \<Rightarrow> nat \<Rightarrow> nat \<Rightarrow> u32 list" where
  "sgen_fill xs i 0 = xs"
| "sgen_fill xs i (Suc k) =
     sgen_fill (xs[i := (69069 * xs ! (i - 1)) AND 0xffffffff]) (Suc i) k"

text \<open>The seeding loop runs \<open>mti\<close> from 1 to \<open>MT_N\<close>.\<close>

definition sgenrand :: "u32 \<Rightarrow> rng \<Rightarrow> rng" where
  "sgenrand seed s =
     s\<lparr>mt := sgen_fill ((mt s)[0 := seed AND 0xffffffff]) 1 (MT_N - 1), mti := MT_N\<rparr>"

definition mag01 :: "u32 \<Rightarrow> u32" where
  "mag01 b = (if b = 0 then 0 else MATRIX_A)"

text \<open>
  One step of the twist: word \<open>k\<close> from words \<open>k\<close>, \<open>k1\<close> and \<open>km\<close>, in place, so later
  steps read the words that earlier ones wrote.
\<close>

definition twist :: "u32 list \<Rightarrow> nat \<Rightarrow> nat \<Rightarrow> nat \<Rightarrow> u32 list" where
  "twist xs k k1 km =
     (let y = (xs ! k AND UPPER_MASK) OR (xs ! k1 AND LOWER_MASK)
      in xs[k := xs ! km XOR drop_bit 1 y XOR mag01 (y AND 1)])"

definition regenerate :: "u32 list \<Rightarrow> u32 list" where
  "regenerate xs =
     (let xs = fold (\<lambda>kk xs. twist xs kk (kk + 1) (kk + MT_M)) [0 ..< MT_N - MT_M] xs;
          xs = fold (\<lambda>kk xs. twist xs kk (kk + 1) (kk - (MT_N - MT_M))) [MT_N - MT_M ..< MT_N - 1] xs
      in twist xs (MT_N - 1) 0 (MT_M - 1))"

definition temper :: "u32 \<Rightarrow> u32" where
  "temper y =
     (let y = y XOR drop_bit 11 y;
          y = y XOR (push_bit 7 y AND TEMPERING_MASK_B);
          y = y XOR (push_bit 15 y AND TEMPERING_MASK_C);
          y = y XOR drop_bit 18 y
      in y)"

definition genrand :: "rng \<Rightarrow> u32 \<times> rng" where
  "genrand s =
     (let s = (if mti s \<ge> MT_N then
                 (let s = (if mti s = MT_N + 1 then sgenrand 4357 s else s)
                  in s\<lparr>mt := regenerate (mt s), mti := 0\<rparr>)
               else s);
          y = mt s ! mti s;
          s = s\<lparr>mti := mti s + 1\<rparr>
      in (temper y AND RAND_MAX, s))"

text \<open>
  The draw loop of \<^verbatim>\<open>random_at_most\<close>: \<open>None\<close> is a loop that never accepts a draw.
\<close>

partial_function (option) draw_below :: "u32 \<Rightarrow> rng \<Rightarrow> (u32 \<times> rng) option" where
  "draw_below limit s =
     (case genrand s of (x, s') \<Rightarrow> if limit \<le> x then draw_below limit s' else Some (x, s'))"

definition num_bins :: "u32 \<Rightarrow> u32" where "num_bins mx = mx + 1"
definition num_rand :: u32 where "num_rand = RAND_MAX + 1"
definition bin_size :: "u32 \<Rightarrow> u32" where "bin_size mx = num_rand div num_bins mx"
definition defect :: "u32 \<Rightarrow> u32" where "defect mx = num_rand mod num_bins mx"

text \<open>
  The code assumes \<^verbatim>\<open>0 <= max <= RAND_MAX\<close>. For \<^verbatim>\<open>max = -1\<close> the division by
  \<open>num_bins = 0\<close> traps, which is a draw that does not return.
\<close>

definition random_at_most :: "u32 \<Rightarrow> rng \<Rightarrow> (u32 \<times> rng) option" where
  "random_at_most mx s =
     (if num_bins mx = 0 then None
      else case draw_below (num_rand - defect mx) s of
             None \<Rightarrow> None
           | Some (x, s') \<Rightarrow> Some (x div bin_size mx, s'))"

section \<open>The generator\<close>

definition rng_ok :: "rng \<Rightarrow> bool" where
  "rng_ok s \<longleftrightarrow> length (mt s) = MT_N"

lemma length_sgen_fill [simp]: "length (sgen_fill xs i k) = length xs"
  by (induction xs i k rule: sgen_fill.induct) auto

lemma length_twist [simp]: "length (twist xs k k1 km) = length xs"
  by (simp add: twist_def Let_def)

lemma length_fold_twist: "length (fold (\<lambda>kk xs. twist xs kk (f kk) (g kk)) ks xs) = length xs"
  by (induction ks arbitrary: xs) auto

lemma length_regenerate [simp]: "length (regenerate xs) = length xs"
  by (simp only: regenerate_def Let_def length_fold_twist length_twist)

lemma rng_ok_init: "rng_ok rng_init"
  by (simp add: rng_ok_def rng_init_def)

text \<open>The draw reads inside the array: after a refill \<open>mti\<close> is 0, else it is below \<open>MT_N\<close>.\<close>

lemma genrand_ok: "rng_ok s \<Longrightarrow> rng_ok (snd (genrand s)) \<and> mti (snd (genrand s)) \<le> MT_N"
  by (auto simp: genrand_def Let_def rng_ok_def sgenrand_def)

lemma genrand_top_bit: "fst (genrand s) \<le> RAND_MAX"
  by (simp add: genrand_def Let_def word_and_le1)

lemma unat_RAND_MAX [simp]: "unat RAND_MAX = 2147483647"
  by (simp add: RAND_MAX_def)

lemma unat_num_rand [simp]: "unat num_rand = 2147483648"
  by (simp add: num_rand_def RAND_MAX_def)

lemma genrand_lt: "unat (fst (genrand s)) < 2147483648"
  using genrand_top_bit [of s] by (simp add: word_le_nat_alt)

section \<open>random_at_most\<close>

text \<open>The state after \<open>k\<close> draws, and the \<open>k\<close>-th draw itself.\<close>

fun rng_after :: "nat \<Rightarrow> rng \<Rightarrow> rng" where
  "rng_after 0 s = s"
| "rng_after (Suc k) s = rng_after k (snd (genrand s))"

definition nth_draw :: "nat \<Rightarrow> rng \<Rightarrow> u32" where
  "nth_draw k s = fst (genrand (rng_after k s))"

lemma draw_below_step:
  "draw_below limit s =
     (if limit \<le> fst (genrand s) then draw_below limit (snd (genrand s)) else Some (genrand s))"
  by (subst draw_below.simps) (simp add: case_prod_unfold)

lemma draw_below_Some:
  assumes "draw_below limit s = Some r"
  shows "\<exists>k. r = (nth_draw k s, rng_after (Suc k) s) \<and> nth_draw k s < limit"
proof (rule draw_below.raw_induct [where
      P = "\<lambda>l s r. \<exists>k. r = (nth_draw k s, rng_after (Suc k) s) \<and> nth_draw k s < l", OF _ assms])
  fix f l s r
  assume IH: "\<And>l s r. f l s = Some r \<Longrightarrow> \<exists>k. r = (nth_draw k s, rng_after (Suc k) s) \<and> nth_draw k s < l"
    and eq: "(case genrand s of (x, s') \<Rightarrow> if l \<le> x then f l s' else Some (x, s')) = Some r"
  show "\<exists>k. r = (nth_draw k s, rng_after (Suc k) s) \<and> nth_draw k s < l"
  proof (cases "l \<le> fst (genrand s)")
    case True
    with eq have "f l (snd (genrand s)) = Some r" by (simp add: case_prod_unfold)
    from IH [OF this] obtain k where
      "r = (nth_draw k (snd (genrand s)), rng_after (Suc k) (snd (genrand s)))"
      "nth_draw k (snd (genrand s)) < l" by blast
    then show ?thesis by (intro exI [of _ "Suc k"]) (simp add: nth_draw_def)
  next
    case False
    with eq have "r = genrand s" by (simp add: case_prod_unfold)
    with False show ?thesis by (intro exI [of _ 0]) (simp add: nth_draw_def)
  qed
qed

lemma draw_below_range:
  "draw_below limit s = Some (x, s') \<Longrightarrow> x < limit \<and> x \<le> RAND_MAX"
  using draw_below_Some [of limit s "(x, s')"] genrand_top_bit by (auto simp: nth_draw_def)

lemma draw_below_first:
  assumes "nth_draw k s < limit" and "\<And>j. j < k \<Longrightarrow> limit \<le> nth_draw j s"
  shows "draw_below limit s = Some (nth_draw k s, rng_after (Suc k) s)"
  using assms
proof (induction k arbitrary: s)
  case 0
  then show ?case
    by (subst draw_below_step) (auto simp: nth_draw_def dest: leD)
next
  case (Suc k)
  have "limit \<le> fst (genrand s)" using Suc.prems(2) [of 0] by (simp add: nth_draw_def)
  moreover have "draw_below limit (snd (genrand s)) =
      Some (nth_draw k (snd (genrand s)), rng_after (Suc k) (snd (genrand s)))"
  proof (rule Suc.IH)
    show "nth_draw k (snd (genrand s)) < limit" using Suc.prems(1) by (simp add: nth_draw_def)
    fix j assume "j < k"
    then show "limit \<le> nth_draw j (snd (genrand s))"
      using Suc.prems(2) [of "Suc j"] by (simp add: nth_draw_def)
  qed
  ultimately show ?case
    by (subst draw_below_step) (simp add: nth_draw_def)
qed

lemma draw_below_none:
  assumes "draw_below limit s = None" shows "limit \<le> nth_draw k s"
proof (rule ccontr)
  assume a: "\<not> limit \<le> nth_draw k s"
  define n where "n = (LEAST k. \<not> limit \<le> nth_draw k s)"
  have "\<not> limit \<le> nth_draw n s" unfolding n_def using a by (rule LeastI)
  moreover have "limit \<le> nth_draw j s" if "j < n" for j
    using that not_less_Least unfolding n_def by blast
  ultimately have "draw_below limit s \<noteq> None"
    using draw_below_first [of n s limit] by (auto simp: not_le)
  with assms show False by simp
qed

lemma unat_num_bins: "mx \<le> RAND_MAX \<Longrightarrow> unat (num_bins mx) = unat mx + 1"
  by (simp add: num_bins_def word_le_nat_alt unat_add32)

lemma unat_bin_size: "mx \<le> RAND_MAX \<Longrightarrow> unat (bin_size mx) = 2147483648 div (unat mx + 1)"
  by (simp add: bin_size_def unat_div unat_num_bins)

lemma unat_defect: "mx \<le> RAND_MAX \<Longrightarrow> unat (defect mx) = 2147483648 mod (unat mx + 1)"
  by (simp add: defect_def unat_mod unat_num_bins)

lemma num_bins_nonzero: "mx \<le> RAND_MAX \<Longrightarrow> num_bins mx \<noteq> 0"
  using unat_num_bins [of mx] by auto

text \<open>The accepted draws fill exactly \<open>num_bins\<close> bins of \<open>bin_size\<close> values each.\<close>

lemma unat_limit:
  assumes "mx \<le> RAND_MAX"
  shows "unat (num_rand - defect mx) = (unat mx + 1) * unat (bin_size mx)"
proof -
  have "unat (defect mx) \<le> 2147483648"
    by (simp add: unat_defect assms)
  then have "unat (num_rand - defect mx) = 2147483648 - 2147483648 mod (unat mx + 1)"
    by (simp add: unat_sub32 unat_defect assms)
  also have "\<dots> = (unat mx + 1) * (2147483648 div (unat mx + 1))"
    by (metis minus_mod_eq_mult_div)
  finally show ?thesis by (simp add: unat_bin_size assms)
qed

lemma bin_size_pos: "mx \<le> RAND_MAX \<Longrightarrow> 0 < unat (bin_size mx)"
  by (simp add: unat_bin_size word_le_nat_alt div_greater_zero_iff)

lemma bin_index_le:
  assumes "mx \<le> RAND_MAX" and "x < num_rand - defect mx"
  shows "x div bin_size mx \<le> mx"
proof -
  have "unat x < (unat mx + 1) * unat (bin_size mx)"
    using assms unat_limit by (simp add: word_less_nat_alt)
  then have "unat x div unat (bin_size mx) < unat mx + 1"
    using bin_size_pos [OF assms(1)] by (simp add: less_mult_imp_div_less)
  then show ?thesis by (simp add: word_le_nat_alt unat_div)
qed

lemma random_at_most_le:
  assumes "mx \<le> RAND_MAX" and "random_at_most mx s = Some (x, s')"
  shows "x \<le> mx"
  using assms draw_below_range bin_index_le
  by (auto simp: random_at_most_def split: if_splits option.splits)

lemma random_at_most_returns_iff:
  assumes "mx \<le> RAND_MAX"
  shows "(\<exists>r. random_at_most mx s = Some r) \<longleftrightarrow> (\<exists>k. nth_draw k s < num_rand - defect mx)"
proof
  assume "\<exists>k. nth_draw k s < num_rand - defect mx"
  then obtain k where "nth_draw k s < num_rand - defect mx" by blast
  then have "draw_below (num_rand - defect mx) s \<noteq> None"
    using draw_below_none [of "num_rand - defect mx" s k] leD by blast
  then show "\<exists>r. random_at_most mx s = Some r"
    using num_bins_nonzero [OF assms] by (auto simp: random_at_most_def split: option.splits)
next
  assume "\<exists>r. random_at_most mx s = Some r"
  then obtain r where "draw_below (num_rand - defect mx) s = Some r"
    by (auto simp: random_at_most_def split: if_splits option.splits)
  then show "\<exists>k. nth_draw k s < num_rand - defect mx"
    using draw_below_Some by blast
qed

text \<open>
  More than half of all draws are accepted, and all of them when the number of bins
  divides \<open>2^31\<close>.
\<close>

lemma acceptance_half:
  assumes "mx \<le> RAND_MAX"
  shows "2 * unat (num_rand - defect mx) > unat num_rand"
proof -
  let ?n = "unat mx + 1"
  have n: "?n \<le> 2147483648" using assms by (simp add: word_le_nat_alt)
  define r where "r = 2147483648 mod ?n"
  have "r < ?n" by (simp add: r_def)
  moreover have "?n \<le> 2147483648 - r"
  proof -
    have "1 \<le> 2147483648 div ?n" using n by (simp add: Suc_le_eq div_greater_zero_iff)
    then have "?n * 1 \<le> ?n * (2147483648 div ?n)" by (rule mult_le_mono2)
    then show ?thesis unfolding r_def by (metis minus_mod_eq_mult_div mult.right_neutral)
  qed
  moreover have "unat (num_rand - defect mx) = 2147483648 - r"
    by (simp add: unat_sub32 unat_defect assms r_def)
  ultimately show ?thesis unfolding unat_num_rand by linarith
qed

lemma random_at_most_returns_dvd:
  assumes "mx \<le> RAND_MAX" and "(unat mx + 1) dvd 2147483648"
  shows "random_at_most mx s = Some (fst (genrand s) div bin_size mx, snd (genrand s))"
proof -
  have "unat (defect mx) = 0" using assms by (simp add: unat_defect)
  then have "defect mx = 0" by (simp add: unat_eq_0)
  moreover have "\<not> num_rand \<le> fst (genrand s)"
    using genrand_lt [of s] by (simp add: word_le_nat_alt)
  ultimately show ?thesis
    using num_bins_nonzero [OF assms(1)]
    by (simp add: random_at_most_def draw_below_step [of num_rand s] case_prod_unfold)
qed

text \<open>Every result has the same number of accepted draws: the choice is unbiased.\<close>

lemma bin_card:
  assumes "mx \<le> RAND_MAX" and "k \<le> mx"
  shows "card {x. x < num_rand - defect mx \<and> x div bin_size mx = k} = unat (bin_size mx)"
proof -
  let ?b = "unat (bin_size mx)" and ?n = "unat mx + 1"
  have b: "0 < ?b" using bin_size_pos [OF assms(1)] .
  have lim: "unat (num_rand - defect mx) = ?n * ?b" by (rule unat_limit [OF assms(1)])
  have k: "unat k < ?n" using assms(2) by (simp add: word_le_nat_alt)
  let ?S = "{x. x < num_rand - defect mx \<and> x div bin_size mx = k}"
  have "unat ` ?S = {unat k * ?b ..< unat k * ?b + ?b}"
  proof (intro equalityI subsetI)
    fix y assume "y \<in> unat ` ?S"
    then obtain x where "y = unat x" "x div bin_size mx = k" by auto
    then have "y div ?b = unat k" by (auto simp: unat_div)
    then have "y = ?b * unat k + y mod ?b" using mult_div_mod_eq [of ?b y] by simp
    moreover have "y mod ?b < ?b" using b by simp
    ultimately show "y \<in> {unat k * ?b ..< unat k * ?b + ?b}"
      unfolding atLeastLessThan_iff mult.commute [of "unat k" ?b] by linarith
  next
    fix y assume y: "y \<in> {unat k * ?b ..< unat k * ?b + ?b}"
    then have d: "y div ?b = unat k" by (auto simp: div_nat_eqI mult.commute)
    have "unat k * ?b + ?b \<le> ?n * ?b"
      using k mult_le_mono1 [of "unat k + 1" ?n ?b] by simp
    with y have lt: "y < ?n * ?b" unfolding atLeastLessThan_iff by (meson less_le_trans)
    then have y32: "y < 4294967296" using lim unat_lt32 [of "num_rand - defect mx"] by simp
    then have uy: "unat (of_nat y :: u32) = y" by (rule unat_of_nat32)
    have "(of_nat y :: u32) < num_rand - defect mx"
      unfolding word_less_nat_alt uy lim by (rule lt)
    moreover have "(of_nat y :: u32) div bin_size mx = k"
      unfolding word_unat_eq_iff unat_div uy by (rule d)
    ultimately have m: "(of_nat y :: u32) \<in> ?S" by simp
    show "y \<in> unat ` ?S" using imageI [OF m, of unat] unfolding uy .
  qed
  then have "card (unat ` ?S) = ?b" by simp
  moreover have "inj_on unat ?S" by (auto intro!: inj_onI simp: word_unat_eq_iff)
  ultimately show ?thesis using card_image [of unat ?S] by simp
qed

lemma draw_below_first_accepted:
  assumes "draw_below limit s = Some (x, s')"
  shows "\<exists>k. x = nth_draw k s \<and> s' = rng_after (Suc k) s \<and> x < limit \<and> (\<forall>j < k. limit \<le> nth_draw j s)"
proof -
  from draw_below_Some [OF assms] obtain k0 where k0: "nth_draw k0 s < limit" by blast
  define k where "k = (LEAST k. nth_draw k s < limit)"
  have k: "nth_draw k s < limit" unfolding k_def using k0 by (rule LeastI)
  have before: "limit \<le> nth_draw j s" if "j < k" for j
    using that not_less_Least [of j "\<lambda>k. nth_draw k s < limit"] unfolding k_def by (simp add: not_less)
  from draw_below_first [OF k before] assms have "x = nth_draw k s" "s' = rng_after (Suc k) s" by simp_all
  with k before show ?thesis by blast
qed

text \<open>
  C15: A draw of \<^verbatim>\<open>random_at_most\<close> is at most \<open>mx\<close>; it is the bin of the first number
  the generator gives below the limit, the generator has advanced just past that number,
  and every result has the same number of accepted generator values behind it. So the
  draw is uniform on 0 to \<open>mx\<close> inclusive when the generator is uniform.
\<close>

theorem random_at_most_uniform:
  assumes "mx \<le> RAND_MAX" and "random_at_most mx s = Some (x, s')"
  shows "x \<le> mx \<and>
     (\<exists>k. x = nth_draw k s div bin_size mx \<and> s' = rng_after (Suc k) s \<and>
        nth_draw k s < num_rand - defect mx \<and> (\<forall>j < k. num_rand - defect mx \<le> nth_draw j s)) \<and>
     (\<forall>v \<le> mx. card {y. y < num_rand - defect mx \<and> y div bin_size mx = v} = unat (bin_size mx))"
proof -
  from assms(2) obtain y where y: "draw_below (num_rand - defect mx) s = Some (y, s')"
    "x = y div bin_size mx"
    by (auto simp: random_at_most_def split: if_splits option.splits)
  from draw_below_first_accepted [OF y(1)] y(2) random_at_most_le [OF assms] bin_card [OF assms(1)]
  show ?thesis by blast
qed

theorem random_at_most_uniform_witness:
  "\<exists>x s'. random_at_most 1 rng_init = Some (x, s') \<and> x \<le> 1 \<and>
     (\<exists>k. x = nth_draw k rng_init div bin_size 1 \<and> s' = rng_after (Suc k) rng_init \<and>
        nth_draw k rng_init < num_rand - defect 1 \<and>
        (\<forall>j < k. num_rand - defect 1 \<le> nth_draw j rng_init)) \<and>
     (\<forall>v \<le> 1. card {y. y < num_rand - defect 1 \<and> y div bin_size 1 = v} = unat (bin_size 1))"
proof -
  have m: "(1 :: u32) \<le> RAND_MAX" by (simp add: RAND_MAX_def)
  have two: "unat (1 :: u32) + 1 = 2" by simp
  have d: "(unat (1 :: u32) + 1) dvd 2147483648" unfolding two by presburger
  obtain x s' where r: "random_at_most 1 rng_init = Some (x, s')"
    using random_at_most_returns_dvd [OF m d, of rng_init] by (rule that)
  from random_at_most_uniform [OF m r] r show ?thesis by blast
qed

text \<open>
  C16: \<^verbatim>\<open>random_at_most\<close> returns exactly when the generator ever gives a number below the
  limit, and more than half of the generator's values are: for a bound in the documented
  range the only way not to return is a generator stuck in the rejected part.
\<close>

theorem random_at_most_returns:
  assumes "mx \<le> RAND_MAX"
  shows "((\<exists>r. random_at_most mx s = Some r) \<longleftrightarrow> (\<exists>k. nth_draw k s < num_rand - defect mx)) \<and>
     unat num_rand < 2 * unat (num_rand - defect mx)"
  using random_at_most_returns_iff [OF assms] acceptance_half [OF assms] by blast

theorem random_at_most_returns_witness:
  "((\<exists>r. random_at_most 5 rng_init = Some r) \<longleftrightarrow>
      (\<exists>k. nth_draw k rng_init < num_rand - defect 5)) \<and>
   unat num_rand < 2 * unat (num_rand - defect 5)"
  by (rule random_at_most_returns) (simp add: RAND_MAX_def)

end
