(* ===== verification/Kalloc.thy ===== *)
theory Kalloc
  imports CString
begin

text \<open>
  \<^verbatim>\<open>kalloc.c\<close>: the allocator of 4096-byte pages of physical memory. Its free list is
  threaded through the free pages themselves, so the state is the memory, the list head
  and the lock. \<open>k_end\<close> is the linker's symbol \<^verbatim>\<open>end\<close> and \<open>k_data\<close> its symbol \<^verbatim>\<open>data\<close>. The abstract state is the
  list of free pages; the locale \<open>page_allocator\<close> is the contract the users of pages
  (page tables, kernel stacks, pipes) rely on.
\<close>

definition PGSIZE :: u32 where "PGSIZE = 4096"
definition KERNBASE :: u32 where "KERNBASE = 0x80000000"
definition PHYSTOP :: u32 where "PHYSTOP = 0xE000000"
definition EXTMEM :: u32 where "EXTMEM = 0x100000"
definition DEVSPACE :: u32 where "DEVSPACE = 0xFE000000"
definition KERNLINK :: u32 where "KERNLINK = KERNBASE + EXTMEM"

definition V2P :: "u32 \<Rightarrow> u32" where "V2P a = a - KERNBASE"
definition P2V :: "u32 \<Rightarrow> u32" where "P2V a = a + KERNBASE"

definition PGROUNDUP :: "u32 \<Rightarrow> u32" where
  "PGROUNDUP sz = (sz + PGSIZE - 1) AND NOT (PGSIZE - 1)"
definition PGROUNDDOWN :: "u32 \<Rightarrow> u32" where
  "PGROUNDDOWN a = a AND NOT (PGSIZE - 1)"

record kmem =
  k_mem :: mem
  k_locked :: bool
  k_use_lock :: bool
  k_freelist :: u32
  k_end :: u32
  k_data :: u32

definition kmem_acquire :: "'a kmem_scheme \<Rightarrow> 'a kmem_scheme outcome" where
  "kmem_acquire s = (if k_locked s then Panic ''acquire'' else Ok (s\<lparr>k_locked := True\<rparr>))"

definition kmem_release :: "'a kmem_scheme \<Rightarrow> 'a kmem_scheme outcome" where
  "kmem_release s = (if k_locked s then Ok (s\<lparr>k_locked := False\<rparr>) else Panic ''release'')"

definition kfree :: "u32 \<Rightarrow> 'a kmem_scheme \<Rightarrow> 'a kmem_scheme outcome" where
  "kfree v s =
     (if v mod PGSIZE \<noteq> 0 \<or> v < k_end s \<or> V2P v \<ge> PHYSTOP then Panic ''kfree''
      else
        let s = s\<lparr>k_mem := memset (k_mem s) v 1 PGSIZE\<rparr> in
        obind (if k_use_lock s then kmem_acquire s else Ok s) (\<lambda>s.
        let s = s\<lparr>k_mem := store32 (k_mem s) v (k_freelist s)\<rparr>;
            s = s\<lparr>k_freelist := v\<rparr> in
        if k_use_lock s then kmem_release s else Ok s))"

definition kalloc :: "'a kmem_scheme \<Rightarrow> (u32 \<times> 'a kmem_scheme) outcome" where
  "kalloc s =
     obind (if k_use_lock s then kmem_acquire s else Ok s) (\<lambda>s.
     let r = k_freelist s;
         s = (if r \<noteq> 0 then s\<lparr>k_freelist := load32 (k_mem s) r\<rparr> else s) in
     obind (if k_use_lock s then kmem_release s else Ok s) (\<lambda>s. Ok (r, s)))"

section \<open>Pages\<close>

definition page_ok :: "'a kmem_scheme \<Rightarrow> u32 \<Rightarrow> bool" where
  "page_ok s v \<longleftrightarrow> v mod PGSIZE = 0 \<and> \<not> v < k_end s \<and> \<not> V2P v \<ge> PHYSTOP"

lemma page_high: "page_ok s v \<Longrightarrow> 0x80000000 \<le> unat v \<and> unat v < 0x8E000000"
proof -
  assume "page_ok s v"
  then have "unat (v - 0x80000000) < 0xE000000"
    by (simp add: page_ok_def V2P_def PHYSTOP_def KERNBASE_def not_le word_less_nat_alt)
  then show ?thesis
    by (cases "unat v < 0x80000000") (simp_all add: unat_sub_wrap32 unat_sub32)
qed

lemma page_nonzero: "page_ok s v \<Longrightarrow> v \<noteq> 0"
  using page_high [of s v] by auto

lemma page_align: "v mod PGSIZE = 0 \<longleftrightarrow> 4096 dvd unat v"
proof -
  have "v mod PGSIZE = 0 \<longleftrightarrow> unat (v mod PGSIZE) = 0" by (simp add: unat_eq_0)
  then show ?thesis by (simp add: PGSIZE_def unat_mod dvd_eq_mod_eq_0)
qed

text \<open>Distinct aligned pages do not overlap.\<close>

lemma pages_apart:
  assumes "v mod PGSIZE = 0" "w mod PGSIZE = 0" "v \<noteq> w"
  shows "4096 \<le> unat (v - w)"
proof -
  have d: "4096 dvd unat v" "4096 dvd unat w" using assms by (simp_all add: page_align)
  show ?thesis
  proof (cases "unat w \<le> unat v")
    case True
    then have "unat (v - w) = unat v - unat w" by (rule unat_sub32)
    moreover have "4096 dvd unat v - unat w" using d by (simp add: dvd_diff_nat)
    moreover have "unat v \<noteq> unat w" using assms(3) by (simp add: word_unat_eq_iff)
    ultimately show ?thesis using True by (auto dest!: dvd_imp_le)
  next
    case False
    then have "unat (v - w) = 4294967296 + unat v - unat w" by (simp add: unat_sub_wrap32)
    moreover have "4096 dvd 4294967296 + unat v - unat w"
      using d by (intro dvd_diff_nat dvd_add) auto
    moreover have "unat w < 4294967296" by simp
    ultimately show ?thesis using False by (metis dvd_imp_le less_imp_le_nat trans_less_add1 zero_less_diff)
  qed
qed

definition in_page :: "u32 \<Rightarrow> u32 \<Rightarrow> bool" where
  "in_page v x \<longleftrightarrow> unat (x - v) < 4096"

lemma unat_sub_flip:
  "(v::u32) \<noteq> w \<Longrightarrow> unat (w - v) = 4294967296 - unat (v - w)"
  by (cases "unat v \<le> unat w")
    (use unat_lt32 [of v] unat_lt32 [of w] in
      \<open>simp_all add: unat_sub32 unat_sub_wrap32 word_unat_eq_iff del: unat_lt32\<close>)

lemma load32_outside:
  assumes "\<And>x. \<not> in_page v x \<Longrightarrow> m' x = m x"
    and "v mod PGSIZE = 0" "w mod PGSIZE = 0" "v \<noteq> w"
  shows "load32 m' w = load32 m w"
proof (rule load32_cong)
  fix i :: nat assume i: "i < 4"
  have "\<not> in_page v (w + of_nat i)"
  proof
    assume "in_page v (w + of_nat i)"
    then have k: "unat (w + of_nat i - v) < 4096" by (simp add: in_page_def)
    have ui: "unat (of_nat i :: u32) = i" using i by (simp add: unat_of_nat32)
    have far: "4096 \<le> unat (w - v)" "4096 \<le> unat (v - w)" using assms pages_apart by auto
    have "unat (w - v) + i < 4294967296"
      using far i unat_sub_flip [OF assms(4)] by linarith
    then have "unat ((w - v) + of_nat i) = unat (w - v) + i"
      using ui by (simp add: unat_add32)
    moreover have "w + of_nat i - v = (w - v) + of_nat i" by simp
    ultimately have "unat (w + of_nat i - v) = unat (w - v) + i" by metis
    with k far show False by linarith
  qed
  then show "m' (w + of_nat i) = m (w + of_nat i)" by (rule assms(1))
qed

section \<open>The free list as a list of pages\<close>

fun free_chain :: "mem \<Rightarrow> u32 \<Rightarrow> u32 list \<Rightarrow> bool" where
  "free_chain m p [] \<longleftrightarrow> p = 0"
| "free_chain m p (a # as) \<longleftrightarrow> p = a \<and> a \<noteq> 0 \<and> free_chain m (load32 m a) as"

definition kmem_inv :: "'a kmem_scheme \<Rightarrow> u32 list \<Rightarrow> bool" where
  "kmem_inv s ps \<longleftrightarrow> free_chain (k_mem s) (k_freelist s) ps \<and> distinct ps \<and>
     (\<forall>p \<in> set ps. page_ok s p) \<and> \<not> k_locked s"

lemma free_chain_outside:
  assumes "\<And>x. \<not> in_page v x \<Longrightarrow> m' x = m x" "v mod PGSIZE = 0"
    and "\<And>p. p \<in> set ps \<Longrightarrow> p mod PGSIZE = 0" "v \<notin> set ps"
  shows "free_chain m' p ps = free_chain m p ps"
  using assms(3,4)
proof (induction ps arbitrary: p)
  case Nil
  then show ?case by simp
next
  case (Cons a as)
  have "load32 m' a = load32 m a"
    by (rule load32_outside [OF assms(1) assms(2)]) (use Cons.prems in auto)
  with Cons show ?case by simp
qed

text \<open>What \<^verbatim>\<open>kfree\<close> leaves in memory: the page is junk except for its link.\<close>

definition kfree_mem :: "mem \<Rightarrow> u32 \<Rightarrow> u32 \<Rightarrow> mem" where
  "kfree_mem m v l = store32 (memset m v 1 PGSIZE) v l"

lemma kfree_mem_outside: "\<not> in_page v x \<Longrightarrow> kfree_mem m v l x = m x"
  by (simp add: kfree_mem_def store32_apply memset_apply in_page_def PGSIZE_def)

lemma kfree_Ok:
  assumes "page_ok s v" and "\<not> k_locked s"
  shows "kfree v s = Ok (s\<lparr>k_mem := kfree_mem (k_mem s) v (k_freelist s), k_freelist := v\<rparr>)"
  using assms
  by (simp add: kfree_def page_ok_def Let_def kmem_acquire_def kmem_release_def kfree_mem_def)

lemma kfree_Panic: "\<not> page_ok s v \<Longrightarrow> kfree v s = Panic ''kfree''"
  by (auto simp: kfree_def page_ok_def)

lemma kalloc_Ok:
  assumes "\<not> k_locked s"
  shows "kalloc s = Ok (k_freelist s,
     if k_freelist s \<noteq> 0 then s\<lparr>k_freelist := load32 (k_mem s) (k_freelist s)\<rparr> else s)"
  using assms
  by (simp add: kalloc_def Let_def kmem_acquire_def kmem_release_def)

lemma kfree_inv:
  assumes "kmem_inv s ps" "page_ok s v" "v \<notin> set ps"
  shows "\<exists>s'. kfree v s = Ok s' \<and> kmem_inv s' (v # ps) \<and> k_end s' = k_end s \<and>
     (\<forall>x. \<not> in_page v x \<longrightarrow> k_mem s' x = k_mem s x)"
proof -
  let ?m = "kfree_mem (k_mem s) v (k_freelist s)"
  have "free_chain ?m (k_freelist s) ps = free_chain (k_mem s) (k_freelist s) ps"
    by (rule free_chain_outside [OF kfree_mem_outside])
      (use assms in \<open>auto simp: kmem_inv_def page_ok_def\<close>)
  moreover have "load32 ?m v = k_freelist s"
    by (simp add: kfree_mem_def load32_store32)
  ultimately show ?thesis
    using assms kfree_Ok [of s v] page_nonzero [of s v]
    by (auto simp: kmem_inv_def page_ok_def kfree_mem_outside)
qed

lemma kalloc_inv_Nil:
  "kmem_inv s [] \<Longrightarrow> kalloc s = Ok (0, s)"
  by (simp add: kmem_inv_def kalloc_Ok)

lemma kalloc_inv_Cons:
  "kmem_inv s (p # ps) \<Longrightarrow>
   \<exists>s'. kalloc s = Ok (p, s') \<and> kmem_inv s' ps \<and> k_end s' = k_end s \<and> k_mem s' = k_mem s \<and> p \<noteq> 0"
  by (auto simp: kmem_inv_def kalloc_Ok page_ok_def)

section \<open>freerange\<close>

lemma kfree_Ok_page: "kfree v s = Ok s' \<Longrightarrow> page_ok s v"
  by (rule ccontr) (simp add: kfree_Panic)

function freerange_loop :: "u32 \<Rightarrow> u32 \<Rightarrow> 'a kmem_scheme \<Rightarrow> 'a kmem_scheme outcome" where
  "freerange_loop p vend s =
     (if p + PGSIZE \<le> vend then obind (kfree p s) (\<lambda>s. freerange_loop (p + PGSIZE) vend s)
      else Ok s)"
  by pat_completeness auto
termination
proof (relation "measure (\<lambda>(p, vend, s). 4294967296 - unat p)")
  fix p vend :: u32 and s s' :: "'a kmem_scheme"
  assume "kfree p s = Ok s'"
  then have "unat p < 0x8E000000" using kfree_Ok_page page_high by blast
  then show "((p + PGSIZE, vend, s'), p, vend, s) \<in> measure (\<lambda>(p, vend, s). 4294967296 - unat p)"
    by (simp add: PGSIZE_def unat_add32)
qed simp

declare freerange_loop.simps [simp del]

definition freerange :: "u32 \<Rightarrow> u32 \<Rightarrow> 'a kmem_scheme \<Rightarrow> 'a kmem_scheme outcome" where
  "freerange vstart vend s = freerange_loop (PGROUNDUP vstart) vend s"

definition kinit1 :: "u32 \<Rightarrow> u32 \<Rightarrow> 'a kmem_scheme \<Rightarrow> 'a kmem_scheme outcome" where
  "kinit1 vstart vend s = freerange vstart vend (s\<lparr>k_locked := False, k_use_lock := False\<rparr>)"

definition kinit2 :: "u32 \<Rightarrow> u32 \<Rightarrow> 'a kmem_scheme \<Rightarrow> 'a kmem_scheme outcome" where
  "kinit2 vstart vend s = obind (freerange vstart vend s) (\<lambda>s. Ok (s\<lparr>k_use_lock := True\<rparr>))"

text \<open>
  \<open>freerange\<close> frees exactly the whole pages of the range, in increasing order, so the
  list ends with the highest page at its head.
\<close>

lemma freerange_loop_inv:
  assumes "kmem_inv s ps" "p mod PGSIZE = 0" "\<not> p < k_end s" "0x80000000 \<le> unat p"
    "unat p + 4096 * n \<le> unat vend" "unat vend < unat p + 4096 * n + 4096" "unat vend \<le> 0x8E000000"
    "\<And>x. x \<in> set ps \<Longrightarrow> unat x < unat p"
  shows "\<exists>s'. freerange_loop p vend s = Ok s' \<and>
     kmem_inv s' (rev (map (\<lambda>i. p + of_nat i * PGSIZE) [0 ..< n]) @ ps) \<and> k_end s' = k_end s"
  using assms
proof (induction n arbitrary: p s ps)
  case 0
  have "unat p + 4096 < 4294967296" using "0.prems" by simp
  then have "unat (p + PGSIZE) = unat p + 4096" by (simp add: PGSIZE_def unat_add32)
  with 0 show ?case by (subst freerange_loop.simps) (simp add: word_le_nat_alt)
next
  case (Suc n)
  have u: "unat (p + PGSIZE) = unat p + 4096"
    using Suc.prems by (simp add: PGSIZE_def unat_add32)
  have le: "p + PGSIZE \<le> vend" using Suc.prems u by (simp add: word_le_nat_alt)
  have "unat (p - KERNBASE) = unat p - 0x80000000"
    using Suc.prems by (simp add: KERNBASE_def unat_sub32)
  then have ok: "page_ok s p"
    using Suc.prems by (simp add: page_ok_def V2P_def PHYSTOP_def word_le_nat_alt)
  have "p \<notin> set ps" using Suc.prems(8) by blast
  from kfree_inv [OF Suc.prems(1) ok this] obtain s1 where
    s1: "kfree p s = Ok s1" "kmem_inv s1 (p # ps)" "k_end s1 = k_end s" by blast
  have al: "(p + PGSIZE) mod PGSIZE = 0"
    using Suc.prems(2) u by (simp add: page_align)
  have "\<exists>s'. freerange_loop (p + PGSIZE) vend s1 = Ok s' \<and>
     kmem_inv s' (rev (map (\<lambda>i. p + PGSIZE + of_nat i * PGSIZE) [0 ..< n]) @ (p # ps)) \<and>
     k_end s' = k_end s1"
  proof (rule Suc.IH [OF s1(2) al])
    show "\<not> p + PGSIZE < k_end s1" using Suc.prems(3) u s1(3) by (simp add: word_less_nat_alt)
    fix x assume "x \<in> set (p # ps)"
    then show "unat x < unat (p + PGSIZE)" using Suc.prems(8) u by force
  qed (use Suc.prems u in auto)
  moreover have "map (\<lambda>i. p + of_nat i * PGSIZE) [0 ..< Suc n] =
      p # map (\<lambda>i. p + PGSIZE + of_nat i * PGSIZE) [0 ..< n]"
    by (simp add: upt_conv_Cons map_Suc_upt [symmetric] algebra_simps del: upt_Suc)
  ultimately show ?case
    using le s1 by (subst freerange_loop.simps) auto
qed

section \<open>The contract of the page allocator\<close>

text \<open>
  What a client relies on: an allocation from a non-empty list hands out its head and an
  allocation from an empty list returns the null pointer; freeing a page that is usable
  and not on the list puts it at the head. \<open>inv s ps\<close> says that \<open>ps\<close> is the list.
\<close>

locale page_allocator =
  fixes alloc :: "'s \<Rightarrow> (u32 \<times> 's) outcome"
    and free :: "u32 \<Rightarrow> 's \<Rightarrow> 's outcome"
    and inv :: "'s \<Rightarrow> u32 list \<Rightarrow> bool"
    and usable :: "'s \<Rightarrow> u32 \<Rightarrow> bool"
  assumes alloc_empty: "inv s [] \<Longrightarrow> alloc s = Ok (0, s)"
    and alloc_head: "inv s (p # ps) \<Longrightarrow>
      \<exists>s'. alloc s = Ok (p, s') \<and> inv s' ps \<and> p \<noteq> 0 \<and> (\<forall>q. usable s' q = usable s q)"
    and free_head: "inv s ps \<Longrightarrow> usable s v \<Longrightarrow> v \<notin> set ps \<Longrightarrow>
      \<exists>s'. free v s = Ok s' \<and> inv s' (v # ps) \<and> (\<forall>q. usable s' q = usable s q)"
    and inv_pages: "inv s ps \<Longrightarrow> distinct ps \<and> (\<forall>p \<in> set ps. usable s p)"
begin

text \<open>A client that allocates, and frees pages it holds.\<close>

definition held_ok :: "'s \<Rightarrow> u32 list \<Rightarrow> u32 list \<Rightarrow> bool" where
  "held_ok s ps live \<longleftrightarrow> inv s ps \<and> distinct live \<and> set live \<inter> set ps = {} \<and>
     (\<forall>v \<in> set live. usable s v)"

lemma alloc_fresh:
  assumes "held_ok s ps live" "alloc s = Ok (r, s')" "r \<noteq> 0"
  shows "r \<notin> set live \<and> held_ok s' (tl ps) (r # live)"
proof (cases ps)
  case Nil
  with assms alloc_empty [of s] show ?thesis by (auto simp: held_ok_def)
next
  case (Cons p qs)
  with assms(1) have "inv s (p # qs)" by (simp add: held_ok_def)
  with alloc_head [OF this] inv_pages [OF this] assms Cons show ?thesis
    by (auto simp: held_ok_def)
qed

lemma free_held:
  assumes "held_ok s ps live" "v \<in> set live"
  shows "\<exists>s'. free v s = Ok s' \<and> held_ok s' (v # ps) (remove1 v live)"
proof -
  from assms have "inv s ps" "usable s v" "v \<notin> set ps" by (auto simp: held_ok_def)
  from free_head [OF this] assms show ?thesis
    by (auto simp: held_ok_def dest: in_set_remove1 [THEN iffD1] notin_set_remove1)
qed

lemma free_then_alloc:
  assumes "held_ok s ps live" "v \<in> set live"
  shows "\<exists>s1 s2. free v s = Ok s1 \<and> alloc s1 = Ok (v, s2) \<and> inv s2 ps"
proof -
  from assms have h: "inv s ps" "usable s v" "v \<notin> set ps" by (auto simp: held_ok_def)
  from free_head [OF h] obtain s1 where s1: "free v s = Ok s1" "inv s1 (v # ps)" by blast
  from alloc_head [OF s1(2)] s1(1) show ?thesis by blast
qed

lemma alloc_conserves:
  assumes "held_ok s ps live" "alloc s = Ok (r, s')" "r \<noteq> 0"
  shows "set (r # live) \<union> set (tl ps) = set live \<union> set ps"
proof (cases ps)
  case Nil
  with assms alloc_empty [of s] show ?thesis by (auto simp: held_ok_def)
next
  case (Cons p qs)
  with assms(1) have "inv s (p # qs)" by (simp add: held_ok_def)
  with alloc_head [OF this] assms Cons show ?thesis by auto
qed

end

lemma page_ok_cong: "k_end s' = k_end s \<Longrightarrow> page_ok s' p = page_ok s p"
  by (simp add: page_ok_def)

interpretation ka: page_allocator kalloc kfree kmem_inv page_ok
proof unfold_locales
  show "\<And>s. kmem_inv s [] \<Longrightarrow> kalloc s = Ok (0, s)" by (rule kalloc_inv_Nil)
next
  fix s p ps assume "kmem_inv s (p # ps)"
  from kalloc_inv_Cons [OF this]
  show "\<exists>s'. kalloc s = Ok (p, s') \<and> kmem_inv s' ps \<and> p \<noteq> 0 \<and> (\<forall>q. page_ok s' q = page_ok s q)"
    using page_ok_cong by blast
next
  fix s ps v assume "kmem_inv s ps" "page_ok s v" "v \<notin> set ps"
  from kfree_inv [OF this]
  show "\<exists>s'. kfree v s = Ok s' \<and> kmem_inv s' (v # ps) \<and> (\<forall>q. page_ok s' q = page_ok s q)"
    using page_ok_cong by blast
next
  fix s ps assume "kmem_inv s ps"
  then show "distinct ps \<and> (\<forall>p \<in> set ps. page_ok s p)" by (simp add: kmem_inv_def)
qed

text \<open>A run of a client: \<open>True\<close> allocates, \<open>False\<close> frees the page it has held longest.\<close>

fun page_run :: "bool list \<Rightarrow> 'a kmem_scheme \<Rightarrow> u32 list \<Rightarrow> ('a kmem_scheme \<times> u32 list) outcome" where
  "page_run [] s live = Ok (s, live)"
| "page_run (True # ops) s live =
     obind (kalloc s) (\<lambda>(r, s). page_run ops s (if r = 0 then live else live @ [r]))"
| "page_run (False # ops) s live =
     (case live of [] \<Rightarrow> page_run ops s []
      | v # vs \<Rightarrow> obind (kfree v s) (\<lambda>s. page_run ops s vs))"


lemma page_run_held:
  "ka.held_ok s ps live \<Longrightarrow>
   \<exists>s' live' ps'. page_run ops s live = Ok (s', live') \<and> ka.held_ok s' ps' live' \<and>
     set live' \<union> set ps' = set live \<union> set ps"
proof (induction ops s live arbitrary: ps rule: page_run.induct)
  case (1 s live)
  then show ?case by auto
next
  case (2 ops s live)
  have "kmem_inv s ps" using "2.prems" by (simp add: ka.held_ok_def)
  then have "\<not> k_locked s" by (simp add: kmem_inv_def)
  then obtain r s1 where a: "kalloc s = Ok (r, s1)" by (simp add: kalloc_Ok)
  show ?case
  proof (cases "r = 0")
    case True
    have "ps = []"
    proof (cases ps)
      case (Cons p qs)
      with "2.prems" kalloc_inv_Cons [of s p qs] a True show ?thesis
        by (auto simp: ka.held_ok_def)
    qed
    with "2.prems" a True have "s1 = s" using kalloc_inv_Nil [of s] by (simp add: ka.held_ok_def)
    with "2.IH" [OF a refl, of ps] "2.prems" a True show ?thesis by simp
  next
    case False
    from ka.alloc_fresh [OF "2.prems" a False]
    have "ka.held_ok s1 (tl ps) (live @ [r])"
      by (auto simp: ka.held_ok_def)
    moreover have "set (live @ [r]) \<union> set (tl ps) = set live \<union> set ps"
      using ka.alloc_conserves [OF "2.prems" a False] by auto
    ultimately show ?thesis
      using "2.IH" [OF a refl, of "tl ps"] a False by fastforce
  qed
next
  case (3 ops s live)
  show ?case
  proof (cases live)
    case Nil
    with "3.IH"(1) [of ps] "3.prems" show ?thesis by auto
  next
    case (Cons v vs)
    from ka.free_held [OF "3.prems", of v] Cons obtain s1 where
      s1: "kfree v s = Ok s1" "ka.held_ok s1 (v # ps) vs" by auto
    from "3.IH"(2) [OF Cons this] Cons s1(1) show ?thesis by auto
  qed
qed

text \<open>
  C11: Whatever sequence of allocations and frees a client makes, the allocator never
  panics and never hands out a page that is held or on the free list: the pages held stay
  distinct and off the list, and no page is lost.
\<close>

theorem kalloc_never_double_allocates:
  assumes "kmem_inv s ps" "distinct live" "set live \<inter> set ps = {}" "\<forall>v \<in> set live. page_ok s v"
  shows "\<exists>s' live' ps'. page_run ops s live = Ok (s', live') \<and> kmem_inv s' ps' \<and>
     distinct live' \<and> set live' \<inter> set ps' = {} \<and> set live' \<union> set ps' = set live \<union> set ps"
  using page_run_held [of s ps live ops] assms by (auto simp: ka.held_ok_def)

text \<open>A machine with two free pages and its bookkeeping below them.\<close>

definition two_pages :: "unit kmem_scheme" where
  "two_pages = \<lparr>k_mem = kfree_mem (kfree_mem (\<lambda>_. 0) 0x80400000 0) 0x80401000 0x80400000,
     k_locked = False, k_use_lock = True, k_freelist = 0x80401000, k_end = 0x80200000, k_data = 0x80108000\<rparr>"

lemma two_pages_inv: "kmem_inv two_pages [0x80401000, 0x80400000]"
proof -
  let ?s = "\<lparr>k_mem = (\<lambda>_. 0), k_locked = False, k_use_lock = True, k_freelist = 0, k_end = 0x80200000, k_data = 0x80108000\<rparr>"
  let ?s1 = "?s\<lparr>k_mem := kfree_mem (\<lambda>_. 0) 0x80400000 0, k_freelist := 0x80400000\<rparr>"
  have ok: "page_ok ?s 0x80400000" "page_ok ?s1 0x80401000"
    by (simp_all add: page_ok_def PGSIZE_def V2P_def KERNBASE_def PHYSTOP_def)
  have "kmem_inv ?s []" by (simp add: kmem_inv_def)
  from kfree_inv [OF this ok(1)] kfree_Ok [OF ok(1)] have "kmem_inv ?s1 [0x80400000]" by simp
  from kfree_inv [OF this ok(2)] kfree_Ok [OF ok(2)] show ?thesis by (simp add: two_pages_def)
qed

theorem kalloc_never_double_allocates_witness:
  "\<exists>s' live' ps'. page_run [True, True, False, True] two_pages [] = Ok (s', live') \<and>
     kmem_inv s' ps' \<and> distinct live' \<and> set live' \<inter> set ps' = {} \<and>
     set live' \<union> set ps' = set [] \<union> set [0x80401000, 0x80400000]"
  by (rule kalloc_never_double_allocates [OF two_pages_inv]) simp_all

end
