(* ===== verification/Spinlock.thy ===== *)
theory Spinlock
  imports Prelude
begin

text \<open>
  \<^verbatim>\<open>spinlock.c\<close>: the nesting interrupt switch \<^verbatim>\<open>pushcli\<close>/\<^verbatim>\<open>popcli\<close>, the lock
  operations as one CPU executes them, and the interleaving of many CPUs on one lock as a
  step relation, each step one memory access of \<^verbatim>\<open>acquire\<close> or \<^verbatim>\<open>release\<close>.
  \<^verbatim>\<open>mycpu\<close> and \<^verbatim>\<open>cpuid\<close> are from \<^verbatim>\<open>proc.c\<close>.
\<close>

section \<open>CPUs\<close>

text \<open>
  \<^verbatim>\<open>struct cpu\<close>, less the segment tables and the scheduler's saved context, which only
  assembly code reads. \<open>c_if\<close> is the interrupt flag of the CPU's own EFLAGS register.
\<close>

record cpu =
  c_apicid :: u8
  c_started :: u32
  c_ncli :: int
  c_intena :: bool
  c_proc :: "nat option"
  c_if :: bool

text \<open>\<open>apicid\<close> is what \<^verbatim>\<open>lapicid()\<close> reads from the executing CPU's local APIC.\<close>

definition mycpu :: "cpu list \<Rightarrow> bool \<Rightarrow> u8 \<Rightarrow> nat outcome" where
  "mycpu cpus flag_if apicid =
     (if flag_if then Panic ''mycpu called with interrupts enabled''
      else case scan (\<lambda>c. c_apicid c = apicid) cpus of
             Some i \<Rightarrow> Ok i
           | None \<Rightarrow> Panic ''unknown apicid'')"

definition pushcli :: "cpu \<Rightarrow> cpu" where
  "pushcli c =
     (let eflags = c_if c;
          c = c\<lparr>c_if := False\<rparr>;
          c = (if c_ncli c = 0 then c\<lparr>c_intena := eflags\<rparr> else c)
      in c\<lparr>c_ncli := c_ncli c + 1\<rparr>)"

definition popcli :: "cpu \<Rightarrow> cpu outcome" where
  "popcli c =
     (if c_if c then Panic ''popcli - interruptible''
      else
        let c = c\<lparr>c_ncli := c_ncli c - 1\<rparr> in
        if c_ncli c < 0 then Panic ''popcli''
        else if c_ncli c = 0 \<and> c_intena c then Ok (c\<lparr>c_if := True\<rparr>)
        else Ok c)"

section \<open>Lock operations of one CPU\<close>

record spinlock =
  l_locked :: u32
  l_name :: string
  l_cpu :: "nat option"
  l_pcs :: "u32 list"

definition initlock :: "spinlock \<Rightarrow> string \<Rightarrow> spinlock" where
  "initlock lk nm = lk\<lparr>l_name := nm, l_locked := 0, l_cpu := None\<rparr>"

text \<open>
  \<^verbatim>\<open>getcallerpcs\<close> follows the chain of saved frame pointers in memory (read with
  \<open>rd\<close>, a word at an address) for at most 10 frames and pads with zeros.
\<close>

fun callerpcs_from :: "(u32 \<Rightarrow> u32) \<Rightarrow> u32 \<Rightarrow> nat \<Rightarrow> u32 list" where
  "callerpcs_from rd ebp 0 = []"
| "callerpcs_from rd ebp (Suc n) =
     (if ebp = 0 \<or> ebp < 0x80000000 \<or> ebp = 0xffffffff then replicate (Suc n) 0
      else rd (ebp + 4) # callerpcs_from rd (rd ebp) n)"

definition getcallerpcs :: "(u32 \<Rightarrow> u32) \<Rightarrow> u32 \<Rightarrow> u32 list" where
  "getcallerpcs rd v = callerpcs_from rd (v - 8) 10"

text \<open>The functions below run on CPU \<open>me\<close>, whose state is \<open>c\<close>.\<close>

definition holding :: "nat \<Rightarrow> spinlock \<Rightarrow> cpu \<Rightarrow> (bool \<times> cpu) outcome" where
  "holding me lk c =
     (let c = pushcli c; r = (l_locked lk \<noteq> 0 \<and> l_cpu lk = Some me)
      in obind (popcli c) (\<lambda>c. Ok (r, c)))"

definition acquire :: "nat \<Rightarrow> u32 list \<Rightarrow> spinlock \<Rightarrow> cpu \<Rightarrow> (spinlock \<times> cpu) outcome" where
  "acquire me pcs lk c =
     (let c = pushcli c in
      obind (holding me lk c) (\<lambda>(h, c).
      if h then Panic ''acquire''
      else if l_locked lk \<noteq> 0 then Spin
      else Ok (lk\<lparr>l_locked := 1, l_cpu := Some me, l_pcs := pcs\<rparr>, c)))"

definition release :: "nat \<Rightarrow> spinlock \<Rightarrow> cpu \<Rightarrow> (spinlock \<times> cpu) outcome" where
  "release me lk c =
     obind (holding me lk c) (\<lambda>(h, c).
     if \<not> h then Panic ''release''
     else
       let lk = lk\<lparr>l_pcs := (l_pcs lk)[0 := 0]\<rparr>;
           lk = lk\<lparr>l_cpu := None\<rparr>;
           lk = lk\<lparr>l_locked := 0\<rparr>
       in obind (popcli c) (\<lambda>c. Ok (lk, c)))"

section \<open>pushcli and popcli\<close>

text \<open>The state the interrupt switch keeps between calls.\<close>

definition cpu_ok :: "cpu \<Rightarrow> bool" where
  "cpu_ok c \<longleftrightarrow> 0 \<le> c_ncli c \<and> (0 < c_ncli c \<longrightarrow> \<not> c_if c)"

lemma pushcli_ok: "cpu_ok c \<Longrightarrow> cpu_ok (pushcli c)"
  by (simp add: cpu_ok_def pushcli_def Let_def)

lemma pushcli_off: "\<not> c_if (pushcli c)"
  by (simp add: pushcli_def Let_def)

lemma popcli_ok:
  "cpu_ok c \<Longrightarrow> 0 < c_ncli c \<Longrightarrow>
   \<exists>c'. popcli c = Ok c' \<and> cpu_ok c' \<and> c_ncli c' = c_ncli c - 1 \<and>
     c_if c' = (c_ncli c = 1 \<and> c_intena c) \<and> c_intena c' = c_intena c"
  by (auto simp: cpu_ok_def popcli_def Let_def)

text \<open>A balanced sequence of calls: every \<open>popcli\<close> (\<open>False\<close>) undoes an open \<open>pushcli\<close>.\<close>

fun cli_run :: "bool list \<Rightarrow> cpu \<Rightarrow> cpu outcome" where
  "cli_run [] c = Ok c"
| "cli_run (True # xs) c = cli_run xs (pushcli c)"
| "cli_run (False # xs) c = obind (popcli c) (cli_run xs)"

fun cli_depth :: "bool list \<Rightarrow> int \<Rightarrow> int option" where
  "cli_depth [] n = Some n"
| "cli_depth (True # xs) n = cli_depth xs (n + 1)"
| "cli_depth (False # xs) n = (if n \<le> 0 then None else cli_depth xs (n - 1))"

text \<open>
  With depth \<open>n\<close> open inside an interrupt flag that was \<open>b\<close> outside, interrupts are off,
  and \<open>b\<close> is what is stored for the end.
\<close>

definition cli_nested :: "cpu \<Rightarrow> int \<Rightarrow> bool \<Rightarrow> bool" where
  "cli_nested c n b \<longleftrightarrow> c_ncli c = n \<and> 0 \<le> n \<and>
     (if n = 0 then c_if c = b else \<not> c_if c \<and> c_intena c = b)"

lemma cli_nested_push: "cli_nested c n b \<Longrightarrow> cli_nested (pushcli c) (n + 1) b"
  by (auto simp: cli_nested_def pushcli_def Let_def split: if_splits)

lemma cli_nested_pop:
  "cli_nested c n b \<Longrightarrow> 0 < n \<Longrightarrow> \<exists>c'. popcli c = Ok c' \<and> cli_nested c' (n - 1) b"
  by (auto simp: cli_nested_def popcli_def Let_def split: if_splits)

lemma cli_run_nested:
  "cli_nested c n b \<Longrightarrow> cli_depth xs n = Some m \<Longrightarrow>
   \<exists>c'. cli_run xs c = Ok c' \<and> cli_nested c' m b"
proof (induction xs c arbitrary: n rule: cli_run.induct)
  case (1 c)
  then show ?case by simp
next
  case (2 xs c)
  then show ?case using cli_nested_push by fastforce
next
  case (3 xs c)
  then have n: "0 < n" "cli_depth xs (n - 1) = Some m" by (auto split: if_splits)
  from cli_nested_pop [OF "3.prems"(1) n(1)] obtain c' where
    "popcli c = Ok c'" "cli_nested c' (n - 1) b" by blast
  with "3.IH" n(2) show ?case by fastforce
qed

text \<open>
  C14: After any balanced sequence of \<^verbatim>\<open>pushcli\<close> and \<^verbatim>\<open>popcli\<close> calls the interrupt
  flag is what it was before, no call panics, and inside an open pair interrupts are off.
\<close>

theorem pushcli_popcli_nest:
  assumes "cpu_ok c" "c_ncli c = 0" "cli_depth xs 0 = Some m"
  shows "\<exists>c'. cli_run xs c = Ok c' \<and> c_ncli c' = m \<and>
    (m = 0 \<longrightarrow> c_if c' = c_if c) \<and> (0 < m \<longrightarrow> \<not> c_if c' \<and> c_intena c' = c_if c)"
proof -
  have "cli_nested c 0 (c_if c)" using assms by (simp add: cli_nested_def)
  from cli_run_nested [OF this assms(3)] show ?thesis
    by (auto simp: cli_nested_def split: if_splits)
qed

theorem pushcli_popcli_nest_witness:
  "\<exists>c'. cli_run [True, True, False, True, False, False]
      \<lparr>c_apicid = 0, c_started = 1, c_ncli = 0, c_intena = False, c_proc = None, c_if = True\<rparr> = Ok c' \<and>
     c_ncli c' = 0 \<and> (0 = (0::int) \<longrightarrow> c_if c' = True) \<and> (0 < (0::int) \<longrightarrow> \<not> c_if c' \<and> c_intena c' = True)"
  using pushcli_popcli_nest [of "\<lparr>c_apicid = 0, c_started = 1, c_ncli = 0, c_intena = False,
      c_proc = None, c_if = True\<rparr>" "[True, True, False, True, False, False]" 0]
  by (simp add: cpu_ok_def)

section \<open>acquire and release on one CPU\<close>

lemma holding_eq:
  assumes "cpu_ok c"
  shows "holding me lk c = Ok (l_locked lk \<noteq> 0 \<and> l_cpu lk = Some me,
    if c_ncli c = 0 then c\<lparr>c_intena := c_if c\<rparr> else c)"
  using assms by (auto simp: holding_def pushcli_def popcli_def Let_def cpu_ok_def)

lemma acquire_free:
  assumes "cpu_ok c" "l_locked lk = 0"
  shows "acquire me pcs lk c = Ok (lk\<lparr>l_locked := 1, l_cpu := Some me, l_pcs := pcs\<rparr>, pushcli c)"
proof -
  have "c_ncli (pushcli c) \<noteq> 0" using assms(1) by (simp add: pushcli_def Let_def cpu_ok_def)
  then show ?thesis
    using assms pushcli_ok [OF assms(1)] by (simp add: acquire_def Let_def holding_eq)
qed

lemma release_held:
  assumes "cpu_ok c" "0 < c_ncli c" "l_locked lk \<noteq> 0" "l_cpu lk = Some me"
  shows "\<exists>c'. popcli c = Ok c' \<and> cpu_ok c' \<and> release me lk c =
    Ok (lk\<lparr>l_pcs := (l_pcs lk)[0 := 0], l_cpu := None, l_locked := 0\<rparr>, c')"
proof -
  from popcli_ok [OF assms(1,2)] obtain c' where "popcli c = Ok c'" "cpu_ok c'" by blast
  with assms show ?thesis by (auto simp: release_def holding_eq Let_def)
qed

lemma acquire_held_panics:
  "cpu_ok c \<Longrightarrow> l_locked lk \<noteq> 0 \<Longrightarrow> l_cpu lk = Some me \<Longrightarrow>
   acquire me pcs lk c = Panic ''acquire''"
  using pushcli_ok [of c] by (simp add: acquire_def Let_def holding_eq)

lemma release_unheld_panics:
  "cpu_ok c \<Longrightarrow> \<not> (l_locked lk \<noteq> 0 \<and> l_cpu lk = Some me) \<Longrightarrow> release me lk c = Panic ''release''"
  by (auto simp: release_def holding_eq)

lemma mycpu_own:
  assumes "i < length cs" "distinct (map c_apicid cs)"
  shows "mycpu cs False (c_apicid (cs ! i)) = Ok i"
proof -
  have "scan (\<lambda>c. c_apicid c = c_apicid (cs ! i)) cs = Some i"
    using assms by (auto simp: scan_Some distinct_conv_nth)
  then show ?thesis by (simp add: mycpu_def)
qed

section \<open>Many CPUs and one lock\<close>

text \<open>
  Where a CPU stands in the code of \<^verbatim>\<open>acquire\<close> and \<^verbatim>\<open>release\<close>. A step is one access to
  the shared lock; \<^verbatim>\<open>pushcli\<close> and \<^verbatim>\<open>popcli\<close> touch only the CPU's own state.
\<close>

datatype lock_pc =
    Outside       \<comment> \<open>not in lock code\<close>
  | Checking      \<comment> \<open>interrupts off, before \<open>holding\<close> in \<open>acquire\<close>\<close>
  | Spinning      \<comment> \<open>in the \<open>xchg\<close> loop\<close>
  | Locked        \<comment> \<open>\<open>xchg\<close> returned 0, \<open>lk->cpu\<close> not yet set\<close>
  | Critical      \<comment> \<open>\<open>acquire\<close> has returned\<close>
  | Releasing     \<comment> \<open>\<open>holding\<close> passed in \<open>release\<close>\<close>
  | Cleared       \<comment> \<open>\<open>lk->cpu = 0\<close> done, \<open>lk->locked\<close> still 1\<close>

record lock_sys =
  ls_cpus :: "nat \<Rightarrow> cpu"
  ls_pc :: "nat \<Rightarrow> lock_pc"
  ls_lock :: spinlock

definition at :: "lock_sys \<Rightarrow> nat \<Rightarrow> lock_pc \<Rightarrow> lock_sys" where
  "at s i p = s\<lparr>ls_pc := (ls_pc s)(i := p)\<rparr>"

definition set_cpu :: "lock_sys \<Rightarrow> nat \<Rightarrow> cpu \<Rightarrow> lock_sys" where
  "set_cpu s i c = s\<lparr>ls_cpus := (ls_cpus s)(i := c)\<rparr>"

inductive lock_step :: "lock_sys \<Rightarrow> lock_sys \<Rightarrow> bool" where
  enter: "ls_pc s i = Outside \<Longrightarrow>
    lock_step s (at (set_cpu s i (pushcli (ls_cpus s i))) i Checking)"
| check: "ls_pc s i = Checking \<Longrightarrow> \<not> (l_locked (ls_lock s) \<noteq> 0 \<and> l_cpu (ls_lock s) = Some i) \<Longrightarrow>
    lock_step s (at s i Spinning)"
| spin: "ls_pc s i = Spinning \<Longrightarrow> l_locked (ls_lock s) \<noteq> 0 \<Longrightarrow>
    lock_step s (s\<lparr>ls_lock := (ls_lock s)\<lparr>l_locked := 1\<rparr>\<rparr>)"
| xchg: "ls_pc s i = Spinning \<Longrightarrow> l_locked (ls_lock s) = 0 \<Longrightarrow>
    lock_step s (at (s\<lparr>ls_lock := (ls_lock s)\<lparr>l_locked := 1\<rparr>\<rparr>) i Locked)"
| record_cpu: "ls_pc s i = Locked \<Longrightarrow>
    lock_step s (at (s\<lparr>ls_lock := (ls_lock s)\<lparr>l_cpu := Some i, l_pcs := pcs\<rparr>\<rparr>) i Critical)"
| rel_check: "ls_pc s i = Critical \<Longrightarrow> l_locked (ls_lock s) \<noteq> 0 \<Longrightarrow> l_cpu (ls_lock s) = Some i \<Longrightarrow>
    lock_step s (at s i Releasing)"
| rel_clear: "ls_pc s i = Releasing \<Longrightarrow>
    lock_step s (at (s\<lparr>ls_lock := (ls_lock s)\<lparr>l_pcs := (l_pcs (ls_lock s))[0 := 0], l_cpu := None\<rparr>\<rparr>) i Cleared)"
| rel_unlock: "ls_pc s i = Cleared \<Longrightarrow> popcli (ls_cpus s i) = Ok c \<Longrightarrow>
    lock_step s (at (set_cpu (s\<lparr>ls_lock := (ls_lock s)\<lparr>l_locked := 0\<rparr>\<rparr>) i c) i Outside)"

inductive_cases lock_stepE: "lock_step s t"

definition lock_start :: "(nat \<Rightarrow> cpu) \<Rightarrow> spinlock \<Rightarrow> lock_sys" where
  "lock_start cs lk = \<lparr>ls_cpus = cs, ls_pc = (\<lambda>_. Outside), ls_lock = initlock lk ''lock''\<rparr>"

inductive lock_reach :: "lock_sys \<Rightarrow> bool" where
  start: "\<forall>i. c_ncli (cs i) = 0 \<Longrightarrow> lock_reach (lock_start cs lk)"
| step: "lock_reach s \<Longrightarrow> lock_step s t \<Longrightarrow> lock_reach t"

text \<open>The CPUs between a successful \<open>xchg\<close> and the store that unlocks.\<close>

definition owns :: "lock_sys \<Rightarrow> nat \<Rightarrow> bool" where
  "owns s i \<longleftrightarrow> ls_pc s i \<in> {Locked, Critical, Releasing, Cleared}"

definition lock_inv :: "lock_sys \<Rightarrow> bool" where
  "lock_inv s \<longleftrightarrow>
     (\<forall>i. owns s i \<longrightarrow> l_locked (ls_lock s) \<noteq> 0) \<and>
     (\<forall>i j. owns s i \<longrightarrow> owns s j \<longrightarrow> i = j) \<and>
     (\<forall>i. l_cpu (ls_lock s) = Some i \<longleftrightarrow> ls_pc s i \<in> {Critical, Releasing}) \<and>
     (l_locked (ls_lock s) \<noteq> 0 \<longrightarrow> (\<exists>i. owns s i)) \<and>
     (\<forall>i. if ls_pc s i = Outside then c_ncli (ls_cpus s i) = 0
          else c_ncli (ls_cpus s i) = 1 \<and> \<not> c_if (ls_cpus s i))"

lemma lock_inv_start: "\<forall>i. c_ncli (cs i) = 0 \<Longrightarrow> lock_inv (lock_start cs lk)"
  by (simp add: lock_inv_def lock_start_def owns_def initlock_def)

lemma at_simps [simp]:
  "ls_pc (at s i p) = (ls_pc s)(i := p)" "ls_cpus (at s i p) = ls_cpus s" "ls_lock (at s i p) = ls_lock s"
  "ls_pc (set_cpu s i c) = ls_pc s" "ls_cpus (set_cpu s i c) = (ls_cpus s)(i := c)"
  "ls_lock (set_cpu s i c) = ls_lock s"
  by (simp_all add: at_def set_cpu_def)

lemma owns_at [simp]:
  "owns (at s i p) j = (if j = i then p \<in> {Locked, Critical, Releasing, Cleared} else owns s j)"
  "owns (set_cpu s i c) j = owns s j" "owns (s\<lparr>ls_lock := lk\<rparr>) j = owns s j"
  by (simp_all add: owns_def)

lemma owns_pc:
  "ls_pc s i = Outside \<Longrightarrow> \<not> owns s i" "ls_pc s i = Checking \<Longrightarrow> \<not> owns s i"
  "ls_pc s i = Spinning \<Longrightarrow> \<not> owns s i" "ls_pc s i = Locked \<Longrightarrow> owns s i"
  "ls_pc s i = Critical \<Longrightarrow> owns s i" "ls_pc s i = Releasing \<Longrightarrow> owns s i"
  "ls_pc s i = Cleared \<Longrightarrow> owns s i"
  by (simp_all add: owns_def)

lemma lock_invD:
  assumes "lock_inv s"
  shows "owns s i \<Longrightarrow> l_locked (ls_lock s) \<noteq> 0" "owns s i \<Longrightarrow> owns s j \<Longrightarrow> i = j"
    "l_cpu (ls_lock s) = Some i \<longleftrightarrow> ls_pc s i \<in> {Critical, Releasing}"
    "l_locked (ls_lock s) \<noteq> 0 \<Longrightarrow> \<exists>i. owns s i"
    "ls_pc s i = Outside \<Longrightarrow> c_ncli (ls_cpus s i) = 0"
    "ls_pc s i \<noteq> Outside \<Longrightarrow> c_ncli (ls_cpus s i) = 1 \<and> \<not> c_if (ls_cpus s i)"
proof -
  note d = assms [unfolded lock_inv_def]
  show "owns s i \<Longrightarrow> l_locked (ls_lock s) \<noteq> 0" "owns s i \<Longrightarrow> owns s j \<Longrightarrow> i = j"
    "l_cpu (ls_lock s) = Some i \<longleftrightarrow> ls_pc s i \<in> {Critical, Releasing}"
    "l_locked (ls_lock s) \<noteq> 0 \<Longrightarrow> \<exists>i. owns s i" using d by blast+
  have "if ls_pc s i = Outside then c_ncli (ls_cpus s i) = 0
      else c_ncli (ls_cpus s i) = 1 \<and> \<not> c_if (ls_cpus s i)" using d by blast
  then show "ls_pc s i = Outside \<Longrightarrow> c_ncli (ls_cpus s i) = 0"
    "ls_pc s i \<noteq> Outside \<Longrightarrow> c_ncli (ls_cpus s i) = 1 \<and> \<not> c_if (ls_cpus s i)" by auto
qed

lemma lock_invI:
  assumes "\<And>i. owns s i \<Longrightarrow> l_locked (ls_lock s) \<noteq> 0"
    "\<And>i j. owns s i \<Longrightarrow> owns s j \<Longrightarrow> i = j"
    "\<And>i. l_cpu (ls_lock s) = Some i \<longleftrightarrow> ls_pc s i \<in> {Critical, Releasing}"
    "l_locked (ls_lock s) \<noteq> 0 \<Longrightarrow> \<exists>i. owns s i"
    "\<And>i. ls_pc s i = Outside \<Longrightarrow> c_ncli (ls_cpus s i) = 0"
    "\<And>i. ls_pc s i \<noteq> Outside \<Longrightarrow> c_ncli (ls_cpus s i) = 1 \<and> \<not> c_if (ls_cpus s i)"
  shows "lock_inv s"
proof -
  have "\<forall>i. owns s i \<longrightarrow> l_locked (ls_lock s) \<noteq> 0" using assms(1) by blast
  moreover have "\<forall>i j. owns s i \<longrightarrow> owns s j \<longrightarrow> i = j" using assms(2) by blast
  moreover have "\<forall>i. if ls_pc s i = Outside then c_ncli (ls_cpus s i) = 0
      else c_ncli (ls_cpus s i) = 1 \<and> \<not> c_if (ls_cpus s i)" using assms(5,6) by simp
  ultimately show ?thesis unfolding lock_inv_def using assms(3,4) by simp
qed

text \<open>The owner, where there is one, is another CPU than one that is not in its section.\<close>

lemma other_owner:
  assumes "lock_inv s" "\<not> owns s i" "l_locked (ls_lock s) \<noteq> 0"
  obtains j where "j \<noteq> i" "owns s j"
proof -
  obtain j where "owns s j" using lock_invD(4) [OF assms(1,3)] by blast
  with assms(2) show ?thesis by (intro that [of j]) auto
qed

lemma lock_step_inv:
  assumes "lock_step s t" "lock_inv s"
  shows "lock_inv t"
  using assms
proof (induction rule: lock_step.induct)
  case (enter s i)
  note d = lock_invD [OF enter.prems] and n = owns_pc(1) [OF enter.hyps]
  show ?case
    by (rule lock_invI) (use d n enter.hyps in \<open>auto simp: pushcli_def Let_def split: if_splits
      elim!: other_owner [OF enter.prems n]\<close>)
next
  case (check s i)
  note d = lock_invD [OF check.prems] and n = owns_pc(2) [OF check.hyps(1)]
  show ?case
    by (rule lock_invI) (use d n check.hyps in \<open>auto split: if_splits elim!: other_owner [OF check.prems n]\<close>)
next
  case (spin s i)
  note d = lock_invD [OF spin.prems]
  show ?case by (rule lock_invI) (use d spin.hyps in \<open>auto split: if_splits\<close>)
next
  case (xchg s i)
  note d = lock_invD [OF xchg.prems]
  have "\<not> owns s j" for j using d(1) [of j] xchg.hyps(2) by blast
  with d xchg.hyps show ?case by (intro lock_invI) (auto split: if_splits)
next
  case (record_cpu s i pcs)
  note d = lock_invD [OF record_cpu.prems] and o = owns_pc(4) [OF record_cpu.hyps]
  have ne: "ls_pc s j \<notin> {Critical, Releasing}" if "j \<noteq> i" for j
    using that d(2) [OF o, of j] by (auto simp: owns_def)
  show ?case by (rule lock_invI) (use d o ne record_cpu.hyps in \<open>auto split: if_splits\<close>)
next
  case (rel_check s i)
  note d = lock_invD [OF rel_check.prems] and o = owns_pc(5) [OF rel_check.hyps(1)]
  show ?case by (rule lock_invI) (use d o rel_check.hyps in \<open>auto split: if_splits\<close>)
next
  case (rel_clear s i)
  note d = lock_invD [OF rel_clear.prems] and o = owns_pc(6) [OF rel_clear.hyps]
  have ne: "ls_pc s j \<notin> {Critical, Releasing}" if "j \<noteq> i" for j
    using that d(2) [OF o, of j] by (auto simp: owns_def)
  show ?case by (rule lock_invI) (use d o ne rel_clear.hyps in \<open>auto split: if_splits\<close>)
next
  case (rel_unlock s i c)
  note d = lock_invD [OF rel_unlock.prems] and o = owns_pc(7) [OF rel_unlock.hyps(1)]
  have c: "c_ncli c = 0"
    using rel_unlock.hyps d(6) [of i] by (auto simp: popcli_def Let_def split: if_splits)
  have ne: "\<not> owns s j" if "j \<noteq> i" for j using that d(2) [OF o, of j] by blast
  show ?case by (rule lock_invI) (use d c ne rel_unlock.hyps in \<open>auto split: if_splits\<close>)
qed

lemma lock_reach_inv: "lock_reach s \<Longrightarrow> lock_inv s"
  by (induction rule: lock_reach.induct) (auto intro: lock_inv_start lock_step_inv)



definition one_cpu :: cpu where
  "one_cpu = \<lparr>c_apicid = 0, c_started = 1, c_ncli = 0, c_intena = False, c_proc = None, c_if = True\<rparr>"

definition raw_lock :: spinlock where
  "raw_lock = \<lparr>l_locked = 0, l_name = [], l_cpu = None, l_pcs = replicate 10 0\<rparr>"

text \<open>An uncontended CPU gets through \<^verbatim>\<open>acquire\<close>.\<close>

lemma lock_reach_acquires:
  assumes r: "lock_reach s" and pc: "ls_pc s i = Outside" and free: "l_locked (ls_lock s) = 0"
  shows "\<exists>t. lock_reach t \<and> ls_pc t i = Critical"
proof -
  define s1 where "s1 = at (set_cpu s i (pushcli (ls_cpus s i))) i Checking"
  have r1: "lock_reach s1" unfolding s1_def by (rule lock_reach.step [OF r lock_step.enter [OF pc]])
  have p1: "ls_pc s1 i = Checking" "l_locked (ls_lock s1) = 0" using free by (simp_all add: s1_def)
  define s2 where "s2 = at s1 i Spinning"
  have r2: "lock_reach s2" unfolding s2_def
    by (rule lock_reach.step [OF r1 lock_step.check [OF p1(1)]]) (simp add: p1(2))
  have p2: "ls_pc s2 i = Spinning" "l_locked (ls_lock s2) = 0" using p1 by (simp_all add: s2_def)
  define s3 where "s3 = at (s2\<lparr>ls_lock := (ls_lock s2)\<lparr>l_locked := 1\<rparr>\<rparr>) i Locked"
  have r3: "lock_reach s3" unfolding s3_def by (rule lock_reach.step [OF r2 lock_step.xchg [OF p2]])
  have p3: "ls_pc s3 i = Locked" by (simp add: s3_def)
  define s4 where "s4 = at (s3\<lparr>ls_lock := (ls_lock s3)\<lparr>l_cpu := Some i, l_pcs := []\<rparr>\<rparr>) i Critical"
  have "lock_reach s4" unfolding s4_def by (rule lock_reach.step [OF r3 lock_step.record_cpu [OF p3]])
  moreover have "ls_pc s4 i = Critical" by (simp add: s4_def)
  ultimately show ?thesis by blast
qed


end
