(* ===== verification/Vm.thy ===== *)
theory Vm
  imports Kalloc
begin

text \<open>
  \<^verbatim>\<open>vm.c\<close> with the page-table macros of \<^verbatim>\<open>mmu.h\<close>: two-level page tables kept in
  physical pages of the allocator. A page directory is named by its kernel address, and
  entries are read and written in the byte memory. The pointer 0 is null.
\<close>

unbundle bit_operations_syntax

section \<open>Page-table macros\<close>

definition PTE_P :: u32 where "PTE_P = 1"
definition PTE_W :: u32 where "PTE_W = 2"
definition PTE_U :: u32 where "PTE_U = 4"

definition PDX :: "u32 \<Rightarrow> u32" where "PDX va = drop_bit 22 va AND 0x3FF"
definition PTX :: "u32 \<Rightarrow> u32" where "PTX va = drop_bit 12 va AND 0x3FF"
definition PGADDR :: "u32 \<Rightarrow> u32 \<Rightarrow> u32 \<Rightarrow> u32" where
  "PGADDR d t off = push_bit 22 d OR push_bit 12 t OR off"
definition PTE_ADDR :: "u32 \<Rightarrow> u32" where "PTE_ADDR pte = pte AND NOT 0xFFF"
definition PTE_FLAGS :: "u32 \<Rightarrow> u32" where "PTE_FLAGS pte = pte AND 0xFFF"

definition NPDENTRIES :: nat where "NPDENTRIES = 1024"

section \<open>Walking and extending a page table\<close>

text \<open>Returns the address of the entry for \<open>va\<close>, or 0.\<close>

definition walkpgdir :: "u32 \<Rightarrow> u32 \<Rightarrow> bool \<Rightarrow> 'a kmem_scheme \<Rightarrow> (u32 \<times> 'a kmem_scheme) outcome" where
  "walkpgdir pgdir va alloc s =
     (let pde = pgdir + 4 * PDX va in
      if load32 (k_mem s) pde AND PTE_P \<noteq> 0 then
        let pgtab = P2V (PTE_ADDR (load32 (k_mem s) pde)) in
        Ok (pgtab + 4 * PTX va, s)
      else if \<not> alloc then Ok (0, s)
      else obind (kalloc s) (\<lambda>(pgtab, s).
        if pgtab = 0 then Ok (0, s)
        else
          let s = s\<lparr>k_mem := memset (k_mem s) pgtab 0 PGSIZE\<rparr>;
              s = s\<lparr>k_mem := store32 (k_mem s) pde (V2P pgtab OR PTE_P OR PTE_W OR PTE_U)\<rparr>
          in Ok (pgtab + 4 * PTX va, s)))"

text \<open>
  The loop of \<^verbatim>\<open>mappages\<close> leaves only at \<open>a = last\<close>; the first argument bounds its
  turns, and running out of it stands for a loop that goes on (\<open>Spin\<close>). \<open>mappages\<close> gives
  it one turn for every page from the first to the last, which is enough
  on every range that does not wrap (\<open>mappages_maps_range\<close> proves that it returns). The result is \<open>True\<close> for 0 and \<open>False\<close> for -1.
\<close>

fun mappages_loop :: "nat \<Rightarrow> u32 \<Rightarrow> u32 \<Rightarrow> u32 \<Rightarrow> u32 \<Rightarrow> u32 \<Rightarrow> 'a kmem_scheme \<Rightarrow> (bool \<times> 'a kmem_scheme) outcome" where
  "mappages_loop 0 pgdir a lst pa perm s = Spin"
| "mappages_loop (Suc n) pgdir a lst pa perm s =
     obind (walkpgdir pgdir a True s) (\<lambda>(pte, s).
     if pte = 0 then Ok (False, s)
     else if load32 (k_mem s) pte AND PTE_P \<noteq> 0 then Panic ''remap''
     else
       let s = s\<lparr>k_mem := store32 (k_mem s) pte (pa OR perm OR PTE_P)\<rparr> in
       if a = lst then Ok (True, s)
       else mappages_loop n pgdir (a + PGSIZE) lst (pa + PGSIZE) perm s)"

definition mappages :: "u32 \<Rightarrow> u32 \<Rightarrow> u32 \<Rightarrow> u32 \<Rightarrow> u32 \<Rightarrow> 'a kmem_scheme \<Rightarrow> (bool \<times> 'a kmem_scheme) outcome" where
  "mappages pgdir va sz pa perm s =
     (let a = PGROUNDDOWN va;
          lst = PGROUNDDOWN (va + sz - 1)
      in mappages_loop (Suc (unat ((lst - a) div PGSIZE))) pgdir a lst pa perm s)"

section \<open>Releasing user memory and page tables\<close>

text \<open>
  The loop of \<^verbatim>\<open>deallocuvm\<close>, with a bound on its turns as above: where there is no page
  table it skips to the next directory entry.
\<close>

fun deallocuvm_loop :: "nat \<Rightarrow> u32 \<Rightarrow> u32 \<Rightarrow> u32 \<Rightarrow> 'a kmem_scheme \<Rightarrow> 'a kmem_scheme outcome" where
  "deallocuvm_loop n pgdir a oldsz s =
     (if a < oldsz then
        case n of
          0 \<Rightarrow> Spin
        | Suc n \<Rightarrow>
            obind (walkpgdir pgdir a False s) (\<lambda>(pte, s).
            if pte = 0 then
              deallocuvm_loop n pgdir (PGADDR (PDX a + 1) 0 0 - PGSIZE + PGSIZE) oldsz s
            else if load32 (k_mem s) pte AND PTE_P \<noteq> 0 then
              let pa = PTE_ADDR (load32 (k_mem s) pte) in
              if pa = 0 then Panic ''kfree''
              else
                obind (kfree (P2V pa) s) (\<lambda>s.
                let s = s\<lparr>k_mem := store32 (k_mem s) pte 0\<rparr> in
                deallocuvm_loop n pgdir (a + PGSIZE) oldsz s)
            else deallocuvm_loop n pgdir (a + PGSIZE) oldsz s)
      else Ok s)"

declare deallocuvm_loop.simps [simp del]

definition deallocuvm :: "u32 \<Rightarrow> u32 \<Rightarrow> u32 \<Rightarrow> 'a kmem_scheme \<Rightarrow> (u32 \<times> 'a kmem_scheme) outcome" where
  "deallocuvm pgdir oldsz newsz s =
     (if newsz \<ge> oldsz then Ok (oldsz, s)
      else obind (deallocuvm_loop (Suc (unat (oldsz div PGSIZE))) pgdir (PGROUNDUP newsz) oldsz s)
             (\<lambda>s. Ok (newsz, s)))"

fun freevm_tables :: "u32 \<Rightarrow> nat list \<Rightarrow> 'a kmem_scheme \<Rightarrow> 'a kmem_scheme outcome" where
  "freevm_tables pgdir [] s = Ok s"
| "freevm_tables pgdir (i # is) s =
     (let pde = load32 (k_mem s) (pgdir + 4 * of_nat i) in
      if pde AND PTE_P \<noteq> 0 then
        obind (kfree (P2V (PTE_ADDR pde)) s) (freevm_tables pgdir is)
      else freevm_tables pgdir is s)"

definition freevm :: "u32 \<Rightarrow> 'a kmem_scheme \<Rightarrow> 'a kmem_scheme outcome" where
  "freevm pgdir s =
     (if pgdir = 0 then Panic ''freevm: no pgdir''
      else
        obind (deallocuvm pgdir KERNBASE 0 s) (\<lambda>(sz, s).
        obind (freevm_tables pgdir [0 ..< NPDENTRIES] s) (\<lambda>s.
        kfree pgdir s)))"

section \<open>Building address spaces\<close>

text \<open>The kernel's mappings: virtual start, physical start, physical end, permissions.\<close>

definition kmap :: "'a kmem_scheme \<Rightarrow> (u32 \<times> u32 \<times> u32 \<times> u32) list" where
  "kmap s =
     [(KERNBASE, 0, EXTMEM, PTE_W),
      (KERNLINK, V2P KERNLINK, V2P (k_data s), 0),
      (k_data s, V2P (k_data s), PHYSTOP, PTE_W),
      (DEVSPACE, DEVSPACE, 0, PTE_W)]"

fun setupkvm_loop :: "u32 \<Rightarrow> (u32 \<times> u32 \<times> u32 \<times> u32) list \<Rightarrow> 'a kmem_scheme \<Rightarrow> (u32 \<times> 'a kmem_scheme) outcome" where
  "setupkvm_loop pgdir [] s = Ok (pgdir, s)"
| "setupkvm_loop pgdir ((virt, phys_start, phys_end, perm) # ks) s =
     obind (mappages pgdir virt (phys_end - phys_start) phys_start perm s) (\<lambda>(ok, s).
     if \<not> ok then obind (freevm pgdir s) (\<lambda>s. Ok (0, s))
     else setupkvm_loop pgdir ks s)"

definition setupkvm :: "'a kmem_scheme \<Rightarrow> (u32 \<times> 'a kmem_scheme) outcome" where
  "setupkvm s =
     obind (kalloc s) (\<lambda>(pgdir, s).
     if pgdir = 0 then Ok (0, s)
     else
       let s = s\<lparr>k_mem := memset (k_mem s) pgdir 0 PGSIZE\<rparr> in
       if P2V PHYSTOP > DEVSPACE then Panic ''PHYSTOP too high''
       else setupkvm_loop pgdir (kmap s) s)"

text \<open>\<open>init\<close> is the kernel address of the program text to copy.\<close>

definition inituvm :: "u32 \<Rightarrow> u32 \<Rightarrow> u32 \<Rightarrow> 'a kmem_scheme \<Rightarrow> 'a kmem_scheme outcome" where
  "inituvm pgdir init sz s =
     (if sz \<ge> PGSIZE then Panic ''inituvm: more than a page''
      else
        obind (kalloc s) (\<lambda>(mem, s).
        let s = s\<lparr>k_mem := memset (k_mem s) mem 0 PGSIZE\<rparr> in
        obind (mappages pgdir 0 PGSIZE (V2P mem) (PTE_W OR PTE_U) s) (\<lambda>(ok, s).
        Ok (s\<lparr>k_mem := memmove (k_mem s) mem init sz\<rparr>))))"

text \<open>The loop of \<^verbatim>\<open>allocuvm\<close>; a failure gives back what this call has mapped.\<close>

fun allocuvm_loop :: "nat \<Rightarrow> u32 \<Rightarrow> u32 \<Rightarrow> u32 \<Rightarrow> u32 \<Rightarrow> 'a kmem_scheme \<Rightarrow> (u32 \<times> 'a kmem_scheme) outcome" where
  "allocuvm_loop n pgdir a oldsz newsz s =
     (if a < newsz then
        case n of
          0 \<Rightarrow> Spin
        | Suc n \<Rightarrow>
            obind (kalloc s) (\<lambda>(mem, s).
            if mem = 0 then
              obind (deallocuvm pgdir newsz oldsz s) (\<lambda>(r, s). Ok (0, s))
            else
              let s = s\<lparr>k_mem := memset (k_mem s) mem 0 PGSIZE\<rparr> in
              obind (mappages pgdir a PGSIZE (V2P mem) (PTE_W OR PTE_U) s) (\<lambda>(ok, s).
              if \<not> ok then
                obind (deallocuvm pgdir newsz oldsz s) (\<lambda>(r, s).
                obind (kfree mem s) (\<lambda>s. Ok (0, s)))
              else allocuvm_loop n pgdir (a + PGSIZE) oldsz newsz s))
      else Ok (newsz, s))"

declare allocuvm_loop.simps [simp del]

definition allocuvm :: "u32 \<Rightarrow> u32 \<Rightarrow> u32 \<Rightarrow> 'a kmem_scheme \<Rightarrow> (u32 \<times> 'a kmem_scheme) outcome" where
  "allocuvm pgdir oldsz newsz s =
     (if newsz \<ge> KERNBASE then Ok (0, s)
      else if newsz < oldsz then Ok (oldsz, s)
      else allocuvm_loop (Suc (unat (newsz div PGSIZE))) pgdir (PGROUNDUP oldsz) oldsz newsz s)"

definition clearpteu :: "u32 \<Rightarrow> u32 \<Rightarrow> 'a kmem_scheme \<Rightarrow> 'a kmem_scheme outcome" where
  "clearpteu pgdir uva s =
     obind (walkpgdir pgdir uva False s) (\<lambda>(pte, s).
     if pte = 0 then Panic ''clearpteu''
     else Ok (s\<lparr>k_mem := store32 (k_mem s) pte (load32 (k_mem s) pte AND NOT PTE_U)\<rparr>))"

fun copyuvm_loop :: "nat \<Rightarrow> u32 \<Rightarrow> u32 \<Rightarrow> u32 \<Rightarrow> u32 \<Rightarrow> 'a kmem_scheme \<Rightarrow> (u32 \<times> 'a kmem_scheme) outcome" where
  "copyuvm_loop n pgdir d i sz s =
     (if i < sz then
        case n of
          0 \<Rightarrow> Spin
        | Suc n \<Rightarrow>
            obind (walkpgdir pgdir i False s) (\<lambda>(pte, s).
            if pte = 0 then Panic ''copyuvm: pte should exist''
            else if load32 (k_mem s) pte AND PTE_P = 0 then Panic ''copyuvm: page not present''
            else
              let pa = PTE_ADDR (load32 (k_mem s) pte);
                  flags = PTE_FLAGS (load32 (k_mem s) pte) in
              obind (kalloc s) (\<lambda>(mem, s).
              if mem = 0 then obind (freevm d s) (\<lambda>s. Ok (0, s))
              else
                let s = s\<lparr>k_mem := memmove (k_mem s) mem (P2V pa) PGSIZE\<rparr> in
                obind (mappages d i PGSIZE (V2P mem) flags s) (\<lambda>(ok, s).
                if \<not> ok then
                  obind (kfree mem s) (\<lambda>s.
                  obind (freevm d s) (\<lambda>s. Ok (0, s)))
                else copyuvm_loop n pgdir d (i + PGSIZE) sz s)))
      else Ok (d, s))"

declare copyuvm_loop.simps [simp del]

definition copyuvm :: "u32 \<Rightarrow> u32 \<Rightarrow> 'a kmem_scheme \<Rightarrow> (u32 \<times> 'a kmem_scheme) outcome" where
  "copyuvm pgdir sz s =
     obind (setupkvm s) (\<lambda>(d, s).
     if d = 0 then Ok (0, s)
     else copyuvm_loop (Suc (unat (sz div PGSIZE))) pgdir d 0 sz s)"

section \<open>User addresses\<close>

text \<open>
  \<^verbatim>\<open>uva2ka\<close> does not test the entry's address for null: where there is no page table it
  reads the word at address 0.
\<close>

definition uva2ka :: "u32 \<Rightarrow> u32 \<Rightarrow> 'a kmem_scheme \<Rightarrow> (u32 \<times> 'a kmem_scheme) outcome" where
  "uva2ka pgdir uva s =
     obind (walkpgdir pgdir uva False s) (\<lambda>(pte, s).
     if load32 (k_mem s) pte AND PTE_P = 0 then Ok (0, s)
     else if load32 (k_mem s) pte AND PTE_U = 0 then Ok (0, s)
     else Ok (P2V (PTE_ADDR (load32 (k_mem s) pte)), s))"

text \<open>The bytes to copy are at kernel address \<open>p\<close>; each turn copies at least one byte.\<close>

fun copyout_loop :: "nat \<Rightarrow> u32 \<Rightarrow> u32 \<Rightarrow> u32 \<Rightarrow> u32 \<Rightarrow> 'a kmem_scheme \<Rightarrow> (bool \<times> 'a kmem_scheme) outcome" where
  "copyout_loop fuel pgdir va buf len s =
     (if len > 0 then
        case fuel of
          0 \<Rightarrow> Spin
        | Suc fuel \<Rightarrow>
            let va0 = PGROUNDDOWN va in
            obind (uva2ka pgdir va0 s) (\<lambda>(pa0, s).
            if pa0 = 0 then Ok (False, s)
            else
              let n = PGSIZE - (va - va0);
                  n = (if n > len then len else n);
                  s = s\<lparr>k_mem := memmove (k_mem s) (pa0 + (va - va0)) buf n\<rparr>
              in copyout_loop fuel pgdir (va0 + PGSIZE) (buf + n) (len - n) s)
      else Ok (True, s))"

declare copyout_loop.simps [simp del]

definition copyout :: "u32 \<Rightarrow> u32 \<Rightarrow> u32 \<Rightarrow> u32 \<Rightarrow> 'a kmem_scheme \<Rightarrow> (bool \<times> 'a kmem_scheme) outcome" where
  "copyout pgdir va p len s = copyout_loop (unat len) pgdir va p len s"

section \<open>Page-table pages\<close>

text \<open>Entry \<open>i\<close> of the page-table page at kernel address \<open>p\<close>.\<close>

definition entry :: "mem \<Rightarrow> u32 \<Rightarrow> u32 \<Rightarrow> u32" where
  "entry m p i = load32 m (p + 4 * i)"

lemma page_room: "p mod PGSIZE = 0 \<Longrightarrow> unat p \<le> 4294963200"
proof -
  assume "p mod PGSIZE = 0"
  then obtain k where k: "unat p = 4096 * k" using page_align by (auto simp: dvd_def)
  then have "4096 * k < 4294967296" using unat_lt32 [of p] by simp
  then show ?thesis using k by simp
qed

lemma unat_entry_addr:
  assumes "p mod PGSIZE = 0" "i < 1024"
  shows "unat (p + 4 * i) = unat p + 4 * unat i"
proof -
  have i: "unat i < 1024" using assms(2) by (simp add: word_less_nat_alt)
  then have m: "unat (4 * i) = 4 * unat i" by (simp add: unat_word_ariths)
  show ?thesis using page_room [OF assms(1)] i by (subst unat_add32) (simp_all add: m)
qed

lemma entry_addr_eq:
  assumes "p mod PGSIZE = 0" "q mod PGSIZE = 0" "i < 1024" "j < 1024"
  shows "p + 4 * i = q + 4 * j \<longleftrightarrow> p = q \<and> i = j"
proof
  assume e: "p + 4 * i = q + 4 * j"
  then have u: "unat p + 4 * unat i = unat q + 4 * unat j"
    using unat_entry_addr assms by metis
  obtain k l where kl: "unat p = 4096 * k" "unat q = 4096 * l"
    using assms(1,2) page_align by (auto simp: dvd_def)
  have ij: "unat i < 1024" "unat j < 1024" using assms(3,4) by (simp_all add: word_less_nat_alt)
  have "k = (4096 * k + 4 * unat i) div 4096" using ij by simp
  also have "\<dots> = (4096 * l + 4 * unat j) div 4096" using u kl by simp
  also have "\<dots> = l" using ij by simp
  finally have "k = l" .
  with kl u show "p = q \<and> i = j" by (auto simp: word_unat_eq_iff)
qed simp

lemma words_apart4:
  assumes "4 dvd unat (a::u32)" "4 dvd unat b" "a \<noteq> b"
  shows "4 \<le> unat (a - b)"
proof -
  obtain k where k: "unat a = 4 * k" using assms(1) by (rule dvdE)
  obtain l where l: "unat b = 4 * l" using assms(2) by (rule dvdE)
  have "k \<noteq> l" using k l assms(3) by (metis word_unat_eq_iff)
  have b: "4 * l < 4294967296" using unat_lt32 [of b] l by linarith
  show ?thesis
  proof (cases "l \<le> k")
    case True
    have "unat (a - b) = unat a - unat b" by (rule unat_sub32) (use True k l in linarith)
    with True k l \<open>k \<noteq> l\<close> show ?thesis by linarith
  next
    case False
    have "unat (a - b) = 4294967296 + unat a - unat b" by (rule unat_sub_wrap32) (use False k l in linarith)
    with k l b show ?thesis by presburger
  qed
qed
lemma entry_addr_aligned:
  assumes "p mod PGSIZE = 0" "i < 1024" shows "4 dvd unat (p + 4 * i)"
proof -
  obtain k where "unat p = 4096 * k" using assms(1) page_align by (metis dvdE)
  then have "unat (p + 4 * i) = 4 * (1024 * k + unat i)"
    unfolding unat_entry_addr [OF assms] distrib_left mult.assoc [symmetric] by simp
  then show ?thesis by (rule dvdI)
qed

lemma entry_store:
  assumes "p mod PGSIZE = 0" "q mod PGSIZE = 0" "i < 1024" "j < 1024"
  shows "entry (store32 m (p + 4 * i) v) q j = (if q = p \<and> j = i then v else entry m q j)"
proof (cases "q = p \<and> j = i")
  case True
  then show ?thesis by (simp add: entry_def load32_store32)
next
  case False
  then have "p + 4 * i \<noteq> q + 4 * j" using entry_addr_eq [OF assms] by blast
  then have "4 \<le> unat (q + 4 * j - (p + 4 * i))" "4 \<le> unat (p + 4 * i - (q + 4 * j))"
    using entry_addr_aligned assms words_apart4 by metis+
  then have "load32 (store32 m (p + 4 * i) v) (q + 4 * j) = load32 m (q + 4 * j)"
    by (rule load32_store32_other)
  with False show ?thesis by (auto simp: entry_def)
qed

lemma in_page_entry_byte:
  assumes "i < 1024" "k < 4"
  shows "in_page p (p + 4 * i + of_nat k)"
proof -
  have i: "unat i < 1024" using assms(1) by (simp add: word_less_nat_alt)
  then have "unat (4 * i) = 4 * unat i" by (simp add: unat_word_ariths)
  moreover have "unat (of_nat k :: u32) = k" using assms(2) by (simp add: unat_of_nat32)
  ultimately have "unat (4 * i + of_nat k) = 4 * unat i + k"
    using i assms(2) by (simp add: unat_add32)
  moreover have "p + 4 * i + of_nat k - p = 4 * i + of_nat k" by simp
  ultimately show ?thesis using i assms(2) by (simp add: in_page_def)
qed

lemma in_page_other:
  assumes "p mod PGSIZE = 0" "q mod PGSIZE = 0" "p \<noteq> q" "in_page q x"
  shows "\<not> in_page p x"
proof
  assume "in_page p x"
  then have x: "unat (x - p) < 4096" "unat (x - q) < 4096" using assms(4) by (simp_all add: in_page_def)
  have far: "4096 \<le> unat (p - q)" "4096 \<le> unat (q - p)" using assms pages_apart by auto
  have e: "p - q = (x - q) - (x - p)" "q - p = (x - p) - (x - q)" by simp_all
  show False
  proof (cases "unat (x - p) \<le> unat (x - q)")
    case True
    then have "unat (p - q) = unat (x - q) - unat (x - p)" unfolding e(1) by (rule unat_sub32)
    with far(1) x show False by linarith
  next
    case False
    then have "unat (q - p) = unat (x - p) - unat (x - q)"
      unfolding e(2) by (intro unat_sub32) simp
    with far(2) x show False by linarith
  qed
qed

lemma entry_outside:
  assumes "\<And>x. \<not> in_page p x \<Longrightarrow> m' x = m x"
    "p mod PGSIZE = 0" "q mod PGSIZE = 0" "p \<noteq> q" "i < 1024"
  shows "entry m' q i = entry m q i"
  unfolding entry_def
proof (rule load32_cong)
  fix k :: nat assume "k < 4"
  then have "\<not> in_page p (q + 4 * i + of_nat k)"
    using in_page_other [OF assms(2-4)] in_page_entry_byte [OF assms(5)] by blast
  then show "m' (q + 4 * i + of_nat k) = m (q + 4 * i + of_nat k)" by (rule assms(1))
qed

lemma load32_zero: "(\<And>k. k < 4 \<Longrightarrow> m (a + of_nat k) = 0) \<Longrightarrow> load32 m a = 0"
proof -
  assume z: "\<And>k. k < 4 \<Longrightarrow> m (a + of_nat k) = 0"
  from z [of 0] z [of 1] z [of 2] z [of 3] show ?thesis by (simp add: load32_def)
qed

lemma entry_memset: "i < 1024 \<Longrightarrow> entry (memset m p 0 PGSIZE) p i = 0"
  unfolding entry_def
proof (rule load32_zero)
  fix k :: nat assume "i < 1024" "k < 4"
  then have "in_page p (p + 4 * i + of_nat k)" by (rule in_page_entry_byte)
  then show "memset m p 0 PGSIZE (p + 4 * i + of_nat k) = 0"
    by (simp add: memset_apply in_page_def PGSIZE_def)
qed

lemma memset_outside: "\<not> in_page p x \<Longrightarrow> memset m p c PGSIZE x = m x"
  by (simp add: memset_apply in_page_def PGSIZE_def)

lemma store_entry_outside:
  assumes "i < 1024" "\<not> in_page p x"
  shows "store32 m (p + 4 * i) v x = m x"
proof -
  have "\<not> unat (x - (p + 4 * i)) < 4"
  proof
    assume k: "unat (x - (p + 4 * i)) < 4"
    let ?k = "unat (x - (p + 4 * i))"
    have "in_page p (p + 4 * i + of_nat ?k)" using assms(1) k by (rule in_page_entry_byte)
    moreover have "p + 4 * i + of_nat ?k = x" by simp
    ultimately show False using assms(2) by simp
  qed
  then show ?thesis by (simp add: store32_apply)
qed

lemma and_10_bits: "(x :: u32) AND 0x3FF < 1024"
proof -
  have "x AND 0x3FF \<le> 0x3FF" by (rule word_and_le1)
  then have "unat (x AND 0x3FF) \<le> unat (0x3FF :: u32)" by (simp only: word_le_nat_alt)
  then show ?thesis by (simp add: word_less_nat_alt)
qed

lemma PDX_less: "PDX va < 1024" and PTX_less: "PTX va < 1024"
  using and_10_bits by (simp_all add: PDX_def PTX_def)

section \<open>What a page table translates\<close>

definition table_of :: "mem \<Rightarrow> u32 \<Rightarrow> u32 \<Rightarrow> u32" where
  "table_of m pgdir i = P2V (PTE_ADDR (entry m pgdir i))"

definition pde_present :: "mem \<Rightarrow> u32 \<Rightarrow> u32 \<Rightarrow> bool" where
  "pde_present m pgdir i \<longleftrightarrow> entry m pgdir i AND PTE_P \<noteq> 0"

text \<open>The page-table entry in force for \<open>va\<close>, 0 where there is no page table.\<close>

definition pte_of :: "mem \<Rightarrow> u32 \<Rightarrow> u32 \<Rightarrow> u32" where
  "pte_of m pgdir va =
     (if pde_present m pgdir (PDX va) then entry m (table_of m pgdir (PDX va)) (PTX va) else 0)"

text \<open>
  A page directory whose tables are pages of their own: the directory and its tables are
  pages, pairwise distinct and none of them on the free list \<open>ps\<close>.
\<close>

definition vm_ok :: "'a kmem_scheme \<Rightarrow> u32 \<Rightarrow> u32 list \<Rightarrow> bool" where
  "vm_ok s pgdir ps \<longleftrightarrow> kmem_inv s ps \<and> page_ok s pgdir \<and> pgdir \<notin> set ps \<and>
     (\<forall>i < 1024. pde_present (k_mem s) pgdir i \<longrightarrow>
        page_ok s (table_of (k_mem s) pgdir i) \<and> table_of (k_mem s) pgdir i \<noteq> pgdir \<and>
        table_of (k_mem s) pgdir i \<notin> set ps \<and>
        (\<forall>j < 1024. pde_present (k_mem s) pgdir j \<longrightarrow>
           table_of (k_mem s) pgdir i = table_of (k_mem s) pgdir j \<longrightarrow> i = j))"

lemma entry_unfold: "load32 m (p + 4 * i) = entry m p i"
  by (simp add: entry_def)

lemma bit_0xFFF: "bit (0xFFF :: u32) n \<longleftrightarrow> n < 12"
proof -
  have m: "(0xFFF :: u32) = mask 12" by (simp add: mask_eq_exp_minus_1)
  show ?thesis unfolding m bit_mask_iff by auto
qed

lemma aligned_take_bit: "v mod PGSIZE = 0 \<longleftrightarrow> take_bit 12 v = 0"
proof -
  have e: "(2::u32) ^ 12 = 4096" by simp
  show ?thesis unfolding PGSIZE_def take_bit_eq_mod e ..
qed

lemma bit_PTE_ADDR: "bit (PTE_ADDR x) n \<longleftrightarrow> 12 \<le> n \<and> bit x n"
  unfolding PTE_ADDR_def bit_and_iff bit_not_iff bit_0xFFF
  by (metis bit_imp_possible_bit not_less)

lemma bit_PTE_FLAGS: "bit (PTE_FLAGS x) n \<longleftrightarrow> n < 12 \<and> bit x n"
  unfolding PTE_FLAGS_def bit_and_iff bit_0xFFF by blast

lemma PTE_ADDR_aligned: "PTE_ADDR x mod PGSIZE = 0"
  unfolding aligned_take_bit
  by (rule bit_word_eqI) (simp add: bit_take_bit_iff bit_PTE_ADDR)

lemma aligned_low_bits:
  assumes "v mod PGSIZE = 0" "n < 12" shows "\<not> bit (v :: u32) n"
proof -
  have e: "take_bit 12 v = 0" by (rule assms(1) [unfolded aligned_take_bit])
  have "\<not> bit (take_bit 12 v) n" unfolding e by simp
  with assms(2) show ?thesis unfolding bit_take_bit_iff by blast
qed

lemma V2P_aligned:
  assumes "v mod PGSIZE = 0" shows "V2P v mod PGSIZE = 0"
proof -
  obtain k where k: "unat v = 4096 * k" using assms unfolding page_align by (rule dvdE)
  have "\<exists>l. unat (v - 0x80000000) = 4096 * l"
  proof (cases "0x80000000 \<le> unat v")
    case True
    have "unat (v - 0x80000000) = unat v - 0x80000000" using True by (simp add: unat_sub32)
    with k True have "unat (v - 0x80000000) = 4096 * (k - 0x80000)" by simp
    then show ?thesis by blast
  next
    case False
    have "unat (v - 0x80000000) = 4294967296 + unat v - 0x80000000"
      using False by (simp add: unat_sub_wrap32)
    with k have "unat (v - 0x80000000) = 4096 * (k + 0x80000)" by simp
    then show ?thesis by blast
  qed
  then show ?thesis unfolding page_align V2P_def KERNBASE_def dvd_def .
qed

text \<open>An entry made of a page's address and flag bits gives both back.\<close>

lemma PTE_ADDR_or:
  assumes "a mod PGSIZE = 0" "PTE_FLAGS f = f"
  shows "PTE_ADDR (a OR f) = a" and "PTE_FLAGS (a OR f) = f"
proof -
  have f: "\<not> bit f n" if "\<not> n < 12" for n
    using that assms(2) bit_PTE_FLAGS by metis
  show "PTE_ADDR (a OR f) = a"
    by (rule bit_word_eqI)
      (use f aligned_low_bits [OF assms(1)] in \<open>metis bit_PTE_ADDR bit_or_iff not_less\<close>)
  show "PTE_FLAGS (a OR f) = f"
    by (rule bit_word_eqI)
      (use f aligned_low_bits [OF assms(1)] in \<open>auto simp: bit_PTE_FLAGS bit_or_iff\<close>)
qed

lemma new_pde:
  assumes "v mod PGSIZE = 0"
  shows "P2V (PTE_ADDR (V2P v OR PTE_P OR PTE_W OR PTE_U)) = v"
    and "(V2P v OR PTE_P OR PTE_W OR PTE_U) AND PTE_P \<noteq> 0"
proof -
  have "PTE_FLAGS (PTE_P OR PTE_W OR PTE_U) = PTE_P OR PTE_W OR PTE_U"
    by (simp add: PTE_FLAGS_def PTE_P_def PTE_W_def PTE_U_def)
  from PTE_ADDR_or [OF V2P_aligned [OF assms] this]
  show "P2V (PTE_ADDR (V2P v OR PTE_P OR PTE_W OR PTE_U)) = v"
    by (simp add: P2V_def V2P_def)
  have "bit ((V2P v OR PTE_P OR PTE_W OR PTE_U) AND PTE_P) 0"
    by (simp add: PTE_P_def bit_simps)
  then show "(V2P v OR PTE_P OR PTE_W OR PTE_U) AND PTE_P \<noteq> 0"
    by (metis bit_0_eq bot_apply bot_bool_def)
qed

section \<open>Walking keeps every translation\<close>

lemma vm_okD:
  assumes "vm_ok s pgdir ps"
  shows "kmem_inv s ps" "page_ok s pgdir" "pgdir mod PGSIZE = 0" "pgdir \<notin> set ps"
  using assms by (simp_all add: vm_ok_def page_ok_def)

lemma vm_ok_table:
  assumes "vm_ok s pgdir ps" "pde_present (k_mem s) pgdir i" "i < 1024"
  shows "page_ok s (table_of (k_mem s) pgdir i)" "table_of (k_mem s) pgdir i \<noteq> pgdir"
    "table_of (k_mem s) pgdir i \<notin> set ps" "table_of (k_mem s) pgdir i mod PGSIZE = 0"
  using assms by (simp_all add: vm_ok_def page_ok_def)

text \<open>Memory that changes on one page only, neither the directory nor one of its tables.\<close>

lemma pte_of_outside:
  assumes "vm_ok s pgdir ps" and out: "\<And>x. \<not> in_page p x \<Longrightarrow> m' x = k_mem s x" and "p mod PGSIZE = 0"
    and "p \<noteq> pgdir" and "\<And>i. i < 1024 \<Longrightarrow> pde_present (k_mem s) pgdir i \<Longrightarrow> p \<noteq> table_of (k_mem s) pgdir i"
  shows "i < 1024 \<Longrightarrow> entry m' pgdir i = entry (k_mem s) pgdir i"
    and "pte_of m' pgdir va = pte_of (k_mem s) pgdir va"
proof -
  have d: "entry m' pgdir i = entry (k_mem s) pgdir i" if "i < 1024" for i
    by (rule entry_outside [OF out]) (use assms that in \<open>auto dest: vm_okD\<close>)
  then show "i < 1024 \<Longrightarrow> entry m' pgdir i = entry (k_mem s) pgdir i" .
  have t: "table_of m' pgdir i = table_of (k_mem s) pgdir i"
    "pde_present m' pgdir i = pde_present (k_mem s) pgdir i" if "i < 1024" for i
    using d [OF that] by (simp_all add: table_of_def pde_present_def)
  show "pte_of m' pgdir va = pte_of (k_mem s) pgdir va"
  proof (cases "pde_present (k_mem s) pgdir (PDX va)")
    case True
    have "entry m' (table_of (k_mem s) pgdir (PDX va)) (PTX va) =
      entry (k_mem s) (table_of (k_mem s) pgdir (PDX va)) (PTX va)"
      by (rule entry_outside [OF out])
        (use assms(3) assms(5) [OF PDX_less True] vm_ok_table [OF assms(1) True PDX_less] PTX_less in auto)
    with True t [OF PDX_less] show ?thesis by (simp add: pte_of_def)
  next
    case False
    with t [OF PDX_less] show ?thesis by (simp add: pte_of_def)
  qed
qed

lemma walkpgdir_present:
  "pde_present (k_mem s) pgdir (PDX va) \<Longrightarrow>
   walkpgdir pgdir va alloc s = Ok (table_of (k_mem s) pgdir (PDX va) + 4 * PTX va, s)"
  by (simp add: walkpgdir_def Let_def pde_present_def table_of_def entry_def)

lemma walkpgdir_absent:
  "\<not> pde_present (k_mem s) pgdir (PDX va) \<Longrightarrow> walkpgdir pgdir va False s = Ok (0, s)"
  by (simp add: walkpgdir_def Let_def pde_present_def entry_def)

lemma page_ok_mod: "page_ok s v \<Longrightarrow> v mod PGSIZE = 0"
  by (simp add: page_ok_def)

lemma table_addr_nonzero: "page_ok s p \<Longrightarrow> i < 1024 \<Longrightarrow> p + 4 * i \<noteq> 0"
  using page_high [of s p] unat_entry_addr [of p i] page_ok_mod [of s p] by auto

lemma kmem_inv_outside:
  assumes "kmem_inv s ps" "v mod PGSIZE = 0" "v \<notin> set ps" "\<And>x. \<not> in_page v x \<Longrightarrow> m' x = k_mem s x"
  shows "kmem_inv (s\<lparr>k_mem := m'\<rparr>) ps"
  using free_chain_outside [OF assms(4,2) _ assms(3)] assms(1)
  by (auto simp: kmem_inv_def page_ok_def)

lemma page_ok_update [simp]:
  "page_ok (s\<lparr>k_mem := m\<rparr>) p = page_ok s p" "page_ok (s\<lparr>k_freelist := f\<rparr>) p = page_ok s p"
  by (simp_all add: page_ok_def)

text \<open>Entering a fresh, zeroed page as the table for \<open>va\<close>.\<close>

definition add_table :: "mem \<Rightarrow> u32 \<Rightarrow> u32 \<Rightarrow> u32 \<Rightarrow> mem" where
  "add_table m pgdir va p =
     store32 (memset m p 0 PGSIZE) (pgdir + 4 * PDX va) (V2P p OR PTE_P OR PTE_W OR PTE_U)"

lemma add_table_entries:
  assumes "pgdir mod PGSIZE = 0" "p mod PGSIZE = 0" "p \<noteq> pgdir"
  shows "i < 1024 \<Longrightarrow> entry (add_table m pgdir va p) pgdir i =
      (if i = PDX va then V2P p OR PTE_P OR PTE_W OR PTE_U else entry m pgdir i)"
    and "i < 1024 \<Longrightarrow> entry (add_table m pgdir va p) p i = 0"
    and "i < 1024 \<Longrightarrow> q mod PGSIZE = 0 \<Longrightarrow> q \<noteq> p \<Longrightarrow> q \<noteq> pgdir \<Longrightarrow>
      entry (add_table m pgdir va p) q i = entry m q i"
proof -
  have o: "entry (memset m p 0 PGSIZE) q i = entry m q i"
    if "q mod PGSIZE = 0" "q \<noteq> p" "i < 1024" for q i
    by (rule entry_outside [where p = p]) (use assms that memset_outside in auto)
  show "i < 1024 \<Longrightarrow> entry (add_table m pgdir va p) pgdir i =
      (if i = PDX va then V2P p OR PTE_P OR PTE_W OR PTE_U else entry m pgdir i)"
    using o [OF assms(1) assms(3) [symmetric]]
    by (simp add: add_table_def entry_store [OF assms(1) assms(1) PDX_less])
  show "i < 1024 \<Longrightarrow> entry (add_table m pgdir va p) p i = 0"
    using assms(3) by (simp add: add_table_def entry_store [OF assms(1) assms(2) PDX_less] entry_memset)
  show "i < 1024 \<Longrightarrow> q mod PGSIZE = 0 \<Longrightarrow> q \<noteq> p \<Longrightarrow> q \<noteq> pgdir \<Longrightarrow>
      entry (add_table m pgdir va p) q i = entry m q i"
    using o by (simp add: add_table_def entry_store [OF assms(1) _ PDX_less])
qed

lemma walkpgdir_fresh:
  assumes "vm_ok s pgdir (p # ps)" "\<not> pde_present (k_mem s) pgdir (PDX va)"
  shows "\<exists>s'. walkpgdir pgdir va True s = Ok (p + 4 * PTX va, s') \<and>
     k_mem s' = add_table (k_mem s) pgdir va p \<and> kmem_inv s' ps \<and> k_end s' = k_end s"
proof -
  have k: "kmem_inv s (p # ps)" using assms(1) by (rule vm_okD)
  from kalloc_inv_Cons [OF k] obtain s1 where
    s1: "kalloc s = Ok (p, s1)" "kmem_inv s1 ps" "k_end s1 = k_end s" "k_mem s1 = k_mem s" "p \<noteq> 0"
    by blast
  have p: "p mod PGSIZE = 0" "p \<notin> set ps" using k by (simp_all add: kmem_inv_def page_ok_def)
  have "kmem_inv (s1\<lparr>k_mem := memset (k_mem s1) p 0 PGSIZE\<rparr>) ps"
    by (rule kmem_inv_outside [OF s1(2) p]) (rule memset_outside)
  moreover have "pgdir mod PGSIZE = 0" "pgdir \<notin> set ps" using vm_okD [OF assms(1)] by auto
  ultimately have "kmem_inv (s1\<lparr>k_mem := add_table (k_mem s) pgdir va p\<rparr>) ps"
    using kmem_inv_outside [of "s1\<lparr>k_mem := memset (k_mem s1) p 0 PGSIZE\<rparr>" ps pgdir
        "add_table (k_mem s) pgdir va p"] store_entry_outside [OF PDX_less] s1(4)
    by (simp add: add_table_def)
  with s1 assms(2) show ?thesis
    by (simp add: walkpgdir_def Let_def add_table_def pde_present_def entry_def)
qed

lemma vm_ok_add_table:
  assumes vm: "vm_ok s pgdir (p # ps)" and abs: "\<not> pde_present (k_mem s) pgdir (PDX va)"
    and m: "k_mem s' = add_table (k_mem s) pgdir va p" and k: "kmem_inv s' ps" "k_end s' = k_end s"
  shows "vm_ok s' pgdir ps"
    and "pde_present (k_mem s') pgdir (PDX va) \<and> table_of (k_mem s') pgdir (PDX va) = p"
    and "pte_of (k_mem s') pgdir w = pte_of (k_mem s) pgdir w"
proof -
  have ok: "page_ok s pgdir" "page_ok s p" "pgdir mod PGSIZE = 0" "p mod PGSIZE = 0" "p \<noteq> pgdir" "p \<notin> set ps" "pgdir \<notin> set ps"
    using vm by (auto simp: vm_ok_def kmem_inv_def page_ok_def)
  have ok': "page_ok s' = page_ok s" using k(2) by (auto simp: page_ok_def fun_eq_iff)
  note e = add_table_entries [OF ok(3,4,5)]
  have new: "pde_present (k_mem s') pgdir (PDX va)" "table_of (k_mem s') pgdir (PDX va) = p"
    using new_pde [OF ok(4)] by (simp_all add: pde_present_def table_of_def m e(1) PDX_less)
  have old: "pde_present (k_mem s') pgdir i = pde_present (k_mem s) pgdir i"
    "table_of (k_mem s') pgdir i = table_of (k_mem s) pgdir i" if "i < 1024" "i \<noteq> PDX va" for i
    using that by (simp_all add: pde_present_def table_of_def m e(1))
  show "pde_present (k_mem s') pgdir (PDX va) \<and> table_of (k_mem s') pgdir (PDX va) = p"
    using new by blast
  have t: "table_of (k_mem s) pgdir i \<noteq> p" if "i < 1024" "pde_present (k_mem s) pgdir i" for i
    using vm_ok_table(3) [OF vm that(2,1)] by auto
  show "vm_ok s' pgdir ps"
    unfolding vm_ok_def
  proof (intro conjI allI impI)
    fix i :: u32 assume i: "i < 1024" "pde_present (k_mem s') pgdir i"
    have c: "i = PDX va \<and> table_of (k_mem s') pgdir i = p \<or>
        i \<noteq> PDX va \<and> pde_present (k_mem s) pgdir i \<and> table_of (k_mem s') pgdir i = table_of (k_mem s) pgdir i"
      using i new old by blast
    then show "page_ok s' (table_of (k_mem s') pgdir i)" "table_of (k_mem s') pgdir i \<noteq> pgdir"
      "table_of (k_mem s') pgdir i \<notin> set ps"
      using vm_ok_table(1-3) [OF vm, of i] i(1) ok ok' by auto
    fix j :: u32 assume j: "j < 1024" "pde_present (k_mem s') pgdir j"
      and same: "table_of (k_mem s') pgdir i = table_of (k_mem s') pgdir j"
    have d: "j = PDX va \<and> table_of (k_mem s') pgdir j = p \<or>
        j \<noteq> PDX va \<and> pde_present (k_mem s) pgdir j \<and> table_of (k_mem s') pgdir j = table_of (k_mem s) pgdir j"
      using j new old by blast
    from c d same i(1) j(1) t show "i = j"
      using vm unfolding vm_ok_def by metis
  qed (use k ok ok' in auto)
  show "pte_of (k_mem s') pgdir w = pte_of (k_mem s) pgdir w"
  proof (cases "PDX w = PDX va")
    case True
    then show ?thesis using new abs e(2) by (simp add: pte_of_def m PTX_less)
  next
    case False
    then show ?thesis
      using old [OF PDX_less False] t [OF PDX_less] vm_ok_table(2,4) [OF vm _ PDX_less]
      by (simp add: pte_of_def m e(3) PTX_less)
  qed
qed

text \<open>Storing an entry of a table changes the translation of that page and no other.\<close>

lemma store_pte:
  fixes s :: "'a kmem_scheme" and v va pgdir :: u32
  assumes vm: "vm_ok s pgdir ps" and pres: "pde_present (k_mem s) pgdir (PDX va)"
  defines "s' \<equiv> s\<lparr>k_mem := store32 (k_mem s) (table_of (k_mem s) pgdir (PDX va) + 4 * PTX va) v\<rparr>"
  shows "vm_ok s' pgdir ps"
    and "pte_of (k_mem s') pgdir w =
      (if PDX w = PDX va \<and> PTX w = PTX va then v else pte_of (k_mem s) pgdir w)"
proof -
  let ?t = "table_of (k_mem s) pgdir (PDX va)"
  note t = vm_ok_table [OF vm pres PDX_less] and d = vm_okD [OF vm]
  have e: "entry (k_mem s') q i = (if q = ?t \<and> i = PTX va then v else entry (k_mem s) q i)"
    if "q mod PGSIZE = 0" "i < 1024" for q i
    using entry_store [OF t(4) that(1) PTX_less that(2)] by (simp add: s'_def)
  have same: "pde_present (k_mem s') pgdir i = pde_present (k_mem s) pgdir i"
    "table_of (k_mem s') pgdir i = table_of (k_mem s) pgdir i" if "i < 1024" for i
    using e [OF d(3) that] t(2) by (auto simp: pde_present_def table_of_def)
  have "kmem_inv s' ps"
    unfolding s'_def by (rule kmem_inv_outside [OF d(1) t(4,3)]) (rule store_entry_outside [OF PTX_less])
  moreover have ok: "page_ok s' = page_ok s" by (simp add: s'_def fun_eq_iff)
  ultimately show "vm_ok s' pgdir ps"
    using vm unfolding vm_ok_def ok by (simp add: same)
  show "pte_of (k_mem s') pgdir w =
      (if PDX w = PDX va \<and> PTX w = PTX va then v else pte_of (k_mem s) pgdir w)"
  proof (cases "pde_present (k_mem s) pgdir (PDX w)")
    case True
    have q: "table_of (k_mem s) pgdir (PDX w) = ?t \<longleftrightarrow> PDX w = PDX va"
      using vm True pres PDX_less unfolding vm_ok_def by metis
    show ?thesis
      unfolding pte_of_def same [OF PDX_less]
        e [OF vm_ok_table(4) [OF vm True PDX_less] PTX_less] q using True by simp
  next
    case False
    then have "PDX w \<noteq> PDX va" using pres by metis
    with False show ?thesis unfolding pte_of_def same [OF PDX_less] by simp
  qed
qed

section \<open>Page numbers\<close>

definition page_no :: "u32 \<Rightarrow> nat" where "page_no a = unat a div 4096"

lemma unat_PDX: "unat (PDX va) = unat va div 4194304"
  and unat_PTX: "unat (PTX va) = unat va div 4096 mod 1024"
proof -
  have m: "(0x3FF :: u32) = mask 10" by (simp add: mask_eq_exp_minus_1)
  have t: "unat (x AND 0x3FF) = unat x mod 1024" for x :: u32
    unfolding m take_bit_eq_mask [symmetric] unsigned_take_bit_eq by (simp add: take_bit_eq_mod)
  have d: "unat (drop_bit 22 x) = unat x div 4194304" "unat (drop_bit 12 x) = unat x div 4096" for x :: u32
    by (simp_all add: drop_bit_eq_div unat_div)
  have "unat va div 4194304 < 1024" using unat_lt32 [of va] by linarith
  then show "unat (PDX va) = unat va div 4194304" by (simp add: PDX_def t d)
  show "unat (PTX va) = unat va div 4096 mod 1024" by (simp add: PTX_def t d)
qed

lemma same_page:
  "PDX w = PDX a \<and> PTX w = PTX a \<longleftrightarrow> page_no w = page_no a"
proof -
  have d: "unat x div 4194304 = unat x div 4096 div 1024" for x :: u32
    by (simp add: div_mult2_eq [symmetric])
  have "page_no w = page_no a \<longleftrightarrow>
      page_no w div 1024 = page_no a div 1024 \<and> page_no w mod 1024 = page_no a mod 1024"
    by (metis div_mult_mod_eq)
  then show ?thesis by (simp add: word_unat_eq_iff unat_PDX unat_PTX d page_no_def)
qed

lemma pte_of_same_page: "page_no w = page_no a \<Longrightarrow> pte_of m pgdir w = pte_of m pgdir a"
  unfolding same_page [symmetric] pte_of_def by simp

lemma unat_PGROUNDDOWN: "unat (PGROUNDDOWN a) = 4096 * page_no a"
proof -
  have m: "NOT (PGSIZE - 1) = NOT (mask 12)" by (simp add: mask_eq_exp_minus_1 PGSIZE_def)
  have e: "PGROUNDDOWN a = push_bit 12 (drop_bit 12 a)"
    unfolding PGROUNDDOWN_def m by (rule bit_word_eqI) (auto simp: bit_simps)
  have "unat (drop_bit 12 a) = unat a div 4096" by (simp add: drop_bit_eq_div unat_div)
  moreover have "4096 * (unat a div 4096) < 4294967296" using unat_lt32 [of a] by linarith
  ultimately show ?thesis
    unfolding e page_no_def push_bit_eq_mult by (simp add: unat_word_ariths)
qed

lemma PGROUNDDOWN_aligned: "PGROUNDDOWN a mod PGSIZE = 0"
  by (simp add: page_align unat_PGROUNDDOWN del: unat_lt32)

section \<open>\<^verbatim>\<open>mappages\<close> maps its range\<close>

lemma unat_add_pages:
  "unat a + 4096 * n < 4294967296 \<Longrightarrow> unat (a + of_nat n * PGSIZE) = unat a + 4096 * n"
proof -
  assume h: "unat a + 4096 * n < 4294967296"
  have "of_nat n * PGSIZE = (of_nat (4096 * n) :: u32)" by (simp add: PGSIZE_def)
  moreover have "unat (of_nat (4096 * n) :: u32) = 4096 * n" using h by (intro unat_of_nat32) simp
  ultimately show ?thesis using h by (simp add: unat_add32)
qed

lemma store_page:
  assumes vm: "vm_ok s pgdir ps" and pres: "pde_present (k_mem s) pgdir (PDX a)"
  shows "vm_ok (s\<lparr>k_mem := store32 (k_mem s) (table_of (k_mem s) pgdir (PDX a) + 4 * PTX a) v\<rparr>) pgdir ps"
    and "pte_of (store32 (k_mem s) (table_of (k_mem s) pgdir (PDX a) + 4 * PTX a) v) pgdir w =
      (if page_no w = page_no a then v else pte_of (k_mem s) pgdir w)"
  using store_pte [OF assms] by (simp_all add: same_page)

text \<open>Walking with allocation: the table for \<open>va\<close> is there afterwards, or memory has run out.\<close>

lemma walkpgdir_alloc:
  assumes vm: "vm_ok s pgdir ps"
  obtains (no_memory) "walkpgdir pgdir va True s = Ok (0, s)" "ps = []"
  | (table) s' ps' qs where
      "walkpgdir pgdir va True s = Ok (table_of (k_mem s') pgdir (PDX va) + 4 * PTX va, s')"
      "table_of (k_mem s') pgdir (PDX va) + 4 * PTX va \<noteq> 0"
      "vm_ok s' pgdir ps'" "ps = qs @ ps'" "pde_present (k_mem s') pgdir (PDX va)"
      "k_end s' = k_end s" "\<And>w. pte_of (k_mem s') pgdir w = pte_of (k_mem s) pgdir w"
proof (cases "pde_present (k_mem s) pgdir (PDX va)")
  case True
  with vm show thesis
    using walkpgdir_present [OF True, of True] table_addr_nonzero [OF vm_ok_table(1) [OF vm True PDX_less] PTX_less]
    by (intro table [of s ps "[]"]) auto
next
  case False
  show thesis
  proof (cases ps)
    case Nil
    then have "kalloc s = Ok (0, s)" using vm_okD(1) [OF vm] kalloc_inv_Nil by blast
    with False Nil show thesis
      by (intro no_memory) (simp_all add: walkpgdir_def Let_def pde_present_def entry_def)
  next
    case (Cons p ps')
    note vm' = vm [unfolded Cons]
    from walkpgdir_fresh [OF vm' False] obtain s' where
      s': "walkpgdir pgdir va True s = Ok (p + 4 * PTX va, s')"
        "k_mem s' = add_table (k_mem s) pgdir va p" "kmem_inv s' ps'" "k_end s' = k_end s" by blast
    note new = vm_ok_add_table [OF vm' False s'(2-4)]
    have "p + 4 * PTX va \<noteq> 0"
      by (rule table_addr_nonzero [OF _ PTX_less])
        (use vm_okD(1) [OF vm'] in \<open>auto simp: kmem_inv_def\<close>)
    with s' new Cons show thesis by (intro table [of s' ps' "[p]"]) auto
  qed
qed

text \<open>
  What a call that maps \<open>n + 1\<close> pages from \<open>a\<close> on does to the translations. After a failure
  part of the range may be mapped, but nothing outside it has changed and the free list is
  empty.
\<close>

definition range_mapped :: "mem \<Rightarrow> mem \<Rightarrow> u32 \<Rightarrow> u32 \<Rightarrow> nat \<Rightarrow> u32 \<Rightarrow> u32 \<Rightarrow> bool \<Rightarrow> bool" where
  "range_mapped m m' pgdir a n pa perm ok \<longleftrightarrow>
     (\<forall>w. (page_no a \<le> page_no w \<and> page_no w \<le> page_no a + n) \<or>
        pte_of m' pgdir w = pte_of m pgdir w) \<and>
     (ok \<longrightarrow> (\<forall>w. page_no a \<le> page_no w \<longrightarrow> page_no w \<le> page_no a + n \<longrightarrow>
        pte_of m' pgdir w = (pa + of_nat (page_no w - page_no a) * PGSIZE) OR perm OR PTE_P))"

definition range_unmapped :: "mem \<Rightarrow> u32 \<Rightarrow> u32 \<Rightarrow> nat \<Rightarrow> bool" where
  "range_unmapped m pgdir a n \<longleftrightarrow>
     (\<forall>w. page_no a \<le> page_no w \<longrightarrow> page_no w \<le> page_no a + n \<longrightarrow> pte_of m pgdir w AND PTE_P = 0)"

lemma range_mapped_step:
  assumes "page_no (a + PGSIZE) = Suc (page_no a)"
    and "\<And>w. pte_of m1 pgdir w = (if page_no w = page_no a then pa OR perm OR PTE_P else pte_of m pgdir w)"
    and "range_mapped m1 m' pgdir (a + PGSIZE) n (pa + PGSIZE) perm ok"
  shows "range_mapped m m' pgdir a (Suc n) pa perm ok"
  unfolding range_mapped_def
proof (intro conjI allI impI)
  fix w
  note d = assms(3) [unfolded range_mapped_def assms(1)]
  from d have "Suc (page_no a) \<le> page_no w \<and> page_no w \<le> Suc (page_no a) + n \<or>
      pte_of m' pgdir w = pte_of m1 pgdir w" by blast
  then show "page_no a \<le> page_no w \<and> page_no w \<le> page_no a + Suc n \<or>
      pte_of m' pgdir w = pte_of m pgdir w"
    using assms(2) [of w] by (auto split: if_splits)
  assume ok: ok and w: "page_no a \<le> page_no w" "page_no w \<le> page_no a + Suc n"
  show "pte_of m' pgdir w = (pa + of_nat (page_no w - page_no a) * PGSIZE) OR perm OR PTE_P"
  proof (cases "page_no w = page_no a")
    case True
    then have "pte_of m' pgdir w = pte_of m1 pgdir w" using d by force
    then show ?thesis using assms(2) [of w] True by simp
  next
    case False
    then obtain e where e: "page_no w = Suc (page_no a + e)" using w(1)
      by (metis le_neq_implies_less less_iff_Suc_add)
    have "pte_of m' pgdir w = (pa + PGSIZE + of_nat (page_no w - Suc (page_no a)) * PGSIZE) OR perm OR PTE_P"
      using d ok w(2) e by simp
    then show ?thesis using e by (simp add: algebra_simps)
  qed
qed

text \<open>One turn of the loop, for a page that is not mapped yet.\<close>

lemma mappages_turn:
  assumes vm: "vm_ok s pgdir ps" and free: "pte_of (k_mem s) pgdir a AND PTE_P = 0"
  obtains (no_memory) "\<And>k. mappages_loop (Suc k) pgdir a lst pa perm s = Ok (False, s)" "ps = []"
  | (mapped) s' ps' qs where
      "\<And>k. mappages_loop (Suc k) pgdir a lst pa perm s =
        (if a = lst then Ok (True, s') else mappages_loop k pgdir (a + PGSIZE) lst (pa + PGSIZE) perm s')"
      "vm_ok s' pgdir ps'" "ps = qs @ ps'" "k_end s' = k_end s"
      "\<And>w. pte_of (k_mem s') pgdir w =
        (if page_no w = page_no a then pa OR perm OR PTE_P else pte_of (k_mem s) pgdir w)"
proof (rule walkpgdir_alloc [OF vm, of a], goal_cases none table)
  case none
  from none(3,4) show thesis by (intro no_memory) simp_all
next
  case table: (table s1 ps1 qs)
  let ?p = "table_of (k_mem s1) pgdir (PDX a) + 4 * PTX a" and ?v = "pa OR perm OR PTE_P"
  note st = store_page [OF table(5,7), of ?v]
  have unm: "load32 (k_mem s1) ?p AND PTE_P = 0"
    using free table(7) table(9) [of a] by (simp add: pte_of_def entry_def)
  show thesis
    by (rule mapped [of "s1\<lparr>k_mem := store32 (k_mem s1) ?p ?v\<rparr>" ps1 qs])
      (use table(3,4,6,8,9) st unm in \<open>simp_all add: Let_def\<close>)
qed

lemma mappages_loop_range:
  assumes "vm_ok s pgdir ps" "unat a + 4096 * n < 4294967296" "unat lst = unat a + 4096 * n"
    "range_unmapped (k_mem s) pgdir a n"
  shows "\<exists>ok s' ps' qs. mappages_loop (Suc n) pgdir a lst pa perm s = Ok (ok, s') \<and>
     vm_ok s' pgdir ps' \<and> ps = qs @ ps' \<and> k_end s' = k_end s \<and> (\<not> ok \<longrightarrow> ps' = []) \<and>
     range_mapped (k_mem s) (k_mem s') pgdir a n pa perm ok"
  using assms
proof (induction n arbitrary: a pa s ps)
  case 0
  have "a = lst" using "0.prems"(3) by (simp add: word_unat_eq_iff)
  show ?case
  proof (rule mappages_turn [OF "0.prems"(1), of a lst pa perm], goal_cases free none mapped)
    case free
    then show ?case using "0.prems"(4) by (simp add: range_unmapped_def)
  next
    case none
    then show ?case using "0.prems"(1) none(1) [of 0] by (auto simp: range_mapped_def simp del: mappages_loop.simps)
  next
    case mapped: (mapped s' ps' qs)
    have "range_mapped (k_mem s) (k_mem s') pgdir a 0 pa perm True"
      using mapped(5) by (simp add: range_mapped_def)
    then show ?case using mapped(2-4) mapped(1) [of 0] \<open>a = lst\<close>
      by (auto simp del: mappages_loop.simps)
  qed
next
  case (Suc n)
  have u: "unat (a + PGSIZE) = unat a + 4096"
    using Suc.prems(2) by (simp add: PGSIZE_def unat_add32)
  have pn: "page_no (a + PGSIZE) = Suc (page_no a)" by (simp add: page_no_def u)
  have "a \<noteq> lst" using Suc.prems(3) by auto
  show ?case
  proof (rule mappages_turn [OF Suc.prems(1), of a lst pa perm], goal_cases free none mapped)
    case free
    then show ?case using Suc.prems(4) by (simp add: range_unmapped_def)
  next
    case none
    then show ?case using Suc.prems(1) none(1) [of "Suc n"] by (auto simp: range_mapped_def simp del: mappages_loop.simps)
  next
    case mapped: (mapped s1 ps1 qs)
    have free2: "range_unmapped (k_mem s1) pgdir (a + PGSIZE) n"
      using Suc.prems(4) pn mapped(5) by (auto simp: range_unmapped_def)
    have h: "unat (a + PGSIZE) + 4096 * n < 4294967296" "unat lst = unat (a + PGSIZE) + 4096 * n"
      using Suc.prems(2,3) u by simp_all
    from Suc.IH [OF mapped(2) h free2, of "pa + PGSIZE"] obtain ok s' ps' qs' where
      ih: "mappages_loop (Suc n) pgdir (a + PGSIZE) lst (pa + PGSIZE) perm s1 = Ok (ok, s')"
      "vm_ok s' pgdir ps'" "ps1 = qs' @ ps'" "k_end s' = k_end s1" "\<not> ok \<longrightarrow> ps' = []"
      "range_mapped (k_mem s1) (k_mem s') pgdir (a + PGSIZE) n (pa + PGSIZE) perm ok"
      by (elim exE conjE) (rule that)
    have "range_mapped (k_mem s) (k_mem s') pgdir a (Suc n) pa perm ok"
      by (rule range_mapped_step [OF pn mapped(5) ih(6)])
    then show ?case
      using mapped(1) [of "Suc n"] \<open>a \<noteq> lst\<close> ih(1-5) mapped(3,4)
      by (intro exI [of _ ok] exI [of _ s'] exI [of _ ps'] exI [of _ "qs @ qs'"])
        (simp del: mappages_loop.simps)
  qed
qed

lemma unat_last_byte:
  assumes "0 < (sz :: u32)" "unat va + unat sz \<le> 4294967296"
  shows "unat (va + sz - 1) = unat va + (unat sz - 1)"
proof -
  have s0: "0 < unat sz" using assms(1) by (simp add: word_less_nat_alt)
  have s1: "unat (sz - 1) = unat sz - 1" using s0 by (simp add: unat_sub32)
  have "va + sz - 1 = va + (sz - 1)" by simp
  moreover have "unat (va + (sz - 1)) = unat va + unat (sz - 1)"
    using s0 s1 assms(2) by (intro unat_add32) simp
  ultimately show ?thesis using s1 by metis
qed

lemma last_page_le:
  "0 < (sz :: u32) \<Longrightarrow> unat va + unat sz \<le> 4294967296 \<Longrightarrow> page_no va \<le> page_no (va + sz - 1)"
  unfolding page_no_def by (subst unat_last_byte) (auto intro: div_le_mono)

lemma mappages_range:
  assumes vm: "vm_ok s pgdir ps" and sz: "0 < sz" "unat va + unat sz \<le> 4294967296"
    and n: "n = page_no (va + sz - 1) - page_no va" and un: "range_unmapped (k_mem s) pgdir va n"
  shows "\<exists>ok s' ps' qs. mappages pgdir va sz pa perm s = Ok (ok, s') \<and>
     vm_ok s' pgdir ps' \<and> ps = qs @ ps' \<and> k_end s' = k_end s \<and> (\<not> ok \<longrightarrow> ps' = []) \<and>
     range_mapped (k_mem s) (k_mem s') pgdir va n pa perm ok"
proof -
  let ?a = "PGROUNDDOWN va" and ?l = "PGROUNDDOWN (va + sz - 1)"
  have le: "page_no va \<le> page_no (va + sz - 1)" by (rule last_page_le [OF sz])
  have ul: "unat ?l = unat ?a + 4096 * n"
    using le by (simp add: unat_PGROUNDDOWN n)
  have "unat (?l - ?a) = 4096 * n" using ul by (simp add: unat_sub32)
  then have k: "unat ((?l - ?a) div PGSIZE) = n" by (simp add: unat_div PGSIZE_def)
  have pa: "page_no ?a = page_no va" by (simp add: page_no_def unat_PGROUNDDOWN)
  have lt: "unat ?a + 4096 * n < 4294967296" using ul unat_lt32 [of ?l] by linarith
  have un': "range_unmapped (k_mem s) pgdir ?a n" using un by (simp add: range_unmapped_def pa)
  have rm: "range_mapped m m' pgdir ?a n pa perm ok = range_mapped m m' pgdir va n pa perm ok" for m m' ok
    by (simp add: range_mapped_def pa)
  from mappages_loop_range [OF vm lt ul un', of pa perm] show ?thesis
    by (simp add: mappages_def Let_def k rm del: mappages_loop.simps)
qed

text \<open>
  C12: Mapping a range of virtual addresses none of whose pages is mapped never panics and
  never loops. On success every page of the range translates to the physical page at the
  same distance from \<open>pa\<close>, with the permissions asked for, and no other translation has
  changed; a failure means that no page is left for a page table, and leaves every
  translation outside the range alone. In both cases the directory and its tables stay
  separate pages off the free list, from whose head the new tables were taken.
\<close>

theorem mappages_maps_range:
  assumes "vm_ok s pgdir ps" "0 < sz" "unat va + unat sz \<le> 4294967296"
    and "\<forall>w. page_no va \<le> page_no w \<longrightarrow> page_no w \<le> page_no (va + sz - 1) \<longrightarrow>
      pte_of (k_mem s) pgdir w AND PTE_P = 0"
  shows "\<exists>ok s' ps' qs. mappages pgdir va sz pa perm s = Ok (ok, s') \<and>
     vm_ok s' pgdir ps' \<and> ps = qs @ ps' \<and> (\<not> ok \<longrightarrow> ps' = []) \<and>
     (\<forall>w. page_no w < page_no va \<or> page_no (va + sz - 1) < page_no w \<longrightarrow>
        pte_of (k_mem s') pgdir w = pte_of (k_mem s) pgdir w) \<and>
     (ok \<longrightarrow> (\<forall>w. page_no va \<le> page_no w \<and> page_no w \<le> page_no (va + sz - 1) \<longrightarrow>
        pte_of (k_mem s') pgdir w = (pa + of_nat (page_no w - page_no va) * PGSIZE) OR perm OR PTE_P))"
proof -
  define n where "n = page_no (va + sz - 1) - page_no va"
  have un: "range_unmapped (k_mem s) pgdir va n"
    using assms(4) last_page_le [OF assms(2,3)] by (simp add: range_unmapped_def n_def)
  from mappages_range [OF assms(1-3) n_def un, of pa perm] obtain ok s' ps' qs where
    r: "mappages pgdir va sz pa perm s = Ok (ok, s')" "vm_ok s' pgdir ps'" "ps = qs @ ps'"
      "\<not> ok \<longrightarrow> ps' = []" "range_mapped (k_mem s) (k_mem s') pgdir va n pa perm ok"
    by (elim exE conjE) (rule that)
  have "pte_of (k_mem s') pgdir w = pte_of (k_mem s) pgdir w"
    if "page_no w < page_no va \<or> page_no (va + sz - 1) < page_no w" for w
  proof -
    have "(page_no va \<le> page_no w \<and> page_no w \<le> page_no va + n) \<or>
        pte_of (k_mem s') pgdir w = pte_of (k_mem s) pgdir w"
      using r(5) unfolding range_mapped_def by blast
    then show ?thesis using that last_page_le [OF assms(2,3)] by (auto simp: n_def)
  qed
  moreover have "pte_of (k_mem s') pgdir w = (pa + of_nat (page_no w - page_no va) * PGSIZE) OR perm OR PTE_P"
    if ok "page_no va \<le> page_no w" "page_no w \<le> page_no (va + sz - 1)" for w
    using r(5) that by (simp add: range_mapped_def n_def del: of_nat_diff)
  ultimately show ?thesis using r(1-4) by blast
qed

text \<open>An empty page directory above the two free pages.\<close>

lemma two_pages_mem:
  "\<not> in_page 0x80400000 x \<Longrightarrow> \<not> in_page 0x80401000 x \<Longrightarrow> k_mem two_pages x = 0"
  by (simp add: two_pages_def kfree_mem_outside)

lemma two_pages_entry: "i < 1024 \<Longrightarrow> entry (k_mem two_pages) 0x80402000 i = 0"
  unfolding entry_def
proof (rule load32_zero)
  fix k :: nat assume k: "i < 1024" "k < 4"
  then have p: "in_page 0x80402000 (0x80402000 + 4 * i + of_nat k)" by (rule in_page_entry_byte)
  have "\<not> in_page 0x80400000 (0x80402000 + 4 * i + of_nat k)"
    by (rule in_page_other [OF _ _ _ p]) (simp_all add: PGSIZE_def)
  moreover have "\<not> in_page 0x80401000 (0x80402000 + 4 * i + of_nat k)"
    by (rule in_page_other [OF _ _ _ p]) (simp_all add: PGSIZE_def)
  ultimately show "k_mem two_pages (0x80402000 + 4 * i + of_nat k) = 0" by (rule two_pages_mem)
qed

lemma two_pages_vm: "vm_ok two_pages 0x80402000 [0x80401000, 0x80400000]"
  using two_pages_inv two_pages_entry
  by (simp add: vm_ok_def pde_present_def)
    (simp add: two_pages_def page_ok_def PGSIZE_def V2P_def KERNBASE_def PHYSTOP_def)

lemma two_pages_pte: "pte_of (k_mem two_pages) 0x80402000 w = 0"
  by (simp add: pte_of_def pde_present_def two_pages_entry PDX_less)

theorem mappages_maps_range_witness:
  "\<exists>ok s' ps' qs. mappages 0x80402000 0 8192 0x400000 6 two_pages = Ok (ok, s') \<and>
     vm_ok s' 0x80402000 ps' \<and> [0x80401000, 0x80400000] = qs @ ps' \<and> (\<not> ok \<longrightarrow> ps' = []) \<and>
     (\<forall>w. page_no w < page_no 0 \<or> page_no (0 + 8192 - 1) < page_no w \<longrightarrow>
        pte_of (k_mem s') 0x80402000 w = pte_of (k_mem two_pages) 0x80402000 w) \<and>
     (ok \<longrightarrow> (\<forall>w. page_no 0 \<le> page_no w \<and> page_no w \<le> page_no (0 + 8192 - 1) \<longrightarrow>
        pte_of (k_mem s') 0x80402000 w =
          (0x400000 + of_nat (page_no w - page_no 0) * PGSIZE) OR 6 OR PTE_P))"
  by (rule mappages_maps_range [OF two_pages_vm]) (simp_all add: two_pages_pte)

end
