(* ===== verification/Console.thy ===== *)
theory Console
  imports Kalloc
begin

text \<open>
  The output half of \<^verbatim>\<open>console.c\<close>, with \<^verbatim>\<open>uartputc\<close> of \<^verbatim>\<open>uart.c\<close> and the user
  library's \<^verbatim>\<open>printf.c\<close>: number formatting, the two format interpreters, the text screen
  and the serial line. The screen is the memory-mapped array \<open>cga_crt\<close> with its cursor
  register, the serial line the list of bytes written to it. \<^verbatim>\<open>cons.lock\<close> makes a
  \<^verbatim>\<open>cprintf\<close> one atomic step and does not appear.
\<close>

unbundle bit_operations_syntax

type_synonym text_bytes = "u8 list"

definition bytes :: "string \<Rightarrow> u8 list" where "bytes cs = map of_char cs"

section \<open>Numbers\<close>

text \<open>
  The do-while loop that peels off digits, least significant first; its callers pass the
  bases 10 and 16 (a base below 2 would divide by zero or never end).
\<close>

function digits_loop :: "u8 list \<Rightarrow> u32 \<Rightarrow> u32 \<Rightarrow> u8 list" where
  "digits_loop digits base x =
     (let d = digits ! unat (x mod base); x = x div base
      in if x = 0 \<or> base < 2 then [d] else d # digits_loop digits base x)"
  by pat_completeness auto
termination
proof (relation "measure (\<lambda>(digits, base, x). unat x)")
  fix base x y :: u32 and digits d :: "u8 list"
  assume y: "y = x div base" and c: "\<not> (y = 0 \<or> base < 2)"
  then have "2 \<le> unat base" by (simp add: word_less_nat_alt)
  moreover have "0 < unat x" using c y by (auto simp: unat_gt_0)
  ultimately have "unat x div unat base < unat x" by (intro div_less_dividend) simp_all
  then show "((digits, base, y), digits, base, x) \<in> measure (\<lambda>(digits, base, x). unat x)"
    by (simp add: y unat_div)
qed simp

declare digits_loop.simps [simp del]

text \<open>\<open>sign\<close> asks for a signed reading; the minus sign is stored last and printed first.\<close>

definition printint :: "u32 \<Rightarrow> u32 \<Rightarrow> bool \<Rightarrow> u8 list" where
  "printint xx base sign =
     (let sign = (sign \<and> sint xx < 0);
          x = (if sign then - xx else xx);
          buf = digits_loop (bytes ''0123456789abcdef'') base x;
          buf = (if sign then buf @ bytes ''-'' else buf)
      in rev buf)"

definition user_printint :: "u32 \<Rightarrow> u32 \<Rightarrow> bool \<Rightarrow> u8 list" where
  "user_printint xx base sg =
     (let neg = (sg \<and> sint xx < 0);
          x = (if neg then - xx else xx);
          buf = digits_loop (bytes ''0123456789ABCDEF'') base x;
          buf = (if neg then buf @ bytes ''-'' else buf)
      in rev buf)"

section \<open>Format strings\<close>

text \<open>
  The argument words on the stack: a number, or a pointer to a string (\<open>None\<close> is null).
  A format that asks for more arguments than there are, or for a string where a number is,
  reads what happens to be in memory; the result is then \<open>None\<close>.
\<close>

datatype arg = ArgInt u32 | ArgStr "u8 list option"

fun arg_int :: "arg \<Rightarrow> u32 option" where
  "arg_int (ArgInt x) = Some x"
| "arg_int (ArgStr s) = None"

fun arg_str :: "arg \<Rightarrow> u8 list option" where
  "arg_str (ArgInt x) = None"
| "arg_str (ArgStr None) = Some (bytes ''(null)'')"
| "arg_str (ArgStr (Some s)) = Some s"

definition emit :: "u8 list \<Rightarrow> u8 list option \<Rightarrow> u8 list option" where
  "emit xs r = map_option (\<lambda>ys. xs @ ys) r"

text \<open>
  \<^verbatim>\<open>cprintf\<close>'s scan of the format, a C string: a lone \<open>%\<close> at its end stops the output.
\<close>

fun cformat :: "u8 list \<Rightarrow> arg list \<Rightarrow> u8 list option" where
  "cformat [] as = Some []"
| "cformat (c # cs) as =
     (if c \<noteq> of_char CHR ''%'' then emit [c] (cformat cs as)
      else case cs of
        [] \<Rightarrow> Some []
      | d # ds \<Rightarrow>
          if d = of_char CHR ''d'' then
            (case as of [] \<Rightarrow> None
             | a # as \<Rightarrow> (case arg_int a of None \<Rightarrow> None
                | Some x \<Rightarrow> emit (printint x 10 True) (cformat ds as)))
          else if d = of_char CHR ''x'' \<or> d = of_char CHR ''p'' then
            (case as of [] \<Rightarrow> None
             | a # as \<Rightarrow> (case arg_int a of None \<Rightarrow> None
                | Some x \<Rightarrow> emit (printint x 16 False) (cformat ds as)))
          else if d = of_char CHR ''s'' then
            (case as of [] \<Rightarrow> None
             | a # as \<Rightarrow> (case arg_str a of None \<Rightarrow> None
                | Some s \<Rightarrow> emit s (cformat ds as)))
          else if d = of_char CHR ''%'' then emit (bytes ''%'') (cformat ds as)
          else emit (bytes ''%'' @ [d]) (cformat ds as))"

text \<open>
  The user \<^verbatim>\<open>printf\<close>, with its one-bit state \<open>pct\<close>: a \<open>%\<close> has just been read. It also
  knows \<open>%c\<close>, which prints the low byte of its argument.
\<close>

fun uformat :: "bool \<Rightarrow> u8 list \<Rightarrow> arg list \<Rightarrow> u8 list option" where
  "uformat pct [] as = Some []"
| "uformat False (c # cs) as =
     (if c = of_char CHR ''%'' then uformat True cs as else emit [c] (uformat False cs as))"
| "uformat True (c # cs) as =
     (if c = of_char CHR ''d'' then
        (case as of [] \<Rightarrow> None
         | a # as \<Rightarrow> (case arg_int a of None \<Rightarrow> None
            | Some x \<Rightarrow> emit (user_printint x 10 True) (uformat False cs as)))
      else if c = of_char CHR ''x'' \<or> c = of_char CHR ''p'' then
        (case as of [] \<Rightarrow> None
         | a # as \<Rightarrow> (case arg_int a of None \<Rightarrow> None
            | Some x \<Rightarrow> emit (user_printint x 16 False) (uformat False cs as)))
      else if c = of_char CHR ''s'' then
        (case as of [] \<Rightarrow> None
         | a # as \<Rightarrow> (case arg_str a of None \<Rightarrow> None
            | Some s \<Rightarrow> emit s (uformat False cs as)))
      else if c = of_char CHR ''c'' then
        (case as of [] \<Rightarrow> None
         | a # as \<Rightarrow> (case arg_int a of None \<Rightarrow> None
            | Some x \<Rightarrow> emit [ucast x] (uformat False cs as)))
      else if c = of_char CHR ''%'' then emit [c] (uformat False cs as)
      else emit (bytes ''%'' @ [c]) (uformat False cs as))"

definition printf :: "u8 list \<Rightarrow> arg list \<Rightarrow> u8 list option" where
  "printf fmt as = uformat False fmt as"

section \<open>Screen and serial line\<close>

text \<open>
  \<open>cga_pos\<close> is the cursor register (16 bits), \<open>uart_on\<close> whether a serial port was found,
  \<open>uart_out\<close> what has been written to it.
\<close>

record constate = kmem +
  cga_pos :: int
  cga_crt :: "nat \<Rightarrow> u16"
  uart_on :: bool
  uart_out :: "u8 list"
  panicked :: bool

abbreviation BACKSPACE :: int where "BACKSPACE \<equiv> 0x100"

text \<open>\<^verbatim>\<open>memmove(crt, crt+80, ...)\<close> of 23 rows, then the rest up to row 24 is cleared.\<close>

definition cga_scroll :: "(nat \<Rightarrow> u16) \<Rightarrow> nat \<Rightarrow> nat \<Rightarrow> u16" where
  "cga_scroll crt pos k =
     (if pos \<le> k \<and> k < 24 * 80 then 0 else if k < 23 * 80 then crt (k + 80) else crt k)"

definition cgaputc :: "int \<Rightarrow> 'a constate_scheme \<Rightarrow> 'a constate_scheme outcome" where
  "cgaputc c s =
     (let pos = cga_pos s;
          (pos, crt) =
            (if c = 10 then (pos + (80 - pos mod 80), cga_crt s)
             else if c = BACKSPACE then (if pos > 0 then pos - 1 else pos, cga_crt s)
             else (pos + 1, (cga_crt s)(nat pos := (word_of_int c AND 0xff) OR 0x0700)))
      in if pos < 0 \<or> pos > 25 * 80 then Panic ''pos under/overflow''
         else
           let (pos, crt) =
             (if pos div 80 \<ge> 24 then (pos - 80, cga_scroll crt (nat (pos - 80))) else (pos, crt))
           in Ok (s\<lparr>cga_pos := pos, cga_crt := crt(nat pos := 0x0720)\<rparr>))"

definition uartputc :: "u8 \<Rightarrow> 'a constate_scheme \<Rightarrow> 'a constate_scheme" where
  "uartputc c s = (if \<not> uart_on s then s else s\<lparr>uart_out := uart_out s @ [c]\<rparr>)"

text \<open>After a panic every CPU that prints spins forever.\<close>

definition consputc :: "int \<Rightarrow> 'a constate_scheme \<Rightarrow> 'a constate_scheme outcome" where
  "consputc c s =
     (if panicked s then Spin
      else
        let s = (if c = BACKSPACE then uartputc 8 (uartputc 32 (uartputc 8 s))
                 else uartputc (word_of_int c) s)
        in cgaputc c s)"

fun consputs :: "u8 list \<Rightarrow> 'a constate_scheme \<Rightarrow> 'a constate_scheme outcome" where
  "consputs [] s = Ok s"
| "consputs (c # cs) s = obind (consputc (uint c) s) (consputs cs)"

text \<open>A format that reads past its arguments prints unknown bytes.\<close>

definition cprintf :: "u8 list \<Rightarrow> arg list \<Rightarrow> 'a constate_scheme \<Rightarrow> 'a constate_scheme outcome" where
  "cprintf fmt as s =
     consputs (case cformat fmt as of Some out \<Rightarrow> out | None \<Rightarrow> undefined) s"

end
