(* ===== verification/Proc.thy ===== *)
theory Proc
  imports Spinlock Vm Rand Console
begin

text \<open>
  \<^verbatim>\<open>proc.c\<close> and the per-process half of \<^verbatim>\<open>vm.c\<close>: the process table, sleeping and
  waking, waiting for children, the lottery scheduler, and the record of system calls.
  A process is named by its index in the table, and \<open>None\<close> is the null pointer. The lock
  of the table is modelled with its CPU, since \<^verbatim>\<open>sched\<close> tests both; the other spin
  locks only make a section atomic and do not appear. The operations take the index of the
  current process, which the code reads with \<^verbatim>\<open>myproc\<close>.
\<close>

unbundle bit_operations_syntax

abbreviation NPROC :: nat where "NPROC \<equiv> 64"
abbreviation NOFILE :: nat where "NOFILE \<equiv> 16"
abbreviation MAXSYSCALL :: nat where "MAXSYSCALL \<equiv> 23"
abbreviation RSCOUNTMAX :: nat where "RSCOUNTMAX \<equiv> 100"
definition KSTACKSIZE :: u32 where "KSTACKSIZE = 4096"

section \<open>Data\<close>

datatype procstate = UNUSED | EMBRYO | SLEEPING | RUNNABLE | RUNNING | ZOMBIE

record proc =
  p_sz :: u32
  p_pgdir :: u32
  p_kstack :: u32
  p_state :: procstate
  p_pid :: int
  p_parent :: "nat option"
  p_tf :: u32
  p_context :: u32
  p_chan :: "chan option"
  p_killed :: bool
  p_ofile :: "nat option list"
  p_cwd :: "nat option"
  p_name :: cstr
  p_syscall_count :: "int list"
  p_ticket :: int
  p_response_time :: u32
  p_turn_around_time :: u32
  p_serv :: bool

record rtcdate =
  second :: u32
  minute :: u32
  hour :: u32
  day :: u32
  month :: u32
  year :: u32

text \<open>\<^verbatim>\<open>char args[10][10]\<close> as ten strings of ten bytes each.\<close>

record syscall_info =
  si_name :: "u8 list option"
  si_id :: nat
  si_pid :: int
  si_date :: rtcdate
  si_args :: "u8 list list"
  si_args_c :: nat

text \<open>
  The kernel's state as far as processes go. \<open>me\<close> is the number of the CPU whose step this
  is and \<open>this_cpu\<close> its \<^verbatim>\<open>struct cpu\<close>; \<open>cr3\<close> and \<open>ts_esp0\<close> are its page-table register
  and the stack its task state names. \<open>a_trapret\<close> and \<open>a_forkret\<close> are code addresses.
\<close>

record pstate = constate +
  procs :: "proc list"
  pt_lock :: spinlock
  me :: nat
  this_cpu :: cpu
  cr3 :: u32
  ts_esp0 :: u32
  kpgdir :: u32
  nextpid :: int
  initproc :: "nat option"
  ticks :: u32
  rng_state :: rng
  history :: "syscall_info list"
  rscount :: nat
  tscount :: nat
  a_trapret :: u32
  a_forkret :: u32

definition upd_proc :: "nat \<Rightarrow> (proc \<Rightarrow> proc) \<Rightarrow> 'a pstate_scheme \<Rightarrow> 'a pstate_scheme" where
  "upd_proc i f s = s\<lparr>procs := (procs s)[i := f (procs s ! i)]\<rparr>"

section \<open>The lock of the process table\<close>

text \<open>The call-site addresses that \<^verbatim>\<open>acquire\<close> records for debugging are left empty.\<close>

definition ptable_acquire :: "'a pstate_scheme \<Rightarrow> 'a pstate_scheme outcome" where
  "ptable_acquire s =
     obind (acquire (me s) [] (pt_lock s) (this_cpu s))
       (\<lambda>(lk, c). Ok (s\<lparr>pt_lock := lk, this_cpu := c\<rparr>))"

definition ptable_release :: "'a pstate_scheme \<Rightarrow> 'a pstate_scheme outcome" where
  "ptable_release s =
     obind (release (me s) (pt_lock s) (this_cpu s))
       (\<lambda>(lk, c). Ok (s\<lparr>pt_lock := lk, this_cpu := c\<rparr>))"

definition myproc :: "'a pstate_scheme \<Rightarrow> (nat option \<times> 'a pstate_scheme) outcome" where
  "myproc s =
     (let c = pushcli (this_cpu s); p = c_proc c
      in obind (popcli c) (\<lambda>c. Ok (p, s\<lparr>this_cpu := c\<rparr>)))"

section \<open>Address spaces of processes\<close>

definition switchkvm :: "'a pstate_scheme \<Rightarrow> 'a pstate_scheme" where
  "switchkvm s = s\<lparr>cr3 := V2P (kpgdir s)\<rparr>"

definition kvmalloc :: "'a pstate_scheme \<Rightarrow> 'a pstate_scheme outcome" where
  "kvmalloc s = obind (setupkvm s) (\<lambda>(d, s). Ok (switchkvm (s\<lparr>kpgdir := d\<rparr>)))"

definition switchuvm :: "nat option \<Rightarrow> 'a pstate_scheme \<Rightarrow> 'a pstate_scheme outcome" where
  "switchuvm p s =
     (case p of None \<Rightarrow> Panic ''switchuvm: no process''
      | Some i \<Rightarrow>
          if p_kstack (procs s ! i) = 0 then Panic ''switchuvm: no kstack''
          else if p_pgdir (procs s ! i) = 0 then Panic ''switchuvm: no pgdir''
          else
            let c = pushcli (this_cpu s);
                s = s\<lparr>ts_esp0 := p_kstack (procs s ! i) + KSTACKSIZE\<rparr>;
                s = s\<lparr>cr3 := V2P (p_pgdir (procs s ! i))\<rparr>
            in obind (popcli c) (\<lambda>c. Ok (s\<lparr>this_cpu := c\<rparr>)))"

section \<open>Allocating a process\<close>

definition sizeof_trapframe :: u32 where "sizeof_trapframe = 76"
definition sizeof_context :: u32 where "sizeof_context = 20"
definition context_eip :: u32 where "context_eip = 16"

definition init_syscalls_count :: "int list \<Rightarrow> int list" where
  "init_syscalls_count cs = replicate MAXSYSCALL 0 @ drop MAXSYSCALL cs"

definition allocproc :: "'a pstate_scheme \<Rightarrow> (nat option \<times> 'a pstate_scheme) outcome" where
  "allocproc s =
     obind (ptable_acquire s) (\<lambda>s.
     case scan (\<lambda>p. p_state p = UNUSED) (procs s) of
       None \<Rightarrow> obind (ptable_release s) (\<lambda>s. Ok (None, s))
     | Some i \<Rightarrow>
         let s = upd_proc i (\<lambda>p. p\<lparr>p_state := EMBRYO\<rparr>) s;
             s = upd_proc i (\<lambda>p. p\<lparr>p_pid := nextpid s\<rparr>) s;
             s = s\<lparr>nextpid := nextpid s + 1\<rparr>;
             s = upd_proc i (\<lambda>p. p\<lparr>p_syscall_count := init_syscalls_count (p_syscall_count p)\<rparr>) s
         in obind (ptable_release s) (\<lambda>s.
         obind (kalloc s) (\<lambda>(k, s).
         let s = upd_proc i (\<lambda>p. p\<lparr>p_kstack := k\<rparr>) s in
         if k = 0 then Ok (None, upd_proc i (\<lambda>p. p\<lparr>p_state := UNUSED\<rparr>) s)
         else
           let sp = k + KSTACKSIZE;
               sp = sp - sizeof_trapframe;
               s = upd_proc i (\<lambda>p. p\<lparr>p_tf := sp\<rparr>) s;
               sp = sp - 4;
               s = s\<lparr>k_mem := store32 (k_mem s) sp (a_trapret s)\<rparr>;
               sp = sp - sizeof_context;
               s = upd_proc i (\<lambda>p. p\<lparr>p_context := sp\<rparr>) s;
               s = s\<lparr>k_mem := memset (k_mem s) sp 0 sizeof_context\<rparr>;
               s = s\<lparr>k_mem := store32 (k_mem s) (sp + context_eip) (a_forkret s)\<rparr>;
               s = upd_proc i (\<lambda>p. p\<lparr>p_ticket := 10\<rparr>) s;
               s = upd_proc i (\<lambda>p. p\<lparr>p_response_time := ticks s, p_turn_around_time := ticks s,
                     p_serv := False\<rparr>) s
           in Ok (Some i, s))))"

text \<open>The result is \<open>True\<close> for 0 and \<open>False\<close> for -1; \<open>n\<close> is a signed 32-bit word.\<close>

definition growproc :: "nat \<Rightarrow> u32 \<Rightarrow> 'a pstate_scheme \<Rightarrow> (bool \<times> 'a pstate_scheme) outcome" where
  "growproc curproc n s =
     (let sz = p_sz (procs s ! curproc); pgdir = p_pgdir (procs s ! curproc) in
      obind (if 0 < sint n then allocuvm pgdir sz (sz + n) s
             else if sint n < 0 then deallocuvm pgdir sz (sz + n) s
             else Ok (sz, s)) (\<lambda>(sz, s).
      if n \<noteq> 0 \<and> sz = 0 then Ok (False, s)
      else
        let s = upd_proc curproc (\<lambda>p. p\<lparr>p_sz := sz\<rparr>) s
        in obind (switchuvm (Some curproc) s) (\<lambda>s. Ok (True, s))))"

section \<open>Switching, sleeping and waking\<close>

text \<open>
  \<^verbatim>\<open>sched\<close> up to the switch to the scheduler: the lock is held, and held alone, and the
  state has been changed. The switch keeps \<^verbatim>\<open>intena\<close>, a property of the kernel thread.
\<close>

definition sched :: "nat \<Rightarrow> 'a pstate_scheme \<Rightarrow> 'a pstate_scheme outcome" where
  "sched curproc s =
     obind (holding (me s) (pt_lock s) (this_cpu s)) (\<lambda>(h, c).
     let s = s\<lparr>this_cpu := c\<rparr> in
     if \<not> h then Panic ''sched ptable.lock''
     else if c_ncli (this_cpu s) \<noteq> 1 then Panic ''sched locks''
     else if p_state (procs s ! curproc) = RUNNING then Panic ''sched running''
     else if c_if (this_cpu s) then Panic ''sched interruptible''
     else Ok s)"

definition yield_enter :: "nat \<Rightarrow> 'a pstate_scheme \<Rightarrow> 'a pstate_scheme outcome" where
  "yield_enter curproc s =
     obind (ptable_acquire s) (\<lambda>s.
     let s = upd_proc curproc (\<lambda>p. p\<lparr>p_state := RUNNABLE\<rparr>) s
     in sched curproc s)"

text \<open>What a process does when \<^verbatim>\<open>sched\<close> returns into \<^verbatim>\<open>yield\<close> or into \<^verbatim>\<open>forkret\<close>.\<close>

definition yield_resume :: "'a pstate_scheme \<Rightarrow> 'a pstate_scheme outcome" where
  "yield_resume s = ptable_release s"

text \<open>
  \<^verbatim>\<open>sleep\<close> in two halves, before and after the switch. \<open>own\<close> says that the lock passed is
  \<^verbatim>\<open>ptable.lock\<close> itself; another lock's section ends when the first half returns.
\<close>

definition sleep_enter :: "nat \<Rightarrow> chan \<Rightarrow> bool \<Rightarrow> 'a pstate_scheme \<Rightarrow> 'a pstate_scheme outcome" where
  "sleep_enter curproc chan own s =
     obind (if own then Ok s else ptable_acquire s) (\<lambda>s.
     let s = upd_proc curproc (\<lambda>p. p\<lparr>p_chan := Some chan\<rparr>) s;
         s = upd_proc curproc (\<lambda>p. p\<lparr>p_state := SLEEPING\<rparr>) s
     in sched curproc s)"

definition sleep_resume :: "nat \<Rightarrow> bool \<Rightarrow> 'a pstate_scheme \<Rightarrow> 'a pstate_scheme outcome" where
  "sleep_resume curproc own s =
     (let s = upd_proc curproc (\<lambda>p. p\<lparr>p_chan := None\<rparr>) s
      in if own then Ok s else ptable_release s)"

text \<open>The channel of \<^verbatim>\<open>wakeup1\<close> may be null, when a parent pointer is passed.\<close>

definition wake :: "chan option \<Rightarrow> proc \<Rightarrow> proc" where
  "wake c p = (if p_state p = SLEEPING \<and> p_chan p = c then p\<lparr>p_state := RUNNABLE\<rparr> else p)"

definition wakeup1 :: "chan option \<Rightarrow> 'a pstate_scheme \<Rightarrow> 'a pstate_scheme" where
  "wakeup1 c s = s\<lparr>procs := map (wake c) (procs s)\<rparr>"

definition wakeup :: "chan \<Rightarrow> 'a pstate_scheme \<Rightarrow> 'a pstate_scheme outcome" where
  "wakeup c s = obind (ptable_acquire s) (\<lambda>s. ptable_release (wakeup1 (Some c) s))"

definition kill :: "int \<Rightarrow> 'a pstate_scheme \<Rightarrow> (bool \<times> 'a pstate_scheme) outcome" where
  "kill pid s =
     obind (ptable_acquire s) (\<lambda>s.
     case scan (\<lambda>p. p_pid p = pid) (procs s) of
       None \<Rightarrow> obind (ptable_release s) (\<lambda>s. Ok (False, s))
     | Some i \<Rightarrow>
         let s = upd_proc i (\<lambda>p. p\<lparr>p_killed := True\<rparr>) s;
             s = (if p_state (procs s ! i) = SLEEPING
                  then upd_proc i (\<lambda>p. p\<lparr>p_state := RUNNABLE\<rparr>) s else s)
         in obind (ptable_release s) (\<lambda>s. Ok (True, s)))"

section \<open>Waiting for a child\<close>

definition child_of :: "nat \<Rightarrow> proc \<Rightarrow> bool" where
  "child_of i p \<longleftrightarrow> p_parent p = Some i"

text \<open>What \<^verbatim>\<open>wait\<close> does with a zombie child it has found, under the lock.\<close>

definition reap :: "nat \<Rightarrow> 'a pstate_scheme \<Rightarrow> (int \<times> 'a pstate_scheme) outcome" where
  "reap i s =
     (let pid = p_pid (procs s ! i) in
      obind (kfree (p_kstack (procs s ! i)) s) (\<lambda>s.
      let s = upd_proc i (\<lambda>p. p\<lparr>p_kstack := 0\<rparr>) s in
      obind (freevm (p_pgdir (procs s ! i)) s) (\<lambda>s.
      Ok (pid, upd_proc i (\<lambda>p. p\<lparr>p_pid := 0, p_parent := None, p_name := (p_name p)(0 := 0),
                 p_killed := False, p_state := UNUSED\<rparr>) s))))"

text \<open>
  One turn of the loop of \<^verbatim>\<open>wait\<close>, entered with the lock held: \<open>Some r\<close> is a return, with
  the lock released; \<open>None\<close> is a process that has gone to sleep on its own address. When
  it is resumed, the next turn follows \<open>sleep_resume\<close>.
\<close>

definition wait_turn :: "nat \<Rightarrow> 'a pstate_scheme \<Rightarrow> (int option \<times> 'a pstate_scheme) outcome" where
  "wait_turn curproc s =
     (case scan (\<lambda>p. child_of curproc p \<and> p_state p = ZOMBIE) (procs s) of
        Some i \<Rightarrow>
          obind (reap i s) (\<lambda>(pid, s). obind (ptable_release s) (\<lambda>s. Ok (Some pid, s)))
      | None \<Rightarrow>
          if \<not> (\<exists>p \<in> set (procs s). child_of curproc p) \<or> p_killed (procs s ! curproc) then
            obind (ptable_release s) (\<lambda>s. Ok (Some (- 1), s))
          else
            obind (sleep_enter curproc (ChProc curproc) True s) (\<lambda>s. Ok (None, s)))"

definition wait_enter :: "nat \<Rightarrow> 'a pstate_scheme \<Rightarrow> (int option \<times> 'a pstate_scheme) outcome" where
  "wait_enter curproc s = obind (ptable_acquire s) (wait_turn curproc)"

definition wait_resume :: "nat \<Rightarrow> 'a pstate_scheme \<Rightarrow> (int option \<times> 'a pstate_scheme) outcome" where
  "wait_resume curproc s = obind (sleep_resume curproc True s) (wait_turn curproc)"

section \<open>The scheduler\<close>

text \<open>
  Running the process of slot \<open>i\<close>: it leaves the scheduler holding the lock and comes back
  holding it, when it has called \<^verbatim>\<open>sched\<close>. What it does in between is the argument
  \<open>run\<close>, an operation on the whole state.
\<close>

definition dispatch ::
  "(nat \<Rightarrow> 'a pstate_scheme \<Rightarrow> 'a pstate_scheme outcome) \<Rightarrow> nat \<Rightarrow> 'a pstate_scheme \<Rightarrow> 'a pstate_scheme outcome" where
  "dispatch run i s =
     (let s = s\<lparr>this_cpu := (this_cpu s)\<lparr>c_proc := Some i\<rparr>\<rparr> in
      obind (switchuvm (Some i) s) (\<lambda>s.
      let s = upd_proc i (\<lambda>p. p\<lparr>p_state := RUNNING\<rparr>) s;
          s = (if \<not> p_serv (procs s ! i)
               then upd_proc i (\<lambda>p. p\<lparr>p_response_time := ticks s - p_response_time p, p_serv := True\<rparr>) s
               else s)
      in obind (run i s) (\<lambda>s.
      let s = switchkvm s
      in Ok (s\<lparr>this_cpu := (this_cpu s)\<lparr>c_proc := None\<rparr>\<rparr>))))"

text \<open>The tickets of the runnable processes, added up in the order of the table.\<close>

definition lottery_total :: "proc list \<Rightarrow> int" where
  "lottery_total ps = foldl (\<lambda>n p. if p_state p = RUNNABLE then p_ticket p + n else n) 0 ps"

text \<open>The loop over the table: after a process has run, the draw and the count are 0.\<close>

fun lottery_scan ::
  "(nat \<Rightarrow> 'a pstate_scheme \<Rightarrow> 'a pstate_scheme outcome) \<Rightarrow> nat list \<Rightarrow> int \<Rightarrow> int \<Rightarrow>
   'a pstate_scheme \<Rightarrow> 'a pstate_scheme outcome" where
  "lottery_scan run [] chance passed s = Ok s"
| "lottery_scan run (i # is) chance passed s =
     (if p_state (procs s ! i) \<noteq> RUNNABLE then lottery_scan run is chance passed s
      else if passed + p_ticket (procs s ! i) < chance then
        lottery_scan run is chance (passed + p_ticket (procs s ! i)) s
      else obind (dispatch run i s) (lottery_scan run is 0 0))"

text \<open>One turn of the endless loop; a draw that never returns is \<open>Spin\<close>.\<close>

definition lottery_pass ::
  "(nat \<Rightarrow> 'a pstate_scheme \<Rightarrow> 'a pstate_scheme outcome) \<Rightarrow> 'a pstate_scheme \<Rightarrow> 'a pstate_scheme outcome" where
  "lottery_pass run s =
     (let s = s\<lparr>this_cpu := (this_cpu s)\<lparr>c_if := True\<rparr>\<rparr>;
          total = lottery_total (procs s)
      in case random_at_most (word_of_int total) (rng_state s) of
           None \<Rightarrow> Spin
         | Some (chance, g) \<Rightarrow>
             obind (ptable_acquire (s\<lparr>rng_state := g\<rparr>)) (\<lambda>s.
             obind (lottery_scan run [0 ..< NPROC] (sint chance) 0 s) ptable_release))"

text \<open>The other tree's scheduler is round-robin.\<close>

fun rr_scan ::
  "(nat \<Rightarrow> 'a pstate_scheme \<Rightarrow> 'a pstate_scheme outcome) \<Rightarrow> nat list \<Rightarrow> 'a pstate_scheme \<Rightarrow> 'a pstate_scheme outcome" where
  "rr_scan run [] s = Ok s"
| "rr_scan run (i # is) s =
     (if p_state (procs s ! i) \<noteq> RUNNABLE then rr_scan run is s
      else obind (dispatch run i s) (rr_scan run is))"

definition rr_pass ::
  "(nat \<Rightarrow> 'a pstate_scheme \<Rightarrow> 'a pstate_scheme outcome) \<Rightarrow> 'a pstate_scheme \<Rightarrow> 'a pstate_scheme outcome" where
  "rr_pass run s =
     (let s = s\<lparr>this_cpu := (this_cpu s)\<lparr>c_if := True\<rparr>\<rparr>
      in obind (ptable_acquire s) (\<lambda>s.
         obind (rr_scan run [0 ..< NPROC] s) ptable_release))"

section \<open>The record of system calls\<close>

definition pinit :: "'a pstate_scheme \<Rightarrow> 'a pstate_scheme" where
  "pinit s = s\<lparr>pt_lock := initlock (pt_lock s) ''ptable'',
      history := map (\<lambda>si. si\<lparr>si_args_c := 0\<rparr>) (take RSCOUNTMAX (history s)) @ drop RSCOUNTMAX (history s)\<rparr>"

text \<open>
  \<^verbatim>\<open>set_last_syscall_info\<close> copies up to ten bytes into the next argument slot of the call
  being recorded. \<open>None\<close> is a write past the ten slots, into other memory.
\<close>

definition set_last_syscall_info :: "cstr \<Rightarrow> 'a pstate_scheme \<Rightarrow> 'a pstate_scheme option" where
  "set_last_syscall_info inp s =
     (let n = length (takeWhile (\<lambda>i. inp i \<noteq> 0) [0 ..< 10]);
          si = history s ! rscount s; k = si_args_c si
      in if k < length (si_args si) then
           let si = si\<lparr>si_args := (si_args si)[k := map inp [0 ..< n] @ drop n (si_args si ! k)]\<rparr>;
               si = si\<lparr>si_args_c := k + 1\<rparr>
           in Some (s\<lparr>history := (history s)[rscount s := si]\<rparr>)
         else if n = 0 then
           Some (s\<lparr>history := (history s)[rscount s := si\<lparr>si_args_c := k + 1\<rparr>]\<rparr>)
         else None)"

text \<open>
  The count for call 23 lies one past the array: the word after it is the process's
  \<^verbatim>\<open>ticket\<close>. The calls are numbered 1 to 23.
\<close>

definition count_syscall :: "nat \<Rightarrow> proc \<Rightarrow> proc" where
  "count_syscall num p =
     (if num < MAXSYSCALL then p\<lparr>p_syscall_count := (p_syscall_count p)[num := p_syscall_count p ! num + 1]\<rparr>
      else p\<lparr>p_ticket := p_ticket p + 1\<rparr>)"

text \<open>When the record is full its newer half moves to the front.\<close>

definition compact_history :: "syscall_info list \<Rightarrow> syscall_info list" where
  "compact_history h =
     (let d = RSCOUNTMAX - RSCOUNTMAX div 2;
          h = map (\<lambda>i. if i < d then h ! (i + d) else h ! i) [0 ..< RSCOUNTMAX];
          rs = d + 1
      in map (\<lambda>i. if rs + 1 \<le> i then (h ! i)\<lparr>si_args_c := 0\<rparr> else h ! i) [0 ..< RSCOUNTMAX])"

text \<open>\<open>r\<close> is the date that \<^verbatim>\<open>cmostime\<close> read.\<close>

definition register_syscall :: "int \<Rightarrow> nat \<Rightarrow> u8 list \<Rightarrow> rtcdate \<Rightarrow> 'a pstate_scheme \<Rightarrow> 'a pstate_scheme" where
  "register_syscall pid num nm r s =
     (let si = (history s ! rscount s)\<lparr>si_date := r, si_pid := pid, si_name := Some nm, si_id := num\<rparr>;
          s = s\<lparr>history := (history s)[rscount s := si]\<rparr>;
          s = (case scan (\<lambda>p. p_pid p = pid) (procs s) of
                 None \<Rightarrow> s | Some i \<Rightarrow> upd_proc i (count_syscall num) s);
          s = s\<lparr>rscount := rscount s + 1, tscount := tscount s + 1\<rparr>
      in if RSCOUNTMAX \<le> rscount s then
           s\<lparr>history := compact_history (history s),
             rscount := RSCOUNTMAX - RSCOUNTMAX div 2 + 1\<rparr>
         else s)"

definition getName :: "nat \<Rightarrow> u8 list outcome" where
  "getName num =
     (let names = [''fork'', ''exit'', ''wait'', ''pipe'', ''read'', ''kill'', ''exec'', ''fstat'',
        ''chdir'', ''dup'', ''getpid'', ''sbrk'', ''sleep'', ''uptime'', ''open'', ''write'', ''mknod'',
        ''unlink'', ''link'', ''mkdir'', ''close'', ''invoked_syscalls'', ''log_syscalls'']
      in if 1 \<le> num \<and> num \<le> 23 then Ok (bytes (names ! (num - 1)))
         else Panic ''should never get here'')"

section \<open>Listings\<close>

definition state_name :: "procstate \<Rightarrow> u8 list" where
  "state_name st = bytes (case st of UNUSED \<Rightarrow> ''unused'' | EMBRYO \<Rightarrow> ''embryo'' | SLEEPING \<Rightarrow> ''sleep ''
     | RUNNABLE \<Rightarrow> ''runble'' | RUNNING \<Rightarrow> ''run   '' | ZOMBIE \<Rightarrow> ''zombie'')"

text \<open>The text of a NUL-terminated array of at most \<open>n\<close> bytes.\<close>

definition cstr_text :: "nat \<Rightarrow> cstr \<Rightarrow> u8 list" where
  "cstr_text n f = takeWhile (\<lambda>b. b \<noteq> 0) (map f [0 ..< n])"

definition nl :: "u8 list" where "nl = [10]"

fun print_pcs :: "u32 list \<Rightarrow> 'a pstate_scheme \<Rightarrow> 'a pstate_scheme outcome" where
  "print_pcs [] s = Ok s"
| "print_pcs (pc # pcs) s =
     (if pc = 0 then Ok s
      else obind (cprintf (bytes '' %p'') [ArgInt pc] s) (print_pcs pcs))"

fun procdump_from :: "proc list \<Rightarrow> 'a pstate_scheme \<Rightarrow> 'a pstate_scheme outcome" where
  "procdump_from [] s = Ok s"
| "procdump_from (p # ps) s =
     (if p_state p = UNUSED then procdump_from ps s
      else
        obind (cprintf (bytes ''%d %s %s'')
          [ArgInt (word_of_int (p_pid p)), ArgStr (Some (state_name (p_state p))),
           ArgStr (Some (cstr_text 16 (p_name p)))] s) (\<lambda>s.
        obind (if p_state p = SLEEPING
               then print_pcs (getcallerpcs (load32 (k_mem s)) (load32 (k_mem s) (p_context p + 12) + 8)) s
               else Ok s) (\<lambda>s.
        obind (cprintf nl [] s) (procdump_from ps))))"

definition procdump :: "'a pstate_scheme \<Rightarrow> 'a pstate_scheme outcome" where
  "procdump s = procdump_from (procs s) s"

text \<open>
  A recorded argument is printed from its slot on up to the next NUL of the array, since
  the slots are not terminated; past the array it is unknown memory.
\<close>

definition arg_text :: "syscall_info \<Rightarrow> nat \<Rightarrow> u8 list" where
  "arg_text si j =
     (let mem = drop (10 * j) (concat (si_args si))
      in if 0 \<in> set mem then takeWhile (\<lambda>b. b \<noteq> 0) mem else undefined)"

fun print_args :: "syscall_info \<Rightarrow> nat list \<Rightarrow> 'a pstate_scheme \<Rightarrow> 'a pstate_scheme outcome" where
  "print_args si [] s = Ok s"
| "print_args si (j # js) s =
     obind (cprintf (bytes ''  %s  '') [ArgStr (Some (arg_text si j))] s) (print_args si js)"

definition print_time :: "syscall_info \<Rightarrow> 'a pstate_scheme \<Rightarrow> 'a pstate_scheme outcome" where
  "print_time si s =
     obind (cprintf (bytes ''%d:'') [ArgInt (hour (si_date si))] s) (\<lambda>s.
     obind (cprintf (bytes ''%d:'') [ArgInt (minute (si_date si))] s) (\<lambda>s.
     obind (cprintf (bytes ''%d'') [ArgInt (second (si_date si))] s) (\<lambda>s.
     cprintf (nl @ nl) [] s)))"

fun log_entries :: "syscall_info list \<Rightarrow> 'a pstate_scheme \<Rightarrow> 'a pstate_scheme outcome" where
  "log_entries [] s = Ok s"
| "log_entries (si # sis) s =
     obind (cprintf (bytes ''name: %s , id: %d,  pid: %d, time: '')
       [ArgStr (si_name si), ArgInt (of_nat (si_id si)), ArgInt (word_of_int (si_pid si))] s) (\<lambda>s.
     obind (print_args si [0 ..< si_args_c si] s) (\<lambda>s.
     obind (cprintf nl [] s) (\<lambda>s.
     obind (print_time si s) (log_entries sis))))"

definition log_syscalls :: "'a pstate_scheme \<Rightarrow> (int \<times> 'a pstate_scheme) outcome" where
  "log_syscalls s =
     obind (cprintf (bytes ''log_syscalls called '' @ nl) [] s) (\<lambda>s.
     obind (log_entries (take (rscount s) (history s)) s) (\<lambda>s. Ok (23, s)))"

fun invoked_entries :: "int \<Rightarrow> syscall_info list \<Rightarrow> 'a pstate_scheme \<Rightarrow> 'a pstate_scheme outcome" where
  "invoked_entries pid [] s = Ok s"
| "invoked_entries pid (si # sis) s =
     (if pid \<noteq> si_pid si then invoked_entries pid sis s
      else
        obind (cprintf (bytes ''name: %s , id: %d,  pid: %d,'')
          [ArgStr (si_name si), ArgInt (of_nat (si_id si)), ArgInt (word_of_int (si_pid si))] s) (\<lambda>s.
        obind (print_args si [0 ..< si_args_c si] s) (\<lambda>s.
        obind (cprintf nl [] s) (\<lambda>s.
        obind (cprintf (bytes ''time: '') [] s) (\<lambda>s.
        obind (print_time si s) (invoked_entries pid sis))))))"

fun print_counts :: "int list \<Rightarrow> nat list \<Rightarrow> 'a pstate_scheme \<Rightarrow> 'a pstate_scheme outcome" where
  "print_counts cs [] s = Ok s"
| "print_counts cs (k # ks) s =
     (if 0 < cs ! k then
        obind (getName k) (\<lambda>nm.
        obind (cprintf (bytes '' %s  %d'' @ nl) [ArgStr (Some nm), ArgInt (word_of_int (cs ! k))] s)
          (print_counts cs ks))
      else print_counts cs ks s)"

fun invoked_counts :: "int \<Rightarrow> proc list \<Rightarrow> 'a pstate_scheme \<Rightarrow> 'a pstate_scheme outcome" where
  "invoked_counts pid [] s = Ok s"
| "invoked_counts pid (p # ps) s =
     (if p_pid p = pid
      then obind (print_counts (p_syscall_count p) [0 ..< MAXSYSCALL] s) (invoked_counts pid ps)
      else invoked_counts pid ps s)"

definition invoked_syscalls :: "int \<Rightarrow> 'a pstate_scheme \<Rightarrow> (int \<times> 'a pstate_scheme) outcome" where
  "invoked_syscalls pid s =
     obind (cprintf (bytes ''invoked_syscalls called with %d '' @ nl) [ArgInt (word_of_int pid)] s) (\<lambda>s.
     obind (if 0 < pid \<and> pid < nextpid s then
              obind (invoked_entries pid (take (rscount s) (history s)) s) (invoked_counts pid (procs s))
            else cprintf (bytes ''procces dosent created!'') [] s) (\<lambda>s. Ok (22, s)))"

section \<open>The lock of the table around an operation\<close>

text \<open>
  No spin lock is held by this CPU and the table is unlocked; and the state inside a
  critical section of the table, entered from there.
\<close>

definition quiet :: "'a pstate_scheme \<Rightarrow> bool" where
  "quiet s \<longleftrightarrow> c_ncli (this_cpu s) = 0 \<and> l_locked (pt_lock s) = 0"

definition in_ptable :: "'a pstate_scheme \<Rightarrow> bool" where
  "in_ptable s \<longleftrightarrow> c_ncli (this_cpu s) = 1 \<and> \<not> c_if (this_cpu s) \<and>
     l_locked (pt_lock s) \<noteq> 0 \<and> l_cpu (pt_lock s) = Some (me s)"

lemma ptable_acquire_quiet:
  assumes "quiet s"
  shows "ptable_acquire s = Ok (s\<lparr>pt_lock := (pt_lock s)\<lparr>l_locked := 1, l_cpu := Some (me s), l_pcs := []\<rparr>,
    this_cpu := pushcli (this_cpu s)\<rparr>)"
  using assms by (simp add: ptable_acquire_def quiet_def acquire_free cpu_ok_def)

lemma ptable_acquire_in:
  assumes "quiet s"
  obtains s' where "ptable_acquire s = Ok s'" "in_ptable s'"
    "s' = s\<lparr>pt_lock := pt_lock s', this_cpu := this_cpu s'\<rparr>"
    "c_proc (this_cpu s') = c_proc (this_cpu s)" "c_intena (this_cpu s') = c_if (this_cpu s)"
  by (rule that [OF ptable_acquire_quiet [OF assms]])
    (use assms in \<open>auto simp: in_ptable_def quiet_def pushcli_def Let_def\<close>)

lemma ptable_release_in:
  assumes "in_ptable s"
  obtains s' where "ptable_release s = Ok s'" "quiet s'"
    "s' = s\<lparr>pt_lock := pt_lock s', this_cpu := this_cpu s'\<rparr>"
    "c_proc (this_cpu s') = c_proc (this_cpu s)" "c_if (this_cpu s') = c_intena (this_cpu s)"
proof -
  let ?c = "this_cpu s"
  have ok: "cpu_ok ?c" "c_ncli ?c = 1" "\<not> c_if ?c" using assms by (simp_all add: in_ptable_def cpu_ok_def)
  have h: "holding (me s) (pt_lock s) ?c = Ok (True, ?c)"
    using assms ok by (simp add: in_ptable_def holding_eq)
  have p: "popcli ?c = Ok (?c\<lparr>c_ncli := 0, c_if := c_intena ?c\<rparr>)"
    using ok by (simp add: popcli_def Let_def)
  show thesis
    by (rule that [of "s\<lparr>pt_lock := (pt_lock s)\<lparr>l_pcs := (l_pcs (pt_lock s))[0 := 0], l_cpu := None, l_locked := 0\<rparr>,
      this_cpu := ?c\<lparr>c_ncli := 0, c_if := c_intena ?c\<rparr>\<rparr>"])
      (simp_all add: ptable_release_def release_def h p Let_def quiet_def)
qed

lemma quiet_procs [simp]: "quiet (s\<lparr>procs := ps\<rparr>) = quiet s"
  and in_ptable_procs [simp]: "in_ptable (s\<lparr>procs := ps\<rparr>) = in_ptable s"
  by (simp_all add: quiet_def in_ptable_def)

text \<open>\<open>s'\<close> is \<open>s\<close> but for the lock of the table and this CPU's interrupt bookkeeping.\<close>

definition same_but_lock :: "'a pstate_scheme \<Rightarrow> 'a pstate_scheme \<Rightarrow> bool" where
  "same_but_lock s s' \<longleftrightarrow> s' = s\<lparr>pt_lock := pt_lock s', this_cpu := this_cpu s'\<rparr> \<and>
     c_proc (this_cpu s') = c_proc (this_cpu s)"

lemma same_but_lock_iff:
  "same_but_lock s s' \<longleftrightarrow>
     (\<exists>lk c. s' = s\<lparr>pt_lock := lk, this_cpu := c\<rparr> \<and> c_proc c = c_proc (this_cpu s))"
  by (auto simp: same_but_lock_def intro: exI [of _ "pt_lock s'"] exI [of _ "this_cpu s'"])

lemma same_but_lock_procs:
  "same_but_lock s s' \<Longrightarrow> same_but_lock (s\<lparr>procs := ps\<rparr>) (s'\<lparr>procs := ps\<rparr>)"
proof -
  assume "same_but_lock s s'"
  then obtain lk c where "s' = s\<lparr>pt_lock := lk, this_cpu := c\<rparr>" "c_proc c = c_proc (this_cpu s)"
    unfolding same_but_lock_iff by (elim exE conjE)
  then show ?thesis unfolding same_but_lock_iff by (intro exI [of _ lk] exI [of _ c]) simp
qed

text \<open>A critical section of the table that updates only the table itself.\<close>

lemma ptable_section:
  assumes "quiet s"
  shows "\<exists>s1. ptable_acquire s = Ok s1 \<and> procs s1 = procs s \<and> in_ptable s1 \<and> same_but_lock s s1 \<and>
     (\<forall>ps. \<exists>s2. ptable_release (s1\<lparr>procs := ps\<rparr>) = Ok s2 \<and> quiet s2 \<and> c_if (this_cpu s2) = c_if (this_cpu s) \<and>
        same_but_lock (s\<lparr>procs := ps\<rparr>) s2)"
proof -
  obtain s1 where s1: "ptable_acquire s = Ok s1" "in_ptable s1"
    "s1 = s\<lparr>pt_lock := pt_lock s1, this_cpu := this_cpu s1\<rparr>"
    "c_proc (this_cpu s1) = c_proc (this_cpu s)" "c_intena (this_cpu s1) = c_if (this_cpu s)"
    using ptable_acquire_in [OF assms] by blast
  have "\<exists>s2. ptable_release (s1\<lparr>procs := ps\<rparr>) = Ok s2 \<and> quiet s2 \<and> c_if (this_cpu s2) = c_if (this_cpu s) \<and>
        same_but_lock (s\<lparr>procs := ps\<rparr>) s2" for ps
  proof -
    have "in_ptable (s1\<lparr>procs := ps\<rparr>)" using s1(2) by simp
    from ptable_release_in [OF this] obtain s2 where s2: "ptable_release (s1\<lparr>procs := ps\<rparr>) = Ok s2"
      "quiet s2" "s2 = s1\<lparr>procs := ps, pt_lock := pt_lock s2, this_cpu := this_cpu s2\<rparr>"
      "c_proc (this_cpu s2) = c_proc (this_cpu s1)" "c_if (this_cpu s2) = c_intena (this_cpu s1)" by auto
    have "s2 = s\<lparr>procs := ps, pt_lock := pt_lock s2, this_cpu := this_cpu s2\<rparr>"
      by (subst s2(3), subst s1(3)) simp
    with s2 s1(4,5) show ?thesis by (auto simp: same_but_lock_def)
  qed
  moreover have "procs s1 = procs s" by (subst s1(3)) simp
  ultimately show ?thesis using s1 by (auto simp: same_but_lock_def)
qed

lemma wakeup_Ok:
  assumes "quiet s"
  shows "\<exists>s'. wakeup ch s = Ok s' \<and> quiet s' \<and> c_if (this_cpu s') = c_if (this_cpu s) \<and>
     same_but_lock (s\<lparr>procs := map (wake (Some ch)) (procs s)\<rparr>) s'"
  using ptable_section [OF assms] by (fastforce simp: wakeup_def wakeup1_def)
lemma sched_Ok:
  "in_ptable s \<Longrightarrow> p_state (procs s ! i) \<noteq> RUNNING \<Longrightarrow> sched i s = Ok s"
  by (simp add: sched_def in_ptable_def holding_eq cpu_ok_def)

lemma sched_running_panics:
  "in_ptable s \<Longrightarrow> p_state (procs s ! i) = RUNNING \<Longrightarrow> sched i s = Panic ''sched running''"
  by (simp add: sched_def in_ptable_def holding_eq cpu_ok_def)

text \<open>The process has gone to sleep on \<open>ch\<close>, and the lock of the table is held for the scheduler.\<close>

definition asleep :: "nat \<Rightarrow> chan \<Rightarrow> proc list \<Rightarrow> proc list" where
  "asleep i ch ps = ps[i := (ps ! i)\<lparr>p_chan := Some ch, p_state := SLEEPING\<rparr>]"

lemma sleep_enter_own:
  assumes "in_ptable s" "i < length (procs s)"
  shows "sleep_enter i ch True s = Ok (s\<lparr>procs := asleep i ch (procs s)\<rparr>)"
  using assms by (simp add: sleep_enter_def Let_def upd_proc_def asleep_def sched_Ok)

lemma sleep_enter_Ok:
  assumes "quiet s" "i < length (procs s)"
  shows "\<exists>s'. sleep_enter i ch False s = Ok s' \<and> in_ptable s' \<and>
     same_but_lock (s\<lparr>procs := asleep i ch (procs s)\<rparr>) s'"
proof -
  obtain s1 where s0: "ptable_acquire s = Ok s1" "in_ptable s1"
    "s1 = s\<lparr>pt_lock := pt_lock s1, this_cpu := this_cpu s1\<rparr>" "c_proc (this_cpu s1) = c_proc (this_cpu s)"
    using ptable_acquire_in [OF assms(1)] by blast
  have p: "procs s1 = procs s" by (subst s0(3)) simp
  have sb: "same_but_lock s s1" using s0 by (simp add: same_but_lock_def)
  note s1 = s0(1) p s0(2) sb
  have "sleep_enter i ch False s = Ok (s1\<lparr>procs := asleep i ch (procs s1)\<rparr>)"
    using s1 assms(2) by (simp add: sleep_enter_def Let_def upd_proc_def asleep_def sched_Ok)
  moreover have "same_but_lock (s\<lparr>procs := asleep i ch (procs s)\<rparr>) (s1\<lparr>procs := asleep i ch (procs s1)\<rparr>)"
    unfolding s1(2) using s1(4) by (rule same_but_lock_procs)
  moreover have "in_ptable (s1\<lparr>procs := asleep i ch (procs s1)\<rparr>)" using s1(3) by simp
  ultimately show ?thesis by blast
qed

section \<open>An example machine\<close>

text \<open>
  One CPU, two free pages and four process slots: a running parent, a runnable and a zombie
  child, and a free slot. Every theorem below with a hypothesis is applied to it or to an
  extension of it, whose further fields are the argument.
\<close>

definition example_cpu :: cpu where
  "example_cpu = \<lparr>c_apicid = 0, c_started = 1, c_ncli = 0, c_intena = True, c_proc = Some 0, c_if = True\<rparr>"

definition example_proc :: "procstate \<Rightarrow> int \<Rightarrow> nat option \<Rightarrow> proc" where
  "example_proc st pid parent =
     \<lparr>p_sz = 4096, p_pgdir = 0x80402000, p_kstack = 0x80403000, p_state = st, p_pid = pid, p_parent = parent,
      p_tf = 0x80403fb4, p_context = 0x80403f9c, p_chan = None, p_killed = False,
      p_ofile = replicate NOFILE None, p_cwd = Some 0, p_name = (\<lambda>k. 0),
      p_syscall_count = replicate MAXSYSCALL 0, p_ticket = 10, p_response_time = 0,
      p_turn_around_time = 0, p_serv = True\<rparr>"

definition example_state :: "'m \<Rightarrow> 'm pstate_scheme" where
  "example_state m =
     \<lparr>k_mem = k_mem two_pages, k_locked = False, k_use_lock = True, k_freelist = 0x80401000,
      k_end = 0x80200000, k_data = 0x80108000,
      cga_pos = 0, cga_crt = (\<lambda>k. 0), uart_on = True, uart_out = [], panicked = False,
      procs = [example_proc RUNNING 1 None, example_proc RUNNABLE 2 (Some 0), example_proc ZOMBIE 3 (Some 0),
        example_proc UNUSED 0 None],
      pt_lock = \<lparr>l_locked = 0, l_name = ''ptable'', l_cpu = None, l_pcs = replicate 10 0\<rparr>,
      me = 0, this_cpu = example_cpu, cr3 = 0, ts_esp0 = 0, kpgdir = 0, nextpid = 4, initproc = Some 0,
      ticks = 5, rng_state = rng_init, history = [], rscount = 0, tscount = 0,
      a_trapret = 0x80105000, a_forkret = 0x80104000, \<dots> = m\<rparr>"

end
