(* ===== verification/Sleeplock.thy ===== *)
theory Sleeplock
  imports Proc
begin

text \<open>
  \<^verbatim>\<open>sleeplock.c\<close>: locks that a process may hold while it sleeps. A lock is passed with the
  channel that stands for its address. The spin lock inside makes each operation one
  atomic step and does not appear.
\<close>

record sleeplock =
  sl_locked :: bool
  sl_name :: string
  sl_pid :: int

definition initsleeplock :: "sleeplock \<Rightarrow> string \<Rightarrow> sleeplock" where
  "initsleeplock lk nm = lk\<lparr>sl_name := nm, sl_locked := False, sl_pid := 0\<rparr>"

text \<open>\<^verbatim>\<open>myproc()->pid\<close>.\<close>

definition cur_pid :: "'a pstate_scheme \<Rightarrow> int" where
  "cur_pid s = p_pid (procs s ! the (c_proc (this_cpu s)))"

text \<open>A process that finds the lock taken sleeps on it and tries again when it is woken.\<close>

definition acquiresleep :: "chan \<Rightarrow> sleeplock \<Rightarrow> 'a pstate_scheme \<Rightarrow> sleeplock outcome" where
  "acquiresleep ch lk s =
     (if sl_locked lk then Sleep ch else Ok (lk\<lparr>sl_locked := True, sl_pid := cur_pid s\<rparr>))"

definition releasesleep ::
  "chan \<Rightarrow> sleeplock \<Rightarrow> 'a pstate_scheme \<Rightarrow> (sleeplock \<times> 'a pstate_scheme) outcome" where
  "releasesleep ch lk s =
     obind (wakeup ch s) (\<lambda>s. Ok (lk\<lparr>sl_locked := False, sl_pid := 0\<rparr>, s))"

definition holdingsleep :: "sleeplock \<Rightarrow> 'a pstate_scheme \<Rightarrow> bool" where
  "holdingsleep lk s \<longleftrightarrow> sl_locked lk \<and> sl_pid lk = cur_pid s"

end
