(* ===== verification/Bio.thy ===== *)
theory Bio
  imports Sleeplock
begin

text \<open>
  \<^verbatim>\<open>bio.c\<close>, the cache of disk blocks, over the driver of \<^verbatim>\<open>memide.c\<close>, which answers a
  request at once; \<open>Ide\<close> holds the driver with the queue and the interrupt. A buffer is
  its index in \<^verbatim>\<open>bcache.buf\<close>; the doubly linked list from \<^verbatim>\<open>head.next\<close> on is \<open>lru\<close>, most
  recently used first.
\<close>

abbreviation NBUF :: nat where "NBUF \<equiv> 30"
abbreviation BSIZE :: nat where "BSIZE \<equiv> 512"

section \<open>Bytes of a block\<close>

text \<open>
  A block is its bytes 0 to 511 (a function, of which the code uses these values), so that
  copying a whole block is an assignment. Words are little-endian, at byte offsets.
\<close>

type_synonym block = "nat \<Rightarrow> u8"

definition get16 :: "block \<Rightarrow> nat \<Rightarrow> u16" where
  "get16 b k = ucast (b k) OR push_bit 8 (ucast (b (k + 1)))"

definition put16 :: "block \<Rightarrow> nat \<Rightarrow> u16 \<Rightarrow> block" where
  "put16 b k v = b(k := ucast v, k + 1 := ucast (drop_bit 8 v))"

definition get32 :: "block \<Rightarrow> nat \<Rightarrow> u32" where
  "get32 b k = ucast (b k) OR push_bit 8 (ucast (b (k + 1))) OR
     push_bit 16 (ucast (b (k + 2))) OR push_bit 24 (ucast (b (k + 3)))"

definition put32 :: "block \<Rightarrow> nat \<Rightarrow> u32 \<Rightarrow> block" where
  "put32 b k v = b(k := ucast v, k + 1 := ucast (drop_bit 8 v),
     k + 2 := ucast (drop_bit 16 v), k + 3 := ucast (drop_bit 24 v))"

section \<open>State\<close>

text \<open>The bits \<^verbatim>\<open>B_VALID\<close> and \<^verbatim>\<open>B_DIRTY\<close> of \<^verbatim>\<open>flags\<close> are two fields.\<close>

record buf =
  b_valid :: bool
  b_dirty :: bool
  b_dev :: u32
  b_blockno :: u32
  b_lock :: sleeplock
  b_refcnt :: u32
  b_data :: block

text \<open>
  \<open>disk_writes\<close> is a history variable: the blocks the driver has written, in order. No
  operation reads it; it serves to say where a crash may cut the sequence.
\<close>

record bstate = pstate +
  bufs :: "buf list"
  lru :: "nat list"
  memdisk :: "nat \<Rightarrow> block"
  disksize :: u32
  disk_writes :: "(nat \<times> block) list"

definition upd_buf :: "nat \<Rightarrow> (buf \<Rightarrow> buf) \<Rightarrow> 'a bstate_scheme \<Rightarrow> 'a bstate_scheme" where
  "upd_buf i f s = s\<lparr>bufs := (bufs s)[i := f (bufs s ! i)]\<rparr>"

section \<open>The driver\<close>

definition iderw :: "nat \<Rightarrow> 'a bstate_scheme \<Rightarrow> 'a bstate_scheme outcome" where
  "iderw i s =
     (let b = bufs s ! i; n = unat (b_blockno b) in
      if \<not> holdingsleep (b_lock b) s then Panic ''iderw: buf not locked''
      else if b_valid b \<and> \<not> b_dirty b then Panic ''iderw: nothing to do''
      else if b_dev b \<noteq> 1 then Panic ''iderw: request not for disk 1''
      else if b_blockno b \<ge> disksize s then Panic ''iderw: block out of range''
      else
        let s = (if b_dirty b then
                   let s = upd_buf i (\<lambda>b. b\<lparr>b_dirty := False\<rparr>) s
                   in s\<lparr>memdisk := (memdisk s)(n := b_data b), disk_writes := disk_writes s @ [(n, b_data b)]\<rparr>
                 else upd_buf i (\<lambda>b. b\<lparr>b_data := memdisk s n\<rparr>) s)
        in Ok (upd_buf i (\<lambda>b. b\<lparr>b_valid := True\<rparr>) s))"

section \<open>The cache\<close>

fun binit_from :: "nat list \<Rightarrow> 'a bstate_scheme \<Rightarrow> 'a bstate_scheme" where
  "binit_from [] s = s"
| "binit_from (i # is) s =
     binit_from is (upd_buf i (\<lambda>b. b\<lparr>b_lock := initsleeplock (b_lock b) ''buffer''\<rparr>) (s\<lparr>lru := i # lru s\<rparr>))"

definition binit :: "'a bstate_scheme \<Rightarrow> 'a bstate_scheme" where
  "binit s = binit_from [0 ..< NBUF] (s\<lparr>lru := []\<rparr>)"

definition lock_buf :: "nat \<Rightarrow> 'a bstate_scheme \<Rightarrow> 'a bstate_scheme outcome" where
  "lock_buf i s =
     obind (acquiresleep (ChBufLock i) (b_lock (bufs s ! i)) s) (\<lambda>lk.
     Ok (upd_buf i (\<lambda>b. b\<lparr>b_lock := lk\<rparr>) s))"

definition bget :: "u32 \<Rightarrow> u32 \<Rightarrow> 'a bstate_scheme \<Rightarrow> (nat \<times> 'a bstate_scheme) outcome" where
  "bget dev blockno s =
     (case find (\<lambda>i. b_dev (bufs s ! i) = dev \<and> b_blockno (bufs s ! i) = blockno) (lru s) of
        Some i \<Rightarrow>
          let s = upd_buf i (\<lambda>b. b\<lparr>b_refcnt := b_refcnt b + 1\<rparr>) s
          in obind (lock_buf i s) (\<lambda>s. Ok (i, s))
      | None \<Rightarrow>
          (case find (\<lambda>i. b_refcnt (bufs s ! i) = 0 \<and> \<not> b_dirty (bufs s ! i)) (rev (lru s)) of
             Some i \<Rightarrow>
               let s = upd_buf i (\<lambda>b. b\<lparr>b_dev := dev, b_blockno := blockno, b_valid := False,
                         b_dirty := False, b_refcnt := 1\<rparr>) s
               in obind (lock_buf i s) (\<lambda>s. Ok (i, s))
           | None \<Rightarrow> Panic ''bget: no buffers''))"

definition bread :: "u32 \<Rightarrow> u32 \<Rightarrow> 'a bstate_scheme \<Rightarrow> (nat \<times> 'a bstate_scheme) outcome" where
  "bread dev blockno s =
     obind (bget dev blockno s) (\<lambda>(i, s).
     if \<not> b_valid (bufs s ! i) then obind (iderw i s) (\<lambda>s. Ok (i, s))
     else Ok (i, s))"

definition bwrite :: "nat \<Rightarrow> 'a bstate_scheme \<Rightarrow> 'a bstate_scheme outcome" where
  "bwrite i s =
     (if \<not> holdingsleep (b_lock (bufs s ! i)) s then Panic ''bwrite''
      else iderw i (upd_buf i (\<lambda>b. b\<lparr>b_dirty := True\<rparr>) s))"

definition brelse :: "nat \<Rightarrow> 'a bstate_scheme \<Rightarrow> 'a bstate_scheme outcome" where
  "brelse i s =
     (if \<not> holdingsleep (b_lock (bufs s ! i)) s then Panic ''brelse''
      else
        obind (releasesleep (ChBufLock i) (b_lock (bufs s ! i)) s) (\<lambda>(lk, s).
        let s = upd_buf i (\<lambda>b. b\<lparr>b_lock := lk\<rparr>) s;
            s = upd_buf i (\<lambda>b. b\<lparr>b_refcnt := b_refcnt b - 1\<rparr>) s
        in Ok (if b_refcnt (bufs s ! i) = 0 then s\<lparr>lru := i # remove1 i (lru s)\<rparr> else s)))"

section \<open>An example cache\<close>

definition empty_buf :: buf where
  "empty_buf = \<lparr>b_valid = False, b_dirty = False, b_dev = 0, b_blockno = 0,
     b_lock = \<lparr>sl_locked = False, sl_name = ''buffer'', sl_pid = 0\<rparr>, b_refcnt = 0, b_data = (\<lambda>k. 0)\<rparr>"

definition example_bstate :: "'m \<Rightarrow> 'm bstate_scheme" where
  "example_bstate m = example_state (bstate_ext (replicate NBUF empty_buf) (rev [0 ..< NBUF]) (\<lambda>n k. 0) 1000 [] m)"

section \<open>Calls on behalf of a process\<close>

text \<open>The context of an operation that a process calls: its CPU holds no spin lock.\<close>

definition in_process :: "'a pstate_scheme \<Rightarrow> bool" where
  "in_process s \<longleftrightarrow> quiet s \<and> (\<exists>i. c_proc (this_cpu s) = Some i \<and> i < length (procs s))"

text \<open>\<open>s'\<close> is \<open>s\<close> with processes woken.\<close>

definition woken :: "'a pstate_scheme \<Rightarrow> 'a pstate_scheme \<Rightarrow> bool" where
  "woken s s' \<longleftrightarrow> (\<exists>ps lk c. s' = s\<lparr>procs := ps, pt_lock := lk, this_cpu := c\<rparr>) \<and>
     in_process s' \<and> cur_pid s' = cur_pid s"

lemma p_pid_wake [simp]: "p_pid (wake c p) = p_pid p"
  by (simp add: wake_def)

lemma wakeup_running:
  assumes "in_process s" shows "\<exists>s'. wakeup ch s = Ok s' \<and> woken s s'"
proof -
  from assms have "quiet s" by (simp add: in_process_def)
  from wakeup_Ok [OF this, of ch] obtain s' where s': "wakeup ch s = Ok s'" "quiet s'"
    "same_but_lock (s\<lparr>procs := map (wake (Some ch)) (procs s)\<rparr>) s'" by blast
  from s'(3) obtain lk c where e: "s' = s\<lparr>procs := map (wake (Some ch)) (procs s), pt_lock := lk, this_cpu := c\<rparr>"
    "c_proc c = c_proc (this_cpu s)" unfolding same_but_lock_iff by auto
  from assms obtain i where i: "c_proc (this_cpu s) = Some i" "i < length (procs s)" by (auto simp: in_process_def)
  have "in_process s'" using s'(2) e i by (simp add: in_process_def)
  moreover have "cur_pid s' = cur_pid s" using e i by (simp add: cur_pid_def)
  ultimately show ?thesis using s'(1) e(1) by (auto simp: woken_def)
qed

section \<open>The invariant of the cache\<close>

definition has_blk :: "'a bstate_scheme \<Rightarrow> nat \<Rightarrow> u32 \<Rightarrow> bool" where
  "has_blk s i n \<longleftrightarrow> b_dev (bufs s ! i) = 1 \<and> b_blockno (bufs s ! i) = n"

definition buf_held :: "'a bstate_scheme \<Rightarrow> nat \<Rightarrow> bool" where
  "buf_held s i \<longleftrightarrow> sl_locked (b_lock (bufs s ! i))"

text \<open>
  A buffer: one user or none, dirty only when it holds a block, and an idle clean buffer
  agrees with the disk.
\<close>

definition buf_ok :: "(nat \<Rightarrow> block) \<Rightarrow> buf \<Rightarrow> bool" where
  "buf_ok d b \<longleftrightarrow>
     b_refcnt b = (if sl_locked (b_lock b) then 1 else 0) \<and>
     (b_dev b = 1 \<longrightarrow> b_valid b) \<and> (b_dirty b \<longrightarrow> b_dev b = 1) \<and>
     (b_dev b = 1 \<and> \<not> b_dirty b \<and> \<not> sl_locked (b_lock b) \<longrightarrow> b_data b = d (unat (b_blockno b)))"

definition bio_ok :: "'a bstate_scheme \<Rightarrow> bool" where
  "bio_ok s \<longleftrightarrow> length (bufs s) = NBUF \<and> distinct (lru s) \<and> set (lru s) = {0 ..< NBUF} \<and>
     (\<forall>i < NBUF. \<forall>j < NBUF. \<forall>n. has_blk s i n \<longrightarrow> has_blk s j n \<longrightarrow> i = j) \<and>
     (\<forall>i < NBUF. buf_ok (memdisk s) (bufs s ! i))"

text \<open>What the file system sees in block \<open>n\<close>: the cached data, else the disk's.\<close>

definition blk_view :: "'a bstate_scheme \<Rightarrow> u32 \<Rightarrow> block" where
  "blk_view s n = (case find (\<lambda>i. has_blk s i n) (lru s) of
     Some i \<Rightarrow> b_data (bufs s ! i) | None \<Rightarrow> memdisk s (unat n))"

lemma bio_okD:
  assumes "bio_ok s"
  shows "length (bufs s) = NBUF" "distinct (lru s)" "set (lru s) = {0 ..< NBUF}"
    "i < NBUF \<Longrightarrow> j < NBUF \<Longrightarrow> has_blk s i n \<Longrightarrow> has_blk s j n \<Longrightarrow> i = j"
    "i < NBUF \<Longrightarrow> buf_ok (memdisk s) (bufs s ! i)"
  using assms by (auto simp: bio_ok_def)

lemma find_has:
  assumes "bio_ok s"
  shows "find (\<lambda>i. has_blk s i n) (lru s) = Some i \<longleftrightarrow> i < NBUF \<and> has_blk s i n"
    and "find (\<lambda>i. has_blk s i n) (lru s) = None \<longleftrightarrow> (\<forall>i < NBUF. \<not> has_blk s i n)"
proof -
  note d = bio_okD [OF assms]
  show none: "find (\<lambda>i. has_blk s i n) (lru s) = None \<longleftrightarrow> (\<forall>i < NBUF. \<not> has_blk s i n)"
    using d(3) by (auto simp: find_None_iff)
  have some: "i < NBUF \<and> has_blk s i n" if "find (\<lambda>i. has_blk s i n) (lru s) = Some i" for i
    using that d(3) unfolding find_Some_iff by (metis atLeastLessThan_iff nth_mem)
  show "find (\<lambda>i. has_blk s i n) (lru s) = Some i \<longleftrightarrow> i < NBUF \<and> has_blk s i n"
  proof
    assume i: "i < NBUF \<and> has_blk s i n"
    then obtain j where j: "find (\<lambda>i. has_blk s i n) (lru s) = Some j" using none by blast
    with some [OF j] d(4) [of i j n] i show "find (\<lambda>i. has_blk s i n) (lru s) = Some i" by simp
  qed (rule some)
qed

lemma view_has: "bio_ok s \<Longrightarrow> i < NBUF \<Longrightarrow> has_blk s i n \<Longrightarrow> blk_view s n = b_data (bufs s ! i)"
  using find_has(1) [of s n i] by (simp add: blk_view_def)

lemma view_none: "bio_ok s \<Longrightarrow> \<forall>i < NBUF. \<not> has_blk s i n \<Longrightarrow> blk_view s n = memdisk s (unat n)"
  using find_has(2) [of s n] by (simp add: blk_view_def)

text \<open>Replacing one buffer by one that holds block \<open>n\<close>.\<close>

lemma has_update:
  "bio_ok s \<Longrightarrow> i < NBUF \<Longrightarrow>
   has_blk (s\<lparr>bufs := (bufs s)[i := b]\<rparr>) j m \<longleftrightarrow> (if j = i then b_dev b = 1 \<and> b_blockno b = m else has_blk s j m)"
  by (auto simp: has_blk_def bio_ok_def)

lemma bio_ok_update:
  assumes ok: "bio_ok s" and i: "i < NBUF" and b: "buf_ok (memdisk s) b" "b_dev b = 1" "b_blockno b = n"
    and sole: "\<And>j. j < NBUF \<Longrightarrow> has_blk s j n \<Longrightarrow> j = i"
  shows "bio_ok (s\<lparr>bufs := (bufs s)[i := b]\<rparr>)"
proof -
  note d = bio_okD [OF ok]
  have "\<forall>j < NBUF. buf_ok (memdisk s) ((bufs s)[i := b] ! j)"
    using d(1,5) b(1) i by (auto simp: nth_list_update)
  moreover have "\<forall>j < NBUF. \<forall>k < NBUF. \<forall>m. has_blk (s\<lparr>bufs := (bufs s)[i := b]\<rparr>) j m \<longrightarrow>
      has_blk (s\<lparr>bufs := (bufs s)[i := b]\<rparr>) k m \<longrightarrow> j = k"
    using has_update [OF ok i] d(4) b(2,3) sole by (metis (no_types, lifting))
  ultimately show ?thesis using d(1-3) by (simp add: bio_ok_def)
qed

lemma view_update:
  assumes ok: "bio_ok s" and i: "i < NBUF" and b: "b_dev b = 1" "b_blockno b = n"
    and ok': "bio_ok (s\<lparr>bufs := (bufs s)[i := b]\<rparr>)"
    and old: "has_blk s i n \<or> \<not> b_dirty (bufs s ! i) \<and> \<not> buf_held s i"
  shows "blk_view (s\<lparr>bufs := (bufs s)[i := b]\<rparr>) m = (if m = n then b_data b else blk_view s m)"
proof (cases "m = n")
  case True
  have "has_blk (s\<lparr>bufs := (bufs s)[i := b]\<rparr>) i n" using has_update [OF ok i] b by simp
  from view_has [OF ok' i this] show ?thesis using True bio_okD(1) [OF ok] i by simp
next
  case False
  let ?s = "s\<lparr>bufs := (bufs s)[i := b]\<rparr>"
  show ?thesis
  proof (cases "\<exists>j < NBUF. j \<noteq> i \<and> has_blk s j m")
    case True
    then obtain j where j: "j < NBUF" "j \<noteq> i" "has_blk s j m" by blast
    then have "has_blk ?s j m" using has_update [OF ok i] by simp
    from view_has [OF ok' j(1) this] view_has [OF ok j(1,3)] j(2) False show ?thesis by simp
  next
    case none: False
    then have "\<forall>j < NBUF. \<not> has_blk ?s j m" using has_update [OF ok i] b False by auto
    from view_none [OF ok' this] have l: "blk_view ?s m = memdisk s (unat m)" by simp
    show ?thesis
    proof (cases "has_blk s i m")
      case True
      then have "\<not> has_blk s i n" using False by (auto simp: has_blk_def)
      then have "b_data (bufs s ! i) = memdisk s (unat m)"
        using old True bio_okD(5) [OF ok i] by (auto simp: buf_ok_def has_blk_def buf_held_def)
      with l view_has [OF ok i True] False show ?thesis by simp
    next
      case notm: False
      then have "\<forall>j < NBUF. \<not> has_blk s j m" using none by metis
      from view_none [OF ok this] l False show ?thesis by simp
    qed
  qed
qed

section \<open>Reading, writing and releasing\<close>

definition buf_taken :: "'a bstate_scheme \<Rightarrow> buf \<Rightarrow> buf" where
  "buf_taken s b = b\<lparr>b_refcnt := 1, b_lock := (b_lock b)\<lparr>sl_locked := True, sl_pid := cur_pid s\<rparr>\<rparr>"

lemma cur_pid_bufs [simp]: "cur_pid (s\<lparr>bufs := bs\<rparr>) = cur_pid s"
  and running_bufs [simp]: "in_process (s\<lparr>bufs := bs\<rparr>) = in_process s"
  by (simp_all add: cur_pid_def in_process_def quiet_def)

lemma lock_buf_free:
  "\<not> buf_held s i \<Longrightarrow> lock_buf i s = Ok (upd_buf i (\<lambda>b. b\<lparr>b_lock := (b_lock (bufs s ! i))\<lparr>sl_locked := True, sl_pid := cur_pid s\<rparr>\<rparr>) s)"
  by (simp add: lock_buf_def acquiresleep_def buf_held_def)

lemma bread_hit:
  assumes ok: "bio_ok s" and i: "i < NBUF" "has_blk s i n" "\<not> buf_held s i"
  shows "bread 1 n s = Ok (i, s\<lparr>bufs := (bufs s)[i := buf_taken s (bufs s ! i)]\<rparr>)"
proof -
  have f: "find (\<lambda>i. b_dev (bufs s ! i) = 1 \<and> b_blockno (bufs s ! i) = n) (lru s) = Some i"
    using find_has(1) [OF ok, of n i] i by (simp add: has_blk_def)
  have b: "b_refcnt (bufs s ! i) = 0" "b_valid (bufs s ! i)" "i < length (bufs s)"
    using bio_okD(1,5) [OF ok] i by (auto simp: buf_ok_def buf_held_def has_blk_def)
  show ?thesis
    using f b i(3)
    by (simp add: bread_def bget_def Let_def upd_buf_def lock_buf_free buf_held_def buf_taken_def)
qed

text \<open>The buffer that is recycled: the least recently used one that is idle and clean.\<close>

lemma find_SomeD: "find P xs = Some x \<Longrightarrow> x \<in> set xs \<and> P x"
  by (induction xs) (auto split: if_splits)

lemma find_spare:
  assumes ok: "bio_ok s" and spare: "\<exists>i < NBUF. \<not> buf_held s i \<and> \<not> b_dirty (bufs s ! i)"
  obtains i where "find (\<lambda>i. b_refcnt (bufs s ! i) = 0 \<and> \<not> b_dirty (bufs s ! i)) (rev (lru s)) = Some i"
    "i < NBUF" "\<not> buf_held s i" "\<not> b_dirty (bufs s ! i)"
proof -
  let ?P = "\<lambda>i. b_refcnt (bufs s ! i) = 0 \<and> \<not> b_dirty (bufs s ! i)"
  have P: "b_refcnt (bufs s ! i) = 0 \<longleftrightarrow> \<not> buf_held s i" if "i < NBUF" for i
    using bio_okD(5) [OF ok that] by (simp add: buf_ok_def buf_held_def)
  from spare obtain j where j: "j < NBUF" "\<not> buf_held s j" "\<not> b_dirty (bufs s ! j)" by blast
  have "j \<in> set (rev (lru s))" using bio_okD(3) [OF ok] j(1) by simp
  moreover have "?P j" using P [OF j(1)] j by blast
  ultimately have "find ?P (rev (lru s)) \<noteq> None" unfolding find_None_iff by blast
  then obtain i where g: "find ?P (rev (lru s)) = Some i" by blast
  from find_SomeD [OF this] have i: "i < NBUF" "?P i" using bio_okD(3) [OF ok] by auto
  from that [OF g i(1)] P [OF i(1)] i(2) show thesis by blast
qed

lemma lock_buf_updated:
  assumes "\<not> sl_locked (b_lock b)" "i < length (bufs s)"
  shows "lock_buf i (s\<lparr>bufs := (bufs s)[i := b]\<rparr>) = Ok (s\<lparr>bufs := (bufs s)[i := b\<lparr>b_lock :=
     (b_lock b)\<lparr>sl_locked := True, sl_pid := cur_pid s\<rparr>\<rparr>]\<rparr>)"
  using assms by (simp add: lock_buf_def acquiresleep_def upd_buf_def)

lemma bget_miss:
  assumes f: "find (\<lambda>i. b_dev (bufs s ! i) = 1 \<and> b_blockno (bufs s ! i) = n) (lru s) = None"
    and g: "find (\<lambda>i. b_refcnt (bufs s ! i) = 0 \<and> \<not> b_dirty (bufs s ! i)) (rev (lru s)) = Some i"
    and i: "\<not> buf_held s i" "i < length (bufs s)"
  shows "bget 1 n s = Ok (i, s\<lparr>bufs := (bufs s)[i := buf_taken s ((bufs s ! i)\<lparr>b_dev := 1, b_blockno := n,
     b_valid := False, b_dirty := False\<rparr>)]\<rparr>)"
proof -
  define b where "b = (bufs s ! i)\<lparr>b_dev := 1, b_blockno := n, b_valid := False, b_dirty := False, b_refcnt := 1\<rparr>"
  have b: "\<not> sl_locked (b_lock b)" using i(1) by (simp add: b_def buf_held_def)
  have "buf_taken s ((bufs s ! i)\<lparr>b_dev := 1, b_blockno := n, b_valid := False, b_dirty := False\<rparr>) =
      b\<lparr>b_lock := (b_lock b)\<lparr>sl_locked := True, sl_pid := cur_pid s\<rparr>\<rparr>"
    by (rule buf.equality) (simp_all add: b_def buf_taken_def)
  then show ?thesis
    unfolding bget_def f option.case g Let_def upd_buf_def b_def [symmetric] lock_buf_updated [OF b i(2)]
    by simp
qed

lemma iderw_read:
  assumes "i < length (bufs s)" "holdingsleep (b_lock (bufs s ! i)) s" "\<not> b_valid (bufs s ! i)"
    "\<not> b_dirty (bufs s ! i)" "b_dev (bufs s ! i) = 1" "b_blockno (bufs s ! i) < disksize s"
  shows "iderw i s = Ok (s\<lparr>bufs := (bufs s)[i := (bufs s ! i)\<lparr>b_data :=
     memdisk s (unat (b_blockno (bufs s ! i))), b_valid := True\<rparr>]\<rparr>)"
proof -
  define b where "b = bufs s ! i"
  have c: "\<not> \<not> holdingsleep (b_lock b) s" "\<not> (b_valid b \<and> \<not> b_dirty b)" "\<not> b_dev b \<noteq> 1"
    "\<not> disksize s \<le> b_blockno b" "\<not> b_dirty b" using assms(2-6) by (simp_all add: b_def)
  show ?thesis
    unfolding iderw_def Let_def upd_buf_def b_def [symmetric] c [THEN if_not_P]
    using assms(1) by simp
qed

lemma bread_miss:
  assumes ok: "bio_ok s" and none: "\<forall>i < NBUF. \<not> has_blk s i n" and n: "n < disksize s"
    and spare: "\<exists>i < NBUF. \<not> buf_held s i \<and> \<not> b_dirty (bufs s ! i)"
  obtains i where "i < NBUF" "\<not> buf_held s i" "\<not> b_dirty (bufs s ! i)"
    "bread 1 n s = Ok (i, s\<lparr>bufs := (bufs s)[i := buf_taken s ((bufs s ! i)\<lparr>b_dev := 1, b_blockno := n,
        b_valid := True, b_dirty := False, b_data := memdisk s (unat n)\<rparr>)]\<rparr>)"
proof -
  have f: "find (\<lambda>i. b_dev (bufs s ! i) = 1 \<and> b_blockno (bufs s ! i) = n) (lru s) = None"
    using find_has(2) [OF ok, of n] none unfolding has_blk_def by blast
  obtain i where g: "find (\<lambda>i. b_refcnt (bufs s ! i) = 0 \<and> \<not> b_dirty (bufs s ! i)) (rev (lru s)) = Some i"
    and i: "i < NBUF" "\<not> buf_held s i" "\<not> b_dirty (bufs s ! i)" using find_spare [OF ok spare] .
  have l: "i < length (bufs s)" using bio_okD(1) [OF ok] i by simp
  let ?b = "buf_taken s ((bufs s ! i)\<lparr>b_dev := 1, b_blockno := n, b_valid := False, b_dirty := False\<rparr>)"
  let ?s = "s\<lparr>bufs := (bufs s)[i := ?b]\<rparr>"
  have b: "bufs ?s ! i = ?b" using l by simp
  have "iderw i ?s = Ok (?s\<lparr>bufs := (bufs ?s)[i := ?b\<lparr>b_data := memdisk s (unat n), b_valid := True\<rparr>]\<rparr>)"
    using iderw_read [of i ?s] l n unfolding b by (simp add: buf_taken_def holdingsleep_def)
  moreover have "\<not> b_valid (bufs ?s ! i)" unfolding b by (simp add: buf_taken_def)
  ultimately have "bread 1 n s = Ok (i, ?s\<lparr>bufs := (bufs ?s)[i := ?b\<lparr>b_data := memdisk s (unat n), b_valid := True\<rparr>]\<rparr>)"
    unfolding bread_def bget_miss [OF f g i(2) l] by simp
  moreover have "?b\<lparr>b_data := memdisk s (unat n), b_valid := True\<rparr> = buf_taken s ((bufs s ! i)\<lparr>b_dev := 1, b_blockno := n,
        b_valid := True, b_dirty := False, b_data := memdisk s (unat n)\<rparr>)"
    by (rule buf.equality) (simp_all add: buf_taken_def)
  ultimately show thesis using that [OF i] by simp
qed

text \<open>What a successful read establishes: block \<open>n\<close> is in buffer \<open>i\<close>, taken by this process.\<close>

definition read_ok :: "'a bstate_scheme \<Rightarrow> u32 \<Rightarrow> nat \<Rightarrow> 'a bstate_scheme \<Rightarrow> bool" where
  "read_ok s n i s' \<longleftrightarrow> i < NBUF \<and> \<not> buf_held s i \<and> s' = s\<lparr>bufs := (bufs s)[i := bufs s' ! i]\<rparr> \<and>
     bio_ok s' \<and> has_blk s' i n \<and> buf_held s' i \<and> sl_pid (b_lock (bufs s' ! i)) = cur_pid s \<and>
     b_data (bufs s' ! i) = blk_view s n \<and> (\<forall>m. blk_view s' m = blk_view s m) \<and>
     (b_dirty (bufs s' ! i) \<longrightarrow> has_blk s i n \<and> b_dirty (bufs s ! i)) \<and>
     (has_blk s i n \<longrightarrow> b_dirty (bufs s' ! i) = b_dirty (bufs s ! i)) \<and>
     (\<not> b_dirty (bufs s' ! i) \<longrightarrow> blk_view s n = memdisk s (unat n)) \<and>
     (\<not> has_blk s i n \<longrightarrow> \<not> b_dirty (bufs s ! i))"

lemma bread_ok:
  assumes ok: "bio_ok s" and n: "n < disksize s"
    and avail: "\<forall>i < NBUF. has_blk s i n \<longrightarrow> \<not> buf_held s i"
      "(\<exists>i < NBUF. has_blk s i n) \<or> (\<exists>i < NBUF. \<not> buf_held s i \<and> \<not> b_dirty (bufs s ! i))"
  shows "\<exists>i s'. bread 1 n s = Ok (i, s') \<and> read_ok s n i s'"
proof (cases "\<exists>i < NBUF. has_blk s i n")
  case True
  then obtain i where i: "i < NBUF" "has_blk s i n" by blast
  then have h: "\<not> buf_held s i" using avail(1) by blast
  let ?b = "buf_taken s (bufs s ! i)"
  have b: "buf_ok (memdisk s) ?b" "b_dev ?b = 1" "b_blockno ?b = n"
    using bio_okD(5) [OF ok i(1)] i(2) by (auto simp: buf_taken_def buf_ok_def has_blk_def)
  have sole: "j = i" if "j < NBUF" "has_blk s j n" for j using bio_okD(4) [OF ok that(1) i(1)] that i by blast
  note ok' = bio_ok_update [OF ok i(1) b sole]
  note v = view_update [OF ok i(1) b(2,3) ok' disjI1 [OF i(2)]]
  have "b_data ?b = blk_view s n" using view_has [OF ok i] by (simp add: buf_taken_def)
  then have "blk_view (s\<lparr>bufs := (bufs s)[i := ?b]\<rparr>) m = blk_view s m" for m using v [of m] by simp
  moreover have "\<not> b_dirty (bufs s ! i) \<longrightarrow> blk_view s n = memdisk s (unat n)"
    using bio_okD(5) [OF ok i(1)] h i(2) view_has [OF ok i] by (auto simp: buf_ok_def has_blk_def buf_held_def)
  moreover have "i < length (bufs s)" using bio_okD(1) [OF ok] i by simp
  ultimately show ?thesis
    using bread_hit [OF ok i h] ok' \<open>b_data ?b = blk_view s n\<close> i h b
    by (intro exI [of _ i] exI [of _ "s\<lparr>bufs := (bufs s)[i := ?b]\<rparr>"])
      (simp add: read_ok_def has_blk_def buf_held_def buf_taken_def)
next
  case False
  then have none: "\<forall>i < NBUF. \<not> has_blk s i n" by blast
  have sp: "\<exists>i < NBUF. \<not> buf_held s i \<and> \<not> b_dirty (bufs s ! i)" using avail(2) False by blast
  obtain i where
    i: "i < NBUF" "\<not> buf_held s i" "\<not> b_dirty (bufs s ! i)" and
    r: "bread 1 n s = Ok (i, s\<lparr>bufs := (bufs s)[i := buf_taken s ((bufs s ! i)\<lparr>b_dev := 1, b_blockno := n,
        b_valid := True, b_dirty := False, b_data := memdisk s (unat n)\<rparr>)]\<rparr>)"
    using bread_miss [OF ok none n sp] .
  let ?b = "buf_taken s ((bufs s ! i)\<lparr>b_dev := 1, b_blockno := n,
        b_valid := True, b_dirty := False, b_data := memdisk s (unat n)\<rparr>)"
  have b: "buf_ok (memdisk s) ?b" "b_dev ?b = 1" "b_blockno ?b = n"
    by (auto simp: buf_taken_def buf_ok_def)
  have sole: "j = i" if "j < NBUF" "has_blk s j n" for j using none that by blast
  note ok' = bio_ok_update [OF ok i(1) b sole]
  note v = view_update [OF ok i(1) b(2,3) ok' disjI2 [OF conjI [OF i(3,2)]]]
  have "b_data ?b = blk_view s n" using view_none [OF ok none] by (simp add: buf_taken_def)
  then have "blk_view (s\<lparr>bufs := (bufs s)[i := ?b]\<rparr>) m = blk_view s m" for m using v [of m] by simp
  moreover have "i < length (bufs s)" using bio_okD(1) [OF ok] i by simp
  ultimately show ?thesis
    using r ok' \<open>b_data ?b = blk_view s n\<close> i b view_none [OF ok none]
    by (intro exI [of _ i] exI [of _ "s\<lparr>bufs := (bufs s)[i := ?b]\<rparr>"])
      (simp add: read_ok_def has_blk_def buf_held_def buf_taken_def)
qed

lemma view_cong:
  assumes "bio_ok s" "bio_ok s'" "memdisk s' (unat n) = memdisk s (unat n)"
    and "\<And>i. i < NBUF \<Longrightarrow> has_blk s' i n = has_blk s i n"
    and "\<And>i. i < NBUF \<Longrightarrow> has_blk s i n \<Longrightarrow> b_data (bufs s' ! i) = b_data (bufs s ! i)"
  shows "blk_view s' n = blk_view s n"
proof (cases "\<exists>i < NBUF. has_blk s i n")
  case True
  then obtain i where "i < NBUF" "has_blk s i n" by blast
  then show ?thesis using assms view_has [OF assms(1)] view_has [OF assms(2)] by metis
next
  case False
  then show ?thesis using assms view_none [OF assms(1)] view_none [OF assms(2)] by metis
qed

text \<open>Only the cache, the disk and the process table (by wakeups) differ.\<close>

definition cache_only :: "'a bstate_scheme \<Rightarrow> 'a bstate_scheme \<Rightarrow> bool" where
  "cache_only s s' \<longleftrightarrow> cur_pid s' = cur_pid s \<and> (\<exists>bs lr md dw ps lk c. s' = s\<lparr>bufs := bs, lru := lr, memdisk := md,
     disk_writes := dw, procs := ps, pt_lock := lk, this_cpu := c\<rparr>)"

lemma cache_only_refl [simp]: "cache_only s s"
  unfolding cache_only_def
  by (intro conjI exI [of _ "bufs s"] exI [of _ "lru s"] exI [of _ "memdisk s"] exI [of _ "disk_writes s"]
    exI [of _ "procs s"] exI [of _ "pt_lock s"] exI [of _ "this_cpu s"]) simp_all

lemma cache_only_trans [trans]:
  assumes "cache_only s t" "cache_only t u" shows "cache_only s u"
proof -
  obtain bs lr md dw ps lk c where t: "t = s\<lparr>bufs := bs, lru := lr, memdisk := md,
     disk_writes := dw, procs := ps, pt_lock := lk, this_cpu := c\<rparr>" using assms(1) unfolding cache_only_def by (elim conjE exE)
  obtain bs' lr' md' dw' ps' lk' c' where u: "u = t\<lparr>bufs := bs', lru := lr', memdisk := md',
     disk_writes := dw', procs := ps', pt_lock := lk', this_cpu := c'\<rparr>" using assms(2) unfolding cache_only_def by (elim conjE exE)
  have "u = s\<lparr>bufs := bs', lru := lr', memdisk := md',
     disk_writes := dw', procs := ps', pt_lock := lk', this_cpu := c'\<rparr>" unfolding u t by simp
  moreover have "cur_pid u = cur_pid s" using assms by (simp add: cache_only_def)
  ultimately show ?thesis unfolding cache_only_def by (intro conjI exI)
qed

lemma cache_only_disksize [simp]: "cache_only s t \<Longrightarrow> disksize t = disksize s"
  unfolding cache_only_def by (elim conjE exE) simp

lemma cache_only_bufs [simp]: "cache_only s (s\<lparr>bufs := bs\<rparr>)"
  unfolding cache_only_def
  by (intro conjI exI [of _ "bs"] exI [of _ "lru s"] exI [of _ "memdisk s"] exI [of _ "disk_writes s"]
    exI [of _ "procs s"] exI [of _ "pt_lock s"] exI [of _ "this_cpu s"]) simp_all

text \<open>Buffer \<open>i\<close> holds block \<open>n\<close> and is locked by the current process.\<close>

definition buf_mine :: "'a bstate_scheme \<Rightarrow> nat \<Rightarrow> u32 \<Rightarrow> bool" where
  "buf_mine s i n \<longleftrightarrow> i < NBUF \<and> has_blk s i n \<and> holdingsleep (b_lock (bufs s ! i)) s"

lemma mine_holds: "buf_mine s i n \<Longrightarrow> buf_held s i"
  by (simp add: buf_mine_def holdingsleep_def buf_held_def)

lemma upd_buf_upd_buf: "i < length (bufs s) \<Longrightarrow> upd_buf i f (upd_buf i g s) = upd_buf i (\<lambda>b. f (g b)) s"
  and upd_buf_nth: "i < length (bufs s) \<Longrightarrow> bufs (upd_buf i f s) ! i = f (bufs s ! i)"
  and upd_buf_lru: "lru (upd_buf i f s) = lru s"
  by (simp_all add: upd_buf_def)

lemma brelse_ok:
  assumes ok: "bio_ok s" and r: "in_process s" and m: "buf_mine s i n"
    and disk: "b_dirty (bufs s ! i) \<or> b_data (bufs s ! i) = memdisk s (unat n)"
  obtains s' where "brelse i s = Ok s'" "bio_ok s'" "in_process s'" "cache_only s s'"
    "bufs s' = (bufs s)[i := (bufs s ! i)\<lparr>b_lock := (b_lock (bufs s ! i))\<lparr>sl_locked := False, sl_pid := 0\<rparr>, b_refcnt := 0\<rparr>]"
    "memdisk s' = memdisk s" "disk_writes s' = disk_writes s" "blk_view s' = blk_view s"
proof -
  let ?b = "bufs s ! i"
  let ?lk = "(b_lock ?b)\<lparr>sl_locked := False, sl_pid := 0\<rparr>"
  let ?b' = "?b\<lparr>b_lock := ?lk, b_refcnt := 0\<rparr>"
  have i: "i < NBUF" "i < length (bufs s)" "has_blk s i n" using m bio_okD(1) [OF ok] by (auto simp: buf_mine_def)
  have h: "holdingsleep (b_lock ?b) s" "b_refcnt ?b = 1"
    using m bio_okD(5) [OF ok i(1)] by (simp_all add: buf_mine_def buf_ok_def holdingsleep_def)
  obtain t where t: "wakeup (ChBufLock i) s = Ok t" "woken s t" using wakeup_running [OF r] by blast
  obtain ps lk c where te: "t = s\<lparr>procs := ps, pt_lock := lk, this_cpu := c\<rparr>" using t(2) unfolding woken_def by (elim conjE exE)
  have tr: "in_process t" "cur_pid t = cur_pid s" using t(2) by (simp_all add: woken_def)
  define s' where "s' = t\<lparr>bufs := (bufs s)[i := ?b'], lru := i # remove1 i (lru s)\<rparr>"
  have it: "i < length (bufs t)" "bufs t = bufs s" "lru t = lru s" using i(2) by (simp_all add: te)
  have e: "brelse i s = Ok s'"
    unfolding brelse_def releasesleep_def t(1) obind.simps Let_def prod.case not_not h(1) if_not_P [OF not_not [THEN iffD2, OF h(1)]]
      upd_buf_upd_buf [OF it(1)] upd_buf_nth [OF it(1)] upd_buf_lru
    by (simp add: s'_def it h(2) upd_buf_def)
  have hs: "has_blk s' j k \<longleftrightarrow> has_blk s j k" for j k
    using i(2) by (cases "i = j") (auto simp: s'_def has_blk_def)
  have bo: "buf_ok (memdisk s) ?b'"
    using bio_okD(5) [OF ok i(1)] disk i(3) by (auto simp: buf_ok_def has_blk_def)
  have nb: "bufs s' ! j = (if j = i then ?b' else bufs s ! j)" for j
    using i(2) by (simp add: s'_def nth_list_update)
  have "memdisk s' = memdisk s" by (simp add: s'_def te)
  then have "\<forall>j < NBUF. buf_ok (memdisk s') (bufs s' ! j)"
    unfolding nb using bio_okD(5) [OF ok] bo by simp
  moreover have "\<forall>j < NBUF. \<forall>k < NBUF. \<forall>n. has_blk s' j n \<longrightarrow> has_blk s' k n \<longrightarrow> j = k"
    unfolding hs using bio_okD(4) [OF ok] by blast
  moreover have "set (lru s') = {0 ..< NBUF}" "distinct (lru s')" "length (bufs s') = NBUF"
  proof -
    have "i \<in> set (lru s)" using bio_okD(3) [OF ok] i(1) by simp
    then have "set (lru s') = set (lru s)" "distinct (lru s')" using bio_okD(2) [OF ok]
      by (auto simp: s'_def)
    then show "set (lru s') = {0 ..< NBUF}" "distinct (lru s')" using bio_okD(3) [OF ok] by simp_all
    show "length (bufs s') = NBUF" using bio_okD(1) [OF ok] by (simp add: s'_def)
  qed
  ultimately have ok': "bio_ok s'" by (simp add: bio_ok_def)
  have "blk_view s' k = blk_view s k" for k
    by (rule view_cong [OF ok ok' _ hs]) (use i(2) in \<open>auto simp: s'_def te nth_list_update\<close>)
  then have v: "blk_view s' = blk_view s" by blast
  have cp: "cur_pid s' = cur_pid s" using tr(2) by (simp add: s'_def cur_pid_def)
  have run: "in_process s'" using tr(1) by (simp add: s'_def in_process_def quiet_def)
  have co: "cache_only s s'" unfolding cache_only_def
    using cp by (intro conjI exI [of _ "bufs s'"] exI [of _ "lru s'"] exI [of _ "memdisk s"] exI [of _ "disk_writes s"]
    exI [of _ ps] exI [of _ lk] exI [of _ c]) (simp_all add: s'_def te)
  show thesis by (rule that [OF e ok' run co _ _ _ v]) (simp_all add: s'_def te)
qed

lemma bufs_upd: "i < NBUF \<Longrightarrow> bio_ok s \<Longrightarrow> (bufs s)[i := b] ! j = (if j = i then b else bufs s ! j)"
  using bio_okD(1) [of s] by (simp add: nth_list_update)

lemma set_data:
  fixes d :: block
  assumes ok: "bio_ok s" and m: "buf_mine s i n"
  defines "s' \<equiv> s\<lparr>bufs := (bufs s)[i := (bufs s ! i)\<lparr>b_data := d\<rparr>]\<rparr>"
  shows "bio_ok s'" "buf_mine s' i n" "blk_view s' = (blk_view s)(n := d)"
proof -
  let ?b = "(bufs s ! i)\<lparr>b_data := d\<rparr>"
  have i: "i < NBUF" "has_blk s i n" "holdingsleep (b_lock (bufs s ! i)) s" using m by (auto simp: buf_mine_def)
  have b: "buf_ok (memdisk s) ?b" "b_dev ?b = 1" "b_blockno ?b = n"
    using bio_okD(5) [OF ok i(1)] i(2,3) by (auto simp: buf_ok_def has_blk_def holdingsleep_def)
  have sole: "j = i" if "j < NBUF" "has_blk s j n" for j using bio_okD(4) [OF ok that(1) i(1)] that i by blast
  from bio_ok_update [OF ok i(1) b sole] show ok': "bio_ok s'" unfolding s'_def .
  have "blk_view s' k = ((blk_view s)(n := d)) k" for k
    using view_update [OF ok i(1) b(2,3) ok' [unfolded s'_def] disjI1 [OF i(2)], of k] unfolding s'_def by simp
  then show "blk_view s' = (blk_view s)(n := d)" by blast
  have "bufs s' ! i = ?b" unfolding s'_def using bufs_upd [OF i(1) ok, of ?b i] by simp
  then show "buf_mine s' i n" using i by (simp add: buf_mine_def has_blk_def holdingsleep_def cur_pid_def s'_def)
qed

lemma iderw_write:
  assumes "i < length (bufs s)" "holdingsleep (b_lock (bufs s ! i)) s"
    "b_dirty (bufs s ! i)" "b_dev (bufs s ! i) = 1" "b_blockno (bufs s ! i) < disksize s"
  defines "b \<equiv> bufs s ! i"
  shows "iderw i s = Ok (s\<lparr>bufs := (bufs s)[i := b\<lparr>b_dirty := False, b_valid := True\<rparr>],
     memdisk := (memdisk s)(unat (b_blockno b) := b_data b),
     disk_writes := disk_writes s @ [(unat (b_blockno b), b_data b)]\<rparr>)"
proof -
  have c: "\<not> \<not> holdingsleep (b_lock b) s" "\<not> (b_valid b \<and> \<not> b_dirty b)" "\<not> b_dev b \<noteq> 1"
    "\<not> disksize s \<le> b_blockno b" "b_dirty b" using assms(2-5) by (simp_all add: b_def)
  show ?thesis
    unfolding iderw_def Let_def b_def [symmetric] c(1-4) [THEN if_not_P] c(5) [THEN if_P]
    using assms(1) by (simp add: upd_buf_def b_def)
qed

lemma bwrite_ok:
  assumes ok: "bio_ok s" and r: "in_process s" and m: "buf_mine s i n" and n: "n < disksize s"
  obtains s' where "bwrite i s = Ok s'" "bio_ok s'" "in_process s'" "cache_only s s'" "buf_mine s' i n"
    "bufs s' = (bufs s)[i := (bufs s ! i)\<lparr>b_dirty := False\<rparr>]"
    "memdisk s' = (memdisk s)(unat n := b_data (bufs s ! i))"
    "disk_writes s' = disk_writes s @ [(unat n, b_data (bufs s ! i))]" "blk_view s' = blk_view s"
proof -
  let ?b = "bufs s ! i"
  define t where "t = s\<lparr>bufs := (bufs s)[i := ?b\<lparr>b_dirty := True\<rparr>]\<rparr>"
  define s' where "s' = s\<lparr>bufs := (bufs s)[i := ?b\<lparr>b_dirty := False\<rparr>],
     memdisk := (memdisk s)(unat n := b_data ?b), disk_writes := disk_writes s @ [(unat n, b_data ?b)]\<rparr>"
  have i: "i < NBUF" "has_blk s i n" "holdingsleep (b_lock ?b) s" "i < length (bufs s)"
    using m bio_okD(1) [OF ok] by (auto simp: buf_mine_def)
  have bt: "bufs t ! i = ?b\<lparr>b_dirty := True\<rparr>" using i(4) by (simp add: t_def)
  have v: "?b\<lparr>b_dirty := False, b_valid := True\<rparr> = ?b\<lparr>b_dirty := False\<rparr>"
    using bio_okD(5) [OF ok i(1)] i(2) by (simp add: buf_ok_def has_blk_def)
  have "iderw i t = Ok (t\<lparr>bufs := (bufs t)[i := ?b\<lparr>b_dirty := False, b_valid := True\<rparr>],
     memdisk := (memdisk s)(unat n := b_data ?b), disk_writes := disk_writes s @ [(unat n, b_data ?b)]\<rparr>)"
    using iderw_write [of i t] i(2-4) n unfolding bt by (simp add: t_def has_blk_def holdingsleep_def)
  also have "\<dots> = Ok s'" unfolding v by (simp add: t_def s'_def)
  finally have e: "bwrite i s = Ok s'" using i(3) by (simp add: bwrite_def upd_buf_def t_def)
  have nb: "bufs s' ! j = (if j = i then ?b\<lparr>b_dirty := False\<rparr> else bufs s ! j)" for j
    unfolding s'_def using bufs_upd [OF i(1) ok] by simp
  have hs: "has_blk s' j k \<longleftrightarrow> has_blk s j k" for j k by (simp add: has_blk_def nb)
  have "buf_ok (memdisk s') (bufs s' ! j)" if j: "j < NBUF" for j
  proof (cases "j = i")
    case True
    then show ?thesis using bio_okD(5) [OF ok i(1)] i(2,3)
      unfolding nb by (simp add: buf_ok_def has_blk_def s'_def holdingsleep_def)
  next
    case False
    have "unat (b_blockno (bufs s ! j)) \<noteq> unat n" if "b_dev (bufs s ! j) = 1"
      using bio_okD(4) [OF ok j i(1), of n] i(2) False that by (auto simp: has_blk_def dest: word_unat_eq_iff [THEN iffD2])
    then show ?thesis using bio_okD(5) [OF ok j] False unfolding nb by (simp add: buf_ok_def s'_def)
  qed
  moreover have "\<forall>j < NBUF. \<forall>k < NBUF. \<forall>n. has_blk s' j n \<longrightarrow> has_blk s' k n \<longrightarrow> j = k"
    unfolding hs using bio_okD(4) [OF ok] by blast
  ultimately have ok': "bio_ok s'" using bio_okD(1,2,3) [OF ok] by (simp add: bio_ok_def s'_def)
  have vs: "blk_view s' k = blk_view s k" for k
  proof (cases "\<exists>j < NBUF. has_blk s j k")
    case True
    then obtain j where j: "j < NBUF" "has_blk s j k" by blast
    then show ?thesis using view_has [OF ok j] view_has [OF ok' j(1), of k] hs by (simp add: nb)
  next
    case False
    then have "unat k \<noteq> unat n" using i(1,2) by (auto dest: word_unat_eq_iff [THEN iffD2])
    then show ?thesis using view_none [OF ok, of k] view_none [OF ok', of k] False hs by (simp add: s'_def)
  qed
  have run: "in_process s'" using r by (simp add: s'_def in_process_def quiet_def)
  have cp: "cur_pid s' = cur_pid s" by (simp add: s'_def cur_pid_def)
  have mi: "buf_mine s' i n" unfolding buf_mine_def hs nb holdingsleep_def cp using i by (simp add: holdingsleep_def)
  have co: "cache_only s s'" unfolding cache_only_def
    by (intro conjI exI [of _ "bufs s'"] exI [of _ "lru s"] exI [of _ "memdisk s'"] exI [of _ "disk_writes s'"]
    exI [of _ "procs s"] exI [of _ "pt_lock s"] exI [of _ "this_cpu s"]) (simp_all add: s'_def cur_pid_def)
  show thesis by (rule that [OF e ok' run co mi]) (use vs in \<open>auto simp: s'_def\<close>)
qed

section \<open>Between operations\<close>

text \<open>No buffer is locked; the dirty blocks are pinned in the cache.\<close>

definition bio_idle :: "'a bstate_scheme \<Rightarrow> bool" where
  "bio_idle s \<longleftrightarrow> bio_ok s \<and> in_process s \<and> (\<forall>i < NBUF. \<not> buf_held s i)"

definition bio_dirty :: "'a bstate_scheme \<Rightarrow> u32 set" where
  "bio_dirty s = {n. \<exists>i < NBUF. has_blk s i n \<and> b_dirty (bufs s ! i)}"

lemma dirty_same:
  assumes ok: "bio_ok s" "i < NBUF" and b: "bufs s' = (bufs s)[i := b]"
    "b_dev b = b_dev (bufs s ! i)" "b_blockno b = b_blockno (bufs s ! i)" "b_dirty b = b_dirty (bufs s ! i)"
  shows "bio_dirty s' = bio_dirty s"
proof -
  have nb: "bufs s' ! j = (if j = i then b else bufs s ! j)" for j using bufs_upd [OF ok(2,1)] b(1) by simp
  have "has_blk s' j k = has_blk s j k" "b_dirty (bufs s' ! j) = b_dirty (bufs s ! j)" for j k
    using b(2-4) by (simp_all add: has_blk_def nb)
  then show ?thesis by (simp add: bio_dirty_def)
qed

lemma dirty_clean:
  assumes ok: "bio_ok s" "i < NBUF" "has_blk s i n" and b: "bufs s' = (bufs s)[i := (bufs s ! i)\<lparr>b_dirty := False\<rparr>]"
  shows "bio_dirty s' = bio_dirty s - {n}"
proof -
  have nb: "bufs s' ! j = (if j = i then (bufs s ! i)\<lparr>b_dirty := False\<rparr> else bufs s ! j)" for j
    using bufs_upd [OF ok(2,1)] b by simp
  have h: "has_blk s' j k = has_blk s j k" for j k by (simp add: has_blk_def nb)
  have d: "b_dirty (bufs s' ! j) \<longleftrightarrow> j \<noteq> i \<and> b_dirty (bufs s ! j)" for j by (simp add: nb)
  have "j = i" if "has_blk s j n" "j < NBUF" for j using bio_okD(4) [OF ok(1) that(2) ok(2) that(1) ok(3)] .
  moreover have "k = n" if "has_blk s i k" for k using that ok(3) by (simp add: has_blk_def)
  ultimately show ?thesis unfolding bio_dirty_def h d by blast
qed

lemma card_dirty:
  assumes "bio_ok s" shows "card {i. i < NBUF \<and> b_dirty (bufs s ! i)} = card (bio_dirty s)"
proof (rule bij_betw_same_card [of "\<lambda>i. b_blockno (bufs s ! i)"], rule bij_betw_imageI)
  have d: "has_blk s i (b_blockno (bufs s ! i))" if "i < NBUF" "b_dirty (bufs s ! i)" for i
    using bio_okD(5) [OF assms that(1)] that(2) by (simp add: buf_ok_def has_blk_def)
  then show "inj_on (\<lambda>i. b_blockno (bufs s ! i)) {i. i < NBUF \<and> b_dirty (bufs s ! i)}"
    using bio_okD(4) [OF assms] by (intro inj_onI) (metis (mono_tags, lifting) mem_Collect_eq)
  show "(\<lambda>i. b_blockno (bufs s ! i)) ` {i. i < NBUF \<and> b_dirty (bufs s ! i)} = bio_dirty s"
    using d by (auto simp: bio_dirty_def has_blk_def)
qed

lemma finite_dirty: "finite (bio_dirty s)"
proof -
  have "bio_dirty s \<subseteq> (\<lambda>i. b_blockno (bufs s ! i)) ` {0 ..< NBUF}" by (auto simp: bio_dirty_def has_blk_def)
  then show ?thesis by (rule finite_subset) simp
qed

text \<open>A clean idle buffer is left as long as fewer are taken than there are.\<close>

lemma spare_exists:
  assumes "bio_ok s" "finite H" "card H + card (bio_dirty s) < NBUF" "\<forall>i < NBUF. buf_held s i \<longrightarrow> i \<in> H \<or> b_dirty (bufs s ! i)"
  shows "\<exists>i < NBUF. \<not> buf_held s i \<and> \<not> b_dirty (bufs s ! i)"
proof (rule ccontr)
  assume "\<not> (\<exists>i < NBUF. \<not> buf_held s i \<and> \<not> b_dirty (bufs s ! i))"
  then have "{0 ..< NBUF} \<subseteq> H \<union> {i. i < NBUF \<and> b_dirty (bufs s ! i)}"
    using assms(4) atLeastLessThan_iff by blast
  from card_mono [OF _ this] assms(2)
  have "NBUF \<le> card (H \<union> {i. i < NBUF \<and> b_dirty (bufs s ! i)})" by simp
  also have "\<dots> \<le> card H + card (bio_dirty s)"
    using card_Un_le [of H "{i. i < NBUF \<and> b_dirty (bufs s ! i)}"] card_dirty [OF assms(1)] by simp
  finally show False using assms(3) by simp
qed

lemma read_okD:
  assumes ok: "bio_ok s" and r: "read_ok s n i s'" and run: "in_process s"
  shows "bio_ok s'" "in_process s'" "buf_mine s' i n" "cache_only s s'" "blk_view s' = blk_view s"
    "memdisk s' = memdisk s" "disk_writes s' = disk_writes s" "bio_dirty s' = bio_dirty s"
    "b_data (bufs s' ! i) = blk_view s n" "n \<notin> bio_dirty s \<Longrightarrow> blk_view s n = memdisk s (unat n)"
    "\<not> buf_held s i" "j \<noteq> i \<Longrightarrow> bufs s' ! j = bufs s ! j" "j \<noteq> i \<Longrightarrow> buf_mine s j m \<Longrightarrow> buf_mine s' j m"
    "b_dirty (bufs s' ! i) = (n \<in> bio_dirty s)"
proof -
  obtain b where s': "s' = s\<lparr>bufs := (bufs s)[i := b]\<rparr>" using r by (auto simp: read_ok_def)
  show ok': "bio_ok s'" using r by (simp add: read_ok_def)
  show "in_process s'" using run by (simp add: s')
  have i: "i < NBUF" "has_blk s' i n" using r by (auto simp: read_ok_def)
  have cp: "cur_pid s' = cur_pid s" by (simp add: s')
  show "buf_mine s' i n" using r by (simp add: read_ok_def buf_mine_def holdingsleep_def buf_held_def cp)
  show "cache_only s s'" by (simp add: s')
  show "blk_view s' = blk_view s" "b_data (bufs s' ! i) = blk_view s n" "\<not> buf_held s i" using r by (auto simp: read_ok_def)
  show "memdisk s' = memdisk s" "disk_writes s' = disk_writes s" by (simp_all add: s')
  show nth: "j \<noteq> i \<Longrightarrow> bufs s' ! j = bufs s ! j" for j by (simp add: s')
  show "j \<noteq> i \<Longrightarrow> buf_mine s j m \<Longrightarrow> buf_mine s' j m"
    using nth by (simp add: buf_mine_def has_blk_def holdingsleep_def cp)
  have new: "b_dirty (bufs s' ! i) \<longleftrightarrow> has_blk s i n \<and> b_dirty (bufs s ! i)" using r by (auto simp: read_ok_def)
  have old: "\<not> has_blk s i n \<Longrightarrow> \<not> b_dirty (bufs s ! i)" using r by (auto simp: read_ok_def)
  have only: "j = i" if "has_blk s j n" "j < NBUF" "has_blk s i n" for j
    using bio_okD(4) [OF ok that(2) i(1)] that by blast
  have hasn: "has_blk s' j k \<longleftrightarrow> has_blk s j k" if "j \<noteq> i" for j k using nth [OF that] by (simp add: has_blk_def)
  have n: "k = n" if "has_blk s' i k" for k using that i(2) by (simp add: has_blk_def)
  show d: "bio_dirty s' = bio_dirty s"
  proof (intro set_eqI)
    fix k show "k \<in> bio_dirty s' \<longleftrightarrow> k \<in> bio_dirty s"
    proof
      assume "k \<in> bio_dirty s'"
      then obtain j where j: "j < NBUF" "has_blk s' j k" "b_dirty (bufs s' ! j)" by (auto simp: bio_dirty_def)
      show "k \<in> bio_dirty s"
      proof (cases "j = i")
        case True
        then have "k = n" "has_blk s i n" "b_dirty (bufs s ! i)" using j n new by auto
        then show ?thesis using i(1) by (auto simp: bio_dirty_def)
      next
        case False
        then show ?thesis using j hasn nth by (auto simp: bio_dirty_def)
      qed
    next
      assume "k \<in> bio_dirty s"
      then obtain j where j: "j < NBUF" "has_blk s j k" "b_dirty (bufs s ! j)" by (auto simp: bio_dirty_def)
      show "k \<in> bio_dirty s'"
      proof (cases "j = i")
        case True
        then have "has_blk s i n" using old j by blast
        then have "k = n" using True j(2) by (simp add: has_blk_def)
        then show ?thesis using True i new j \<open>has_blk s i n\<close> by (auto simp: bio_dirty_def)
      next
        case False
        then show ?thesis using j hasn nth by (auto simp: bio_dirty_def)
      qed
    qed
  qed
  have "j = i" if "has_blk s j n" "j < NBUF" for j
    using bio_okD(4) [OF ok' that(2) i(1), of n] hasn [of j n] i(2) that(1) by blast
  then show dn: "b_dirty (bufs s' ! i) = (n \<in> bio_dirty s)"
    unfolding new bio_dirty_def using i(1) by auto
  show "n \<notin> bio_dirty s \<Longrightarrow> blk_view s n = memdisk s (unat n)"
    using r dn by (simp add: read_ok_def)
qed

text \<open>Releasing a buffer, and writing one, in the terms of this section.\<close>

lemma brelse_idle:
  assumes "bio_ok s" "in_process s" "buf_mine s i n" "b_dirty (bufs s ! i) \<or> blk_view s n = memdisk s (unat n)"
  obtains s' where "brelse i s = Ok s'" "bio_ok s'" "in_process s'" "cache_only s s'"
    "memdisk s' = memdisk s" "disk_writes s' = disk_writes s" "blk_view s' = blk_view s" "bio_dirty s' = bio_dirty s"
    "\<not> buf_held s' i" "\<forall>j. j \<noteq> i \<longrightarrow> bufs s' ! j = bufs s ! j" "\<forall>j m. j \<noteq> i \<longrightarrow> buf_mine s j m \<longrightarrow> buf_mine s' j m"
proof -
  have i: "i < NBUF" "has_blk s i n" using assms(3) by (simp_all add: buf_mine_def)
  have "b_data (bufs s ! i) = blk_view s n" using view_has [OF assms(1) i] by simp
  then have d: "b_dirty (bufs s ! i) \<or> b_data (bufs s ! i) = memdisk s (unat n)" using assms(4) by simp
  let ?b = "(bufs s ! i)\<lparr>b_lock := (b_lock (bufs s ! i))\<lparr>sl_locked := False, sl_pid := 0\<rparr>, b_refcnt := 0\<rparr>"
  obtain s' where s': "brelse i s = Ok s'" "bio_ok s'" "in_process s'" "cache_only s s'"
    "bufs s' = (bufs s)[i := ?b]"
    "memdisk s' = memdisk s" "disk_writes s' = disk_writes s" "blk_view s' = blk_view s"
    using brelse_ok [OF assms(1-3) d] .
  have nb: "bufs s' ! j = (if j = i then ?b else bufs s ! j)" for j using bufs_upd [OF i(1) assms(1)] s'(5) by simp
  have "bio_dirty s' = bio_dirty s" by (rule dirty_same [OF assms(1) i(1) s'(5)]) simp_all
  moreover have "\<not> buf_held s' i" by (simp add: buf_held_def nb)
  moreover have "bufs s' ! j = bufs s ! j" if "j \<noteq> i" for j using that by (simp add: nb)
  moreover have "cur_pid s' = cur_pid s" using s'(4) by (simp add: cache_only_def)
  then have "buf_mine s' j m" if "j \<noteq> i" "buf_mine s j m" for j m
    using that by (simp add: buf_mine_def has_blk_def holdingsleep_def nb)
  ultimately show thesis using that [OF s'(1-4,6-8)] by blast
qed

lemma write_data:
  assumes ok: "bio_ok s" and r: "in_process s" and m: "buf_mine s i n" and n: "n < disksize s"
  obtains s' where "bwrite i (upd_buf i (\<lambda>b. b\<lparr>b_data := d\<rparr>) s) = Ok s'" "bio_ok s'" "in_process s'" "cache_only s s'"
    "memdisk s' = (memdisk s)(unat n := d)" "disk_writes s' = disk_writes s @ [(unat n, d)]"
    "blk_view s' = (blk_view s)(n := d)" "bio_dirty s' = bio_dirty s - {n}" "buf_mine s' i n" "\<not> b_dirty (bufs s' ! i)"
    "\<forall>j. j \<noteq> i \<longrightarrow> bufs s' ! j = bufs s ! j" "\<forall>j m. j \<noteq> i \<longrightarrow> buf_mine s j m \<longrightarrow> buf_mine s' j m"
proof -
  have i: "i < NBUF" "has_blk s i n" using m by (simp_all add: buf_mine_def)
  let ?b = "(bufs s ! i)\<lparr>b_data := d\<rparr>"
  define t where "t = s\<lparr>bufs := (bufs s)[i := ?b]\<rparr>"
  note t = set_data [OF ok m, of d, folded t_def]
  have nt: "bufs t ! j = (if j = i then ?b else bufs s ! j)" for j
    unfolding t_def using bufs_upd [OF i(1) ok] by simp
  have rt: "in_process t" "n < disksize t" using r n by (simp_all add: t_def)
  have ti: "has_blk t i n" using i(2) by (simp add: has_blk_def nt)
  obtain s' where s': "bwrite i t = Ok s'" "bio_ok s'" "in_process s'" "cache_only t s'" "buf_mine s' i n"
    "bufs s' = (bufs t)[i := (bufs t ! i)\<lparr>b_dirty := False\<rparr>]"
    "memdisk s' = (memdisk t)(unat n := b_data (bufs t ! i))"
    "disk_writes s' = disk_writes t @ [(unat n, b_data (bufs t ! i))]" "blk_view s' = blk_view t"
    using bwrite_ok [OF t(1) rt(1) t(2) rt(2)] .
  have e: "bwrite i (upd_buf i (\<lambda>b. b\<lparr>b_data := d\<rparr>) s) = Ok s'" using s'(1) by (simp add: t_def upd_buf_def)
  have ns: "bufs s' ! j = (if j = i then (bufs t ! i)\<lparr>b_dirty := False\<rparr> else bufs t ! j)" for j
    using bufs_upd [OF i(1) t(1)] s'(6) by simp
  have "bio_dirty s' = bio_dirty t - {n}" by (rule dirty_clean [OF t(1) i(1) ti s'(6)])
  moreover have "bio_dirty t = bio_dirty s" by (rule dirty_same [OF ok i(1), of _ ?b]) (simp_all add: t_def)
  moreover have "cache_only s s'" using cache_only_trans [OF _ s'(4)] by (simp add: t_def)
  moreover have "\<not> b_dirty (bufs s' ! i)" by (simp add: ns)
  moreover have "bufs s' ! j = bufs s ! j" if "j \<noteq> i" for j using that by (simp add: ns nt)
  moreover have "cur_pid s' = cur_pid s" using s'(4) by (simp add: cache_only_def t_def)
  then have "buf_mine s' j m" if "j \<noteq> i" "buf_mine s j m" for j m
    using that by (simp add: buf_mine_def has_blk_def holdingsleep_def ns nt)
  moreover have tm: "b_data (bufs t ! i) = d" "memdisk t = memdisk s" "disk_writes t = disk_writes s"
    by (simp_all add: nt) (simp_all add: t_def)
  ultimately show thesis
    using that [OF e s'(2,3)] s'(5) s'(7-9) [unfolded tm t(3)] by simp
qed

text \<open>A read from a state in which the process holds the buffers \<open>H\<close>.\<close>

lemma bread_held:
  assumes ok: "bio_ok s" and r: "in_process s" and n: "n < disksize s"
    and H: "finite H" "\<forall>i < NBUF. buf_held s i \<longrightarrow> i \<in> H \<or> b_dirty (bufs s ! i)"
      "\<forall>i < NBUF. buf_held s i \<longrightarrow> \<not> has_blk s i n"
    and buf_room: "card H + card (bio_dirty s) < NBUF \<or> n \<in> bio_dirty s"
  obtains i s' where "bread 1 n s = Ok (i, s')" "read_ok s n i s'"
proof -
  have "\<forall>i < NBUF. has_blk s i n \<longrightarrow> \<not> buf_held s i" using H by blast
  moreover have "(\<exists>i < NBUF. has_blk s i n) \<or> (\<exists>i < NBUF. \<not> buf_held s i \<and> \<not> b_dirty (bufs s ! i))"
    using buf_room spare_exists [OF ok H(1) _ H(2)] by (auto simp: bio_dirty_def)
  ultimately show thesis using bread_ok [OF ok n] that by blast
qed

text \<open>Two blocks read one after the other, in either order.\<close>

lemma two_reads:
  assumes s: "bio_idle s" and ab: "a \<noteq> b" "a < disksize s" "b < disksize s"
    and buf_room: "card (bio_dirty s) + 1 < NBUF \<or> card (bio_dirty s) < NBUF \<and> (a \<in> bio_dirty s \<or> b \<in> bio_dirty s)"
  obtains i j s1 s2 where "bread 1 a s = Ok (i, s1)" "bread 1 b s1 = Ok (j, s2)" "i \<noteq> j"
    "bio_ok s2" "in_process s2" "buf_mine s2 i a" "buf_mine s2 j b" "cache_only s s2" "blk_view s2 = blk_view s"
    "memdisk s2 = memdisk s" "disk_writes s2 = disk_writes s" "bio_dirty s2 = bio_dirty s"
    "b_data (bufs s2 ! i) = blk_view s a" "b_data (bufs s2 ! j) = blk_view s b"
    "b_dirty (bufs s2 ! i) \<longleftrightarrow> a \<in> bio_dirty s" "b_dirty (bufs s2 ! j) \<longleftrightarrow> b \<in> bio_dirty s"
    "a \<notin> bio_dirty s \<longrightarrow> blk_view s a = memdisk s (unat a)" "b \<notin> bio_dirty s \<longrightarrow> blk_view s b = memdisk s (unat b)"
    "cache_only s s1" "\<forall>k < NBUF. k \<noteq> i \<longrightarrow> k \<noteq> j \<longrightarrow> \<not> buf_held s2 k"
proof -
  have ok: "bio_ok s" "in_process s" and no: "\<forall>i < NBUF. \<not> buf_held s i" using s by (auto simp: bio_idle_def)
  have "card {} + card (bio_dirty s) < NBUF \<or> a \<in> bio_dirty s" using buf_room by auto
  then obtain i s1 where r1: "bread 1 a s = Ok (i, s1)" "read_ok s a i s1"
    using bread_held [OF ok ab(2), of "{}"] no by blast
  note R1 = read_okD [OF ok(1) r1(2) ok(2)]
  have h1: "buf_held s1 k \<longrightarrow> k = i" if "k < NBUF" for k
    using no that R1(12) [of k] by (cases "k = i") (auto simp: buf_held_def)
  have i: "i < NBUF" "\<not> has_blk s1 i b" using R1(3) ab(1) by (auto simp: buf_mine_def has_blk_def)
  have b1: "b < disksize s1" using ab(3) R1(4) by simp
  define H where "H = (if a \<in> bio_dirty s then {} else {i})"
  have H: "finite H" "\<forall>k < NBUF. buf_held s1 k \<longrightarrow> k \<in> H \<or> b_dirty (bufs s1 ! k)"
      "\<forall>k < NBUF. buf_held s1 k \<longrightarrow> \<not> has_blk s1 k b"
    using h1 R1(14) i(2) by (auto simp: H_def)
  have "card H + card (bio_dirty s1) < NBUF \<or> b \<in> bio_dirty s1" using buf_room unfolding R1(8) by (auto simp: H_def)
  then obtain j s2 where r2: "bread 1 b s1 = Ok (j, s2)" "read_ok s1 b j s2"
    using bread_held [OF R1(1,2) b1 H] by blast
  note R2 = read_okD [OF R1(1) r2(2) R1(2)]
  have ij: "i \<noteq> j" using R2(11) mine_holds [OF R1(3)] by blast
  have h2: "\<forall>k < NBUF. k \<noteq> i \<longrightarrow> k \<noteq> j \<longrightarrow> \<not> buf_held s2 k"
    using h1 R2(12) by (auto simp: buf_held_def)
  show thesis
    by (rule that [OF r1(1) r2(1) ij R2(1,2) R2(13) [OF ij R1(3)] R2(3) cache_only_trans [OF R1(4) R2(4)]])
      (use R1(4-10,14) R2(5-10,14) R2(12) [OF ij] h2 in simp_all)
qed

text \<open>Copying block \<open>a\<close> over block \<open>b\<close> on the disk, as the loops of the log do.\<close>

definition blk_copied :: "u32 \<Rightarrow> u32 \<Rightarrow> 'a bstate_scheme \<Rightarrow> 'a bstate_scheme \<Rightarrow> bool" where
  "blk_copied a b s s' \<longleftrightarrow> bio_idle s' \<and> cache_only s s' \<and> blk_view s' = (blk_view s)(b := blk_view s a) \<and>
     memdisk s' = (memdisk s)(unat b := blk_view s a) \<and>
     disk_writes s' = disk_writes s @ [(unat b, blk_view s a)] \<and> bio_dirty s' = bio_dirty s - {b}"

lemma copy_tail:
  assumes ok: "bio_ok s" "in_process s" and m: "buf_mine s i a" "buf_mine s j b" and ij: "i \<noteq> j" "a \<noteq> b"
    and b: "b < disksize s" and clean: "b_dirty (bufs s ! i) \<or> blk_view s a = memdisk s (unat a)"
    and free: "\<forall>k < NBUF. k \<noteq> i \<longrightarrow> k \<noteq> j \<longrightarrow> \<not> buf_held s k"
  obtains s' where "obind (bwrite j (upd_buf j (\<lambda>b. b\<lparr>b_data := b_data (bufs s ! i)\<rparr>) s)) (\<lambda>s.
      obind (brelse i s) (brelse j)) = Ok s'" "blk_copied a b s s'"
proof -
  have d: "b_data (bufs s ! i) = blk_view s a" using view_has [OF ok(1), of i a] m(1) by (simp add: buf_mine_def)
  obtain s1 where s1: "bwrite j (upd_buf j (\<lambda>b. b\<lparr>b_data := blk_view s a\<rparr>) s) = Ok s1" "bio_ok s1" "in_process s1" "cache_only s s1"
    "memdisk s1 = (memdisk s)(unat b := blk_view s a)" "disk_writes s1 = disk_writes s @ [(unat b, blk_view s a)]"
    "blk_view s1 = (blk_view s)(b := blk_view s a)" "bio_dirty s1 = bio_dirty s - {b}" "buf_mine s1 j b" "\<not> b_dirty (bufs s1 ! j)"
    "\<forall>k. k \<noteq> j \<longrightarrow> bufs s1 ! k = bufs s ! k" "\<forall>k m. k \<noteq> j \<longrightarrow> buf_mine s k m \<longrightarrow> buf_mine s1 k m"
    using write_data [OF ok m(2) b, of "blk_view s a"] .
  have u: "unat a \<noteq> unat b" using ij(2) by (auto dest: word_unat_eq_iff [THEN iffD2])
  have mi1: "buf_mine s1 i a" using s1(12) ij(1) m(1) by blast
  have c1: "b_dirty (bufs s1 ! i) \<or> blk_view s1 a = memdisk s1 (unat a)"
    using clean s1(5,7,11) ij u by auto
  obtain s2 where s2: "brelse i s1 = Ok s2" "bio_ok s2" "in_process s2" "cache_only s1 s2"
    "memdisk s2 = memdisk s1" "disk_writes s2 = disk_writes s1" "blk_view s2 = blk_view s1" "bio_dirty s2 = bio_dirty s1"
    "\<not> buf_held s2 i" "\<forall>k. k \<noteq> i \<longrightarrow> bufs s2 ! k = bufs s1 ! k" "\<forall>k m. k \<noteq> i \<longrightarrow> buf_mine s1 k m \<longrightarrow> buf_mine s2 k m"
    using brelse_idle [OF s1(2,3) mi1 c1] .
  have mj2: "buf_mine s2 j b" using s2(11) ij(1) s1(9) by auto
  have c2: "b_dirty (bufs s2 ! j) \<or> blk_view s2 b = memdisk s2 (unat b)" unfolding s2(5,7) s1(5,7) by simp
  obtain s3 where s3: "brelse j s2 = Ok s3" "bio_ok s3" "in_process s3" "cache_only s2 s3"
    "memdisk s3 = memdisk s2" "disk_writes s3 = disk_writes s2" "blk_view s3 = blk_view s2" "bio_dirty s3 = bio_dirty s2"
    "\<not> buf_held s3 j" "\<forall>k. k \<noteq> j \<longrightarrow> bufs s3 ! k = bufs s2 ! k" "\<forall>k m. k \<noteq> j \<longrightarrow> buf_mine s2 k m \<longrightarrow> buf_mine s3 k m"
    using brelse_idle [OF s2(2,3) mj2 c2] .
  have "\<not> buf_held s3 k" if "k < NBUF" for k
    using that free s3(9,10) s2(9,10) s1(11)
    by (cases "k = j"; cases "k = i") (auto simp: buf_held_def)
  then have "bio_idle s3" using s3(2,3) by (simp add: bio_idle_def)
  moreover have "cache_only s s3" using cache_only_trans [OF s1(4) cache_only_trans [OF s2(4) s3(4)]] .
  ultimately have "blk_copied a b s s3" unfolding blk_copied_def s3(5-8) s2(5-8) s1(5-8) by blast
  moreover have "obind (bwrite j (upd_buf j (\<lambda>b. b\<lparr>b_data := b_data (bufs s ! i)\<rparr>) s)) (\<lambda>s.
      obind (brelse i s) (brelse j)) = Ok s3" unfolding d s1(1) obind.simps s2(1) s3(1) ..
  ultimately show thesis using that by blast
qed

section \<open>The cache as a disk\<close>

lemma idle_clean:
  assumes "bio_idle s" "n \<notin> bio_dirty s" shows "blk_view s n = memdisk s (unat n)"
proof (cases "\<exists>i < NBUF. has_blk s i n")
  case True
  then obtain i where i: "i < NBUF" "has_blk s i n" by blast
  then show ?thesis using assms view_has [OF _ i] bio_okD(5) [of s i]
    by (auto simp: bio_idle_def bio_dirty_def buf_ok_def has_blk_def buf_held_def)
next
  case False
  then show ?thesis using assms(1) view_none by (auto simp: bio_idle_def)
qed

text \<open>
  The kernel's two ways of using a block: \<^verbatim>\<open>bread\<close>, look at \<^verbatim>\<open>data\<close>, \<^verbatim>\<open>brelse\<close>; and
  \<^verbatim>\<open>bread\<close>, fill \<^verbatim>\<open>data\<close>, \<^verbatim>\<open>bwrite\<close>, \<^verbatim>\<open>brelse\<close>.
\<close>

definition read_block :: "u32 \<Rightarrow> 'a bstate_scheme \<Rightarrow> (block \<times> 'a bstate_scheme) outcome" where
  "read_block n s =
     obind (bread 1 n s) (\<lambda>(i, s). obind (brelse i s) (\<lambda>s'. Ok (b_data (bufs s ! i), s')))"

definition write_block :: "u32 \<Rightarrow> block \<Rightarrow> 'a bstate_scheme \<Rightarrow> 'a bstate_scheme outcome" where
  "write_block n d s =
     obind (bread 1 n s) (\<lambda>(i, s).
     obind (bwrite i (upd_buf i (\<lambda>b. b\<lparr>b_data := d\<rparr>) s)) (brelse i))"

datatype block_op = BRead u32 | BWrite u32 block

fun op_target :: "block_op \<Rightarrow> u32" where
  "op_target (BRead n) = n" | "op_target (BWrite n d) = n"

fun cache_run :: "block_op list \<Rightarrow> 'a bstate_scheme \<Rightarrow> (block list \<times> 'a bstate_scheme) outcome" where
  "cache_run [] s = Ok ([], s)"
| "cache_run (BRead n # ops) s =
     obind (read_block n s) (\<lambda>(d, s). obind (cache_run ops s) (\<lambda>(ds, s). Ok (d # ds, s)))"
| "cache_run (BWrite n d # ops) s = obind (write_block n d s) (cache_run ops)"

fun disk_run :: "block_op list \<Rightarrow> (nat \<Rightarrow> block) \<Rightarrow> block list \<times> (nat \<Rightarrow> block)" where
  "disk_run [] dk = ([], dk)"
| "disk_run (BRead n # ops) dk = (let (ds, dk') = disk_run ops dk in (dk (unat n) # ds, dk'))"
| "disk_run (BWrite n d # ops) dk = disk_run ops (dk(unat n := d))"

lemma bread_idle:
  assumes s: "bio_idle s" and n: "n < disksize s" and buf_room: "card (bio_dirty s) < NBUF \<or> n \<in> bio_dirty s"
  obtains i s' where "bread 1 n s = Ok (i, s')" "read_ok s n i s'" "\<forall>k < NBUF. k \<noteq> i \<longrightarrow> \<not> buf_held s' k"
proof -
  have ok: "bio_ok s" "in_process s" and no: "\<forall>i < NBUF. \<not> buf_held s i" using s by (auto simp: bio_idle_def)
  then obtain i s' where r: "bread 1 n s = Ok (i, s')" "read_ok s n i s'"
    using bread_held [OF ok n, of "{}"] buf_room by auto
  show thesis by (rule that [OF r]) (use no read_okD(12) [OF ok(1) r(2) ok(2)] in \<open>auto simp: buf_held_def\<close>)
qed

lemma read_block_ok:
  assumes s: "bio_idle s" and n: "n < disksize s" and buf_room: "card (bio_dirty s) < NBUF \<or> n \<in> bio_dirty s"
  obtains s' where "read_block n s = Ok (blk_view s n, s')" "bio_idle s'" "cache_only s s'" "blk_view s' = blk_view s"
    "memdisk s' = memdisk s" "disk_writes s' = disk_writes s" "bio_dirty s' = bio_dirty s"
proof -
  have ok: "bio_ok s" "in_process s" using s by (auto simp: bio_idle_def)
  obtain i s1 where r: "bread 1 n s = Ok (i, s1)" "read_ok s n i s1" and h: "\<forall>k < NBUF. k \<noteq> i \<longrightarrow> \<not> buf_held s1 k"
    using bread_idle [OF s n buf_room] .
  note R = read_okD [OF ok(1) r(2) ok(2)]
  have c: "b_dirty (bufs s1 ! i) \<or> blk_view s1 n = memdisk s1 (unat n)" using R(5,6,10,14) by auto
  obtain s2 where s2: "brelse i s1 = Ok s2" "bio_ok s2" "in_process s2" "cache_only s1 s2"
    "memdisk s2 = memdisk s1" "disk_writes s2 = disk_writes s1" "blk_view s2 = blk_view s1" "bio_dirty s2 = bio_dirty s1"
    "\<not> buf_held s2 i" "\<forall>k. k \<noteq> i \<longrightarrow> bufs s2 ! k = bufs s1 ! k" "\<forall>k m. k \<noteq> i \<longrightarrow> buf_mine s1 k m \<longrightarrow> buf_mine s2 k m"
    using brelse_idle [OF R(1-3) c] .
  have "\<not> buf_held s2 k" if "k < NBUF" for k
    using that h s2(9,10) by (cases "k = i") (auto simp: buf_held_def)
  then have i2: "bio_idle s2" using s2(2,3) by (simp add: bio_idle_def)
  have e: "read_block n s = Ok (blk_view s n, s2)" by (simp add: read_block_def r(1) s2(1) R(9))
  show thesis by (rule that [OF e i2 cache_only_trans [OF R(4) s2(4)]]) (simp_all add: s2 R)
qed

lemma write_block_ok:
  assumes s: "bio_idle s" and n: "n < disksize s" and buf_room: "card (bio_dirty s) < NBUF \<or> n \<in> bio_dirty s"
  obtains s' where "write_block n d s = Ok s'" "bio_idle s'" "cache_only s s'" "blk_view s' = (blk_view s)(n := d)"
    "memdisk s' = (memdisk s)(unat n := d)" "disk_writes s' = disk_writes s @ [(unat n, d)]"
    "bio_dirty s' = bio_dirty s - {n}"
proof -
  have ok: "bio_ok s" "in_process s" using s by (auto simp: bio_idle_def)
  obtain i s1 where r: "bread 1 n s = Ok (i, s1)" "read_ok s n i s1" and h: "\<forall>k < NBUF. k \<noteq> i \<longrightarrow> \<not> buf_held s1 k"
    using bread_idle [OF s n buf_room] .
  note R = read_okD [OF ok(1) r(2) ok(2)]
  have n1: "n < disksize s1" using n R(4) by simp
  obtain s2 where s2: "bwrite i (upd_buf i (\<lambda>b. b\<lparr>b_data := d\<rparr>) s1) = Ok s2" "bio_ok s2" "in_process s2" "cache_only s1 s2"
    "memdisk s2 = (memdisk s1)(unat n := d)" "disk_writes s2 = disk_writes s1 @ [(unat n, d)]"
    "blk_view s2 = (blk_view s1)(n := d)" "bio_dirty s2 = bio_dirty s1 - {n}" "buf_mine s2 i n" "\<not> b_dirty (bufs s2 ! i)"
    "\<forall>k. k \<noteq> i \<longrightarrow> bufs s2 ! k = bufs s1 ! k" "\<forall>k m. k \<noteq> i \<longrightarrow> buf_mine s1 k m \<longrightarrow> buf_mine s2 k m"
    using write_data [OF R(1,2,3) n1, of d] .
  have c: "b_dirty (bufs s2 ! i) \<or> blk_view s2 n = memdisk s2 (unat n)" unfolding s2(5,7) by simp
  obtain s3 where s3: "brelse i s2 = Ok s3" "bio_ok s3" "in_process s3" "cache_only s2 s3"
    "memdisk s3 = memdisk s2" "disk_writes s3 = disk_writes s2" "blk_view s3 = blk_view s2" "bio_dirty s3 = bio_dirty s2"
    "\<not> buf_held s3 i" "\<forall>k. k \<noteq> i \<longrightarrow> bufs s3 ! k = bufs s2 ! k" "\<forall>k m. k \<noteq> i \<longrightarrow> buf_mine s2 k m \<longrightarrow> buf_mine s3 k m"
    using brelse_idle [OF s2(2,3,9) c] .
  have "\<not> buf_held s3 k" if "k < NBUF" for k
    using that h s3(9,10) s2(11) by (cases "k = i") (auto simp: buf_held_def)
  then have i3: "bio_idle s3" using s3(2,3) by (simp add: bio_idle_def)
  have e: "write_block n d s = Ok s3" by (simp add: write_block_def r(1) s2(1) s3(1))
  show thesis
    by (rule that [OF e i3 cache_only_trans [OF R(4) cache_only_trans [OF s2(4) s3(4)]]]) (simp_all add: s2 s3 R)
qed

lemma cached_direct:
  assumes "bio_idle s" "bio_dirty s = {}" "\<forall>op \<in> set ops. op_target op < disksize s"
  shows "\<exists>s'. cache_run ops s = Ok (fst (disk_run ops (memdisk s)), s') \<and>
     memdisk s' = snd (disk_run ops (memdisk s)) \<and> bio_idle s' \<and> bio_dirty s' = {}"
  using assms
proof (induction ops s rule: cache_run.induct)
  case (1 s)
  then show ?case by simp
next
  case (2 n ops s)
  have n: "n < disksize s" "card (bio_dirty s) < NBUF \<or> n \<in> bio_dirty s" using 2 by auto
  obtain s1 where s1: "read_block n s = Ok (blk_view s n, s1)" "bio_idle s1" "cache_only s s1" "blk_view s1 = blk_view s"
    "memdisk s1 = memdisk s" "disk_writes s1 = disk_writes s" "bio_dirty s1 = bio_dirty s"
    using read_block_ok [OF 2(2) n] .
  have "blk_view s n = memdisk s (unat n)" using idle_clean [OF 2(2)] 2(3) by simp
  moreover have "\<exists>s'. cache_run ops s1 = Ok (fst (disk_run ops (memdisk s1)), s') \<and>
     memdisk s' = snd (disk_run ops (memdisk s1)) \<and> bio_idle s' \<and> bio_dirty s' = {}"
    using 2(1) [OF s1(1) refl] s1(2,3,7) 2(3,4) by simp
  ultimately show ?case by (auto simp: s1(1,5) split: prod.splits)
next
  case (3 n d ops s)
  have n: "n < disksize s" "card (bio_dirty s) < NBUF \<or> n \<in> bio_dirty s" using 3 by auto
  obtain s1 where s1: "write_block n d s = Ok s1" "bio_idle s1" "cache_only s s1" "blk_view s1 = (blk_view s)(n := d)"
    "memdisk s1 = (memdisk s)(unat n := d)" "disk_writes s1 = disk_writes s @ [(unat n, d)]"
    "bio_dirty s1 = bio_dirty s - {n}" using write_block_ok [OF 3(2) n] .
  have "\<exists>s'. cache_run ops s1 = Ok (fst (disk_run ops (memdisk s1)), s') \<and>
     memdisk s' = snd (disk_run ops (memdisk s1)) \<and> bio_idle s' \<and> bio_dirty s' = {}"
    using 3(1) [OF s1(1)] s1(2,3,7) 3(3,4) by simp
  then show ?case by (simp add: s1(1,5))
qed

text \<open>
  C2: The buffer cache is transparent. Whatever sequence of whole-block reads and writes
  a process makes through it, starting with no block pinned, every read returns the block
  last written (or the disk's, if it was not written), the disk ends up as if the writes
  had gone to it directly, and no call panics, however often buffers are recycled.
\<close>

theorem buffer_cache_transparent:
  assumes "bio_idle s" "bio_dirty s = {}" "\<forall>op \<in> set ops. op_target op < disksize s"
  shows "\<exists>s'. cache_run ops s = Ok (fst (disk_run ops (memdisk s)), s') \<and>
     memdisk s' = snd (disk_run ops (memdisk s)) \<and> bio_idle s' \<and> bio_dirty s' = {}"
  by (rule cached_direct [OF assms])

lemma example_idle: "bio_idle (example_bstate m)" "bio_dirty (example_bstate m) = {}"
proof -
  have b: "bufs (example_bstate m) ! i = empty_buf" if "i < NBUF" for i
    using that by (simp add: example_bstate_def example_state_def)
  have "in_process (example_bstate m)"
    by (simp add: in_process_def quiet_def example_bstate_def example_state_def example_cpu_def)
  moreover have "length (bufs (example_bstate m)) = NBUF" "lru (example_bstate m) = rev [0 ..< NBUF]"
    by (simp_all add: example_bstate_def example_state_def)
  ultimately show "bio_idle (example_bstate m)"
    by (auto simp: bio_idle_def bio_ok_def has_blk_def buf_held_def b buf_ok_def empty_buf_def)
  show "bio_dirty (example_bstate m) = {}" by (auto simp: bio_dirty_def has_blk_def b empty_buf_def)
qed

lemma buffer_cache_transparent_witness:
  "let s = example_bstate (); d = (\<lambda>k. 7);
     ops = [BWrite 40 d, BRead 40, BRead 41]
   in \<exists>s'. cache_run ops s = Ok ([d, \<lambda>k. 0], s') \<and> memdisk s' 40 = d"
proof -
  have "\<exists>s'. cache_run [BWrite 40 (\<lambda>k. 7), BRead 40, BRead 41] (example_bstate ()) =
      Ok (fst (disk_run [BWrite 40 (\<lambda>k. 7), BRead 40, BRead 41] (memdisk (example_bstate ()))), s') \<and>
     memdisk s' = snd (disk_run [BWrite 40 (\<lambda>k. 7), BRead 40, BRead 41] (memdisk (example_bstate ()))) \<and> bio_idle s' \<and> bio_dirty s' = {}"
    by (rule buffer_cache_transparent)
      (simp_all add: example_idle, simp_all add: example_bstate_def example_state_def)
  then show ?thesis by (auto simp: example_bstate_def example_state_def)
qed

end
