(* ===== verification/Log.thy ===== *)
theory Log
  imports Bio
begin

text \<open>
  \<^verbatim>\<open>log.c\<close>: the redo log that makes file system operations atomic. \<^verbatim>\<open>log.lock\<close> makes
  the sections it guards atomic steps and does not appear.
\<close>

abbreviation MAXOPBLOCKS :: int where "MAXOPBLOCKS \<equiv> 10"
abbreviation LOGSIZE :: int where "LOGSIZE \<equiv> 30"
abbreviation ROOTDEV :: u32 where "ROOTDEV \<equiv> 1"

section \<open>State\<close>

record superblock =
  sb_size :: u32
  sb_nblocks :: u32
  sb_ninodes :: u32
  sb_nlog :: u32
  sb_logstart :: u32
  sb_inodestart :: u32
  sb_bmapstart :: u32

text \<open>
  The array of the in-memory header is a function on indices; the code uses 0 to 29 as
  long as the count read from disk is at most \<open>LOGSIZE\<close>.
\<close>

record lstate = bstate +
  log_start :: u32
  log_size :: int
  outstanding :: int
  committing :: bool
  log_dev :: u32
  lh_n :: int
  lh_block :: "nat \<Rightarrow> u32"

section \<open>The super block\<close>

definition readsb :: "u32 \<Rightarrow> 'a bstate_scheme \<Rightarrow> (superblock \<times> 'a bstate_scheme) outcome" where
  "readsb dev s =
     obind (bread dev 1 s) (\<lambda>(i, s).
     let d = b_data (bufs s ! i);
         sb = \<lparr>sb_size = get32 d 0, sb_nblocks = get32 d 4, sb_ninodes = get32 d 8,
               sb_nlog = get32 d 12, sb_logstart = get32 d 16, sb_inodestart = get32 d 20,
               sb_bmapstart = get32 d 24\<rparr>
     in obind (brelse i s) (\<lambda>s. Ok (sb, s)))"

section \<open>Committing and recovering\<close>

text \<open>The loops over the blocks of the log take the list of indices still to do.\<close>

fun install_from :: "nat list \<Rightarrow> 'a lstate_scheme \<Rightarrow> 'a lstate_scheme outcome" where
  "install_from [] s = Ok s"
| "install_from (tail # tails) s =
     obind (bread (log_dev s) (log_start s + of_nat tail + 1) s) (\<lambda>(lbuf, s).
     obind (bread (log_dev s) (lh_block s tail) s) (\<lambda>(dbuf, s).
     let s = upd_buf dbuf (\<lambda>b. b\<lparr>b_data := b_data (bufs s ! lbuf)\<rparr>) s in
     obind (bwrite dbuf s) (\<lambda>s.
     obind (brelse lbuf s) (\<lambda>s.
     obind (brelse dbuf s) (install_from tails)))))"

definition install_trans :: "'a lstate_scheme \<Rightarrow> 'a lstate_scheme outcome" where
  "install_trans s = install_from [0 ..< nat (lh_n s)] s"

definition read_head :: "'a lstate_scheme \<Rightarrow> 'a lstate_scheme outcome" where
  "read_head s =
     obind (bread (log_dev s) (log_start s) s) (\<lambda>(i, s).
     let d = b_data (bufs s ! i);
         n = sint (get32 d 0);
         s = s\<lparr>lh_n := n,
               lh_block := (\<lambda>k. if int k < n then get32 d (4 + 4 * k) else lh_block s k)\<rparr>
     in brelse i s)"

text \<open>The header words of the block: the count, then the block numbers.\<close>

fun put_blocks :: "block \<Rightarrow> (nat \<Rightarrow> u32) \<Rightarrow> nat list \<Rightarrow> block" where
  "put_blocks d f [] = d"
| "put_blocks d f (k # ks) = put_blocks (put32 d (4 + 4 * k) (f k)) f ks"

definition head_block :: "int \<Rightarrow> (nat \<Rightarrow> u32) \<Rightarrow> block \<Rightarrow> block" where
  "head_block n f d = put_blocks (put32 d 0 (word_of_int n)) f [0 ..< nat n]"

definition write_head :: "'a lstate_scheme \<Rightarrow> 'a lstate_scheme outcome" where
  "write_head s =
     obind (bread (log_dev s) (log_start s) s) (\<lambda>(i, s).
     let s = upd_buf i (\<lambda>b. b\<lparr>b_data := head_block (lh_n s) (lh_block s) (b_data b)\<rparr>) s in
     obind (bwrite i s) (brelse i))"

definition recover_from_log :: "'a lstate_scheme \<Rightarrow> 'a lstate_scheme outcome" where
  "recover_from_log s =
     obind (read_head s) (\<lambda>s.
     obind (install_trans s) (\<lambda>s.
     write_head (s\<lparr>lh_n := 0\<rparr>)))"

text \<open>The header has 31 words of four bytes, which is less than a block.\<close>

definition initlog :: "u32 \<Rightarrow> 'a lstate_scheme \<Rightarrow> 'a lstate_scheme outcome" where
  "initlog dev s =
     (if 4 + 4 * LOGSIZE \<ge> int BSIZE then Panic ''initlog: too big logheader''
      else
        obind (readsb dev s) (\<lambda>(sb, s).
        recover_from_log (s\<lparr>log_start := sb_logstart sb, log_size := sint (sb_nlog sb), log_dev := dev\<rparr>)))"

fun write_log_from :: "nat list \<Rightarrow> 'a lstate_scheme \<Rightarrow> 'a lstate_scheme outcome" where
  "write_log_from [] s = Ok s"
| "write_log_from (tail # tails) s =
     obind (bread (log_dev s) (log_start s + of_nat tail + 1) s) (\<lambda>(to, s).
     obind (bread (log_dev s) (lh_block s tail) s) (\<lambda>(from, s).
     let s = upd_buf to (\<lambda>b. b\<lparr>b_data := b_data (bufs s ! from)\<rparr>) s in
     obind (bwrite to s) (\<lambda>s.
     obind (brelse from s) (\<lambda>s.
     obind (brelse to s) (write_log_from tails)))))"

definition write_log :: "'a lstate_scheme \<Rightarrow> 'a lstate_scheme outcome" where
  "write_log s = write_log_from [0 ..< nat (lh_n s)] s"

definition commit :: "'a lstate_scheme \<Rightarrow> 'a lstate_scheme outcome" where
  "commit s =
     (if lh_n s > 0 then
        obind (write_log s) (\<lambda>s.
        obind (write_head s) (\<lambda>s.
        obind (install_trans s) (\<lambda>s.
        write_head (s\<lparr>lh_n := 0\<rparr>))))
      else Ok s)"

section \<open>Operations\<close>

text \<open>A caller that must wait sleeps on the log and tests again when it is woken.\<close>

definition begin_op :: "'a lstate_scheme \<Rightarrow> 'a lstate_scheme outcome" where
  "begin_op s =
     (if committing s then Sleep ChLog
      else if lh_n s + (outstanding s + 1) * MAXOPBLOCKS > LOGSIZE then Sleep ChLog
      else Ok (s\<lparr>outstanding := outstanding s + 1\<rparr>))"

definition end_op :: "'a lstate_scheme \<Rightarrow> 'a lstate_scheme outcome" where
  "end_op s =
     (let s = s\<lparr>outstanding := outstanding s - 1\<rparr> in
      if committing s then Panic ''log.committing''
      else if outstanding s = 0 then
        obind (commit (s\<lparr>committing := True\<rparr>)) (\<lambda>s.
        wakeup ChLog (s\<lparr>committing := False\<rparr>))
      else wakeup ChLog s)"

text \<open>A block that is in the log already keeps its place (absorption).\<close>

definition log_write :: "nat \<Rightarrow> 'a lstate_scheme \<Rightarrow> 'a lstate_scheme outcome" where
  "log_write b s =
     (if lh_n s \<ge> LOGSIZE \<or> lh_n s \<ge> log_size s - 1 then Panic ''too big a transaction''
      else if outstanding s < 1 then Panic ''log_write outside of trans''
      else
        let bn = b_blockno (bufs s ! b);
            i = (case find (\<lambda>i. lh_block s i = bn) [0 ..< nat (lh_n s)] of Some i \<Rightarrow> i | None \<Rightarrow> nat (lh_n s));
            s = s\<lparr>lh_block := (lh_block s)(i := bn)\<rparr>;
            s = (if int i = lh_n s then s\<lparr>lh_n := lh_n s + 1\<rparr> else s)
        in Ok (upd_buf b (\<lambda>b. b\<lparr>b_dirty := True\<rparr>) s))"

section \<open>An example log\<close>

definition example_lstate :: "'m \<Rightarrow> 'm lstate_scheme" where
  "example_lstate m = example_bstate (lstate_ext 2 30 0 False 1 0 (\<lambda>k. 0) m)"

section \<open>Words in a block\<close>

lemma get32_put32 [simp]: "get32 (put32 b k v) k = v"
  unfolding get32_def put32_def
  apply (rule bit_word_eqI)
  subgoal for n
    by (cases "n < 8"; cases "n < 16"; cases "n < 24") (auto simp: bit_simps not_less)
  done

lemma get32_put32_other: "j + 4 \<le> k \<or> k + 4 \<le> j \<Longrightarrow> get32 (put32 b k v) j = get32 b j"
  by (auto simp: get32_def put32_def)

lemma get32_put_blocks:
  "distinct ks \<Longrightarrow> get32 (put_blocks d f ks) (4 + 4 * k) = (if k \<in> set ks then f k else get32 d (4 + 4 * k))"
proof (induction ks arbitrary: d)
  case (Cons a ks)
  have "get32 (put32 d (4 + 4 * a) (f a)) (4 + 4 * k) = (if k = a then f a else get32 d (4 + 4 * k))"
  proof (cases "k = a")
    case False
    then have "4 + 4 * k + 4 \<le> 4 + 4 * a \<or> 4 + 4 * a + 4 \<le> 4 + 4 * k" by auto
    then show ?thesis using False get32_put32_other by simp
  qed simp
  then show ?case using Cons by auto
qed simp

lemma get32_put_blocks_0: "get32 (put_blocks d f ks) 0 = get32 d 0"
  by (induction ks arbitrary: d) (simp_all add: get32_put32_other)

text \<open>What is read back from a header block that was written.\<close>

lemma head_block_count: "get32 (head_block n f d) 0 = word_of_int n"
  by (simp add: head_block_def get32_put_blocks_0)

lemma head_block_entry: "int k < n \<Longrightarrow> get32 (head_block n f d) (4 + 4 * k) = f k"
  by (simp add: head_block_def get32_put_blocks zless_nat_eq_int_zless)

section \<open>Sequences of disk writes\<close>

definition apply_writes :: "(nat \<Rightarrow> block) \<Rightarrow> (nat \<times> block) list \<Rightarrow> nat \<Rightarrow> block" where
  "apply_writes d ws = foldl (\<lambda>d (m, v). d(m := v)) d ws"

lemma apply_writes_Nil [simp]: "apply_writes d [] = d"
  and apply_writes_Cons [simp]: "apply_writes d ((m, v) # ws) = apply_writes (d(m := v)) ws"
  and apply_writes_append [simp]: "apply_writes d (vs @ ws) = apply_writes (apply_writes d vs) ws"
  by (simp_all add: apply_writes_def)

lemma apply_writes_other: "m \<notin> fst ` set ws \<Longrightarrow> apply_writes d ws m = d m"
proof (induction ws arbitrary: d)
  case (Cons w ws)
  then show ?case by (cases w) simp
qed simp

lemma apply_writes_written:
  "distinct (map fst ws) \<Longrightarrow> (m, v) \<in> set ws \<Longrightarrow> apply_writes d ws m = v"
proof (induction ws arbitrary: d)
  case (Cons w ws)
  obtain a b where w: "w = (a, b)" by (cases w)
  show ?case
  proof (cases "(m, v) = w")
    case True
    then have "m \<notin> fst ` set ws" using Cons.prems(1) by (auto simp: image_iff)
    then show ?thesis using True apply_writes_other w by simp
  next
    case False
    then have "(m, v) \<in> set ws" using Cons.prems(2) w by auto
    then show ?thesis using Cons w by simp
  qed
qed simp

lemma apply_writes_same: "(\<And>v. (m, v) \<in> set ws \<Longrightarrow> v = d m) \<Longrightarrow> apply_writes d ws m = d m"
proof (induction ws arbitrary: d)
  case (Cons w ws)
  obtain a b where w: "w = (a, b)" by (cases w)
  have "apply_writes (d(a := b)) ws m = (d(a := b)) m"
    using Cons.prems w by (intro Cons.IH) (auto split: if_splits)
  then show ?case using Cons.prems w by auto
qed simp

text \<open>A sequence of copies (source, destination) made through the cache.\<close>

inductive blk_copies :: "(u32 \<times> u32) list \<Rightarrow> 'a bstate_scheme \<Rightarrow> 'a bstate_scheme \<Rightarrow> bool" where
  copies_Nil: "blk_copies [] s s"
| copies_Cons: "blk_copied a b s t \<Longrightarrow> blk_copies ps t u \<Longrightarrow> blk_copies ((a, b) # ps) s u"

inductive_cases copies_ConsE: "blk_copies ((a, b) # ps) s u"

definition copy_writes :: "(u32 \<Rightarrow> block) \<Rightarrow> (u32 \<times> u32) list \<Rightarrow> (nat \<times> block) list" where
  "copy_writes v ps = map (\<lambda>(a, b). (unat b, v a)) ps"

lemma copy_writes_upd: "b \<notin> fst ` set ps \<Longrightarrow> copy_writes (v(b := x)) ps = copy_writes v ps"
  by (induction ps) (auto simp: copy_writes_def)

lemma copies_result:
  assumes "blk_copies ps s u" "bio_idle s" "fst ` set ps \<inter> snd ` set ps = {}"
  shows "bio_idle u \<and> cache_only s u \<and> bio_dirty u = bio_dirty s - snd ` set ps \<and>
     disk_writes u = disk_writes s @ copy_writes (blk_view s) ps \<and>
     memdisk u = apply_writes (memdisk s) (copy_writes (blk_view s) ps) \<and>
     (\<forall>m. m \<notin> snd ` set ps \<longrightarrow> blk_view u m = blk_view s m)"
  using assms
proof (induction rule: blk_copies.induct)
  case (copies_Nil s)
  then show ?case by (simp add: copy_writes_def)
next
  case (copies_Cons a b s t ps u)
  have c: "bio_idle t" "cache_only s t" "blk_view t = (blk_view s)(b := blk_view s a)"
    "memdisk t = (memdisk s)(unat b := blk_view s a)"
    "disk_writes t = disk_writes s @ [(unat b, blk_view s a)]" "bio_dirty t = bio_dirty s - {b}"
    using copies_Cons(1) by (simp_all add: blk_copied_def)
  have "b \<notin> fst ` set ps" using copies_Cons.prems(2) by auto
  then have w: "copy_writes (blk_view t) ps = copy_writes (blk_view s) ps" unfolding c(3) by (rule copy_writes_upd)
  have IH: "bio_idle u \<and> cache_only t u \<and> bio_dirty u = bio_dirty t - snd ` set ps \<and>
     disk_writes u = disk_writes t @ copy_writes (blk_view s) ps \<and>
     memdisk u = apply_writes (memdisk t) (copy_writes (blk_view s) ps) \<and>
     (\<forall>m. m \<notin> snd ` set ps \<longrightarrow> blk_view u m = blk_view t m)"
    using copies_Cons(3) [OF c(1)] copies_Cons.prems(2) unfolding w by auto
  moreover have "cache_only s u" using cache_only_trans [OF c(2)] IH by blast
  moreover have "copy_writes (blk_view s) ((a, b) # ps) = (unat b, blk_view s a) # copy_writes (blk_view s) ps"
    by (simp add: copy_writes_def)
  moreover have "\<forall>m. m \<notin> snd ` set ((a, b) # ps) \<longrightarrow> blk_view u m = blk_view s m"
    using IH c(3) by simp
  ultimately show ?case using c by auto
qed

lemma copies_view:
  assumes "blk_copies ps s u" "bio_idle s" "fst ` set ps \<inter> snd ` set ps = {}" "distinct (map snd ps)" "(a, b) \<in> set ps"
  shows "blk_view u b = blk_view s a"
  using assms
proof (induction rule: blk_copies.induct)
  case (copies_Cons a' b' s t ps u)
  have c: "bio_idle t" "blk_view t = (blk_view s)(b' := blk_view s a')" using copies_Cons(1) by (simp_all add: blk_copied_def)
  have d: "fst ` set ps \<inter> snd ` set ps = {}" using copies_Cons.prems(2) by auto
  show ?case
  proof (cases "(a, b) = (a', b')")
    case True
    then have "b \<notin> snd ` set ps" using copies_Cons.prems(3) by auto
    then show ?thesis using copies_result [OF copies_Cons(2) c(1) d] c(2) True by simp
  next
    case False
    then have "(a, b) \<in> set ps" using copies_Cons.prems(4) by auto
    moreover have "a \<noteq> b'" using copies_Cons.prems(2,4) by force
    ultimately show ?thesis using copies_Cons.IH [OF c(1) d] copies_Cons.prems(3) c(2) by simp
  qed
qed simp

section \<open>The loops of the log\<close>

lemma cache_only_log [simp]:
  assumes "cache_only s t"
  shows "log_start t = log_start s" "log_size t = log_size s" "outstanding t = outstanding s"
    "committing t = committing s" "log_dev t = log_dev s" "lh_n t = lh_n s" "lh_block t = lh_block s"
  using assms unfolding cache_only_def by (elim conjE exE, simp)+

lemma cache_only_lh_n: "cache_only s t \<Longrightarrow> cache_only (s\<lparr>lh_n := n\<rparr>) (t\<lparr>lh_n := n\<rparr>)"
  and cache_only_lh_block: "cache_only s t \<Longrightarrow> cache_only (s\<lparr>lh_block := f\<rparr>) (t\<lparr>lh_block := f\<rparr>)"
proof -
  assume "cache_only s t"
  then obtain bs lr md dw ps lk c where t: "t = s\<lparr>bufs := bs, lru := lr, memdisk := md,
     disk_writes := dw, procs := ps, pt_lock := lk, this_cpu := c\<rparr>" and p: "cur_pid t = cur_pid s"
    unfolding cache_only_def by (elim conjE exE)
  have "cur_pid (s\<lparr>lh_n := n\<rparr>) = cur_pid s" "cur_pid (t\<lparr>lh_n := n\<rparr>) = cur_pid t"
    "cur_pid (s\<lparr>lh_block := f\<rparr>) = cur_pid s" "cur_pid (t\<lparr>lh_block := f\<rparr>) = cur_pid t"
    by (simp_all add: cur_pid_def)
  then show "cache_only (s\<lparr>lh_n := n\<rparr>) (t\<lparr>lh_n := n\<rparr>)" "cache_only (s\<lparr>lh_block := f\<rparr>) (t\<lparr>lh_block := f\<rparr>)"
    using p unfolding cache_only_def t by (intro conjI exI [of _ bs] exI [of _ lr] exI [of _ md] exI [of _ dw]
      exI [of _ ps] exI [of _ lk] exI [of _ c], simp_all)+
qed

text \<open>The log block that goes with entry \<open>k\<close>.\<close>

definition log_block :: "'a lstate_scheme \<Rightarrow> nat \<Rightarrow> u32" where
  "log_block s k = log_start s + of_nat k + 1"

text \<open>
  The entries of the header: on the disk, outside the log, each block once, at most
  \<open>LOGSIZE\<close> of them.
\<close>

definition log_wf :: "'a lstate_scheme \<Rightarrow> bool" where
  "log_wf s \<longleftrightarrow> log_dev s = 1 \<and> 0 \<le> lh_n s \<and> lh_n s \<le> LOGSIZE \<and>
     unat (log_start s) + nat (lh_n s) < unat (disksize s) \<and>
     inj_on (lh_block s) {0 ..< nat (lh_n s)} \<and>
     (\<forall>k < nat (lh_n s). lh_block s k < disksize s \<and>
        (unat (lh_block s k) < unat (log_start s) \<or> unat (log_start s) + nat (lh_n s) < unat (lh_block s k)))"

definition homes :: "'a lstate_scheme \<Rightarrow> u32 set" where
  "homes s = lh_block s ` {0 ..< nat (lh_n s)}"

lemma unat_log_block:
  assumes "log_wf s" "k < nat (lh_n s)"
  shows "unat (log_block s k) = unat (log_start s) + 1 + k" "log_block s k < disksize s"
proof -
  have b: "unat (log_start s) + 1 + k < unat (disksize s)" using assms by (simp add: log_wf_def)
  moreover have "unat (disksize s) < 2 ^ 32" by (rule order_less_le_trans [OF unsigned_less]) simp
  ultimately have "unat (log_start s) + 1 + k < 2 ^ 32" by (rule order_less_trans)
  moreover have "log_block s k = of_nat (unat (log_start s) + 1 + k)" by (simp add: log_block_def)
  ultimately show u: "unat (log_block s k) = unat (log_start s) + 1 + k"
    by (intro of_nat_inverse) simp_all
  show "log_block s k < disksize s" using b u by (simp add: word_less_nat_alt)
qed

lemma log_wf_homes:
  assumes "log_wf s" "j < nat (lh_n s)" "k < nat (lh_n s)"
  shows "lh_block s j \<noteq> log_block s k" "lh_block s j \<noteq> log_start s" "log_block s k \<noteq> log_start s"
    "log_block s j = log_block s k \<longleftrightarrow> j = k" "lh_block s j = lh_block s k \<longleftrightarrow> j = k"
    "lh_block s j < disksize s"
proof -
  note u = unat_log_block(1) [OF assms(1,2)] unat_log_block(1) [OF assms(1,3)]
  have o: "unat (lh_block s j) < unat (log_start s) \<or> unat (log_start s) + nat (lh_n s) < unat (lh_block s j)"
    using assms(1,2) by (simp add: log_wf_def)
  have ne: "x \<noteq> y" if "unat x \<noteq> unat y" for x y :: u32 using that by blast
  show "lh_block s j \<noteq> log_block s k" by (rule ne) (use o u(2) assms(3) in linarith)
  show "lh_block s j \<noteq> log_start s" by (rule ne) (use o in linarith)
  show "log_block s k \<noteq> log_start s" by (rule ne) (use u(2) in linarith)
  show "log_block s j = log_block s k \<longleftrightarrow> j = k"
  proof
    assume "log_block s j = log_block s k"
    then have "unat (log_block s j) = unat (log_block s k)" by (rule arg_cong)
    then show "j = k" unfolding u by simp
  qed simp
  show "lh_block s j = lh_block s k \<longleftrightarrow> j = k" "lh_block s j < disksize s"
    using assms by (auto simp: log_wf_def inj_on_def)
qed

lemma log_wf_cong: "cache_only s t \<Longrightarrow> log_wf t = log_wf s \<and> homes t = homes s \<and> log_block t = log_block s"
  by (simp add: log_wf_def homes_def log_block_def fun_eq_iff)

text \<open>
  Room in the cache: a copy needs two buffers, of which one is already taken when the home
  block is pinned.
\<close>

definition buf_room :: "u32 set \<Rightarrow> 'a bstate_scheme \<Rightarrow> bool" where
  "buf_room H s \<longleftrightarrow> card (bio_dirty s) + 1 < NBUF \<or> card (bio_dirty s) < NBUF \<and> H \<subseteq> bio_dirty s"

lemma room_step:
  assumes "buf_room H s" "bio_dirty t = bio_dirty s - {b}" "H' \<subseteq> H - {b}" shows "buf_room H' t"
proof -
  have "card (bio_dirty t) \<le> card (bio_dirty s)" unfolding assms(2) by (rule card_Diff1_le)
  then show ?thesis using assms by (auto simp: buf_room_def)
qed

lemma write_log_copies:
  assumes "bio_idle s" "log_wf s" "set ks \<subseteq> {0 ..< nat (lh_n s)}" "buf_room (homes s) s"
  shows "\<exists>u. write_log_from ks s = Ok u \<and> blk_copies (map (\<lambda>k. (lh_block s k, log_block s k)) ks) s u"
  using assms
proof (induction ks arbitrary: s)
  case Nil
  then show ?case by (simp add: copies_Nil)
next
  case (Cons k ks)
  have k: "k < nat (lh_n s)" using Cons.prems(3) by simp
  note h = log_wf_homes [OF Cons.prems(2) k k]
  have hk: "lh_block s k \<in> homes s" using k by (auto simp: homes_def)
  have rm: "card (bio_dirty s) + 1 < NBUF \<or> card (bio_dirty s) < NBUF \<and> (log_block s k \<in> bio_dirty s \<or> lh_block s k \<in> bio_dirty s)"
    using Cons.prems(4) hk by (auto simp: buf_room_def)
  obtain i j s1 s2 where r: "bread 1 (log_block s k) s = Ok (i, s1)" "bread 1 (lh_block s k) s1 = Ok (j, s2)" "i \<noteq> j"
    "bio_ok s2" "in_process s2" "buf_mine s2 i (log_block s k)" "buf_mine s2 j (lh_block s k)" "cache_only s s2" "blk_view s2 = blk_view s"
    "memdisk s2 = memdisk s" "disk_writes s2 = disk_writes s" "bio_dirty s2 = bio_dirty s"
    "b_data (bufs s2 ! i) = blk_view s (log_block s k)" "b_data (bufs s2 ! j) = blk_view s (lh_block s k)"
    "b_dirty (bufs s2 ! i) \<longleftrightarrow> log_block s k \<in> bio_dirty s" "b_dirty (bufs s2 ! j) \<longleftrightarrow> lh_block s k \<in> bio_dirty s"
    "log_block s k \<notin> bio_dirty s \<longrightarrow> blk_view s (log_block s k) = memdisk s (unat (log_block s k))"
    "lh_block s k \<notin> bio_dirty s \<longrightarrow> blk_view s (lh_block s k) = memdisk s (unat (lh_block s k))"
    "cache_only s s1" "\<forall>l < NBUF. l \<noteq> i \<longrightarrow> l \<noteq> j \<longrightarrow> \<not> buf_held s2 l"
    using two_reads [OF Cons.prems(1) h(1) [symmetric] unat_log_block(2) [OF Cons.prems(2) k] h(6) rm] .
  have c: "b_dirty (bufs s2 ! j) \<or> blk_view s2 (lh_block s k) = memdisk s2 (unat (lh_block s k))"
    using r(16,18) unfolding r(9,10) by blast
  have sz: "log_block s k < disksize s2" using unat_log_block(2) [OF Cons.prems(2) k] r(8) by simp
  have fr: "\<forall>l < NBUF. l \<noteq> j \<longrightarrow> l \<noteq> i \<longrightarrow> \<not> buf_held s2 l" using r(20) by blast
  obtain t where t: "obind (bwrite i (upd_buf i (\<lambda>b. b\<lparr>b_data := b_data (bufs s2 ! j)\<rparr>) s2)) (\<lambda>s.
      obind (brelse j s) (brelse i)) = Ok t" "blk_copied (lh_block s k) (log_block s k) s2 t"
    using copy_tail [OF r(4,5,7,6) r(3) [symmetric] h(1) sz c fr] .
  have ct: "blk_copied (lh_block s k) (log_block s k) s t"
    using t(2) cache_only_trans [OF r(8)] unfolding blk_copied_def r(9-12) by blast
  then have cs: "cache_only s t" "bio_idle t" "bio_dirty t = bio_dirty s - {log_block s k}" by (simp_all add: blk_copied_def)
  have sub: "homes t \<subseteq> homes s - {log_block s k}" using log_wf_cong [OF cs(1)] log_wf_homes(1) [OF Cons.prems(2) _ k]
    by (auto simp: homes_def)
  have e: "log_block t = log_block s" "lh_block t = lh_block s" using cs(1) by (simp_all add: log_wf_cong)
  have "\<exists>u. write_log_from ks t = Ok u \<and> blk_copies (map (\<lambda>k. (lh_block t k, log_block t k)) ks) t u"
    using Cons.prems(2,3) cs(1) by (intro Cons.IH [OF cs(2) _ _ room_step [OF Cons.prems(4) cs(3) sub]]) (simp_all add: log_wf_cong)
  then obtain u where u: "write_log_from ks t = Ok u" "blk_copies (map (\<lambda>k. (lh_block s k, log_block s k)) ks) t u"
    unfolding e by (elim exE conjE)
  have dev: "log_dev s = 1" "log_dev s1 = 1" "lh_block s1 = lh_block s"
    using Cons.prems(2) r(19) by (simp_all add: log_wf_def)
  have "write_log_from (k # ks) s = obind (obind (bwrite i (upd_buf i (\<lambda>b. b\<lparr>b_data := b_data (bufs s2 ! j)\<rparr>) s2)) (\<lambda>s.
      obind (brelse j s) (brelse i))) (write_log_from ks)"
    using r(1,2) by (simp add: dev log_block_def Let_def obind_assoc)
  then have "write_log_from (k # ks) s = Ok u" unfolding t(1) using u(1) by simp
  moreover have "blk_copies (map (\<lambda>k. (lh_block s k, log_block s k)) (k # ks)) s u"
    using copies_Cons [OF ct u(2)] by simp
  ultimately show ?case by blast
qed

lemma install_copies:
  assumes "bio_idle s" "log_wf s" "set ks \<subseteq> {0 ..< nat (lh_n s)}" "distinct ks" "buf_room (lh_block s ` set ks) s"
  shows "\<exists>u. install_from ks s = Ok u \<and> blk_copies (map (\<lambda>k. (log_block s k, lh_block s k)) ks) s u"
  using assms
proof (induction ks arbitrary: s)
  case Nil
  then show ?case by (simp add: copies_Nil)
next
  case (Cons k ks)
  have k: "k < nat (lh_n s)" using Cons.prems(3) by simp
  note h = log_wf_homes [OF Cons.prems(2) k k]
  have rm: "card (bio_dirty s) + 1 < NBUF \<or> card (bio_dirty s) < NBUF \<and> (log_block s k \<in> bio_dirty s \<or> lh_block s k \<in> bio_dirty s)"
    using Cons.prems(5) by (auto simp: buf_room_def)
  obtain i j s1 s2 where r: "bread 1 (log_block s k) s = Ok (i, s1)" "bread 1 (lh_block s k) s1 = Ok (j, s2)" "i \<noteq> j"
    "bio_ok s2" "in_process s2" "buf_mine s2 i (log_block s k)" "buf_mine s2 j (lh_block s k)" "cache_only s s2" "blk_view s2 = blk_view s"
    "memdisk s2 = memdisk s" "disk_writes s2 = disk_writes s" "bio_dirty s2 = bio_dirty s"
    "b_data (bufs s2 ! i) = blk_view s (log_block s k)" "b_data (bufs s2 ! j) = blk_view s (lh_block s k)"
    "b_dirty (bufs s2 ! i) \<longleftrightarrow> log_block s k \<in> bio_dirty s" "b_dirty (bufs s2 ! j) \<longleftrightarrow> lh_block s k \<in> bio_dirty s"
    "log_block s k \<notin> bio_dirty s \<longrightarrow> blk_view s (log_block s k) = memdisk s (unat (log_block s k))"
    "lh_block s k \<notin> bio_dirty s \<longrightarrow> blk_view s (lh_block s k) = memdisk s (unat (lh_block s k))"
    "cache_only s s1" "\<forall>l < NBUF. l \<noteq> i \<longrightarrow> l \<noteq> j \<longrightarrow> \<not> buf_held s2 l"
    using two_reads [OF Cons.prems(1) h(1) [symmetric] unat_log_block(2) [OF Cons.prems(2) k] h(6) rm] .
  have c: "b_dirty (bufs s2 ! i) \<or> blk_view s2 (log_block s k) = memdisk s2 (unat (log_block s k))"
    using r(15,17) unfolding r(9,10) by blast
  have sz: "lh_block s k < disksize s2" using h(6) r(8) by simp
  obtain t where t: "obind (bwrite j (upd_buf j (\<lambda>b. b\<lparr>b_data := b_data (bufs s2 ! i)\<rparr>) s2)) (\<lambda>s.
      obind (brelse i s) (brelse j)) = Ok t" "blk_copied (log_block s k) (lh_block s k) s2 t"
    using copy_tail [OF r(4-7,3) h(1) [symmetric] sz c r(20)] .
  have ct: "blk_copied (log_block s k) (lh_block s k) s t"
    using t(2) cache_only_trans [OF r(8)] unfolding blk_copied_def r(9-12) by blast
  then have cs: "cache_only s t" "bio_idle t" "bio_dirty t = bio_dirty s - {lh_block s k}" by (simp_all add: blk_copied_def)
  have e: "log_block t = log_block s" "lh_block t = lh_block s" using cs(1) by (simp_all add: log_wf_cong)
  have sub: "lh_block t ` set ks \<subseteq> lh_block s ` set (k # ks) - {lh_block s k}"
    using Cons.prems(3,4) log_wf_homes(5) [OF Cons.prems(2) _ k] unfolding e by auto
  have "\<exists>u. install_from ks t = Ok u \<and> blk_copies (map (\<lambda>k. (log_block t k, lh_block t k)) ks) t u"
    using Cons.prems(2,3,4) cs(1) by (intro Cons.IH [OF cs(2) _ _ _ room_step [OF Cons.prems(5) cs(3) sub]]) (simp_all add: log_wf_cong)
  then obtain u where u: "install_from ks t = Ok u" "blk_copies (map (\<lambda>k. (log_block s k, lh_block s k)) ks) t u"
    unfolding e by (elim exE conjE)
  have dev: "log_dev s = 1" "log_dev s1 = 1" "lh_block s1 = lh_block s"
    using Cons.prems(2) r(19) by (simp_all add: log_wf_def)
  have "install_from (k # ks) s = obind (obind (bwrite j (upd_buf j (\<lambda>b. b\<lparr>b_data := b_data (bufs s2 ! i)\<rparr>) s2)) (\<lambda>s.
      obind (brelse i s) (brelse j))) (install_from ks)"
    using r(1,2) by (simp add: dev log_block_def Let_def obind_assoc)
  then have "install_from (k # ks) s = Ok u" unfolding t(1) using u(1) by simp
  moreover have "blk_copies (map (\<lambda>k. (log_block s k, lh_block s k)) (k # ks)) s u"
    using copies_Cons [OF ct u(2)] by simp
  ultimately show ?case by blast
qed

section \<open>The header\<close>

lemma write_head_ok:
  assumes s: "bio_idle s" and d: "log_dev s = 1" "log_start s < disksize s" and rm: "card (bio_dirty s) < NBUF"
  defines "D \<equiv> head_block (lh_n s) (lh_block s) (blk_view s (log_start s))"
  obtains s' where "write_head s = Ok s'" "bio_idle s'" "cache_only s s'" "blk_view s' = (blk_view s)(log_start s := D)"
    "memdisk s' = (memdisk s)(unat (log_start s) := D)" "disk_writes s' = disk_writes s @ [(unat (log_start s), D)]"
    "bio_dirty s' = bio_dirty s - {log_start s}"
proof -
  have rm': "card (bio_dirty s) < NBUF \<or> log_start s \<in> bio_dirty s" using rm by blast
  have ok: "bio_ok s" "in_process s" using s by (auto simp: bio_idle_def)
  obtain i s1 where r: "bread 1 (log_start s) s = Ok (i, s1)" "read_ok s (log_start s) i s1"
    using bread_idle [OF s d(2) rm'] .
  note R = read_okD [OF ok(1) r(2) ok(2)]
  have u: "upd_buf i (\<lambda>b. b\<lparr>b_data := head_block (lh_n s) (lh_block s) (b_data b)\<rparr>) s1 = upd_buf i (\<lambda>b. b\<lparr>b_data := D\<rparr>) s1"
    by (simp add: upd_buf_def D_def R(9))
  have "write_head s = write_block (log_start s) D s"
    using r(1) R(4) u by (simp add: write_head_def write_block_def d Let_def)
  then show thesis using write_block_ok [OF s d(2) rm', of D thesis] that by metis
qed

lemma log_fields_bio [simp]:
  "bio_ok (s\<lparr>lh_n := n\<rparr>) = bio_ok s" "bio_ok (s\<lparr>lh_block := f\<rparr>) = bio_ok s"
  "in_process (s\<lparr>lh_n := n\<rparr>) = in_process s" "in_process (s\<lparr>lh_block := f\<rparr>) = in_process s"
  "buf_held (s\<lparr>lh_n := n\<rparr>) = buf_held s" "buf_held (s\<lparr>lh_block := f\<rparr>) = buf_held s"
  "blk_view (s\<lparr>lh_n := n\<rparr>) = blk_view s" "blk_view (s\<lparr>lh_block := f\<rparr>) = blk_view s"
  "bio_dirty (s\<lparr>lh_n := n\<rparr>) = bio_dirty s" "bio_dirty (s\<lparr>lh_block := f\<rparr>) = bio_dirty s"
  "buf_mine (s\<lparr>lh_n := n\<rparr>) = buf_mine s" "buf_mine (s\<lparr>lh_block := f\<rparr>) = buf_mine s"
  "bio_idle (s\<lparr>lh_n := n\<rparr>) = bio_idle s" "bio_idle (s\<lparr>lh_block := f\<rparr>) = bio_idle s"
  by (simp_all add: bio_ok_def in_process_def quiet_def buf_held_def has_blk_def blk_view_def bio_dirty_def buf_mine_def
      holdingsleep_def cur_pid_def fun_eq_iff bio_idle_def cong: option.case_cong)

section \<open>Committing\<close>

text \<open>The disk writes of a commit: the log, the header, the home blocks, the empty header.\<close>

definition log_data :: "'a lstate_scheme \<Rightarrow> (nat \<times> block) list" where
  "log_data s = map (\<lambda>k. (unat (log_start s) + 1 + k, blk_view s (lh_block s k))) [0 ..< nat (lh_n s)]"

definition home_data :: "'a lstate_scheme \<Rightarrow> (nat \<times> block) list" where
  "home_data s = map (\<lambda>k. (unat (lh_block s k), blk_view s (lh_block s k))) [0 ..< nat (lh_n s)]"

definition full_head :: "'a lstate_scheme \<Rightarrow> block" where
  "full_head s = head_block (lh_n s) (lh_block s) (blk_view s (log_start s))"

definition commit_writes :: "'a lstate_scheme \<Rightarrow> (nat \<times> block) list" where
  "commit_writes s = log_data s @ [(unat (log_start s), full_head s)] @ home_data s @
     [(unat (log_start s), head_block 0 (lh_block s) (full_head s))]"

text \<open>Ready to commit: the blocks of the header are the pinned ones, and one buffer is left.\<close>

definition log_ready :: "'a lstate_scheme \<Rightarrow> bool" where
  "log_ready s \<longleftrightarrow> bio_idle s \<and> log_wf s \<and> bio_dirty s = homes s \<and> lh_n s < LOGSIZE"

lemma card_homes: "log_wf s \<Longrightarrow> card (homes s) = nat (lh_n s)"
  by (simp add: homes_def log_wf_def card_image)

lemma log_ready_room: "log_ready s \<Longrightarrow> buf_room (homes s) s \<and> card (bio_dirty s) < NBUF"
proof -
  assume s: "log_ready s"
  then have "card (bio_dirty s) = nat (lh_n s)" using card_homes [of s] by (simp add: log_ready_def)
  moreover have "lh_n s < LOGSIZE" using s by (simp add: log_ready_def)
  then have "nat (lh_n s) < NBUF" by linarith
  ultimately have "card (bio_dirty s) < NBUF" by simp
  then show ?thesis using s by (simp add: log_ready_def buf_room_def)
qed

lemma copy_writes_log:
  assumes "log_wf s"
  shows "copy_writes v (map (\<lambda>k. (lh_block s k, log_block s k)) [0 ..< nat (lh_n s)]) =
     map (\<lambda>k. (unat (log_start s) + 1 + k, v (lh_block s k))) [0 ..< nat (lh_n s)]"
  using unat_log_block(1) [OF assms] by (simp add: copy_writes_def)

lemma log_pairs:
  assumes "log_wf s"
  shows "lh_block s ` {0 ..< nat (lh_n s)} \<inter> log_block s ` {0 ..< nat (lh_n s)} = {}"
    "distinct (map (log_block s) [0 ..< nat (lh_n s)])" "distinct (map (lh_block s) [0 ..< nat (lh_n s)])"
    "log_start s \<notin> lh_block s ` {0 ..< nat (lh_n s)}" "log_start s \<notin> log_block s ` {0 ..< nat (lh_n s)}"
proof -
  note h = log_wf_homes [OF assms]
  show "lh_block s ` {0 ..< nat (lh_n s)} \<inter> log_block s ` {0 ..< nat (lh_n s)} = {}" using h(1) by auto
  show "distinct (map (log_block s) [0 ..< nat (lh_n s)])" using h(4) by (auto simp: distinct_map inj_on_def)
  show "distinct (map (lh_block s) [0 ..< nat (lh_n s)])" using h(5) by (auto simp: distinct_map inj_on_def)
  show "log_start s \<notin> lh_block s ` {0 ..< nat (lh_n s)}" using h(2) by (metis imageE atLeastLessThan_iff)
  show "log_start s \<notin> log_block s ` {0 ..< nat (lh_n s)}" using h(3) by (metis imageE atLeastLessThan_iff)
qed

lemma write_log_ok:
  assumes "log_ready s"
  obtains u where "write_log s = Ok u" "bio_idle u" "cache_only s u" "bio_dirty u = homes s"
    "disk_writes u = disk_writes s @ log_data s" "memdisk u = apply_writes (memdisk s) (log_data s)"
    "\<forall>k < nat (lh_n s). blk_view u (log_block s k) = blk_view s (lh_block s k)"
    "\<forall>m. m \<notin> log_block s ` {0 ..< nat (lh_n s)} \<longrightarrow> blk_view u m = blk_view s m"
proof -
  have s: "bio_idle s" "log_wf s" "bio_dirty s = homes s" using assms by (simp_all add: log_ready_def)
  let ?ps = "map (\<lambda>k. (lh_block s k, log_block s k)) [0 ..< nat (lh_n s)]"
  obtain u where u: "write_log s = Ok u" "blk_copies ?ps s u"
    using write_log_copies [OF s(1,2), of "[0 ..< nat (lh_n s)]"] log_ready_room [OF assms]
    by (auto simp: write_log_def)
  have d: "fst ` set ?ps \<inter> snd ` set ?ps = {}" using log_pairs(1) [OF s(2)] by (simp add: image_image)
  have di: "distinct (map snd ?ps)" using log_pairs(2) [OF s(2)] by (simp add: comp_def)
  have sn: "snd ` set ?ps = log_block s ` {0 ..< nat (lh_n s)}" by (simp add: image_image)
  have w: "copy_writes (blk_view s) ?ps = log_data s" using copy_writes_log [OF s(2)] by (simp add: log_data_def)
  note c = copies_result [OF u(2) s(1) d, unfolded w sn]
  have "bio_dirty u = homes s" using c log_pairs(1) [OF s(2)] s(3) unfolding homes_def by auto
  moreover have "\<forall>k < nat (lh_n s). blk_view u (log_block s k) = blk_view s (lh_block s k)"
    using copies_view [OF u(2) s(1) d di] by auto
  ultimately show thesis using that [OF u(1)] c by blast
qed

lemma install_trans_ok:
  assumes s: "bio_idle s" "log_wf s" and rm: "buf_room (homes s) s"
  obtains u where "install_trans s = Ok u" "bio_idle u" "cache_only s u" "bio_dirty u = bio_dirty s - homes s"
    "disk_writes u = disk_writes s @ map (\<lambda>k. (unat (lh_block s k), blk_view s (log_block s k))) [0 ..< nat (lh_n s)]"
    "memdisk u = apply_writes (memdisk s) (map (\<lambda>k. (unat (lh_block s k), blk_view s (log_block s k))) [0 ..< nat (lh_n s)])"
    "\<forall>k < nat (lh_n s). blk_view u (lh_block s k) = blk_view s (log_block s k)"
    "\<forall>m. m \<notin> homes s \<longrightarrow> blk_view u m = blk_view s m"
proof -
  let ?ps = "map (\<lambda>k. (log_block s k, lh_block s k)) [0 ..< nat (lh_n s)]"
  obtain u where u: "install_trans s = Ok u" "blk_copies ?ps s u"
    using install_copies [OF s, of "[0 ..< nat (lh_n s)]"] rm by (auto simp: install_trans_def homes_def)
  have d: "fst ` set ?ps \<inter> snd ` set ?ps = {}" using log_pairs(1) [OF s(2)] by (simp add: image_image Int_commute)
  have di: "distinct (map snd ?ps)" using log_pairs(3) [OF s(2)] by (simp add: comp_def)
  have sn: "snd ` set ?ps = homes s" by (simp add: image_image homes_def)
  have w: "copy_writes (blk_view s) ?ps = map (\<lambda>k. (unat (lh_block s k), blk_view s (log_block s k))) [0 ..< nat (lh_n s)]"
    by (simp add: copy_writes_def)
  note c = copies_result [OF u(2) s(1) d, unfolded w sn]
  have "\<forall>k < nat (lh_n s). blk_view u (lh_block s k) = blk_view s (log_block s k)"
    using copies_view [OF u(2) s(1) d di] by auto
  then show thesis using that [OF u(1)] c by blast
qed

lemma commit_ok:
  assumes r: "log_ready s" and n: "0 < lh_n s"
  obtains s' where "commit s = Ok s'" "bio_idle s'" "cache_only (s\<lparr>lh_n := 0\<rparr>) s'" "bio_dirty s' = {}"
    "disk_writes s' = disk_writes s @ commit_writes s" "memdisk s' = apply_writes (memdisk s) (commit_writes s)"
    "\<forall>m. m \<notin> log_block s ` {0 ..< nat (lh_n s)} \<longrightarrow> m \<noteq> log_start s \<longrightarrow> blk_view s' m = blk_view s m"
proof -
  let ?L = "log_start s" and ?K = "{0 ..< nat (lh_n s)}"
  have wf: "log_wf s" "bio_dirty s = homes s" using r by (simp_all add: log_ready_def)
  note P = log_pairs [OF wf(1)]
  obtain u1 where u1: "write_log s = Ok u1" "bio_idle u1" "cache_only s u1" "bio_dirty u1 = homes s"
    "disk_writes u1 = disk_writes s @ log_data s" "memdisk u1 = apply_writes (memdisk s) (log_data s)"
    "\<forall>k < nat (lh_n s). blk_view u1 (log_block s k) = blk_view s (lh_block s k)"
    "\<forall>m. m \<notin> log_block s ` ?K \<longrightarrow> blk_view u1 m = blk_view s m" using write_log_ok [OF r] .
  have L1: "log_dev u1 = 1" "log_start u1 < disksize u1" "card (bio_dirty u1) < NBUF"
    using log_ready_room [OF r] wf u1(3,4) by (auto simp: log_wf_def word_less_nat_alt)
  have f1: "head_block (lh_n u1) (lh_block u1) (blk_view u1 (log_start u1)) = full_head s"
    using u1(3,8) P(5) by (simp add: full_head_def)
  obtain u2 where u2: "write_head u1 = Ok u2" "bio_idle u2" "cache_only u1 u2" "blk_view u2 = (blk_view u1)(?L := full_head s)"
    "memdisk u2 = (memdisk u1)(unat ?L := full_head s)" "disk_writes u2 = disk_writes u1 @ [(unat ?L, full_head s)]"
    "bio_dirty u2 = bio_dirty u1 - {?L}"
    using write_head_ok [OF u1(2) L1, unfolded f1] cache_only_log(1) [OF u1(3)] by metis
  have c2: "cache_only s u2" using cache_only_trans [OF u1(3) u2(3)] .
  note e2 = log_wf_cong [OF c2] cache_only_log [OF c2]
  have wf2: "log_wf u2" using e2(1) wf(1) by simp
  have d2: "bio_dirty u2 = homes s" using u2(7) u1(4) P(4) by (auto simp: homes_def)
  have rm2: "buf_room (homes u2) u2" using log_ready_room [OF r] wf(2) e2(1) d2 by (simp add: buf_room_def)
  have v2: "blk_view u2 (log_block s k) = blk_view s (lh_block s k)" if "k < nat (lh_n s)" for k
    using u1(7) that log_wf_homes(3) [OF wf(1) that that] unfolding u2(4) by simp
  then have w2: "map (\<lambda>k. (unat (lh_block u2 k), blk_view u2 (log_block u2 k))) [0 ..< nat (lh_n u2)] = home_data s"
    using e2 by (simp add: home_data_def)
  obtain u3 where u3: "install_trans u2 = Ok u3" "bio_idle u3" "cache_only u2 u3" "bio_dirty u3 = bio_dirty u2 - homes u2"
    "disk_writes u3 = disk_writes u2 @ home_data s" "memdisk u3 = apply_writes (memdisk u2) (home_data s)"
    "\<forall>k < nat (lh_n u2). blk_view u3 (lh_block u2 k) = blk_view u2 (log_block u2 k)"
    "\<forall>m. m \<notin> homes u2 \<longrightarrow> blk_view u3 m = blk_view u2 m"
    using install_trans_ok [OF u2(2) wf2 rm2, unfolded w2] .
  have c3: "cache_only s u3" using cache_only_trans [OF c2 u3(3)] .
  note e3 = log_wf_cong [OF c3] cache_only_log [OF c3]
  have d3: "bio_dirty u3 = {}" using u3(4) d2 e2(1) by simp
  let ?t = "u3\<lparr>lh_n := 0\<rparr>"
  have L3: "bio_idle ?t" "log_dev ?t = 1" "log_start ?t < disksize ?t" "card (bio_dirty ?t) < NBUF"
    using u3(2) wf c3 d3 by (auto simp: log_wf_def word_less_nat_alt)
  have h3: "blk_view u3 ?L = full_head s" using u3(8) P(4) e2(1) u2(4) by (simp add: homes_def)
  then have f3: "head_block (lh_n ?t) (lh_block ?t) (blk_view ?t (log_start ?t)) = head_block 0 (lh_block s) (full_head s)"
    using e3 by simp
  obtain u4 where u4: "write_head ?t = Ok u4" "bio_idle u4" "cache_only ?t u4"
    "blk_view u4 = (blk_view u3)(?L := head_block 0 (lh_block s) (full_head s))"
    "memdisk u4 = (memdisk u3)(unat ?L := head_block 0 (lh_block s) (full_head s))"
    "disk_writes u4 = disk_writes u3 @ [(unat ?L, head_block 0 (lh_block s) (full_head s))]"
    "bio_dirty u4 = bio_dirty u3 - {?L}"
    using write_head_ok [OF L3, unfolded f3] e3(2) by auto
  have e: "commit s = Ok u4" using n u1(1) u2(1) u3(1) u4(1) by (simp add: commit_def)
  have "cache_only (s\<lparr>lh_n := 0\<rparr>) ?t" using c3 by (rule cache_only_lh_n)
  then have c4: "cache_only (s\<lparr>lh_n := 0\<rparr>) u4" using u4(3) by (rule cache_only_trans)
  have "blk_view u4 m = blk_view s m" if "m \<notin> log_block s ` ?K" "m \<noteq> ?L" for m
  proof (cases "m \<in> homes s")
    case True
    then obtain k where "k < nat (lh_n s)" "m = lh_block s k" by (auto simp: homes_def)
    then show ?thesis using u4(4) u3(7) v2 that(2) e2 by simp
  next
    case False
    then show ?thesis using u4(4) u3(8) u2(4) u1(8) that e2(1) by simp
  qed
  then show thesis
    using that [OF e u4(2) c4] u4(5,6,7) u3(5,6) u2(5,6) u1(5,6) d3 by (simp add: commit_writes_def)
qed

section \<open>Recovering\<close>

text \<open>The in-memory header after the one on the disk has been read.\<close>

definition loaded :: "'a lstate_scheme \<Rightarrow> 'a lstate_scheme" where
  "loaded s = (let h = memdisk s (unat (log_start s)); n = sint (get32 h 0)
     in s\<lparr>lh_n := n, lh_block := (\<lambda>k. if int k < n then get32 h (4 + 4 * k) else lh_block s k)\<rparr>)"

definition booted :: "'a lstate_scheme \<Rightarrow> bool" where
  "booted s \<longleftrightarrow> bio_idle s \<and> bio_dirty s = {} \<and> log_dev s = 1 \<and> log_start s < disksize s"

lemma read_head_ok:
  assumes s: "booted s"
  obtains s' where "read_head s = Ok s'" "bio_idle s'" "bio_dirty s' = {}" "cache_only (loaded s) s'"
    "memdisk s' = memdisk s" "disk_writes s' = disk_writes s" "blk_view s' = blk_view s"
proof -
  let ?L = "log_start s"
  have i0: "bio_idle s" "?L < disksize s" "card (bio_dirty s) < NBUF \<or> ?L \<in> bio_dirty s" and d: "log_dev s = 1" "bio_dirty s = {}"
    using s by (simp_all add: booted_def)
  have ok: "bio_ok s" "in_process s" using i0(1) by (auto simp: bio_idle_def)
  obtain i s1 where r: "bread 1 ?L s = Ok (i, s1)" "read_ok s ?L i s1" and h: "\<forall>k < NBUF. k \<noteq> i \<longrightarrow> \<not> buf_held s1 k"
    using bread_idle [OF i0] .
  note R = read_okD [OF ok(1) r(2) ok(2)]
  have dat: "b_data (bufs s1 ! i) = memdisk s (unat ?L)" using R(9) idle_clean [OF i0(1)] d(2) by simp
  let ?n = "sint (get32 (memdisk s (unat ?L)) 0)"
  define f where "f = (\<lambda>k. if int k < ?n then get32 (memdisk s (unat ?L)) (4 + 4 * k) else lh_block s k)"
  define t where "t = s1\<lparr>lh_n := ?n, lh_block := f\<rparr>"
  have fields: "blk_view t = blk_view s1" "bio_dirty t = bio_dirty s1" "memdisk t = memdisk s1" "disk_writes t = disk_writes s1"
    "bufs t = bufs s1" by (simp_all add: t_def)
  have T: "bio_ok t" "in_process t" "buf_mine t i ?L" using R(1-3) by (simp_all add: t_def)
  have c: "b_dirty (bufs t ! i) \<or> blk_view t ?L = memdisk t (unat ?L)" using R(5,6,10,14) fields by auto
  obtain s2 where s2: "brelse i t = Ok s2" "bio_ok s2" "in_process s2" "cache_only t s2"
    "memdisk s2 = memdisk t" "disk_writes s2 = disk_writes t" "blk_view s2 = blk_view t" "bio_dirty s2 = bio_dirty t"
    "\<not> buf_held s2 i" "\<forall>k. k \<noteq> i \<longrightarrow> bufs s2 ! k = bufs t ! k" "\<forall>k m. k \<noteq> i \<longrightarrow> buf_mine t k m \<longrightarrow> buf_mine s2 k m"
    using brelse_idle [OF T c] .
  have "\<not> buf_held s2 k" if "k < NBUF" for k
    using that h s2(9,10) fields by (cases "k = i") (auto simp: buf_held_def)
  then have i2: "bio_idle s2" using s2(2,3) by (simp add: bio_idle_def)
  have f': "f = (\<lambda>k. if int k < ?n then get32 (memdisk s (unat ?L)) (4 + 4 * k) else lh_block s1 k)"
    unfolding cache_only_log(7) [OF R(4)] f_def ..
  have e: "read_head s = Ok s2"
    unfolding read_head_def d(1) r(1) obind.simps prod.case Let_def dat f' [symmetric] t_def [symmetric] s2(1) ..
  have "t = s1\<lparr>lh_n := ?n\<rparr>\<lparr>lh_block := f\<rparr>" "loaded s = s\<lparr>lh_n := ?n\<rparr>\<lparr>lh_block := f\<rparr>"
    by (simp_all add: t_def loaded_def f_def Let_def)
  then have "cache_only (loaded s) t" using cache_only_lh_block [OF cache_only_lh_n [OF R(4)]] by simp
  then have c2: "cache_only (loaded s) s2" using s2(4) by (rule cache_only_trans)
  show thesis by (rule that [OF e i2 _ c2]) (simp_all add: s2 fields R d(2))
qed

lemma recover_ok:
  assumes s: "booted s" and wf: "log_wf (loaded s)"
  defines "h \<equiv> memdisk s (unat (log_start s))"
  obtains s' where "recover_from_log s = Ok s'" "bio_idle s'" "bio_dirty s' = {}" "lh_n s' = 0"
    "memdisk s' = apply_writes (memdisk s)
       (map (\<lambda>k. (unat (lh_block (loaded s) k), memdisk s (unat (log_start s) + 1 + k))) [0 ..< nat (sint (get32 h 0))] @
        [(unat (log_start s), head_block 0 (lh_block (loaded s)) h)])"
proof -
  let ?l = "loaded s" and ?L = "log_start s"
  have l: "lh_n ?l = sint (get32 h 0)" "log_start ?l = ?L" "disksize ?l = disksize s" "log_dev ?l = log_dev s"
    by (simp_all add: loaded_def h_def Let_def)
  obtain t where t: "read_head s = Ok t" "bio_idle t" "bio_dirty t = {}" "cache_only ?l t" "memdisk t = memdisk s"
    "disk_writes t = disk_writes s" "blk_view t = blk_view s" using read_head_ok [OF s] .
  note e = log_wf_cong [OF t(4)] cache_only_log [OF t(4)]
  have wft: "log_wf t" and rm: "buf_room (homes t) t" using e wf t(3) by (simp_all add: buf_room_def)
  have v: "blk_view t m = memdisk s (unat m)" for m using idle_clean [OF t(2)] t(3,5) by simp
  have w: "map (\<lambda>k. (unat (lh_block t k), blk_view t (log_block t k))) [0 ..< nat (lh_n t)] =
      map (\<lambda>k. (unat (lh_block ?l k), memdisk s (unat ?L + 1 + k))) [0 ..< nat (sint (get32 h 0))]"
    unfolding v using unat_log_block(1) [OF wf] e l by simp
  obtain u where u: "install_trans t = Ok u" "bio_idle u" "cache_only t u" "bio_dirty u = bio_dirty t - homes t"
    "disk_writes u = disk_writes t @ map (\<lambda>k. (unat (lh_block t k), blk_view t (log_block t k))) [0 ..< nat (lh_n t)]"
    "memdisk u = apply_writes (memdisk t) (map (\<lambda>k. (unat (lh_block t k), blk_view t (log_block t k))) [0 ..< nat (lh_n t)])"
    "\<forall>k < nat (lh_n t). blk_view u (lh_block t k) = blk_view t (log_block t k)"
    "\<forall>m. m \<notin> homes t \<longrightarrow> blk_view u m = blk_view t m"
    using install_trans_ok [OF t(2) wft rm] .
  have cu: "cache_only ?l u" using t(4) u(3) by (rule cache_only_trans)
  note eu = cache_only_log [OF cu]
  let ?u = "u\<lparr>lh_n := 0\<rparr>"
  have L: "bio_idle ?u" "log_dev ?u = 1" "log_start ?u < disksize ?u" "card (bio_dirty ?u) < NBUF"
    using s u(2,4) t(3) eu cu l by (simp_all add: booted_def)
  have "?L \<notin> homes t" using log_pairs(4) [OF wft] e l by (simp add: homes_def)
  then have "blk_view u ?L = h" using u(8) v by (simp add: h_def)
  then have f: "head_block (lh_n ?u) (lh_block ?u) (blk_view ?u (log_start ?u)) = head_block 0 (lh_block ?l) h"
    using eu l by simp
  obtain x where x: "write_head ?u = Ok x" "bio_idle x" "cache_only ?u x"
    "memdisk x = (memdisk ?u)(unat (log_start ?u) := head_block 0 (lh_block ?l) h)" "bio_dirty x = bio_dirty ?u - {log_start ?u}"
    using write_head_ok [OF L, unfolded f] by metis
  have r: "recover_from_log s = Ok x" by (simp add: recover_from_log_def t(1) u(1) x(1))
  have n: "lh_n x = 0" using cache_only_log(6) [OF x(3)] by simp
  show thesis
    by (rule that [OF r x(2) _ n]) (use x(4,5) u(4,6) t(3,5) w eu l in simp_all)
qed

section \<open>Crashes\<close>

lemma apply_writes_cong: "d m = d' m \<Longrightarrow> apply_writes d ws m = apply_writes d' ws m"
proof (induction ws arbitrary: d d')
  case (Cons w ws)
  obtain a b where w: "w = (a, b)" by (cases w)
  have "(d(a := b)) m = (d'(a := b)) m" using Cons.prems by simp
  then show ?case unfolding w apply_writes_Cons by (rule Cons.IH)
qed simp

lemma apply_writes_redo:
  assumes "distinct (map fst ws)" "set vs \<subseteq> set ws"
  shows "apply_writes (apply_writes d vs) ws m = apply_writes d ws m"
proof (cases "m \<in> fst ` set ws")
  case True
  then obtain v where "(m, v) \<in> set ws" by auto
  from apply_writes_written [OF assms(1) this] show ?thesis by simp
next
  case False
  then have "m \<notin> fst ` set vs" using assms(2) by blast
  then show ?thesis using False by (simp add: apply_writes_other)
qed

definition log_area :: "'a lstate_scheme \<Rightarrow> nat set" where
  "log_area s = {unat (log_start s) .. unat (log_start s) + nat (lh_n s)}"

lemma log_data_fst: "fst ` set (log_data s) = {unat (log_start s) + 1 ..< unat (log_start s) + 1 + nat (lh_n s)}"
proof -
  have "fst ` set (log_data s) = (\<lambda>k. unat (log_start s) + 1 + k) ` {0 ..< nat (lh_n s)}"
    by (simp add: log_data_def image_image)
  then show ?thesis using image_add_atLeastLessThan [of "unat (log_start s) + 1" 0 "nat (lh_n s)"] by (simp add: add.commute add.left_commute)
qed

lemma home_data_fst:
  assumes "log_wf s"
  shows "fst ` set (home_data s) \<inter> log_area s = {}" "distinct (map fst (home_data s))"
    "fst ` set (home_data s) = unat ` homes s"
proof -
  show e: "fst ` set (home_data s) = unat ` homes s" by (simp add: home_data_def homes_def image_image)
  have o: "unat (lh_block s k) < unat (log_start s) \<or> unat (log_start s) + nat (lh_n s) < unat (lh_block s k)"
    if "k < nat (lh_n s)" for k using assms that by (simp add: log_wf_def)
  have "unat (lh_block s k) \<notin> log_area s" if "k < nat (lh_n s)" for k
    unfolding log_area_def atLeastAtMost_iff using o [OF that] by linarith
  then show "fst ` set (home_data s) \<inter> log_area s = {}"
    unfolding e homes_def by auto
  show "distinct (map fst (home_data s))"
    using log_pairs(3) [OF assms] by (simp add: home_data_def comp_def distinct_map inj_on_def word_unat_eq_iff)
qed

text \<open>The disk after a prefix of the writes of a commit.\<close>

lemma prefix_cases:
  fixes ld :: "'x list"
  assumes "length ld = n" "length hm = n" "j \<le> length (ld @ [x] @ hm @ [y])"
  obtains "j \<le> n" "take j (ld @ [x] @ hm @ [y]) = take j ld"
  | "n < j" "take j (ld @ [x] @ hm @ [y]) = ld @ [x] @ take (j - n - 1) hm"
  | "n < j" "take j (ld @ [x] @ hm @ [y]) = ld @ [x] @ hm @ [y]"
proof -
  consider "j \<le> n" | "n < j" "j \<le> 2 * n + 1" | "n < j" "j = 2 * n + 2" using assms by fastforce
  then show thesis
  proof cases
    case 1
    then show thesis using that(1) assms by simp
  next
    case 2
    then obtain i where i: "j = Suc (n + i)" using less_imp_Suc_add by blast
    then have "i \<le> n" using 2 by simp
    then have "take j (ld @ [x] @ hm @ [y]) = ld @ [x] @ take (j - n - 1) hm" using assms 2 i by simp
    with 2 show thesis using that(2) by blast
  next
    case 3
    then show thesis using that(3) assms by simp
  qed
qed

lemma recover_empty:
  assumes b: "booted b" and h: "sint (get32 (memdisk b (unat (log_start b))) 0) = 0"
  shows "\<exists>b'. recover_from_log b = Ok b' \<and> bio_idle b' \<and> bio_dirty b' = {} \<and> lh_n b' = 0 \<and>
     sint (get32 (memdisk b' (unat (log_start b))) 0) = 0 \<and>
     (\<forall>m. m \<noteq> unat (log_start b) \<longrightarrow> memdisk b' m = memdisk b m)"
proof -
  have wf: "log_wf (loaded b)" using b h by (simp add: log_wf_def loaded_def booted_def Let_def word_less_nat_alt)
  obtain b' where "recover_from_log b = Ok b'" "bio_idle b'" "bio_dirty b' = {}" "lh_n b' = 0"
    "memdisk b' = apply_writes (memdisk b)
      (map (\<lambda>k. (unat (lh_block (loaded b) k), memdisk b (unat (log_start b) + 1 + k))) [0 ..< nat 0] @
        [(unat (log_start b), head_block 0 (lh_block (loaded b)) (memdisk b (unat (log_start b))))])"
    using recover_ok [OF b wf, unfolded h] .
  then show ?thesis by (simp add: head_block_count)
qed

lemma recover_full:
  assumes s: "log_wf s" "lh_n s < LOGSIZE" and b: "booted b" "log_start b = log_start s" "disksize b = disksize s"
    and h: "memdisk b (unat (log_start s)) = full_head s"
    and l: "\<forall>k < nat (lh_n s). memdisk b (unat (log_start s) + 1 + k) = blk_view s (lh_block s k)"
  shows "\<exists>b'. recover_from_log b = Ok b' \<and> bio_idle b' \<and> bio_dirty b' = {} \<and> lh_n b' = 0 \<and>
     sint (get32 (memdisk b' (unat (log_start b))) 0) = 0 \<and>
     (\<forall>m. m \<noteq> unat (log_start b) \<longrightarrow> memdisk b' m = apply_writes (memdisk b) (home_data s) m)"
proof -
  have n: "0 \<le> lh_n s" "lh_n s \<le> LOGSIZE" using s by (simp_all add: log_wf_def)
  have "get32 (full_head s) 0 = word_of_int (lh_n s)" by (simp add: full_head_def head_block_count)
  moreover have "sint (word_of_int (lh_n s) :: u32) = lh_n s"
    using n by (simp add: signed_of_int signed_take_bit_int_eq_self)
  ultimately have c: "sint (get32 (memdisk b (unat (log_start b))) 0) = lh_n s" unfolding b(2) h by simp
  have e: "get32 (memdisk b (unat (log_start b))) (4 + 4 * k) = lh_block s k" if "k < nat (lh_n s)" for k
    unfolding b(2) h full_head_def by (rule head_block_entry) (use that in linarith)
  have lb: "lh_n (loaded b) = lh_n s" "log_start (loaded b) = log_start s" "disksize (loaded b) = disksize s" "log_dev (loaded b) = 1"
    using b(1-3) c by (simp_all add: loaded_def Let_def booted_def)
  have lk: "lh_block (loaded b) k = lh_block s k" if "k < nat (lh_n s)" for k
    using that e [OF that] c by (simp add: loaded_def Let_def zless_nat_eq_int_zless)
  have "inj_on (lh_block (loaded b)) {0 ..< nat (lh_n s)}" using s(1) lk by (auto simp: log_wf_def inj_on_def)
  then have wf: "log_wf (loaded b)" using s(1) lk by (simp add: log_wf_def lb)
  have w: "map (\<lambda>k. (unat (lh_block (loaded b) k), memdisk b (unat (log_start b) + 1 + k))) [0 ..< nat (lh_n s)] = home_data s"
    using lk l b(2) by (simp add: home_data_def)
  obtain b' where r: "recover_from_log b = Ok b'" "bio_idle b'" "bio_dirty b' = {}" "lh_n b' = 0"
    "memdisk b' = apply_writes (memdisk b) (home_data s @
        [(unat (log_start b), head_block 0 (lh_block (loaded b)) (memdisk b (unat (log_start b))))])"
    using recover_ok [OF b(1) wf, unfolded c w] .
  then show ?thesis by (simp add: head_block_count)
qed

lemma crash_recovery:
  assumes r: "log_ready s" and n: "0 < lh_n s"
    and h0: "sint (get32 (memdisk s (unat (log_start s))) 0) = 0"
    and j: "j \<le> length (commit_writes s)"
    and b: "booted b" "log_start b = log_start s" "disksize b = disksize s"
      "memdisk b = apply_writes (memdisk s) (take j (commit_writes s))"
  shows "\<exists>b'. recover_from_log b = Ok b' \<and> bio_idle b' \<and> bio_dirty b' = {} \<and> lh_n b' = 0 \<and>
     sint (get32 (memdisk b' (unat (log_start s))) 0) = 0 \<and>
     (\<forall>m. m \<notin> log_area s \<longrightarrow> memdisk b' m =
        (if j \<le> nat (lh_n s) then memdisk s m else apply_writes (memdisk s) (home_data s) m))"
proof -
  let ?L = "unat (log_start s)" and ?N = "nat (lh_n s)" and ?LD = "log_data s" and ?HD = "home_data s"
  let ?H = "full_head s" and ?E = "head_block 0 (lh_block s) (full_head s)"
  have wf: "log_wf s" "lh_n s < LOGSIZE" using r by (simp_all add: log_ready_def)
  note hd = home_data_fst [OF wf(1)]
  have LL: "?L \<notin> fst ` set ?LD" unfolding log_data_fst by simp
  have "?L \<in> log_area s" by (simp add: log_area_def)
  then have LH: "?L \<notin> fst ` set ?HD" using hd(1) by blast
  have LDa: "m \<notin> fst ` set ?LD" if "m \<notin> log_area s" for m
    using that unfolding log_data_fst log_area_def atLeastAtMost_iff atLeastLessThan_iff by linarith
  have Larea: "m \<noteq> ?L" if "m \<notin> log_area s" for m using that \<open>?L \<in> log_area s\<close> by blast
  have len: "length ?LD = ?N" "length ?HD = ?N" by (simp_all add: log_data_def home_data_def)
  have W: "commit_writes s = ?LD @ [(?L, ?H)] @ ?HD @ [(?L, ?E)]" by (rule commit_writes_def)
  show ?thesis
  proof (rule prefix_cases [OF len, of j "(?L, ?H)" "(?L, ?E)"])
    show "j \<le> length (?LD @ [(?L, ?H)] @ ?HD @ [(?L, ?E)])" using j by (simp add: commit_writes_def)
  next
    assume c: "j \<le> ?N" "take j (?LD @ [(?L, ?H)] @ ?HD @ [(?L, ?E)]) = take j ?LD"
    have d: "memdisk b m = memdisk s m" if "m \<notin> fst ` set ?LD" for m
    proof -
      have "m \<notin> fst ` set (take j ?LD)" using that by (auto dest: in_set_takeD)
      then show ?thesis unfolding b(4) [unfolded W c(2)] by (rule apply_writes_other)
    qed
    then have h: "sint (get32 (memdisk b (unat (log_start b))) 0) = 0" using h0 LL b(2) by simp
    from recover_empty [OF b(1) h] obtain b' where b': "recover_from_log b = Ok b'" "bio_idle b'" "bio_dirty b' = {}" "lh_n b' = 0"
      "sint (get32 (memdisk b' (unat (log_start b))) 0) = 0"
      "\<forall>m. m \<noteq> unat (log_start b) \<longrightarrow> memdisk b' m = memdisk b m" by blast
    have "memdisk b' m = memdisk s m" if "m \<notin> log_area s" for m
      using b'(6) Larea [OF that] b(2) d [OF LDa [OF that]] by simp
    then show ?thesis using b'(1-5) c(1) unfolding b(2) by (intro exI [of _ b']) simp
  next
    assume c: "?N < j" "take j (?LD @ [(?L, ?H)] @ ?HD @ [(?L, ?E)]) = ?LD @ [(?L, ?H)] @ take (j - ?N - 1) ?HD"
    let ?T = "take (j - ?N - 1) ?HD"
    have T: "set ?T \<subseteq> set ?HD" by (rule set_take_subset)
    then have LT: "?L \<notin> fst ` set ?T" using LH by blast
    have db: "memdisk b = apply_writes ((apply_writes (memdisk s) ?LD)(?L := ?H)) ?T"
      unfolding b(4) [unfolded W c(2)] by simp
    have h: "memdisk b ?L = ?H" unfolding db apply_writes_other [OF LT] by simp
    have l: "memdisk b (?L + 1 + k) = blk_view s (lh_block s k)" if k: "k < ?N" for k
    proof -
      have "?L + 1 + k \<in> log_area s" using k by (simp add: log_area_def)
      then have "?L + 1 + k \<notin> fst ` set ?T" using hd(1) T by blast
      then have "memdisk b (?L + 1 + k) = apply_writes (memdisk s) ?LD (?L + 1 + k)"
        unfolding db by (simp add: apply_writes_other)
      also have "\<dots> = blk_view s (lh_block s k)"
        by (rule apply_writes_written) (use k in \<open>auto simp: log_data_def comp_def distinct_map inj_on_def\<close>)
      finally show ?thesis .
    qed
    have g: "apply_writes (memdisk b) ?HD m = apply_writes (memdisk s) ?HD m" if m: "m \<notin> log_area s" for m
    proof -
      have "apply_writes (memdisk b) ?HD m = apply_writes ((apply_writes (memdisk s) ?LD)(?L := ?H)) ?HD m"
        unfolding db by (rule apply_writes_redo [OF hd(2) T])
      also have "\<dots> = apply_writes (memdisk s) ?HD m"
        by (rule apply_writes_cong) (simp add: Larea [OF m] apply_writes_other [OF LDa [OF m]])
      finally show ?thesis .
    qed
    have l': "\<forall>k < ?N. memdisk b (?L + 1 + k) = blk_view s (lh_block s k)" using l by blast
    from recover_full [OF wf b(1,2,3) h l'] obtain b' where b': "recover_from_log b = Ok b'" "bio_idle b'" "bio_dirty b' = {}" "lh_n b' = 0"
      "sint (get32 (memdisk b' (unat (log_start b))) 0) = 0"
      "\<forall>m. m \<noteq> unat (log_start b) \<longrightarrow> memdisk b' m = apply_writes (memdisk b) ?HD m" by blast
    have "memdisk b' m = apply_writes (memdisk s) ?HD m" if "m \<notin> log_area s" for m
      using b'(6) g [OF that] Larea [OF that] b(2) by simp
    then show ?thesis using b'(1-5) c(1) unfolding b(2) by (intro exI [of _ b']) simp
  next
    assume c: "?N < j" "take j (?LD @ [(?L, ?H)] @ ?HD @ [(?L, ?E)]) = ?LD @ [(?L, ?H)] @ ?HD @ [(?L, ?E)]"
    have db: "memdisk b = (apply_writes ((apply_writes (memdisk s) ?LD)(?L := ?H)) ?HD)(?L := ?E)"
      unfolding b(4) [unfolded W c(2)] by simp
    have h: "sint (get32 (memdisk b (unat (log_start b))) 0) = 0"
      unfolding db b(2) by (simp add: head_block_count)
    from recover_empty [OF b(1) h] obtain b' where b': "recover_from_log b = Ok b'" "bio_idle b'" "bio_dirty b' = {}" "lh_n b' = 0"
      "sint (get32 (memdisk b' (unat (log_start b))) 0) = 0"
      "\<forall>m. m \<noteq> unat (log_start b) \<longrightarrow> memdisk b' m = memdisk b m" by blast
    have "memdisk b' m = apply_writes (memdisk s) ?HD m" if m: "m \<notin> log_area s" for m
    proof -
      have "memdisk b' m = apply_writes ((apply_writes (memdisk s) ?LD)(?L := ?H)) ?HD m"
        using b'(6) Larea [OF m] b(2) by (simp add: db)
      also have "\<dots> = apply_writes (memdisk s) ?HD m"
        by (rule apply_writes_cong) (simp add: Larea [OF m] apply_writes_other [OF LDa [OF m]])
      finally show ?thesis .
    qed
    then show ?thesis using b'(1-5) c(1) unfolding b(2) by (intro exI [of _ b']) simp
  qed
qed

section \<open>Transactions\<close>

text \<open>Where the log lies on the disk, and the invariant of the log between operations.\<close>

definition log_region :: "'a lstate_scheme \<Rightarrow> nat set" where
  "log_region s = {unat (log_start s) ..< unat (log_start s) + nat LOGSIZE}"

definition log_inv :: "'a lstate_scheme \<Rightarrow> bool" where
  "log_inv s \<longleftrightarrow> log_dev s = 1 \<and> log_size s = LOGSIZE \<and> 0 \<le> lh_n s \<and> lh_n s < LOGSIZE \<and>
     unat (log_start s) + nat LOGSIZE \<le> unat (disksize s) \<and>
     inj_on (lh_block s) {0 ..< nat (lh_n s)} \<and>
     (\<forall>m \<in> homes s. m < disksize s \<and> unat m \<notin> log_region s) \<and> bio_dirty s = homes s"

lemma log_inv_ready:
  assumes "log_inv s" "bio_idle s" shows "log_ready s" "log_area s \<subseteq> log_region s"
proof -
  have n: "nat (lh_n s) < 30" "0 \<le> lh_n s" using assms(1) by (auto simp: log_inv_def)
  have h: "unat (lh_block s k) < unat (log_start s) \<or> unat (log_start s) + nat (lh_n s) < unat (lh_block s k)"
    "lh_block s k < disksize s" if "k < nat (lh_n s)" for k
  proof -
    have "lh_block s k \<in> homes s" using that by (simp add: homes_def)
    then have "unat (lh_block s k) \<notin> log_region s" "lh_block s k < disksize s"
      using assms(1) by (simp_all add: log_inv_def)
    then show "unat (lh_block s k) < unat (log_start s) \<or> unat (log_start s) + nat (lh_n s) < unat (lh_block s k)"
      "lh_block s k < disksize s" using n(1) unfolding log_region_def atLeastLessThan_iff by linarith+
  qed
  have "unat (log_start s) + nat (lh_n s) < unat (disksize s)" using assms(1) n(1) unfolding log_inv_def by linarith
  then have "log_wf s" unfolding log_wf_def using assms(1) h by (simp add: log_inv_def)
  then show "log_ready s" using assms by (simp add: log_ready_def log_inv_def)
  show "log_area s \<subseteq> log_region s"
    unfolding log_area_def log_region_def using n(1) by (intro subsetI) (unfold atLeastAtMost_iff atLeastLessThan_iff, linarith)
qed

lemma set_dirty:
  assumes ok: "bio_ok s" and m: "buf_mine s i n"
  defines "s' \<equiv> s\<lparr>bufs := (bufs s)[i := (bufs s ! i)\<lparr>b_dirty := True\<rparr>]\<rparr>"
  shows "bio_ok s'" "buf_mine s' i n" "blk_view s' = blk_view s" "bio_dirty s' = insert n (bio_dirty s)"
proof -
  let ?b = "(bufs s ! i)\<lparr>b_dirty := True\<rparr>"
  have i: "i < NBUF" "has_blk s i n" "holdingsleep (b_lock (bufs s ! i)) s" using m by (auto simp: buf_mine_def)
  have nb: "bufs s' ! j = (if j = i then ?b else bufs s ! j)" for j unfolding s'_def using bufs_upd [OF i(1) ok] by simp
  have hs: "has_blk s' j k = has_blk s j k" for j k by (simp add: has_blk_def nb)
  have b: "buf_ok (memdisk s) ?b" "b_dev ?b = 1" "b_blockno ?b = n"
    using bio_okD(5) [OF ok i(1)] i(2,3) by (auto simp: buf_ok_def has_blk_def holdingsleep_def)
  have sole: "j = i" if "j < NBUF" "has_blk s j n" for j using bio_okD(4) [OF ok that(1) i(1)] that i by blast
  from bio_ok_update [OF ok i(1) b sole] show ok': "bio_ok s'" unfolding s'_def .
  have cp: "cur_pid s' = cur_pid s" by (simp add: s'_def)
  show "buf_mine s' i n" unfolding buf_mine_def hs nb holdingsleep_def cp using i by (simp add: holdingsleep_def)
  have "blk_view s' k = blk_view s k" for k
    by (rule view_cong [OF ok ok' _ hs]) (simp_all add: nb, simp add: s'_def)
  then show "blk_view s' = blk_view s" by blast
  have d: "b_dirty (bufs s' ! j) \<longleftrightarrow> j = i \<or> b_dirty (bufs s ! j)" for j by (simp add: nb)
  have "k = n" if "has_blk s i k" for k using that i(2) by (simp add: has_blk_def)
  then show "bio_dirty s' = insert n (bio_dirty s)"
    unfolding bio_dirty_def hs d using i(1,2) by blast
qed

text \<open>The pattern that replaces a write of a block inside a transaction.\<close>

definition log_update :: "u32 \<Rightarrow> block \<Rightarrow> 'a lstate_scheme \<Rightarrow> 'a lstate_scheme outcome" where
  "log_update n d s =
     obind (bread 1 n s) (\<lambda>(i, s).
     obind (log_write i (upd_buf i (\<lambda>b. b\<lparr>b_data := d\<rparr>) s)) (brelse i))"

fun log_updates :: "(u32 \<times> block) list \<Rightarrow> 'a lstate_scheme \<Rightarrow> 'a lstate_scheme outcome" where
  "log_updates [] s = Ok s"
| "log_updates ((n, d) # ups) s = obind (log_update n d s) (log_updates ups)"

text \<open>One file system operation: its updates between \<^verbatim>\<open>begin_op\<close> and \<^verbatim>\<open>end_op\<close>.\<close>

definition transaction :: "(u32 \<times> block) list \<Rightarrow> 'a lstate_scheme \<Rightarrow> 'a lstate_scheme outcome" where
  "transaction ups s = obind (begin_op s) (\<lambda>s. obind (log_updates ups s) end_op)"

lemma log_write_entry:
  assumes "lh_n s < LOGSIZE - 1" "log_size s = LOGSIZE" "1 \<le> outstanding s" "0 \<le> lh_n s" "inj_on (lh_block s) {0 ..< nat (lh_n s)}"
    and n: "b_blockno (bufs s ! i) = n"
  obtains f k where "log_write i s = Ok (upd_buf i (\<lambda>b. b\<lparr>b_dirty := True\<rparr>) (s\<lparr>lh_block := f\<rparr>\<lparr>lh_n := k\<rparr>))"
    "f ` {0 ..< nat k} = insert n (homes s)" "inj_on f {0 ..< nat k}" "k = (if n \<in> homes s then lh_n s else lh_n s + 1)"
proof -
  have g: "\<not> (lh_n s \<ge> LOGSIZE \<or> lh_n s \<ge> log_size s - 1)" "\<not> outstanding s < 1" using assms(1-3) by auto
  show thesis
  proof (cases "find (\<lambda>i. lh_block s i = n) [0 ..< nat (lh_n s)]")
    case None
    then have nin: "n \<notin> homes s" by (auto simp: find_None_iff homes_def)
    let ?f = "(lh_block s)(nat (lh_n s) := n)"
    have set: "{0 ..< nat (lh_n s + 1)} = insert (nat (lh_n s)) {0 ..< nat (lh_n s)}"
      using assms(4) by (auto simp: nat_add_distrib)
    have same: "?f j = lh_block s j" if "j \<in> {0 ..< nat (lh_n s)}" for j using that by simp
    show thesis
    proof (rule that [where f = ?f and k = "lh_n s + 1"])
      show "log_write i s = Ok (upd_buf i (\<lambda>b. b\<lparr>b_dirty := True\<rparr>) (s\<lparr>lh_block := ?f\<rparr>\<lparr>lh_n := lh_n s + 1\<rparr>))"
        unfolding log_write_def n None Let_def g [THEN if_not_P] using assms(4) by simp
      show "?f ` {0 ..< nat (lh_n s + 1)} = insert n (homes s)" unfolding set homes_def image_insert
        using image_cong [OF refl same] by simp
      have "inj_on ?f {0 ..< nat (lh_n s)}" using assms(5) by (auto simp: inj_on_def)
      moreover have "?f ` {0 ..< nat (lh_n s)} = homes s" using image_cong [OF refl same] by (simp add: homes_def)
      ultimately show "inj_on ?f {0 ..< nat (lh_n s + 1)}" unfolding set using nin by (auto simp: inj_on_insert)
    qed (use nin in simp)
  next
    case (Some j)
    then have j: "j < nat (lh_n s)" "lh_block s j = n" using find_SomeD [OF Some] by auto
    then have nin: "n \<in> homes s" by (auto simp: homes_def)
    have e: "(lh_block s)(j := n) = lh_block s" "int j \<noteq> lh_n s" using j by auto
    show thesis
    proof (rule that [where f = "lh_block s" and k = "lh_n s"])
      show "log_write i s = Ok (upd_buf i (\<lambda>b. b\<lparr>b_dirty := True\<rparr>) (s\<lparr>lh_block := lh_block s\<rparr>\<lparr>lh_n := lh_n s\<rparr>))"
        unfolding log_write_def n Some Let_def g [THEN if_not_P] option.case e(1) using e(2) by simp
    qed (use nin assms(5) in \<open>auto simp: homes_def\<close>)
  qed
qed

lemma log_fields_more [simp]:
  "bio_ok (s\<lparr>outstanding := n\<rparr>) = bio_ok s" "bio_ok (s\<lparr>committing := f\<rparr>) = bio_ok s"
  "in_process (s\<lparr>outstanding := n\<rparr>) = in_process s" "in_process (s\<lparr>committing := f\<rparr>) = in_process s"
  "buf_held (s\<lparr>outstanding := n\<rparr>) = buf_held s" "buf_held (s\<lparr>committing := f\<rparr>) = buf_held s"
  "blk_view (s\<lparr>outstanding := n\<rparr>) = blk_view s" "blk_view (s\<lparr>committing := f\<rparr>) = blk_view s"
  "bio_dirty (s\<lparr>outstanding := n\<rparr>) = bio_dirty s" "bio_dirty (s\<lparr>committing := f\<rparr>) = bio_dirty s"
  "bio_idle (s\<lparr>outstanding := n\<rparr>) = bio_idle s" "bio_idle (s\<lparr>committing := f\<rparr>) = bio_idle s"
  "homes (s\<lparr>outstanding := n\<rparr>) = homes s" "homes (s\<lparr>committing := f\<rparr>) = homes s"
  "log_inv (s\<lparr>outstanding := n\<rparr>) = log_inv s" "log_inv (s\<lparr>committing := f\<rparr>) = log_inv s"
proof -
  show d: "bio_dirty (s\<lparr>outstanding := n\<rparr>) = bio_dirty s" "bio_dirty (s\<lparr>committing := f\<rparr>) = bio_dirty s"
    by (simp_all add: bio_dirty_def has_blk_def)
  show h: "homes (s\<lparr>outstanding := n\<rparr>) = homes s" "homes (s\<lparr>committing := f\<rparr>) = homes s"
    by (simp_all add: homes_def)
  show "log_inv (s\<lparr>outstanding := n\<rparr>) = log_inv s" "log_inv (s\<lparr>committing := f\<rparr>) = log_inv s"
    unfolding log_inv_def log_region_def d h by simp_all
qed (simp_all add: bio_ok_def in_process_def quiet_def buf_held_def has_blk_def blk_view_def
      holdingsleep_def cur_pid_def fun_eq_iff bio_idle_def cong: option.case_cong)

lemma cache_only_outstanding:
  "cache_only s t \<Longrightarrow> cache_only (s\<lparr>outstanding := n\<rparr>) (t\<lparr>outstanding := n\<rparr>)"
  "cache_only s t \<Longrightarrow> cache_only (s\<lparr>committing := c\<rparr>) (t\<lparr>committing := c\<rparr>)"
proof -
  assume "cache_only s t"
  then obtain bs lr md dw ps lk c' where t: "t = s\<lparr>bufs := bs, lru := lr, memdisk := md,
     disk_writes := dw, procs := ps, pt_lock := lk, this_cpu := c'\<rparr>" and p: "cur_pid t = cur_pid s"
    unfolding cache_only_def by (elim conjE exE)
  have "cur_pid (s\<lparr>outstanding := n\<rparr>) = cur_pid s" "cur_pid (t\<lparr>outstanding := n\<rparr>) = cur_pid t"
    "cur_pid (s\<lparr>committing := c\<rparr>) = cur_pid s" "cur_pid (t\<lparr>committing := c\<rparr>) = cur_pid t"
    by (simp_all add: cur_pid_def)
  then show "cache_only (s\<lparr>outstanding := n\<rparr>) (t\<lparr>outstanding := n\<rparr>)" "cache_only (s\<lparr>committing := c\<rparr>) (t\<lparr>committing := c\<rparr>)"
    using p unfolding cache_only_def t by (intro conjI exI [of _ bs] exI [of _ lr] exI [of _ md] exI [of _ dw]
      exI [of _ ps] exI [of _ lk] exI [of _ c'], simp_all)+
qed

text \<open>What an update inside a transaction does: the block is pinned, the disk is not touched.\<close>

lemma log_update_ok:
  assumes s: "bio_idle s" "log_inv s" and o: "1 \<le> outstanding s" and n: "n < disksize s" "unat n \<notin> log_region s"
    and rm: "lh_n s < LOGSIZE - 1"
  obtains s' where "log_update n d s = Ok s'" "bio_idle s'" "log_inv s'" "blk_view s' = (blk_view s)(n := d)"
    "memdisk s' = memdisk s" "disk_writes s' = disk_writes s" "homes s' = insert n (homes s)"
    "outstanding s' = outstanding s" "committing s' = committing s" "log_start s' = log_start s"
    "disksize s' = disksize s" "lh_n s' = (if n \<in> homes s then lh_n s else lh_n s + 1)"
proof -
  have ok: "bio_ok s" "in_process s" using s(1) by (auto simp: bio_idle_def)
  have ready: "log_ready s" by (rule log_inv_ready(1) [OF s(2,1)])
  have rm': "card (bio_dirty s) < NBUF \<or> n \<in> bio_dirty s" using log_ready_room [OF ready] by blast
  obtain i s1 where r: "bread 1 n s = Ok (i, s1)" "read_ok s n i s1" and h: "\<forall>k < NBUF. k \<noteq> i \<longrightarrow> \<not> buf_held s1 k"
    using bread_idle [OF s(1) n(1) rm'] .
  note R = read_okD [OF ok(1) r(2) ok(2)]
  define s2 where "s2 = s1\<lparr>bufs := (bufs s1)[i := (bufs s1 ! i)\<lparr>b_data := d\<rparr>]\<rparr>"
  note D = set_data [OF R(1,3), of d, folded s2_def]
  have i: "i < NBUF" "b_blockno (bufs s2 ! i) = n" using D(2) by (auto simp: buf_mine_def has_blk_def)
  have dirty2: "bio_dirty s2 = bio_dirty s1" by (rule dirty_same [OF R(1) i(1), of _ "(bufs s1 ! i)\<lparr>b_data := d\<rparr>"]) (simp_all add: s2_def)
  have e2: "lh_n s2 = lh_n s" "log_size s2 = log_size s" "outstanding s2 = outstanding s" "lh_block s2 = lh_block s"
    using R(4) by (simp_all add: s2_def)
  have inv: "log_size s = LOGSIZE" "0 \<le> lh_n s" "inj_on (lh_block s) {0 ..< nat (lh_n s)}" "bio_dirty s = homes s"
    using s(2) by (auto simp: log_inv_def)
  have hom2: "homes s2 = homes s" by (simp add: homes_def e2)
  obtain f k where w: "log_write i s2 = Ok (upd_buf i (\<lambda>b. b\<lparr>b_dirty := True\<rparr>) (s2\<lparr>lh_block := f\<rparr>\<lparr>lh_n := k\<rparr>))"
    "f ` {0 ..< nat k} = insert n (homes s)" "inj_on f {0 ..< nat k}" "k = (if n \<in> homes s then lh_n s else lh_n s + 1)"
    using log_write_entry [of s2 i n, unfolded e2 hom2, OF rm inv(1) o inv(2,3) i(2)] .
  define s3 where "s3 = s2\<lparr>lh_block := f\<rparr>\<lparr>lh_n := k\<rparr>"
  have m3: "bio_ok s3" "buf_mine s3 i n" using D(1,2) by (simp_all add: s3_def)
  define s4 where "s4 = s3\<lparr>bufs := (bufs s3)[i := (bufs s3 ! i)\<lparr>b_dirty := True\<rparr>]\<rparr>"
  note T = set_dirty [OF m3, folded s4_def]
  have run4: "in_process s4" using R(2) by (simp add: s4_def s3_def s2_def)
  have d4: "b_dirty (bufs s4 ! i)" using bufs_upd [OF i(1) m3(1)] by (simp add: s4_def)
  obtain s5 where s5: "brelse i s4 = Ok s5" "bio_ok s5" "in_process s5" "cache_only s4 s5"
    "memdisk s5 = memdisk s4" "disk_writes s5 = disk_writes s4" "blk_view s5 = blk_view s4" "bio_dirty s5 = bio_dirty s4"
    "\<not> buf_held s5 i" "\<forall>k. k \<noteq> i \<longrightarrow> bufs s5 ! k = bufs s4 ! k" "\<forall>k m. k \<noteq> i \<longrightarrow> buf_mine s4 k m \<longrightarrow> buf_mine s5 k m"
    using brelse_idle [OF T(1) run4 T(2) disjI1 [OF d4]] .
  have "bufs s5 ! j = bufs s1 ! j" if "j \<noteq> i" for j using that s5(10) by (simp add: s4_def s3_def s2_def)
  then have "\<not> buf_held s5 j" if "j < NBUF" for j
    using that h s5(9) by (cases "j = i") (auto simp: buf_held_def)
  then have i5: "bio_idle s5" using s5(2,3) by (simp add: bio_idle_def)
  have e: "log_update n d s = Ok s5"
    using r(1) w(1) s5(1) by (simp add: log_update_def upd_buf_def s4_def s3_def s2_def)
  have v: "blk_view s5 = (blk_view s)(n := d)" using s5(7) T(3) D(3) R(5) by (simp add: s3_def)
  have md: "memdisk s5 = memdisk s" "disk_writes s5 = disk_writes s"
    using s5(5,6) R(6,7) by (simp_all add: s4_def s3_def s2_def)
  have dt: "bio_dirty s5 = insert n (homes s)" using s5(8) T(4) dirty2 R(8) inv(4) by (simp add: s3_def)
  note c5 = cache_only_log [OF s5(4)] cache_only_disksize [OF s5(4)]
  note c1 = cache_only_log [OF R(4)] cache_only_disksize [OF R(4)]
  have f5: "lh_block s5 = f" "lh_n s5 = k" "log_start s5 = log_start s" "log_size s5 = log_size s" "log_dev s5 = log_dev s"
    "outstanding s5 = outstanding s" "committing s5 = committing s" "disksize s5 = disksize s"
    using c5 c1 by (simp_all add: s4_def s3_def s2_def)
  have hm: "homes s5 = insert n (homes s)" using w(2) by (simp add: homes_def f5)
  have "log_inv s5" unfolding log_inv_def log_region_def hm f5
    using s(2) n w(3,4) rm dt by (auto simp: log_inv_def log_region_def)
  then show thesis using that [OF e i5 _ v md hm] f5 w(4) by simp
qed

definition disk_updates :: "(u32 \<times> block) list \<Rightarrow> (nat \<times> block) list" where
  "disk_updates ups = map (\<lambda>(n, d). (unat n, d)) ups"

definition view_updates :: "(u32 \<Rightarrow> block) \<Rightarrow> (u32 \<times> block) list \<Rightarrow> u32 \<Rightarrow> block" where
  "view_updates v ups = foldl (\<lambda>v (n, d). v(n := d)) v ups"

lemma view_updates_simps [simp]:
  "view_updates v [] = v" "view_updates v ((n, d) # ups) = view_updates (v(n := d)) ups"
  by (simp_all add: view_updates_def)

lemma view_disk_updates:
  "v n = dk (unat n) \<Longrightarrow> view_updates v ups n = apply_writes dk (disk_updates ups) (unat n)"
proof (induction ups arbitrary: v dk)
  case (Cons u ups)
  obtain m d where u: "u = (m, d)" by (cases u)
  have "(v(m := d)) n = (dk(unat m := d)) (unat n)"
    using Cons.prems by (auto dest: word_unat_eq_iff [THEN iffD2])
  then have "view_updates (v(m := d)) ups n = apply_writes (dk(unat m := d)) (disk_updates ups) (unat n)"
    by (rule Cons.IH)
  then show ?case by (simp add: u disk_updates_def del: fun_upd_apply)
qed (simp add: disk_updates_def)

lemma card_homes_inv: "log_inv s \<Longrightarrow> card (homes s) = nat (lh_n s)"
  by (simp add: homes_def log_inv_def card_image)

lemma log_updates_ok:
  assumes "bio_idle s" "log_inv s" "1 \<le> outstanding s"
    "\<forall>n \<in> fst ` set ups. n < disksize s \<and> unat n \<notin> log_region s"
    "card (homes s \<union> fst ` set ups) < nat LOGSIZE - 1"
  shows "\<exists>s'. log_updates ups s = Ok s' \<and> bio_idle s' \<and> log_inv s' \<and> blk_view s' = view_updates (blk_view s) ups \<and>
     memdisk s' = memdisk s \<and> disk_writes s' = disk_writes s \<and> homes s' = homes s \<union> fst ` set ups \<and>
     outstanding s' = outstanding s \<and> committing s' = committing s \<and> log_start s' = log_start s \<and> disksize s' = disksize s"
  using assms
proof (induction ups arbitrary: s)
  case Nil
  then show ?case by simp
next
  case (Cons u ups)
  obtain n d where u: "u = (n, d)" by (cases u)
  have n: "n < disksize s" "unat n \<notin> log_region s" using Cons.prems(4) u by simp_all
  have fin: "finite (homes s \<union> fst ` set (u # ups))" by (simp add: homes_def)
  have "card (homes s) \<le> card (homes s \<union> fst ` set (u # ups))" by (rule card_mono [OF fin]) blast
  then have "nat (lh_n s) < nat LOGSIZE - 1" using Cons.prems(5) card_homes_inv [OF Cons.prems(2)] by linarith
  then have rm: "lh_n s < LOGSIZE - 1" by simp
  obtain t where t: "log_update n d s = Ok t" "bio_idle t" "log_inv t" "blk_view t = (blk_view s)(n := d)"
    "memdisk t = memdisk s" "disk_writes t = disk_writes s" "homes t = insert n (homes s)"
    "outstanding t = outstanding s" "committing t = committing s" "log_start t = log_start s"
    "disksize t = disksize s" "lh_n t = (if n \<in> homes s then lh_n s else lh_n s + 1)"
    using log_update_ok [OF Cons.prems(1-3) n rm, of d] .
  have reg: "log_region t = log_region s" by (simp add: log_region_def t)
  have hs: "homes t \<union> fst ` set ups = homes s \<union> fst ` set (u # ups)" by (auto simp: t(7) u)
  have "\<exists>s'. log_updates ups t = Ok s' \<and> bio_idle s' \<and> log_inv s' \<and> blk_view s' = view_updates (blk_view t) ups \<and>
     memdisk s' = memdisk t \<and> disk_writes s' = disk_writes t \<and> homes s' = homes t \<union> fst ` set ups \<and>
     outstanding s' = outstanding t \<and> committing s' = committing t \<and> log_start s' = log_start t \<and> disksize s' = disksize t"
    by (rule Cons.IH [OF t(2,3)]) (use Cons.prems(3,4,5) reg hs t(8,11) in auto)
  then show ?case unfolding hs t(4-6,8-11) by (simp add: u t(1))
qed

lemma commit_disk:
  assumes "log_wf s"
  shows "m \<notin> log_area s \<Longrightarrow> apply_writes (memdisk s) (commit_writes s) m = apply_writes (memdisk s) (home_data s) m"
    and "sint (get32 (apply_writes (memdisk s) (commit_writes s) (unat (log_start s))) 0) = 0"
proof -
  let ?L = "unat (log_start s)" and ?LD = "log_data s" and ?HD = "home_data s" and ?F = "full_head s"
  have db: "apply_writes (memdisk s) (commit_writes s) =
      (apply_writes ((apply_writes (memdisk s) ?LD)(?L := ?F)) ?HD)(?L := head_block 0 (lh_block s) ?F)"
    by (simp add: commit_writes_def)
  then show "sint (get32 (apply_writes (memdisk s) (commit_writes s) ?L) 0) = 0" by (simp add: head_block_count)
  assume m: "m \<notin> log_area s"
  have "?L \<in> log_area s" by (simp add: log_area_def)
  then have mL: "m \<noteq> ?L" using m by blast
  have "m \<notin> fst ` set ?LD"
    using m unfolding log_data_fst log_area_def atLeastAtMost_iff atLeastLessThan_iff by linarith
  then have "apply_writes ((apply_writes (memdisk s) ?LD)(?L := ?F)) ?HD m = apply_writes (memdisk s) ?HD m"
    by (intro apply_writes_cong) (simp add: mL apply_writes_other)
  then show "apply_writes (memdisk s) (commit_writes s) m = apply_writes (memdisk s) (home_data s) m"
    unfolding db using mL by simp
qed

lemma home_data_updates:
  assumes c: "\<forall>n. v n = dk (unat n)" and t: "blk_view t = view_updates v ups" "homes t = fst ` set ups" "log_wf t"
  shows "apply_writes dk (home_data t) m = apply_writes dk (disk_updates ups) m"
proof (cases "m \<in> unat ` homes t")
  case True
  then obtain k where k: "k < nat (lh_n t)" "m = unat (lh_block t k)" by (auto simp: homes_def)
  have "(m, blk_view t (lh_block t k)) \<in> set (home_data t)" using k by (auto simp: home_data_def)
  from apply_writes_written [OF home_data_fst(2) [OF t(3)] this]
  have "apply_writes dk (home_data t) m = blk_view t (lh_block t k)" .
  also have "\<dots> = apply_writes dk (disk_updates ups) m"
    unfolding t(1) k(2) using c by (intro view_disk_updates) blast
  finally show ?thesis .
next
  case False
  have "fst ` set (disk_updates ups) = unat ` homes t" unfolding t(2) disk_updates_def by force
  then show ?thesis using False home_data_fst(3) [OF t(3)] by (simp add: apply_writes_other)
qed

lemma end_op_last:
  assumes s: "log_inv s" "bio_idle s" and o: "outstanding s = 1" "\<not> committing s" and n: "0 < lh_n s"
    and h0: "sint (get32 (memdisk s (unat (log_start s))) 0) = 0"
  obtains s' where "end_op s = Ok s'" "bio_idle s'" "log_inv s'" "lh_n s' = 0" "outstanding s' = 0" "\<not> committing s'"
    "log_start s' = log_start s" "disk_writes s' = disk_writes s @ commit_writes s"
    "memdisk s' = apply_writes (memdisk s) (commit_writes s)"
proof -
  let ?t = "s\<lparr>outstanding := 0\<rparr>\<lparr>committing := True\<rparr>"
  have r: "log_ready ?t" by (rule log_inv_ready(1)) (use s in simp_all)
  have same: "commit_writes ?t = commit_writes s"
    by (simp add: commit_writes_def log_data_def home_data_def full_head_def)
  have nt: "0 < lh_n ?t" using n by simp
  obtain u where u: "commit ?t = Ok u" "bio_idle u" "cache_only (?t\<lparr>lh_n := 0\<rparr>) u" "bio_dirty u = {}"
    "disk_writes u = disk_writes ?t @ commit_writes ?t" "memdisk u = apply_writes (memdisk ?t) (commit_writes ?t)"
    "\<forall>m. m \<notin> log_block ?t ` {0 ..< nat (lh_n ?t)} \<longrightarrow> m \<noteq> log_start ?t \<longrightarrow> blk_view u m = blk_view ?t m"
    using commit_ok [OF r nt] .
  note e = cache_only_log [OF u(3)] cache_only_disksize [OF u(3)]
  let ?u = "u\<lparr>committing := False\<rparr>"
  have "in_process ?u" using u(2) by (simp add: bio_idle_def)
  from wakeup_running [OF this, of ChLog] obtain x where x: "wakeup ChLog ?u = Ok x" "woken ?u x" by blast
  obtain ps lk c where xe: "x = ?u\<lparr>procs := ps, pt_lock := lk, this_cpu := c\<rparr>" and xr: "in_process x"
    using x(2) unfolding woken_def by (elim exE conjE)
  have f: "bufs x = bufs u" "lru x = lru u" "memdisk x = memdisk u" "disk_writes x = disk_writes u" "lh_n x = lh_n u"
    "lh_block x = lh_block u" "log_start x = log_start u" "log_size x = log_size u" "log_dev x = log_dev u"
    "outstanding x = outstanding u" "committing x = False" "disksize x = disksize u"
    by (simp_all add: xe)
  have ix: "bio_idle x" using u(2) xr by (simp add: bio_idle_def bio_ok_def has_blk_def buf_held_def f)
  have hx: "homes x = {}" by (simp add: homes_def f e)
  have dx: "bio_dirty x = {}" using u(4) by (simp add: bio_dirty_def has_blk_def f)
  have "log_inv x" unfolding log_inv_def log_region_def hx dx f e
    using s(1) by (simp add: log_inv_def)
  moreover have "end_op s = Ok x" using o u(1) x(1) by (simp add: end_op_def Let_def)
  moreover have "lh_n x = 0" "outstanding x = 0" "\<not> committing x" "log_start x = log_start s" by (simp_all add: f e)
  moreover have "disk_writes x = disk_writes s @ commit_writes s" "memdisk x = apply_writes (memdisk s) (commit_writes s)"
    unfolding f u(5,6) same by simp_all
  ultimately show thesis using that ix by blast
qed

text \<open>
  The file system between operations: nothing pinned, nothing outstanding, and the header on
  the disk empty.
\<close>

definition log_rest :: "'a lstate_scheme \<Rightarrow> bool" where
  "log_rest s \<longleftrightarrow> bio_idle s \<and> log_inv s \<and> lh_n s = 0 \<and> outstanding s = 0 \<and> \<not> committing s \<and>
     sint (get32 (memdisk s (unat (log_start s))) 0) = 0"

text \<open>\<open>b\<close> is a machine that has booted with \<open>s\<close>'s disk as it was after \<open>j\<close> more writes.\<close>

definition rebooted :: "'a lstate_scheme \<Rightarrow> (nat \<times> block) list \<Rightarrow> nat \<Rightarrow> 'b lstate_scheme \<Rightarrow> bool" where
  "rebooted s ws j b \<longleftrightarrow> booted b \<and> log_start b = log_start s \<and> disksize b = disksize s \<and>
     memdisk b = apply_writes (memdisk s) (take j ws)"

text \<open>Outside the log, the disk \<open>d\<close> holds the blocks of \<open>e\<close>.\<close>

definition disk_agrees :: "'a lstate_scheme \<Rightarrow> (nat \<Rightarrow> block) \<Rightarrow> (nat \<Rightarrow> block) \<Rightarrow> bool" where
  "disk_agrees s d e \<longleftrightarrow> (\<forall>m. m \<notin> log_region s \<longrightarrow> d m = e m)"

lemma transaction_ok:
  fixes s :: "'a lstate_scheme"
  assumes s: "log_rest s" and ups: "ups \<noteq> []" "card (fst ` set ups) \<le> nat MAXOPBLOCKS"
    "\<forall>n \<in> fst ` set ups. n < disksize s \<and> unat n \<notin> log_region s"
  obtains t :: "'a lstate_scheme" and s' where "transaction ups s = Ok s'" "log_rest s'" "log_ready t" "0 < lh_n t" "memdisk t = memdisk s"
    "log_start t = log_start s" "disksize t = disksize s" "log_area t \<subseteq> log_region s"
    "disk_writes s' = disk_writes s @ commit_writes t" "log_start s' = log_start s"
    "memdisk s' = apply_writes (memdisk s) (commit_writes t)"
    "\<forall>m. apply_writes (memdisk s) (home_data t) m = apply_writes (memdisk s) (disk_updates ups) m"
proof -
  have r: "bio_idle s" "log_inv s" "lh_n s = 0" "outstanding s = 0" "\<not> committing s"
    "sint (get32 (memdisk s (unat (log_start s))) 0) = 0" using s by (simp_all add: log_rest_def)
  let ?b = "s\<lparr>outstanding := 1\<rparr>"
  have bo: "begin_op s = Ok ?b" using r by (simp add: begin_op_def)
  have hb: "homes s = {}" using r(3) by (simp add: homes_def)
  have "\<exists>t. log_updates ups ?b = Ok t \<and> bio_idle t \<and> log_inv t \<and> blk_view t = view_updates (blk_view ?b) ups \<and>
     memdisk t = memdisk ?b \<and> disk_writes t = disk_writes ?b \<and> homes t = homes ?b \<union> fst ` set ups \<and>
     outstanding t = outstanding ?b \<and> committing t = committing ?b \<and> log_start t = log_start ?b \<and> disksize t = disksize ?b"
    by (rule log_updates_ok) (use r ups hb in \<open>simp_all add: log_region_def\<close>)
  then obtain t where t: "log_updates ups ?b = Ok t" "bio_idle t" "log_inv t" "blk_view t = view_updates (blk_view s) ups"
    "memdisk t = memdisk s" "disk_writes t = disk_writes s" "homes t = fst ` set ups" "outstanding t = 1"
    "\<not> committing t" "log_start t = log_start s" "disksize t = disksize s"
    using r(5) hb by auto
  have "homes t \<noteq> {}" using ups(1) t(7) by simp
  then have n: "0 < lh_n t" by (auto simp: homes_def)
  have h0: "sint (get32 (memdisk t (unat (log_start t))) 0) = 0" using r(6) t(5,10) by simp
  obtain s' where s': "end_op t = Ok s'" "bio_idle s'" "log_inv s'" "lh_n s' = 0" "outstanding s' = 0" "\<not> committing s'"
    "log_start s' = log_start t" "disk_writes s' = disk_writes t @ commit_writes t"
    "memdisk s' = apply_writes (memdisk t) (commit_writes t)" using end_op_last [OF t(3,2,8,9) n h0] .
  have ready: "log_ready t" "log_area t \<subseteq> log_region s"
    using log_inv_ready [OF t(3,2)] t(10) by (simp_all add: log_region_def)
  then have wf: "log_wf t" by (simp add: log_ready_def)
  have "sint (get32 (memdisk s' (unat (log_start s'))) 0) = 0" using commit_disk(2) [OF wf] s'(7,9) by simp
  then have "log_rest s'" using s'(2-6) by (simp add: log_rest_def)
  moreover have "transaction ups s = Ok s'" by (simp add: transaction_def bo t(1) s'(1))
  moreover have "\<forall>n. blk_view s n = memdisk s (unat n)"
    using idle_clean [OF r(1)] r(2) hb by (simp add: log_inv_def)
  then have "\<forall>m. apply_writes (memdisk s) (home_data t) m = apply_writes (memdisk s) (disk_updates ups) m"
    using home_data_updates [OF _ t(4,7) wf] by blast
  ultimately show thesis
    using that [of s' t] ready n t(5,6,10,11) s'(7-9) by simp
qed

text \<open>
  C1: Crash atomicity. An operation that updates up to \<open>MAXOPBLOCKS\<close> blocks outside the log
  through \<^verbatim>\<open>begin_op\<close>, \<^verbatim>\<open>log_write\<close> and \<^verbatim>\<open>end_op\<close> never panics, and afterwards the disk
  outside the log holds all its updates and the log is at rest again. Cut its sequence of
  disk writes after any number \<open>j\<close> of blocks and boot: \<^verbatim>\<open>recover_from_log\<close> succeeds, empties
  the header, and the disk outside the log is either the one before the operation (up to
  the header write, which is write number \<open>c + 1\<close>) or the one with all the updates.
\<close>

theorem transaction_survives_crashes:
  fixes s :: "'a lstate_scheme"
  assumes "log_rest s" "ups \<noteq> []" "card (fst ` set ups) \<le> nat MAXOPBLOCKS"
    "\<forall>n \<in> fst ` set ups. n < disksize s \<and> unat n \<notin> log_region s"
  shows "\<exists>s' ws c. transaction ups s = Ok s' \<and> log_rest s' \<and> disk_writes s' = disk_writes s @ ws \<and> c < length ws \<and>
     disk_agrees s (memdisk s') (apply_writes (memdisk s) (disk_updates ups)) \<and>
     (\<forall>j b. rebooted s ws j b \<longrightarrow> j \<le> length ws \<longrightarrow>
        (\<exists>b'. recover_from_log b = Ok b' \<and> bio_idle b' \<and> sint (get32 (memdisk b' (unat (log_start s))) 0) = 0 \<and>
           disk_agrees s (memdisk b') (if j \<le> c then memdisk s else apply_writes (memdisk s) (disk_updates ups))))"
proof -
  obtain t :: "'a lstate_scheme" and s' where t: "transaction ups s = Ok s'" "log_rest s'" "log_ready t" "0 < lh_n t" "memdisk t = memdisk s"
    "log_start t = log_start s" "disksize t = disksize s" "log_area t \<subseteq> log_region s"
    "disk_writes s' = disk_writes s @ commit_writes t" "log_start s' = log_start s"
    "memdisk s' = apply_writes (memdisk s) (commit_writes t)"
    "\<forall>m. apply_writes (memdisk s) (home_data t) m = apply_writes (memdisk s) (disk_updates ups) m"
    using transaction_ok [OF assms] .
  have h0: "sint (get32 (memdisk t (unat (log_start t))) 0) = 0" using assms(1) t(5,6) by (simp add: log_rest_def)
  have wf: "log_wf t" using t(3) by (simp add: log_ready_def)
  have out: "m \<notin> log_area t" if "m \<notin> log_region s" for m using that t(8) by blast
  have "disk_agrees s (memdisk s') (apply_writes (memdisk s) (disk_updates ups))"
    using commit_disk(1) [OF wf] out t(5,11,12) by (simp add: disk_agrees_def)
  moreover have "nat (lh_n t) < length (commit_writes t)" by (simp add: commit_writes_def log_data_def)
  moreover have "\<exists>b'. recover_from_log b = Ok b' \<and> bio_idle b' \<and> sint (get32 (memdisk b' (unat (log_start s))) 0) = 0 \<and>
      disk_agrees s (memdisk b') (if j \<le> nat (lh_n t) then memdisk s else apply_writes (memdisk s) (disk_updates ups))"
    if b: "rebooted s (commit_writes t) j b" and j: "j \<le> length (commit_writes t)" for j and b :: "'b lstate_scheme"
  proof -
    have bt: "booted b" "log_start b = log_start t" "disksize b = disksize t"
      "memdisk b = apply_writes (memdisk t) (take j (commit_writes t))" using b t(5-7) by (simp_all add: rebooted_def)
    from crash_recovery [OF t(3,4) h0 j bt] obtain b' where b': "recover_from_log b = Ok b'" "bio_idle b'"
      "sint (get32 (memdisk b' (unat (log_start t))) 0) = 0"
      "\<forall>m. m \<notin> log_area t \<longrightarrow> memdisk b' m =
        (if j \<le> nat (lh_n t) then memdisk t m else apply_writes (memdisk t) (home_data t) m)" by blast
    have "disk_agrees s (memdisk b') (if j \<le> nat (lh_n t) then memdisk s else apply_writes (memdisk s) (disk_updates ups))"
      using b'(4) out t(5,12) by (simp add: disk_agrees_def)
    then show ?thesis using b'(1-3) t(6) by (intro exI [of _ b']) simp
  qed
  ultimately show ?thesis using t(1,2,9) by blast
qed

lemma example_lstate_bio: "bio_idle (example_lstate m)" "bio_dirty (example_lstate m) = {}"
  unfolding example_lstate_def by (rule example_idle)+

lemma example_log_rest: "log_rest (example_lstate m)"
proof -
  have "homes (example_lstate m) = {}" "log_dev (example_lstate m) = 1" "log_size (example_lstate m) = LOGSIZE"
    "lh_n (example_lstate m) = 0" "outstanding (example_lstate m) = 0" "\<not> committing (example_lstate m)"
    "log_start (example_lstate m) = 2" "disksize (example_lstate m) = 1000" "memdisk (example_lstate m) = (\<lambda>n k. 0)"
    by (simp_all add: homes_def example_lstate_def example_bstate_def example_state_def)
  then show ?thesis by (simp add: log_rest_def log_inv_def example_lstate_bio get32_def)
qed

lemma transaction_survives_crashes_witness:
  "let s = example_lstate (); ups = [(50, \<lambda>k. 1), (51, \<lambda>k. 2), (50, \<lambda>k. 3)] in
   \<exists>s' ws c. transaction ups s = Ok s' \<and> log_rest s' \<and> disk_writes s' = disk_writes s @ ws \<and> c < length ws \<and>
     disk_agrees s (memdisk s') (apply_writes (memdisk s) (disk_updates ups)) \<and>
     (\<forall>j (b :: unit lstate_scheme). rebooted s ws j b \<longrightarrow> j \<le> length ws \<longrightarrow>
        (\<exists>b'. recover_from_log b = Ok b' \<and> bio_idle b' \<and> sint (get32 (memdisk b' (unat (log_start s))) 0) = 0 \<and>
           disk_agrees s (memdisk b') (if j \<le> c then memdisk s else apply_writes (memdisk s) (disk_updates ups))))"
proof -
  have f: "log_start (example_lstate ()) = 2" "disksize (example_lstate ()) = 1000"
    by (simp_all add: example_lstate_def example_bstate_def example_state_def)
  show ?thesis unfolding Let_def
    by (rule transaction_survives_crashes [OF example_log_rest]) (simp_all add: log_region_def f card_insert_if)
qed

section \<open>The reservation\<close>

lemma log_updates_append: "log_updates (xs @ ys) s = obind (log_updates xs s) (log_updates ys)"
proof (induction xs arbitrary: s)
  case (Cons u xs)
  then show ?case by (cases u; cases "log_update (fst u) (snd u) s") auto
qed simp

text \<open>With 29 blocks in the log the next update stops the machine.\<close>

lemma log_update_too_big:
  assumes s: "bio_idle s" "log_inv s" and n: "n < disksize s" and full: "LOGSIZE - 1 \<le> lh_n s"
  shows "log_update n d s = Panic ''too big a transaction''"
proof -
  have ready: "log_ready s" by (rule log_inv_ready(1) [OF s(2,1)])
  have rm: "card (bio_dirty s) < NBUF \<or> n \<in> bio_dirty s" using log_ready_room [OF ready] by blast
  have ok: "bio_ok s" "in_process s" using s(1) by (auto simp: bio_idle_def)
  obtain i s1 where r: "bread 1 n s = Ok (i, s1)" "read_ok s n i s1" using bread_idle [OF s(1) n rm] .
  note R = read_okD [OF ok(1) r(2) ok(2)]
  have "log_size s = LOGSIZE" using s(2) by (simp add: log_inv_def)
  then have "lh_n s1 \<ge> LOGSIZE \<or> lh_n s1 \<ge> log_size s1 - 1" using full cache_only_log [OF R(4)] by simp
  then show ?thesis by (simp add: log_update_def r(1) log_write_def upd_buf_def)
qed

text \<open>
  C17: The reservation of \<^verbatim>\<open>begin_op\<close> is one block too generous. It admits three operations
  at once (\<open>3 * MAXOPBLOCKS = LOGSIZE\<close>), but the log of \<open>LOGSIZE\<close> blocks that \<^verbatim>\<open>mkfs\<close> makes
  has a header, so \<^verbatim>\<open>log_write\<close> accepts 29 blocks only: when three operations that were
  admitted update their ten blocks each, the thirtieth update panics.
\<close>

theorem three_operations_overflow_log:
  assumes s: "log_rest s" and ups: "length ups = 3 * nat MAXOPBLOCKS" "distinct (map fst ups)"
    "\<forall>n \<in> fst ` set ups. n < disksize s \<and> unat n \<notin> log_region s"
  shows "\<exists>s'. obind (begin_op s) (\<lambda>s. obind (begin_op s) begin_op) = Ok s' \<and> outstanding s' = 3 \<and>
     log_updates ups s' = Panic ''too big a transaction''"
proof -
  have r: "bio_idle s" "log_inv s" "lh_n s = 0" "outstanding s = 0" "\<not> committing s" using s by (simp_all add: log_rest_def)
  let ?b = "s\<lparr>outstanding := 3\<rparr>"
  have b: "obind (begin_op s) (\<lambda>s. obind (begin_op s) begin_op) = Ok ?b" using r by (simp add: begin_op_def)
  have hb: "homes ?b = {}" "log_region ?b = log_region s" using r(3) by (simp_all add: homes_def log_region_def)
  define xs where "xs = take 28 ups"
  have len: "28 < length ups" "29 < length ups" "28 \<le> length ups" using ups(1) by simp_all
  obtain n1 d1 where u1: "ups ! 28 = (n1, d1)" by (cases "ups ! 28")
  obtain n2 d2 where u2: "ups ! 29 = (n2, d2)" by (cases "ups ! 29")
  have split: "ups = xs @ [(n1, d1), (n2, d2)]"
  proof -
    have "ups = xs @ ups ! 28 # ups ! 29 # drop 30 ups"
      unfolding xs_def using id_take_nth_drop [OF len(1)] Cons_nth_drop_Suc [OF len(2)] by simp
    then show ?thesis using ups(1) u1 u2 by simp
  qed
  have lx: "length xs = 28" using len by (simp add: xs_def)
  have dx: "card (fst ` set xs) = 28"
    using ups(2) lx distinct_card [of "map fst xs"] unfolding split by simp
  have tx: "\<forall>n \<in> fst ` set xs. n < disksize s \<and> unat n \<notin> log_region s" using ups(3) unfolding split by auto
  have "\<exists>t. log_updates xs ?b = Ok t \<and> bio_idle t \<and> log_inv t \<and> blk_view t = view_updates (blk_view ?b) xs \<and>
     memdisk t = memdisk ?b \<and> disk_writes t = disk_writes ?b \<and> homes t = homes ?b \<union> fst ` set xs \<and>
     outstanding t = outstanding ?b \<and> committing t = committing ?b \<and> log_start t = log_start ?b \<and> disksize t = disksize ?b"
    by (rule log_updates_ok) (use r tx hb dx in \<open>simp_all\<close>)
  then obtain t where t: "log_updates xs ?b = Ok t" "bio_idle t" "log_inv t" "homes t = fst ` set xs" "outstanding t = 3"
    "log_start t = log_start s" "disksize t = disksize s" using hb by auto
  have nt: "lh_n t = 28"
    using card_homes_inv [OF t(3)] dx t(4) by simp
  have n: "n1 < disksize t" "unat n1 \<notin> log_region t" "n2 < disksize t" "n1 \<notin> homes t"
    using ups(2,3) t(4,6,7) unfolding split by (auto simp: log_region_def)
  have ot: "1 \<le> outstanding t" "lh_n t < LOGSIZE - 1" using t(5) nt by simp_all
  obtain u where u: "log_update n1 d1 t = Ok u" "bio_idle u" "log_inv u" "blk_view u = (blk_view t)(n1 := d1)"
    "memdisk u = memdisk t" "disk_writes u = disk_writes t" "homes u = insert n1 (homes t)"
    "outstanding u = outstanding t" "committing u = committing t" "log_start u = log_start t"
    "disksize u = disksize t" "lh_n u = (if n1 \<in> homes t then lh_n t else lh_n t + 1)"
    using log_update_ok [OF t(2,3) ot(1) n(1,2) ot(2), of d1] .
  have "log_update n2 d2 u = Panic ''too big a transaction''"
    by (rule log_update_too_big [OF u(2,3)]) (use u(11,12) n(3,4) nt in simp_all)
  then have "log_updates ups ?b = Panic ''too big a transaction''"
    unfolding split by (simp add: log_updates_append t(1) u(1))
  then show ?thesis using b by (intro exI [of _ ?b]) simp
qed

lemma three_operations_overflow_log_witness:
  "let s = example_lstate (); ups = map (\<lambda>i. (word_of_nat (100 + i), \<lambda>k. 0)) [0 ..< 30] in
   \<exists>s'. obind (begin_op s) (\<lambda>s. obind (begin_op s) begin_op) = Ok s' \<and> outstanding s' = 3 \<and>
     log_updates ups s' = Panic ''too big a transaction''"
proof -
  have f: "log_start (example_lstate ()) = 2" "disksize (example_lstate ()) = 1000"
    by (simp_all add: example_lstate_def example_bstate_def example_state_def)
  let ?ups = "map (\<lambda>i. (word_of_nat (100 + i) :: u32, \<lambda>k. 0 :: u8)) [0 ..< 30]"
  have "[0 ..< 30] = [0,1,2,3,4,5,6,7,8,9,10,11,12,13,14,15,16,17,18,19,20,21,22,23,24,25,26,27,28,29 :: nat]"
    by (simp add: upt_rec)
  then have l: "?ups = map (\<lambda>i. (word_of_nat (100 + i), \<lambda>k. 0)) [0,1,2,3,4,5,6,7,8,9,10,11,12,13,14,15,16,17,18,19,20,21,22,23,24,25,26,27,28,29]"
    by simp
  show ?thesis unfolding Let_def
  proof (rule three_operations_overflow_log [OF example_log_rest])
    show "length ?ups = 3 * nat MAXOPBLOCKS" by simp
    show "distinct (map fst ?ups)" unfolding l by simp
    show "\<forall>n \<in> fst ` set ?ups. n < disksize (example_lstate ()) \<and> unat n \<notin> log_region (example_lstate ())"
      unfolding l by (simp add: log_region_def f)
  qed
qed

end
