(* ===== verification/Fs.thy ===== *)
theory Fs
  imports Log
begin

text \<open>
  \<^verbatim>\<open>fs.c\<close>: block and inode allocation, the inode cache, file contents, directories and
  path names. An inode is its index in \<^verbatim>\<open>icache.inode\<close>. Data that the C code copies to or
  from a pointer is a list of bytes here: \<open>readi\<close> returns what it would store at \<^verbatim>\<open>dst\<close>,
  and \<open>writei\<close> takes what lies at \<^verbatim>\<open>src\<close>. A path is a C string without its NUL.
\<close>

unbundle bit_operations_syntax

abbreviation NINODE :: nat where "NINODE \<equiv> 50"
abbreviation NDIRECT :: nat where "NDIRECT \<equiv> 12"
abbreviation NINDIRECT :: nat where "NINDIRECT \<equiv> 128"
abbreviation MAXFILE :: nat where "MAXFILE \<equiv> 140"
abbreviation BPB :: nat where "BPB \<equiv> 4096"
abbreviation IPB :: nat where "IPB \<equiv> 8"
abbreviation DIRSIZ :: nat where "DIRSIZ \<equiv> 14"
abbreviation NDEV :: int where "NDEV \<equiv> 10"
abbreviation ROOTINO :: u32 where "ROOTINO \<equiv> 1"
abbreviation T_DIR :: u16 where "T_DIR \<equiv> 1"
abbreviation T_FILE :: u16 where "T_FILE \<equiv> 2"
abbreviation T_DEV :: u16 where "T_DEV \<equiv> 3"

section \<open>State\<close>

record inode =
  i_dev :: u32
  i_inum :: u32
  i_ref :: int
  i_lock :: sleeplock
  i_valid :: bool
  i_type :: u16
  i_major :: u16
  i_minor :: u16
  i_nlink :: u16
  i_size :: u32
  i_addrs :: "u32 list"

record fstate = lstate +
  sb :: superblock
  icache :: "inode list"

definition upd_inode :: "nat \<Rightarrow> (inode \<Rightarrow> inode) \<Rightarrow> 'a fstate_scheme \<Rightarrow> 'a fstate_scheme" where
  "upd_inode i f s = s\<lparr>icache := (icache s)[i := f (icache s ! i)]\<rparr>"

definition IBLOCK :: "u32 \<Rightarrow> superblock \<Rightarrow> u32" where
  "IBLOCK i sblk = i div of_nat IPB + sb_inodestart sblk"

definition BBLOCK :: "u32 \<Rightarrow> superblock \<Rightarrow> u32" where
  "BBLOCK b sblk = b div of_nat BPB + sb_bmapstart sblk"

section \<open>Blocks\<close>

definition bzero :: "u32 \<Rightarrow> u32 \<Rightarrow> 'a fstate_scheme \<Rightarrow> 'a fstate_scheme outcome" where
  "bzero dev bno s =
     obind (bread dev bno s) (\<lambda>(bp, s).
     let s = upd_buf bp (\<lambda>b. b\<lparr>b_data := (\<lambda>k. if k < BSIZE then 0 else b_data b k)\<rparr>) s in
     obind (log_write bp s) (brelse bp))"

definition bit_free :: "block \<Rightarrow> nat \<Rightarrow> bool" where
  "bit_free d bi \<longleftrightarrow> d (bi div 8) AND push_bit (bi mod 8) 1 = 0"

definition mark_used :: "nat \<Rightarrow> block \<Rightarrow> block" where
  "mark_used bi d = d(bi div 8 := d (bi div 8) OR push_bit (bi mod 8) 1)"

definition mark_free :: "nat \<Rightarrow> block \<Rightarrow> block" where
  "mark_free bi d = d(bi div 8 := d (bi div 8) AND NOT (push_bit (bi mod 8) 1))"

text \<open>The outer loop runs over the first blocks \<open>b\<close> that each block of the bitmap covers.\<close>

fun balloc_from :: "u32 \<Rightarrow> nat list \<Rightarrow> 'a fstate_scheme \<Rightarrow> (u32 \<times> 'a fstate_scheme) outcome" where
  "balloc_from dev [] s = Panic ''balloc: out of blocks''"
| "balloc_from dev (b # bs) s =
     obind (bread dev (BBLOCK (of_nat b) (sb s)) s) (\<lambda>(bp, s).
     case find (\<lambda>bi. b + bi < unat (sb_size (sb s)) \<and> bit_free (b_data (bufs s ! bp)) bi) [0 ..< BPB] of
       Some bi \<Rightarrow>
         let s = upd_buf bp (\<lambda>bf. bf\<lparr>b_data := mark_used bi (b_data bf)\<rparr>) s in
         obind (log_write bp s) (\<lambda>s.
         obind (brelse bp s) (\<lambda>s.
         obind (bzero dev (of_nat (b + bi)) s) (\<lambda>s.
         Ok (of_nat (b + bi), s))))
     | None \<Rightarrow> obind (brelse bp s) (balloc_from dev bs))"

definition balloc :: "u32 \<Rightarrow> 'a fstate_scheme \<Rightarrow> (u32 \<times> 'a fstate_scheme) outcome" where
  "balloc dev s =
     balloc_from dev (map (\<lambda>k. BPB * k) [0 ..< (unat (sb_size (sb s)) + BPB - 1) div BPB]) s"

definition bfree :: "u32 \<Rightarrow> u32 \<Rightarrow> 'a fstate_scheme \<Rightarrow> 'a fstate_scheme outcome" where
  "bfree dev b s =
     obind (readsb dev s) (\<lambda>(sb', s).
     let s = s\<lparr>sb := sb'\<rparr> in
     obind (bread dev (BBLOCK b (sb s)) s) (\<lambda>(bp, s).
     let bi = unat b mod BPB in
     if bit_free (b_data (bufs s ! bp)) bi then Panic ''freeing free block''
     else
       let s = upd_buf bp (\<lambda>bf. bf\<lparr>b_data := mark_free bi (b_data bf)\<rparr>) s in
       obind (log_write bp s) (brelse bp)))"

section \<open>Inodes\<close>

definition iinit :: "u32 \<Rightarrow> 'a fstate_scheme \<Rightarrow> 'a fstate_scheme outcome" where
  "iinit dev s =
     (let s = s\<lparr>icache := map (\<lambda>ip. ip\<lparr>i_lock := initsleeplock (i_lock ip) ''inode''\<rparr>) (icache s)\<rparr> in
      obind (readsb dev s) (\<lambda>(sb', s).
      let s = s\<lparr>sb := sb'\<rparr> in
      cprintf (bytes ''sb: size %d nblocks %d ninodes %d nlog %d logstart %d inodestart %d bmap start %d'' @ nl)
        [ArgInt (sb_size (sb s)), ArgInt (sb_nblocks (sb s)), ArgInt (sb_ninodes (sb s)),
         ArgInt (sb_nlog (sb s)), ArgInt (sb_logstart (sb s)), ArgInt (sb_inodestart (sb s)),
         ArgInt (sb_bmapstart (sb s))] s))"

definition iget :: "u32 \<Rightarrow> u32 \<Rightarrow> 'a fstate_scheme \<Rightarrow> (nat \<times> 'a fstate_scheme) outcome" where
  "iget dev inum s =
     (case scan (\<lambda>ip. i_ref ip > 0 \<and> i_dev ip = dev \<and> i_inum ip = inum) (icache s) of
        Some i \<Rightarrow> Ok (i, upd_inode i (\<lambda>ip. ip\<lparr>i_ref := i_ref ip + 1\<rparr>) s)
      | None \<Rightarrow>
          (case scan (\<lambda>ip. i_ref ip = 0) (icache s) of
             None \<Rightarrow> Panic ''iget: no inodes''
           | Some i \<Rightarrow> Ok (i, upd_inode i (\<lambda>ip. ip\<lparr>i_dev := dev, i_inum := inum, i_ref := 1, i_valid := False\<rparr>) s)))"

text \<open>The byte offset of an inode in its block; \<^verbatim>\<open>struct dinode\<close> has 64 bytes.\<close>

definition dinode_off :: "u32 \<Rightarrow> nat" where "dinode_off inum = 64 * (unat inum mod IPB)"

fun ialloc_from :: "u32 \<Rightarrow> u16 \<Rightarrow> nat list \<Rightarrow> 'a fstate_scheme \<Rightarrow> (nat \<times> 'a fstate_scheme) outcome" where
  "ialloc_from dev ty [] s = Panic ''ialloc: no inodes''"
| "ialloc_from dev ty (n # ns) s =
     (let inum = of_nat n; off = dinode_off inum in
      obind (bread dev (IBLOCK inum (sb s)) s) (\<lambda>(bp, s).
      if get16 (b_data (bufs s ! bp)) off = 0 then
        let s = upd_buf bp (\<lambda>b. b\<lparr>b_data := (\<lambda>k. if off \<le> k \<and> k < off + 64 then 0 else b_data b k)\<rparr>) s;
            s = upd_buf bp (\<lambda>b. b\<lparr>b_data := put16 (b_data b) off ty\<rparr>) s in
        obind (log_write bp s) (\<lambda>s.
        obind (brelse bp s) (\<lambda>s.
        iget dev inum s))
      else obind (brelse bp s) (ialloc_from dev ty ns)))"

definition ialloc :: "u32 \<Rightarrow> u16 \<Rightarrow> 'a fstate_scheme \<Rightarrow> (nat \<times> 'a fstate_scheme) outcome" where
  "ialloc dev ty s = ialloc_from dev ty [1 ..< unat (sb_ninodes (sb s))] s"

fun put_words :: "block \<Rightarrow> nat \<Rightarrow> u32 list \<Rightarrow> block" where
  "put_words d off [] = d"
| "put_words d off (w # ws) = put_words (put32 d off w) (off + 4) ws"

definition put_dinode :: "block \<Rightarrow> nat \<Rightarrow> inode \<Rightarrow> block" where
  "put_dinode d off ip =
     (let d = put16 d off (i_type ip);
          d = put16 d (off + 2) (i_major ip);
          d = put16 d (off + 4) (i_minor ip);
          d = put16 d (off + 6) (i_nlink ip);
          d = put32 d (off + 8) (i_size ip)
      in put_words d (off + 12) (i_addrs ip))"

definition get_dinode :: "block \<Rightarrow> nat \<Rightarrow> inode \<Rightarrow> inode" where
  "get_dinode d off ip =
     ip\<lparr>i_type := get16 d off, i_major := get16 d (off + 2), i_minor := get16 d (off + 4),
        i_nlink := get16 d (off + 6), i_size := get32 d (off + 8),
        i_addrs := map (\<lambda>k. get32 d (off + 12 + 4 * k)) [0 ..< NDIRECT + 1]\<rparr>"

definition iupdate :: "nat \<Rightarrow> 'a fstate_scheme \<Rightarrow> 'a fstate_scheme outcome" where
  "iupdate i s =
     (let ip = icache s ! i in
      obind (bread (i_dev ip) (IBLOCK (i_inum ip) (sb s)) s) (\<lambda>(bp, s).
      let s = upd_buf bp (\<lambda>b. b\<lparr>b_data := put_dinode (b_data b) (dinode_off (i_inum ip)) ip\<rparr>) s in
      obind (log_write bp s) (brelse bp)))"

definition idup :: "nat \<Rightarrow> 'a fstate_scheme \<Rightarrow> 'a fstate_scheme" where
  "idup i s = upd_inode i (\<lambda>ip. ip\<lparr>i_ref := i_ref ip + 1\<rparr>) s"

definition lock_inode :: "nat \<Rightarrow> 'a fstate_scheme \<Rightarrow> 'a fstate_scheme outcome" where
  "lock_inode i s =
     obind (acquiresleep (ChInodeLock i) (i_lock (icache s ! i)) s) (\<lambda>lk.
     Ok (upd_inode i (\<lambda>ip. ip\<lparr>i_lock := lk\<rparr>) s))"

definition unlock_inode :: "nat \<Rightarrow> 'a fstate_scheme \<Rightarrow> 'a fstate_scheme outcome" where
  "unlock_inode i s =
     obind (releasesleep (ChInodeLock i) (i_lock (icache s ! i)) s) (\<lambda>(lk, s).
     Ok (upd_inode i (\<lambda>ip. ip\<lparr>i_lock := lk\<rparr>) s))"

text \<open>The null pointer is \<open>None\<close>.\<close>

definition ilock :: "nat option \<Rightarrow> 'a fstate_scheme \<Rightarrow> 'a fstate_scheme outcome" where
  "ilock p s =
     (case p of None \<Rightarrow> Panic ''ilock''
      | Some i \<Rightarrow>
          if i_ref (icache s ! i) < 1 then Panic ''ilock''
          else
            obind (lock_inode i s) (\<lambda>s.
            if i_valid (icache s ! i) then Ok s
            else
              let ip = icache s ! i in
              obind (bread (i_dev ip) (IBLOCK (i_inum ip) (sb s)) s) (\<lambda>(bp, s).
              let s = upd_inode i (get_dinode (b_data (bufs s ! bp)) (dinode_off (i_inum ip))) s in
              obind (brelse bp s) (\<lambda>s.
              let s = upd_inode i (\<lambda>ip. ip\<lparr>i_valid := True\<rparr>) s in
              if i_type (icache s ! i) = 0 then Panic ''ilock: no type'' else Ok s))))"

definition iunlock :: "nat option \<Rightarrow> 'a fstate_scheme \<Rightarrow> 'a fstate_scheme outcome" where
  "iunlock p s =
     (case p of None \<Rightarrow> Panic ''iunlock''
      | Some i \<Rightarrow>
          if \<not> holdingsleep (i_lock (icache s ! i)) s \<or> i_ref (icache s ! i) < 1 then Panic ''iunlock''
          else unlock_inode i s)"

fun free_addrs :: "nat \<Rightarrow> nat list \<Rightarrow> 'a fstate_scheme \<Rightarrow> 'a fstate_scheme outcome" where
  "free_addrs i [] s = Ok s"
| "free_addrs i (k # ks) s =
     (let a = i_addrs (icache s ! i) ! k in
      if a \<noteq> 0 then
        obind (bfree (i_dev (icache s ! i)) a s) (\<lambda>s.
        free_addrs i ks (upd_inode i (\<lambda>ip. ip\<lparr>i_addrs := (i_addrs ip)[k := 0]\<rparr>) s))
      else free_addrs i ks s)"

fun free_indirect :: "nat \<Rightarrow> nat \<Rightarrow> nat list \<Rightarrow> 'a fstate_scheme \<Rightarrow> 'a fstate_scheme outcome" where
  "free_indirect i bp [] s = Ok s"
| "free_indirect i bp (j # js) s =
     (let a = get32 (b_data (bufs s ! bp)) (4 * j) in
      if a \<noteq> 0 then obind (bfree (i_dev (icache s ! i)) a s) (free_indirect i bp js)
      else free_indirect i bp js s)"

definition itrunc :: "nat \<Rightarrow> 'a fstate_scheme \<Rightarrow> 'a fstate_scheme outcome" where
  "itrunc i s =
     obind (free_addrs i [0 ..< NDIRECT] s) (\<lambda>s.
     obind
       (if i_addrs (icache s ! i) ! NDIRECT \<noteq> 0 then
          obind (bread (i_dev (icache s ! i)) (i_addrs (icache s ! i) ! NDIRECT) s) (\<lambda>(bp, s).
          obind (free_indirect i bp [0 ..< NINDIRECT] s) (\<lambda>s.
          obind (brelse bp s) (\<lambda>s.
          obind (bfree (i_dev (icache s ! i)) (i_addrs (icache s ! i) ! NDIRECT) s) (\<lambda>s.
          Ok (upd_inode i (\<lambda>ip. ip\<lparr>i_addrs := (i_addrs ip)[NDIRECT := 0]\<rparr>) s)))))
        else Ok s)
       (\<lambda>s. iupdate i (upd_inode i (\<lambda>ip. ip\<lparr>i_size := 0\<rparr>) s)))"

definition iput :: "nat \<Rightarrow> 'a fstate_scheme \<Rightarrow> 'a fstate_scheme outcome" where
  "iput i s =
     obind (lock_inode i s) (\<lambda>s.
     obind
       (if i_valid (icache s ! i) \<and> i_nlink (icache s ! i) = 0 \<and> i_ref (icache s ! i) = 1 then
          obind (itrunc i s) (\<lambda>s.
          obind (iupdate i (upd_inode i (\<lambda>ip. ip\<lparr>i_type := 0\<rparr>) s)) (\<lambda>s.
          Ok (upd_inode i (\<lambda>ip. ip\<lparr>i_valid := False\<rparr>) s)))
        else Ok s) (\<lambda>s.
     obind (unlock_inode i s) (\<lambda>s.
     Ok (upd_inode i (\<lambda>ip. ip\<lparr>i_ref := i_ref ip - 1\<rparr>) s))))"

definition iunlockput :: "nat \<Rightarrow> 'a fstate_scheme \<Rightarrow> 'a fstate_scheme outcome" where
  "iunlockput i s = obind (iunlock (Some i) s) (iput i)"

section \<open>File contents\<close>

definition bmap :: "nat \<Rightarrow> u32 \<Rightarrow> 'a fstate_scheme \<Rightarrow> (u32 \<times> 'a fstate_scheme) outcome" where
  "bmap i bn s =
     (let dev = i_dev (icache s ! i) in
      if bn < of_nat NDIRECT then
        let addr = i_addrs (icache s ! i) ! unat bn in
        if addr = 0 then
          obind (balloc dev s) (\<lambda>(addr, s).
          Ok (addr, upd_inode i (\<lambda>ip. ip\<lparr>i_addrs := (i_addrs ip)[unat bn := addr]\<rparr>) s))
        else Ok (addr, s)
      else
        let bn = bn - of_nat NDIRECT in
        if bn < of_nat NINDIRECT then
          let addr = i_addrs (icache s ! i) ! NDIRECT in
          obind
            (if addr = 0 then
               obind (balloc dev s) (\<lambda>(addr, s).
               Ok (addr, upd_inode i (\<lambda>ip. ip\<lparr>i_addrs := (i_addrs ip)[NDIRECT := addr]\<rparr>) s))
             else Ok (addr, s)) (\<lambda>(addr, s).
          obind (bread dev addr s) (\<lambda>(bp, s).
          let addr = get32 (b_data (bufs s ! bp)) (4 * unat bn) in
          obind
            (if addr = 0 then
               obind (balloc dev s) (\<lambda>(addr, s).
               let s = upd_buf bp (\<lambda>b. b\<lparr>b_data := put32 (b_data b) (4 * unat bn) addr\<rparr>) s in
               obind (log_write bp s) (\<lambda>s. Ok (addr, s)))
             else Ok (addr, s)) (\<lambda>(addr, s).
          obind (brelse bp s) (\<lambda>s. Ok (addr, s)))))
        else Panic ''bmap: out of range'')"

record stat =
  st_type :: u16
  st_dev :: u32
  st_ino :: u32
  st_nlink :: u16
  st_size :: u32

definition stati :: "nat \<Rightarrow> 'a fstate_scheme \<Rightarrow> stat" where
  "stati i s =
     (let ip = icache s ! i in
      \<lparr>st_type = i_type ip, st_dev = i_dev ip, st_ino = i_inum ip, st_nlink = i_nlink ip,
       st_size = i_size ip\<rparr>)"

text \<open>
  The table \<^verbatim>\<open>devsw\<close> of device functions is an argument: the console fills in its
  entry after this layer is built. A device's read returns the bytes it delivers, or
  \<open>None\<close> for -1.
\<close>

record 'a devsw =
  dev_read :: "nat \<Rightarrow> u32 \<Rightarrow> 'a \<Rightarrow> (u8 list option \<times> 'a) outcome"
  dev_write :: "nat \<Rightarrow> u8 list \<Rightarrow> 'a \<Rightarrow> (int \<times> 'a) outcome"

type_synonym 'a devtab = "int \<Rightarrow> 'a devsw option"

text \<open>\<open>rem\<close> bytes are still to be read, from \<open>off\<close> on.\<close>

function readi_loop :: "nat \<Rightarrow> nat \<Rightarrow> nat \<Rightarrow> 'a fstate_scheme \<Rightarrow> (u8 list \<times> 'a fstate_scheme) outcome" where
  "readi_loop i off rem s =
     (if rem = 0 then Ok ([], s)
      else
        obind (bmap i (of_nat (off div BSIZE)) s) (\<lambda>(addr, s).
        obind (bread (i_dev (icache s ! i)) addr s) (\<lambda>(bp, s).
        let m = min rem (BSIZE - off mod BSIZE);
            xs = map (\<lambda>k. b_data (bufs s ! bp) (off mod BSIZE + k)) [0 ..< m] in
        obind (brelse bp s) (\<lambda>s.
        obind (readi_loop i (off + m) (rem - m) s) (\<lambda>(ys, s).
        Ok (xs @ ys, s))))))"
  by pat_completeness auto
termination
  by (relation "measure (\<lambda>(i, off, rem, s). rem)") (auto simp: min_def)

declare readi_loop.simps [simp del]

definition readi :: "'a fstate_scheme devtab \<Rightarrow> nat \<Rightarrow> u32 \<Rightarrow> u32 \<Rightarrow> 'a fstate_scheme \<Rightarrow>
    (u8 list option \<times> 'a fstate_scheme) outcome" where
  "readi devs i off n s =
     (let ip = icache s ! i in
      if i_type ip = T_DEV then
        if sint (i_major ip) < 0 \<or> sint (i_major ip) \<ge> NDEV then Ok (None, s)
        else (case devs (sint (i_major ip)) of None \<Rightarrow> Ok (None, s) | Some d \<Rightarrow> dev_read d i n s)
      else if off > i_size ip \<or> off + n < off then Ok (None, s)
      else
        let n = (if off + n > i_size ip then i_size ip - off else n) in
        obind (readi_loop i (unat off) (unat n) s) (\<lambda>(xs, s). Ok (Some xs, s)))"

text \<open>The bytes of \<open>xs\<close> go into the block from \<open>o\<close> on.\<close>

definition put_bytes :: "block \<Rightarrow> nat \<Rightarrow> u8 list \<Rightarrow> block" where
  "put_bytes d off xs = (\<lambda>k. if off \<le> k \<and> k < off + length xs then xs ! (k - off) else d k)"

function writei_loop :: "nat \<Rightarrow> nat \<Rightarrow> u8 list \<Rightarrow> 'a fstate_scheme \<Rightarrow> (nat \<times> 'a fstate_scheme) outcome" where
  "writei_loop i off src s =
     (if src = [] then Ok (off, s)
      else
        obind (bmap i (of_nat (off div BSIZE)) s) (\<lambda>(addr, s).
        obind (bread (i_dev (icache s ! i)) addr s) (\<lambda>(bp, s).
        let m = min (length src) (BSIZE - off mod BSIZE);
            s = upd_buf bp (\<lambda>b. b\<lparr>b_data := put_bytes (b_data b) (off mod BSIZE) (take m src)\<rparr>) s in
        obind (log_write bp s) (\<lambda>s.
        obind (brelse bp s) (\<lambda>s.
        writei_loop i (off + m) (drop m src) s)))))"
  by pat_completeness auto
termination
  by (relation "measure (\<lambda>(i, off, src, s). length src)") (auto simp: min_def)

declare writei_loop.simps [simp del]

text \<open>The number of bytes is the length of \<open>src\<close>; -1 is the error return.\<close>

definition writei :: "'a fstate_scheme devtab \<Rightarrow> nat \<Rightarrow> u8 list \<Rightarrow> u32 \<Rightarrow> 'a fstate_scheme \<Rightarrow>
    (int \<times> 'a fstate_scheme) outcome" where
  "writei devs i src off s =
     (let ip = icache s ! i; n = of_nat (length src) in
      if i_type ip = T_DEV then
        if sint (i_major ip) < 0 \<or> sint (i_major ip) \<ge> NDEV then Ok (- 1, s)
        else (case devs (sint (i_major ip)) of None \<Rightarrow> Ok (- 1, s) | Some d \<Rightarrow> dev_write d i src s)
      else if off > i_size ip \<or> off + n < off then Ok (- 1, s)
      else if off + n > of_nat (MAXFILE * BSIZE) then Ok (- 1, s)
      else
        obind (writei_loop i (unat off) src s) (\<lambda>(off, s).
        obind
          (if n > 0 \<and> of_nat off > i_size (icache s ! i) then
             iupdate i (upd_inode i (\<lambda>ip. ip\<lparr>i_size := of_nat off\<rparr>) s)
           else Ok s) (\<lambda>s. Ok (int (length src), s))))"

section \<open>Directories\<close>

text \<open>
  A directory entry is 16 bytes: the inode number and a name of at most 14 bytes, padded
  with NULs. A directory is never a device, so no device table is needed.
\<close>

abbreviation no_devs :: "'a devtab" where "no_devs \<equiv> (\<lambda>n. None)"

definition cstr_of :: "u8 list \<Rightarrow> cstr" where
  "cstr_of xs = (\<lambda>k. if k < length xs then xs ! k else 0)"

definition de_inum :: "u8 list \<Rightarrow> u32" where
  "de_inum de = ucast (get16 (cstr_of de) 0)"

definition de_name :: "u8 list \<Rightarrow> u8 list" where "de_name de = take DIRSIZ (drop 2 de)"

definition namecmp :: "u8 list \<Rightarrow> u8 list \<Rightarrow> int" where
  "namecmp p q = strncmp (cstr_of p) (cstr_of q) DIRSIZ"

definition dirent_offsets :: "nat \<Rightarrow> nat list" where
  "dirent_offsets sz = map (\<lambda>k. 16 * k) [0 ..< (sz + 15) div 16]"

fun dirlookup_from :: "nat \<Rightarrow> u8 list \<Rightarrow> nat list \<Rightarrow> 'a fstate_scheme \<Rightarrow>
    ((nat \<times> nat) option \<times> 'a fstate_scheme) outcome" where
  "dirlookup_from dp nm [] s = Ok (None, s)"
| "dirlookup_from dp nm (off # offs) s =
     obind (readi no_devs dp (of_nat off) 16 s) (\<lambda>(r, s).
     case r of
       None \<Rightarrow> Panic ''dirlookup read''
     | Some de \<Rightarrow>
         if length de \<noteq> 16 then Panic ''dirlookup read''
         else if de_inum de = 0 then dirlookup_from dp nm offs s
         else if namecmp nm (de_name de) = 0 then
           obind (iget (i_dev (icache s ! dp)) (de_inum de) s) (\<lambda>(i, s). Ok (Some (i, off), s))
         else dirlookup_from dp nm offs s)"

text \<open>The result is the inode found with the offset of its entry.\<close>

definition dirlookup :: "nat \<Rightarrow> u8 list \<Rightarrow> 'a fstate_scheme \<Rightarrow> ((nat \<times> nat) option \<times> 'a fstate_scheme) outcome" where
  "dirlookup dp nm s =
     (if i_type (icache s ! dp) \<noteq> T_DIR then Panic ''dirlookup not DIR''
      else dirlookup_from dp nm (dirent_offsets (unat (i_size (icache s ! dp)))) s)"

text \<open>The first empty entry, or the end of the directory.\<close>

fun dirlink_slot :: "nat \<Rightarrow> nat list \<Rightarrow> nat \<Rightarrow> 'a fstate_scheme \<Rightarrow> (nat \<times> 'a fstate_scheme) outcome" where
  "dirlink_slot dp [] end_off s = Ok (end_off, s)"
| "dirlink_slot dp (off # offs) end_off s =
     obind (readi no_devs dp (of_nat off) 16 s) (\<lambda>(r, s).
     case r of
       None \<Rightarrow> Panic ''dirlink read''
     | Some de \<Rightarrow>
         if length de \<noteq> 16 then Panic ''dirlink read''
         else if de_inum de = 0 then Ok (off, s)
         else dirlink_slot dp offs end_off s)"

definition make_dirent :: "u8 list \<Rightarrow> u32 \<Rightarrow> u8 list" where
  "make_dirent nm inum =
     (let inum16 = (ucast inum :: u16)
      in [ucast inum16, ucast (drop_bit 8 inum16)] @
         map (strncpy (\<lambda>k. 0) (cstr_of nm) (int DIRSIZ)) [0 ..< DIRSIZ])"

definition dirlink :: "nat \<Rightarrow> u8 list \<Rightarrow> u32 \<Rightarrow> 'a fstate_scheme \<Rightarrow> (bool \<times> 'a fstate_scheme) outcome" where
  "dirlink dp nm inum s =
     obind (dirlookup dp nm s) (\<lambda>(r, s).
     case r of
       Some (i, off) \<Rightarrow> obind (iput i s) (\<lambda>s. Ok (False, s))
     | None \<Rightarrow>
         let offs = dirent_offsets (unat (i_size (icache s ! dp))) in
         obind (dirlink_slot dp offs (16 * length offs) s) (\<lambda>(off, s).
         obind (writei no_devs dp (make_dirent nm inum) (of_nat off) s) (\<lambda>(n, s).
         if n \<noteq> 16 then Panic ''dirlink'' else Ok (True, s))))"

section \<open>Paths\<close>

abbreviation slash :: u8 where "slash \<equiv> 47"

text \<open>The rest of the path and the element taken off it; \<open>None\<close> where there is none.\<close>

definition skipelem :: "u8 list \<Rightarrow> (u8 list \<times> u8 list) option" where
  "skipelem path =
     (let path = dropWhile (\<lambda>c. c = slash) path in
      if path = [] then None
      else
        let s = takeWhile (\<lambda>c. c \<noteq> slash) path;
            path = dropWhile (\<lambda>c. c \<noteq> slash) path;
            name = (if length s \<ge> DIRSIZ then take DIRSIZ s else s)
        in Some (dropWhile (\<lambda>c. c = slash) path, name))"

lemma skipelem_shorter: "skipelem path = Some (rest, name) \<Longrightarrow> length rest < length path"
proof -
  assume a: "skipelem path = Some (rest, name)"
  define p where "p = dropWhile (\<lambda>c. c = slash) path"
  have p: "p \<noteq> []" "rest = dropWhile (\<lambda>c. c = slash) (dropWhile (\<lambda>c. c \<noteq> slash) p)"
    using a by (auto simp: skipelem_def p_def Let_def split: if_splits)
  have "hd p \<noteq> slash" using p(1) hd_dropWhile unfolding p_def by blast
  with p(1) obtain c cs where c: "p = c # cs" "c \<noteq> slash" by (cases p) auto
  have "length rest \<le> length cs"
    unfolding p(2) c(1) using c(2) by (simp add: order.trans [OF length_dropWhile_le length_dropWhile_le])
  moreover have "length p \<le> length path" unfolding p_def by (rule length_dropWhile_le)
  ultimately show ?thesis using c(1) by simp
qed

text \<open>
  The loop of \<^verbatim>\<open>namex\<close>. \<open>parent\<close> asks for the directory that holds the last element,
  and the result then carries that element.
\<close>

function namex_loop :: "bool \<Rightarrow> nat \<Rightarrow> u8 list \<Rightarrow> u8 list \<Rightarrow> 'a fstate_scheme \<Rightarrow>
    ((nat \<times> u8 list) option \<times> 'a fstate_scheme) outcome" where
  "namex_loop parent ip path nm s =
     (case skipelem path of
        None \<Rightarrow>
          if parent then obind (iput ip s) (\<lambda>s. Ok (None, s)) else Ok (Some (ip, nm), s)
      | Some (path, nm) \<Rightarrow>
          obind (ilock (Some ip) s) (\<lambda>s.
          if i_type (icache s ! ip) \<noteq> T_DIR then obind (iunlockput ip s) (\<lambda>s. Ok (None, s))
          else if parent \<and> path = [] then obind (iunlock (Some ip) s) (\<lambda>s. Ok (Some (ip, nm), s))
          else
            obind (dirlookup ip nm s) (\<lambda>(r, s).
            case r of
              None \<Rightarrow> obind (iunlockput ip s) (\<lambda>s. Ok (None, s))
            | Some (nxt, off) \<Rightarrow> obind (iunlockput ip s) (\<lambda>s. namex_loop parent nxt path nm s))))"
  by pat_completeness auto
termination
  by (relation "measure (\<lambda>(parent, ip, path, nm, s). length path)") (auto dest: skipelem_shorter)

declare namex_loop.simps [simp del]

text \<open>A process without a working directory has its inode pointer null; \<^verbatim>\<open>idup\<close> would fault.\<close>

definition namex :: "u8 list \<Rightarrow> bool \<Rightarrow> 'a fstate_scheme \<Rightarrow> ((nat \<times> u8 list) option \<times> 'a fstate_scheme) outcome" where
  "namex path parent s =
     obind
       (if path \<noteq> [] \<and> hd path = slash then iget ROOTDEV ROOTINO s
        else
          let cwd = the (p_cwd (procs s ! the (c_proc (this_cpu s))))
          in Ok (cwd, idup cwd s))
       (\<lambda>(ip, s). namex_loop parent ip path [] s)"

definition namei :: "u8 list \<Rightarrow> 'a fstate_scheme \<Rightarrow> (nat option \<times> 'a fstate_scheme) outcome" where
  "namei path s = obind (namex path False s) (\<lambda>(r, s). Ok (map_option fst r, s))"

definition nameiparent :: "u8 list \<Rightarrow> 'a fstate_scheme \<Rightarrow> ((nat \<times> u8 list) option \<times> 'a fstate_scheme) outcome" where
  "nameiparent path s = namex path True s"

section \<open>An example file system\<close>

definition example_sb :: superblock where
  "example_sb = \<lparr>sb_size = 1000, sb_nblocks = 941, sb_ninodes = 200, sb_nlog = 30, sb_logstart = 2,
     sb_inodestart = 32, sb_bmapstart = 58\<rparr>"

definition free_inode :: inode where
  "free_inode = \<lparr>i_dev = 0, i_inum = 0, i_ref = 0, i_lock = \<lparr>sl_locked = False, sl_name = ''inode'', sl_pid = 0\<rparr>,
     i_valid = False, i_type = 0, i_major = 0, i_minor = 0, i_nlink = 0, i_size = 0,
     i_addrs = replicate (NDIRECT + 1) 0\<rparr>"

definition example_fstate :: "'m \<Rightarrow> 'm fstate_scheme" where
  "example_fstate m = example_lstate (fstate_ext example_sb (replicate NINODE free_inode) m)"

end
