(* ===== verification/Pipe.thy ===== *)
theory Pipe
  imports Fs
begin

text \<open>
  \<^verbatim>\<open>pipe.c\<close> without \<^verbatim>\<open>pipealloc\<close>, which is in theory \<open>File\<close>: a ring of 512 bytes with free-running 32-bit counters. A
  pipe lives in a page of its own and is named by the page's address. The pipe's lock makes
  each run between two sleeps one atomic step and does not appear.
\<close>

abbreviation PIPESIZE :: nat where "PIPESIZE \<equiv> 512"

record pipe =
  pi_data :: "nat \<Rightarrow> u8"
  nread :: u32
  nwrite :: u32
  readopen :: bool
  writeopen :: bool

record pipestate = fstate +
  pipes :: "u32 \<Rightarrow> pipe"

definition upd_pipe :: "u32 \<Rightarrow> (pipe \<Rightarrow> pipe) \<Rightarrow> 'a pipestate_scheme \<Rightarrow> 'a pipestate_scheme" where
  "upd_pipe p f s = s\<lparr>pipes := (pipes s)(p := f (pipes s p))\<rparr>"

section \<open>Operations\<close>

text \<open>What \<^verbatim>\<open>pipealloc\<close> stores into a fresh page.\<close>

definition pipe_init :: "pipe \<Rightarrow> pipe" where
  "pipe_init p = p\<lparr>readopen := True, writeopen := True, nwrite := 0, nread := 0\<rparr>"

definition pipeclose :: "u32 \<Rightarrow> bool \<Rightarrow> 'a pipestate_scheme \<Rightarrow> 'a pipestate_scheme outcome" where
  "pipeclose p writable s =
     obind
       (if writable then wakeup (ChPipeRead p) (upd_pipe p (\<lambda>q. q\<lparr>writeopen := False\<rparr>) s)
        else wakeup (ChPipeWrite p) (upd_pipe p (\<lambda>q. q\<lparr>readopen := False\<rparr>) s)) (\<lambda>s.
     if \<not> readopen (pipes s p) \<and> \<not> writeopen (pipes s p) then kfree p s else Ok s)"

definition pipe_put :: "u8 \<Rightarrow> pipe \<Rightarrow> pipe" where
  "pipe_put c p =
     p\<lparr>pi_data := (pi_data p)(unat (nwrite p mod of_nat PIPESIZE) := c), nwrite := nwrite p + 1\<rparr>"

definition pipe_get :: "pipe \<Rightarrow> u8 \<times> pipe" where
  "pipe_get p = (pi_data p (unat (nread p mod of_nat PIPESIZE)), p\<lparr>nread := nread p + 1\<rparr>)"

definition pipe_full :: "pipe \<Rightarrow> bool" where
  "pipe_full p \<longleftrightarrow> nwrite p = nread p + of_nat PIPESIZE"

definition pipe_empty :: "pipe \<Rightarrow> bool" where
  "pipe_empty p \<longleftrightarrow> nread p = nwrite p"

text \<open>
  A call that must wait stops as \<open>Blocked\<close>, with the process asleep and what it has left to
  do; the resumed call is \<open>pipewrite_resume\<close> or \<open>piperead_resume\<close>.
\<close>

datatype 'a progress = Return 'a | Blocked "u8 list"

text \<open>\<open>src\<close> is what is left to write and \<open>n\<close> the size of the whole request.\<close>

fun pipewrite_loop :: "nat \<Rightarrow> u32 \<Rightarrow> int \<Rightarrow> u8 list \<Rightarrow> 'a pipestate_scheme \<Rightarrow>
    (int progress \<times> 'a pipestate_scheme) outcome" where
  "pipewrite_loop curproc p n [] s =
     obind (wakeup (ChPipeRead p) s) (\<lambda>s. Ok (Return n, s))"
| "pipewrite_loop curproc p n (c # cs) s =
     (if pipe_full (pipes s p) then
        if \<not> readopen (pipes s p) \<or> p_killed (procs s ! curproc) then Ok (Return (- 1), s)
        else
          obind (wakeup (ChPipeRead p) s) (\<lambda>s.
          obind (sleep_enter curproc (ChPipeWrite p) False s) (\<lambda>s. Ok (Blocked (c # cs), s)))
      else pipewrite_loop curproc p n cs (upd_pipe p (pipe_put c) s))"

definition pipewrite :: "nat \<Rightarrow> u32 \<Rightarrow> u8 list \<Rightarrow> 'a pipestate_scheme \<Rightarrow>
    (int progress \<times> 'a pipestate_scheme) outcome" where
  "pipewrite curproc p src s = pipewrite_loop curproc p (int (length src)) src s"

definition pipewrite_resume :: "nat \<Rightarrow> u32 \<Rightarrow> int \<Rightarrow> u8 list \<Rightarrow> 'a pipestate_scheme \<Rightarrow>
    (int progress \<times> 'a pipestate_scheme) outcome" where
  "pipewrite_resume curproc p n src s =
     obind (sleep_resume curproc False s) (pipewrite_loop curproc p n src)"

fun pipe_drain :: "nat \<Rightarrow> pipe \<Rightarrow> u8 list \<times> pipe" where
  "pipe_drain 0 p = ([], p)"
| "pipe_drain (Suc n) p =
     (if pipe_empty p then ([], p)
      else case pipe_get p of (c, p) \<Rightarrow> (case pipe_drain n p of (cs, p) \<Rightarrow> (c # cs, p)))"

text \<open>
  The bytes returned are those the code stores at \<^verbatim>\<open>addr\<close>; \<open>None\<close> is -1. A negative \<open>n\<close>
  reads nothing.
\<close>

definition piperead :: "nat \<Rightarrow> u32 \<Rightarrow> int \<Rightarrow> 'a pipestate_scheme \<Rightarrow>
    (u8 list option progress \<times> 'a pipestate_scheme) outcome" where
  "piperead curproc p n s =
     (if pipe_empty (pipes s p) \<and> writeopen (pipes s p) then
        if p_killed (procs s ! curproc) then Ok (Return None, s)
        else obind (sleep_enter curproc (ChPipeRead p) False s) (\<lambda>s. Ok (Blocked [], s))
      else
        (case pipe_drain (nat n) (pipes s p) of (cs, q) \<Rightarrow>
           obind (wakeup (ChPipeWrite p) (upd_pipe p (\<lambda>x. q) s)) (\<lambda>s. Ok (Return (Some cs), s))))"

definition piperead_resume :: "nat \<Rightarrow> u32 \<Rightarrow> int \<Rightarrow> 'a pipestate_scheme \<Rightarrow>
    (u8 list option progress \<times> 'a pipestate_scheme) outcome" where
  "piperead_resume curproc p n s = obind (sleep_resume curproc False s) (piperead curproc p n)"

section \<open>Byte queues\<close>

text \<open>
  What a ring buffer promises its users: \<open>contents\<close> is a first-in first-out queue of at
  most \<open>capacity\<close> bytes.
\<close>

locale byte_queue =
  fixes contents :: "'q \<Rightarrow> u8 list"
    and put :: "u8 \<Rightarrow> 'q \<Rightarrow> 'q"
    and get :: "'q \<Rightarrow> u8 \<times> 'q"
    and capacity :: nat
    and ok :: "'q \<Rightarrow> bool"
  assumes put_law: "ok q \<Longrightarrow> length (contents q) < capacity \<Longrightarrow>
      contents (put x q) = contents q @ [x] \<and> ok (put x q)"
    and get_law: "ok q \<Longrightarrow> contents q = x # xs \<Longrightarrow>
      fst (get q) = x \<and> contents (snd (get q)) = xs \<and> ok (snd (get q))"
begin

lemma put_all:
  "ok q \<Longrightarrow> length (contents q) + length xs \<le> capacity \<Longrightarrow>
   contents (fold put xs q) = contents q @ xs \<and> ok (fold put xs q)"
proof (induction xs arbitrary: q)
  case Nil
  then show ?case by simp
next
  case (Cons x xs)
  have "contents (put x q) = contents q @ [x]" "ok (put x q)"
    using put_law [of q x] Cons.prems by simp_all
  with Cons.IH [of "put x q"] Cons.prems show ?case by simp
qed

end

section \<open>A pipe is a byte queue\<close>

definition ring_used :: "pipe \<Rightarrow> nat" where "ring_used p = unat (nwrite p - nread p)"

definition pipe_contents :: "pipe \<Rightarrow> u8 list" where
  "pipe_contents p = map (\<lambda>k. pi_data p (unat ((nread p + of_nat k) mod of_nat PIPESIZE))) [0 ..< ring_used p]"

definition pipe_ok :: "pipe \<Rightarrow> bool" where "pipe_ok p \<longleftrightarrow> ring_used p \<le> PIPESIZE"

lemma unat_ring_index: "unat ((a :: u32) mod of_nat PIPESIZE) = unat a mod 512"
  by (simp add: unat_mod)

lemma unat_ring_offset:
  assumes "k < 4294967296" shows "unat ((a + of_nat k) mod of_nat PIPESIZE :: u32) = (unat a + k) mod 512"
proof -
  have "unat (a + of_nat k) = (unat a + k) mod 4294967296"
    using assms by (simp add: unat_word_ariths unat_of_nat32)
  then show ?thesis unfolding unat_ring_index by (simp add: mod_mod_cancel)
qed

lemma ring_distinct:
  assumes "i < 512" "j < 512" "i \<noteq> j"
  shows "unat ((a + of_nat i) mod of_nat PIPESIZE :: u32) \<noteq> unat ((a + of_nat j) mod of_nat PIPESIZE :: u32)"
proof -
  have "i < 4294967296" "j < 4294967296" using assms by simp_all
  then show ?thesis using add_mod_inj [OF _ assms(1,2)] assms(3)
    unfolding unat_ring_offset [OF \<open>i < 4294967296\<close>] unat_ring_offset [OF \<open>j < 4294967296\<close>] by blast
qed

lemma pipe_full_iff: "pipe_ok p \<Longrightarrow> pipe_full p \<longleftrightarrow> ring_used p = PIPESIZE"
proof -
  assume ok: "pipe_ok p"
  have "pipe_full p \<longleftrightarrow> nwrite p - nread p = 512" unfolding pipe_full_def by (auto simp: algebra_simps)
  also have "\<dots> \<longleftrightarrow> ring_used p = 512" unfolding ring_used_def by (simp add: word_unat_eq_iff)
  finally show ?thesis .
qed

lemma pipe_empty_iff: "pipe_empty p \<longleftrightarrow> ring_used p = 0"
  unfolding pipe_empty_def ring_used_def by (auto simp: unat_eq_0)

lemma length_pipe_contents [simp]: "length (pipe_contents p) = ring_used p"
  by (simp add: pipe_contents_def)

lemma nwrite_eq: "nwrite p = nread p + of_nat (ring_used p)"
  by (simp add: ring_used_def)

lemma ring_used_put:
  assumes "ring_used p < PIPESIZE"
  shows "ring_used (pipe_put c p) = ring_used p + 1"
proof -
  have "nwrite (pipe_put c p) - nread (pipe_put c p) = (nwrite p - nread p) + 1"
    by (simp add: pipe_put_def)
  moreover have "unat ((nwrite p - nread p) + 1) = unat (nwrite p - nread p) + 1"
    using assms by (subst unat_add32) (simp_all add: ring_used_def)
  ultimately show ?thesis unfolding ring_used_def by metis
qed

lemma pipe_contents_put:
  assumes "ring_used p < PIPESIZE"
  shows "pipe_contents (pipe_put c p) = pipe_contents p @ [c]"
proof -
  let ?n = "ring_used p"
  have w: "nwrite p = nread p + of_nat ?n" by (rule nwrite_eq)
  have old: "pi_data (pipe_put c p) (unat ((nread p + of_nat k) mod of_nat PIPESIZE)) =
      pi_data p (unat ((nread p + of_nat k) mod of_nat PIPESIZE))" if "k < ?n" for k
    using ring_distinct [of k ?n "nread p"] that assms unfolding pipe_put_def w by simp
  have new: "pi_data (pipe_put c p) (unat ((nread p + of_nat ?n) mod of_nat PIPESIZE)) = c"
    unfolding pipe_put_def w by simp
  have r: "nread (pipe_put c p) = nread p" by (simp add: pipe_put_def)
  show ?thesis
    unfolding pipe_contents_def ring_used_put [OF assms] r
    using old new by (simp del: of_nat_numeral)
qed

lemma ring_used_get:
  assumes "0 < ring_used p" shows "ring_used (snd (pipe_get p)) = ring_used p - 1"
proof -
  have "unat (nwrite p - nread p - 1) = unat (nwrite p - nread p) - 1"
    using assms by (intro unat_minus_one) (auto simp: ring_used_def)
  then show ?thesis by (simp add: ring_used_def pipe_get_def diff_diff_eq)
qed

lemma pipe_contents_get:
  assumes "0 < ring_used p"
  shows "pipe_contents p = fst (pipe_get p) # pipe_contents (snd (pipe_get p))"
proof -
  have n: "ring_used p = Suc (ring_used p - 1)" using assms by simp
  have s: "pi_data (snd (pipe_get p)) = pi_data p" "nread (snd (pipe_get p)) = nread p + 1"
    by (simp_all add: pipe_get_def)
  have "pipe_contents p = map (\<lambda>k. pi_data p (unat ((nread p + of_nat k) mod of_nat PIPESIZE))) (0 # map Suc [0 ..< ring_used p - 1])"
    unfolding pipe_contents_def by (subst n) (simp only: upt_conv_Cons zero_less_Suc map_Suc_upt)
  also have "\<dots> = fst (pipe_get p) # pipe_contents (snd (pipe_get p))"
    unfolding pipe_contents_def ring_used_get [OF assms] s
    by (simp add: pipe_get_def add.assoc)
  finally show ?thesis .
qed

interpretation pq: byte_queue pipe_contents pipe_put pipe_get PIPESIZE pipe_ok
proof unfold_locales
  fix q x assume "pipe_ok q" "length (pipe_contents q) < PIPESIZE"
  then show "pipe_contents (pipe_put x q) = pipe_contents q @ [x] \<and> pipe_ok (pipe_put x q)"
    using pipe_contents_put [of q x] ring_used_put [of q x] by (simp add: pipe_ok_def)
next
  fix q x xs assume q: "pipe_ok q" "pipe_contents q = x # xs"
  then have "0 < ring_used q" using length_pipe_contents [of q] by simp
  then show "fst (pipe_get q) = x \<and> pipe_contents (snd (pipe_get q)) = xs \<and> pipe_ok (snd (pipe_get q))"
    using pipe_contents_get [of q] ring_used_get [of q] q by (simp add: pipe_ok_def)
qed

lemma pipe_put_flags [simp]: "readopen (pipe_put c p) = readopen p" "writeopen (pipe_put c p) = writeopen p"
  by (simp_all add: pipe_put_def)

lemma pipe_drain_contents:
  "pipe_ok p \<Longrightarrow> pipe_drain n p = (cs, q) \<Longrightarrow>
   cs = take n (pipe_contents p) \<and> pipe_contents q = drop n (pipe_contents p) \<and> pipe_ok q \<and>
   readopen q = readopen p \<and> writeopen q = writeopen p"
proof (induction n arbitrary: p cs q)
  case 0
  then show ?case by simp
next
  case (Suc n)
  show ?case
  proof (cases "pipe_empty p")
    case True
    then have "length (pipe_contents p) = 0" by (simp add: pipe_empty_iff)
    then have "pipe_contents p = []" by (simp only: length_0_conv)
    with Suc.prems True show ?thesis by simp
  next
    case False
    then have pos: "0 < ring_used p" using pipe_empty_iff by simp
    obtain ds r where d: "pipe_drain n (snd (pipe_get p)) = (ds, r)" by fastforce
    have "cs = fst (pipe_get p) # ds" "q = r"
      using Suc.prems(2) False d by (auto split: prod.splits)
    moreover have "pipe_ok (snd (pipe_get p))"
      using Suc.prems(1) ring_used_get [OF pos] by (simp add: pipe_ok_def)
    moreover have "readopen (snd (pipe_get p)) = readopen p" "writeopen (snd (pipe_get p)) = writeopen p"
      by (simp_all add: pipe_get_def)
    ultimately show ?thesis using Suc.IH [OF _ d] pipe_contents_get [OF pos] by simp
  qed
qed
section \<open>What a call delivers\<close>

lemma wakeup_pipes:
  assumes "quiet s"
  obtains s' where "wakeup ch s = Ok s'" "quiet s'" "pipes s' = pipes s"
    "procs s' = map (wake (Some ch)) (procs s)"
proof -
  from wakeup_Ok [OF assms, of ch] obtain s' where s': "wakeup ch s = Ok s'" "quiet s'"
    "same_but_lock (s\<lparr>procs := map (wake (Some ch)) (procs s)\<rparr>) s'" by blast
  from s'(3) have "pipes s' = pipes s" "procs s' = map (wake (Some ch)) (procs s)"
    unfolding same_but_lock_iff by auto
  with s' show thesis by (intro that) auto
qed

lemma sleep_pipes:
  assumes "quiet s" "i < length (procs s)"
  obtains s' where "sleep_enter i ch False s = Ok s'" "pipes s' = pipes s"
    "procs s' = asleep i ch (procs s)"
proof -
  from sleep_enter_Ok [OF assms, of ch] obtain s' where s': "sleep_enter i ch False s = Ok s'"
    "same_but_lock (s\<lparr>procs := asleep i ch (procs s)\<rparr>) s'" by blast
  from s'(2) have "pipes s' = pipes s" "procs s' = asleep i ch (procs s)"
    unfolding same_but_lock_iff by auto
  with s' show thesis by (intro that) auto
qed

definition sleeps_on :: "chan \<Rightarrow> proc \<Rightarrow> bool" where
  "sleeps_on ch q \<longleftrightarrow> p_state q = SLEEPING \<and> p_chan q = Some ch"

lemma not_sleeps_wake: "\<not> sleeps_on ch (wake (Some ch) q)"
  by (simp add: sleeps_on_def wake_def)

text \<open>The state a stopped or finished writer leaves, given the bytes \<open>ws\<close> it has put in.\<close>

definition write_result :: "nat \<Rightarrow> u32 \<Rightarrow> int \<Rightarrow> u8 list \<Rightarrow> 'a pipestate_scheme \<Rightarrow> int progress \<Rightarrow>
    'a pipestate_scheme \<Rightarrow> u8 list \<Rightarrow> bool" where
  "write_result i p n src s r s' ws \<longleftrightarrow>
     pipe_ok (pipes s' p) \<and> pipe_contents (pipes s' p) = pipe_contents (pipes s p) @ ws \<and>
     (\<forall>q. q \<noteq> p \<longrightarrow> pipes s' q = pipes s q) \<and>
     (case r of
        Return v \<Rightarrow> v = n \<and> ws = src \<and> (\<forall>x \<in> set (procs s'). \<not> sleeps_on (ChPipeRead p) x) \<or>
          v = - 1 \<and> (\<exists>rest. src = ws @ rest \<and> rest \<noteq> []) \<and> pipe_full (pipes s' p) \<and>
          (\<not> readopen (pipes s' p) \<or> p_killed (procs s' ! i))
      | Blocked rest \<Rightarrow> src = ws @ rest \<and> rest \<noteq> [] \<and> pipe_full (pipes s' p) \<and> readopen (pipes s' p) \<and>
          sleeps_on (ChPipeWrite p) (procs s' ! i) \<and>
          (\<forall>x \<in> set (procs s'). \<not> sleeps_on (ChPipeRead p) x))"

lemma pipewrite_loop_result:
  assumes "pipe_ok (pipes s p)" "quiet s" "i < length (procs s)"
  shows "\<exists>r s' ws. pipewrite_loop i p n src s = Ok (r, s') \<and> write_result i p n src s r s' ws"
  using assms
proof (induction i p n src s rule: pipewrite_loop.induct)
  case (1 i p n s)
  obtain s' where s': "wakeup (ChPipeRead p) s = Ok s'" "quiet s'" "pipes s' = pipes s"
    "procs s' = map (wake (Some (ChPipeRead p))) (procs s)" using wakeup_pipes [OF "1.prems"(2)] .
  have "\<forall>x \<in> set (procs s'). \<not> sleeps_on (ChPipeRead p) x"
    unfolding s'(4) using not_sleeps_wake by auto
  then show ?case using s' "1.prems"(1) by (auto simp: write_result_def)
next
  case (2 i p n c cs s)
  show ?case
  proof (cases "pipe_full (pipes s p)")
    case full: True
    show ?thesis
    proof (cases "\<not> readopen (pipes s p) \<or> p_killed (procs s ! i)")
      case True
      then show ?thesis using full "2.prems"(1) by (auto simp: write_result_def)
    next
      case False
      obtain s1 where s1: "wakeup (ChPipeRead p) s = Ok s1" "quiet s1" "pipes s1 = pipes s"
        "procs s1 = map (wake (Some (ChPipeRead p))) (procs s)" using wakeup_pipes [OF "2.prems"(2)] .
      have i: "i < length (procs s1)" using "2.prems"(3) s1(4) by simp
      obtain s2 where s2: "sleep_enter i (ChPipeWrite p) False s1 = Ok s2" "pipes s2 = pipes s1"
        "procs s2 = asleep i (ChPipeWrite p) (procs s1)" using sleep_pipes [OF s1(2) i] .
      have "sleeps_on (ChPipeWrite p) (procs s2 ! i)"
        unfolding s2(3) asleep_def using i by (simp add: sleeps_on_def)
      moreover have "\<not> sleeps_on (ChPipeRead p) x" if "x \<in> set (procs s2)" for x
      proof -
        from that have "x = (procs s1 ! i)\<lparr>p_chan := Some (ChPipeWrite p), p_state := SLEEPING\<rparr> \<or> x \<in> set (procs s1)"
          unfolding s2(3) asleep_def by (rule in_set_list_update)
        then show ?thesis unfolding s1(4) using not_sleeps_wake by (auto simp: sleeps_on_def)
      qed
      ultimately show ?thesis
        using False full s1 s2 "2.prems"(1)
        by (intro exI [of _ "Blocked (c # cs)"] exI [of _ s2] exI [of _ "[]"]) (simp add: write_result_def)
    qed
  next
    case False
    let ?s = "upd_pipe p (pipe_put c) s"
    have room: "length (pipe_contents (pipes s p)) < PIPESIZE"
      using False "2.prems"(1) pipe_full_iff [OF "2.prems"(1)] by (simp add: pipe_ok_def)
    note put = pq.put_law [OF "2.prems"(1) room, of c]
    have p: "pipes ?s p = pipe_put c (pipes s p)" "\<And>q. q \<noteq> p \<Longrightarrow> pipes ?s q = pipes s q"
      by (simp_all add: upd_pipe_def)
    have "quiet ?s" "i < length (procs ?s)" using "2.prems"(2,3) by (simp_all add: upd_pipe_def quiet_def)
    with "2.IH" [OF False] p put obtain r s' ws where
      ih: "pipewrite_loop i p n cs ?s = Ok (r, s')" "write_result i p n cs ?s r s' ws" by auto
    have "write_result i p n (c # cs) s r s' (c # ws)"
      using ih(2) p put unfolding write_result_def by (cases r) auto
    then show ?thesis using ih(1) False by auto
  qed
qed

text \<open>
  C9: A write to a pipe appends to the bytes in transit, in order, and never overwrites one
  that is unread. It ends in one of three ways: the whole request is in the pipe and every
  sleeping reader of it is awake; the pipe is full, the rest is still to be written and the
  writer sleeps on it with the readers awake; or the call fails on a full pipe because the
  readers are gone or the writer is killed. No other pipe changes.
\<close>

theorem pipewrite_appends:
  assumes "pipe_ok (pipes s p)" "quiet s" "i < length (procs s)"
  shows "\<exists>r s' ws. pipewrite i p src s = Ok (r, s') \<and>
     pipe_ok (pipes s' p) \<and> pipe_contents (pipes s' p) = pipe_contents (pipes s p) @ ws \<and>
     (\<forall>q. q \<noteq> p \<longrightarrow> pipes s' q = pipes s q) \<and>
     (case r of
        Return v \<Rightarrow>
          v = int (length src) \<and> ws = src \<and> (\<forall>x \<in> set (procs s'). \<not> sleeps_on (ChPipeRead p) x) \<or>
          v = - 1 \<and> (\<exists>rest. src = ws @ rest \<and> rest \<noteq> []) \<and> pipe_full (pipes s' p) \<and>
          (\<not> readopen (pipes s' p) \<or> p_killed (procs s' ! i))
      | Blocked rest \<Rightarrow> src = ws @ rest \<and> rest \<noteq> [] \<and> pipe_full (pipes s' p) \<and> readopen (pipes s' p) \<and>
          sleeps_on (ChPipeWrite p) (procs s' ! i) \<and>
          (\<forall>x \<in> set (procs s'). \<not> sleeps_on (ChPipeRead p) x))"
  using pipewrite_loop_result [OF assms, of "int (length src)" src]
  by (simp add: pipewrite_def write_result_def)

text \<open>
  C10: A read takes the oldest bytes of the pipe, as many as there are up to the number asked
  for, in the order they were written, leaves the rest, and wakes every sleeping writer. On
  an empty pipe it returns no bytes if the writers are gone, fails if the reader is killed,
  and otherwise puts the reader to sleep.
\<close>

theorem piperead_takes_oldest:
  assumes "pipe_ok (pipes s p)" "quiet s" "i < length (procs s)"
  shows "\<exists>r s'. piperead i p n s = Ok (r, s') \<and> pipe_ok (pipes s' p) \<and>
     (\<forall>q. q \<noteq> p \<longrightarrow> pipes s' q = pipes s q) \<and>
     (if pipe_contents (pipes s p) = [] \<and> writeopen (pipes s p) then
        pipes s' p = pipes s p \<and>
        (if p_killed (procs s ! i) then r = Return None
         else r = Blocked [] \<and> sleeps_on (ChPipeRead p) (procs s' ! i))
      else
        r = Return (Some (take (nat n) (pipe_contents (pipes s p)))) \<and>
        pipe_contents (pipes s' p) = drop (nat n) (pipe_contents (pipes s p)) \<and>
        (\<forall>x \<in> set (procs s'). \<not> sleeps_on (ChPipeWrite p) x))"
proof (cases "pipe_empty (pipes s p) \<and> writeopen (pipes s p)")
  case True
  then have "length (pipe_contents (pipes s p)) = 0" by (simp add: pipe_empty_iff)
  then have e: "pipe_contents (pipes s p) = []" by (simp only: length_0_conv)
  obtain s1 where s1: "sleep_enter i (ChPipeRead p) False s = Ok s1" "pipes s1 = pipes s"
    "procs s1 = asleep i (ChPipeRead p) (procs s)" using sleep_pipes [OF assms(2,3)] .
  have "sleeps_on (ChPipeRead p) (procs s1 ! i)"
    unfolding s1(3) asleep_def using assms(3) by (simp add: sleeps_on_def)
  then show ?thesis using True e s1 assms(1) by (simp add: piperead_def)
next
  case False
  have ne: "\<not> (pipe_contents (pipes s p) = [] \<and> writeopen (pipes s p))"
    using False pipe_empty_iff length_pipe_contents [of "pipes s p"] by fastforce
  obtain cs q where d: "pipe_drain (nat n) (pipes s p) = (cs, q)" by fastforce
  note dc = pipe_drain_contents [OF assms(1) d]
  let ?s = "upd_pipe p (\<lambda>x. q) s"
  have qs: "quiet ?s" using assms(2) by (simp add: upd_pipe_def quiet_def)
  obtain s1 where s1: "wakeup (ChPipeWrite p) ?s = Ok s1" "quiet s1" "pipes s1 = pipes ?s"
    "procs s1 = map (wake (Some (ChPipeWrite p))) (procs ?s)" using wakeup_pipes [OF qs] .
  have "\<forall>x \<in> set (procs s1). \<not> sleeps_on (ChPipeWrite p) x"
    unfolding s1(4) using not_sleeps_wake by auto
  with False ne d dc s1 show ?thesis by (auto simp: piperead_def upd_pipe_def)
qed

definition example_pipestate :: "'m \<Rightarrow> 'm pipestate_scheme" where
  "example_pipestate m = example_fstate (pipestate_ext
     (\<lambda>p. \<lparr>pi_data = (\<lambda>k. 0), nread = 0xFFFFFFFF, nwrite = 0xFFFFFFFF, readopen = True, writeopen = True\<rparr>) m)"

lemmas example_defs = example_pipestate_def example_fstate_def example_lstate_def example_bstate_def example_state_def

lemma example_pipes:
  "pipe_ok (pipes (example_pipestate ()) p)" "quiet (example_pipestate ())"
  "length (procs (example_pipestate ())) = 4"
  by (simp_all add: example_defs pipe_ok_def ring_used_def quiet_def example_cpu_def)

theorem pipewrite_appends_witness:
  "\<exists>r s' ws. pipewrite 0 0x80401000 [104, 105] (example_pipestate ()) = Ok (r, s') \<and>
     pipe_ok (pipes s' 0x80401000) \<and>
     pipe_contents (pipes s' 0x80401000) = pipe_contents (pipes (example_pipestate ()) 0x80401000) @ ws \<and>
     (\<forall>q. q \<noteq> 0x80401000 \<longrightarrow> pipes s' q = pipes (example_pipestate ()) q) \<and>
     (case r of
        Return v \<Rightarrow>
          v = int (length [104, 105 :: u8]) \<and> ws = [104, 105] \<and>
          (\<forall>x \<in> set (procs s'). \<not> sleeps_on (ChPipeRead 0x80401000) x) \<or>
          v = - 1 \<and> (\<exists>rest. [104, 105] = ws @ rest \<and> rest \<noteq> []) \<and> pipe_full (pipes s' 0x80401000) \<and>
          (\<not> readopen (pipes s' 0x80401000) \<or> p_killed (procs s' ! 0))
      | Blocked rest \<Rightarrow> [104, 105] = ws @ rest \<and> rest \<noteq> [] \<and> pipe_full (pipes s' 0x80401000) \<and>
          readopen (pipes s' 0x80401000) \<and> sleeps_on (ChPipeWrite 0x80401000) (procs s' ! 0) \<and>
          (\<forall>x \<in> set (procs s'). \<not> sleeps_on (ChPipeRead 0x80401000) x))"
  by (rule pipewrite_appends) (simp_all add: example_pipes)

theorem piperead_takes_oldest_witness:
  "\<exists>r s'. piperead 0 0x80401000 2 (example_pipestate ()) = Ok (r, s') \<and> pipe_ok (pipes s' 0x80401000) \<and>
     (\<forall>q. q \<noteq> 0x80401000 \<longrightarrow> pipes s' q = pipes (example_pipestate ()) q) \<and>
     (if pipe_contents (pipes (example_pipestate ()) 0x80401000) = [] \<and>
         writeopen (pipes (example_pipestate ()) 0x80401000) then
        pipes s' 0x80401000 = pipes (example_pipestate ()) 0x80401000 \<and>
        (if p_killed (procs (example_pipestate ()) ! 0) then r = Return None
         else r = Blocked [] \<and> sleeps_on (ChPipeRead 0x80401000) (procs s' ! 0))
      else
        r = Return (Some (take (nat 2) (pipe_contents (pipes (example_pipestate ()) 0x80401000)))) \<and>
        pipe_contents (pipes s' 0x80401000) = drop (nat 2) (pipe_contents (pipes (example_pipestate ()) 0x80401000)) \<and>
        (\<forall>x \<in> set (procs s'). \<not> sleeps_on (ChPipeWrite 0x80401000) x))"
  by (rule piperead_takes_oldest) (simp_all add: example_pipes)

end
