(* ===== verification/File.thy ===== *)
theory File
  imports Pipe
begin

text \<open>
  \<^verbatim>\<open>file.c\<close> and \<^verbatim>\<open>pipealloc\<close> of \<^verbatim>\<open>pipe.c\<close>: the table of open files. A file is its index
  in \<^verbatim>\<open>ftable.file\<close> (the type \<open>ofile\<close>); \<^verbatim>\<open>ftable.lock\<close> makes the sections it guards atomic.
\<close>

abbreviation NFILE :: nat where "NFILE \<equiv> 100"

datatype filetype = FD_NONE | FD_PIPE | FD_INODE

record ofile =
  f_type :: filetype
  f_ref :: int
  f_readable :: bool
  f_writable :: bool
  f_pipe :: u32
  f_ip :: "nat option"
  f_off :: u32

record filestate = pipestate +
  ftable :: "ofile list"

definition upd_file :: "nat \<Rightarrow> (ofile \<Rightarrow> ofile) \<Rightarrow> 'a filestate_scheme \<Rightarrow> 'a filestate_scheme" where
  "upd_file f g s = s\<lparr>ftable := (ftable s)[f := g (ftable s ! f)]\<rparr>"

definition curproc :: "'a pstate_scheme \<Rightarrow> nat" where
  "curproc s = the (c_proc (this_cpu s))"

section \<open>References\<close>

definition filealloc :: "'a filestate_scheme \<Rightarrow> nat option \<times> 'a filestate_scheme" where
  "filealloc s =
     (case scan (\<lambda>f. f_ref f = 0) (ftable s) of
        None \<Rightarrow> (None, s)
      | Some f \<Rightarrow> (Some f, upd_file f (\<lambda>x. x\<lparr>f_ref := 1\<rparr>) s))"

definition filedup :: "nat \<Rightarrow> 'a filestate_scheme \<Rightarrow> 'a filestate_scheme outcome" where
  "filedup f s =
     (if f_ref (ftable s ! f) < 1 then Panic ''filedup''
      else Ok (upd_file f (\<lambda>x. x\<lparr>f_ref := f_ref x + 1\<rparr>) s))"

definition fileclose :: "nat \<Rightarrow> 'a filestate_scheme \<Rightarrow> 'a filestate_scheme outcome" where
  "fileclose f s =
     (if f_ref (ftable s ! f) < 1 then Panic ''fileclose''
      else
        let s = upd_file f (\<lambda>x. x\<lparr>f_ref := f_ref x - 1\<rparr>) s in
        if f_ref (ftable s ! f) > 0 then Ok s
        else
          let ff = ftable s ! f;
              s = upd_file f (\<lambda>x. x\<lparr>f_ref := 0, f_type := FD_NONE\<rparr>) s in
          if f_type ff = FD_PIPE then pipeclose (f_pipe ff) (f_writable ff) s
          else if f_type ff = FD_INODE then
            obind (begin_op s) (\<lambda>s.
            obind (iput (the (f_ip ff)) s) end_op)
          else Ok s)"

section \<open>Reading and writing\<close>

definition filestat :: "nat \<Rightarrow> 'a filestate_scheme \<Rightarrow> (stat option \<times> 'a filestate_scheme) outcome" where
  "filestat f s =
     (let ip = f_ip (ftable s ! f) in
      if f_type (ftable s ! f) = FD_INODE then
        obind (ilock ip s) (\<lambda>s.
        let st = stati (the ip) s in
        obind (iunlock ip s) (\<lambda>s. Ok (Some st, s)))
      else Ok (None, s))"

text \<open>The bytes read are those the code stores at \<^verbatim>\<open>addr\<close>; \<open>None\<close> is -1.\<close>

definition fileread :: "'a filestate_scheme devtab \<Rightarrow> nat \<Rightarrow> u32 \<Rightarrow> 'a filestate_scheme \<Rightarrow>
    (u8 list option progress \<times> 'a filestate_scheme) outcome" where
  "fileread devs f n s =
     (let ff = ftable s ! f in
      if \<not> f_readable ff then Ok (Return None, s)
      else if f_type ff = FD_PIPE then piperead (curproc s) (f_pipe ff) (sint n) s
      else if f_type ff = FD_INODE then
        obind (ilock (f_ip ff) s) (\<lambda>s.
        obind (readi devs (the (f_ip ff)) (f_off (ftable s ! f)) n s) (\<lambda>(r, s).
        let s = (case r of None \<Rightarrow> s
                 | Some xs \<Rightarrow> upd_file f (\<lambda>x. x\<lparr>f_off := f_off x + of_nat (length xs)\<rparr>) s) in
        obind (iunlock (f_ip ff) s) (\<lambda>s. Ok (Return r, s))))
      else Panic ''fileread'')"

text \<open>
  A write to an inode goes in pieces of at most 1536 bytes, each a transaction of its own,
  so that no piece exceeds what the log can hold. \<open>n\<close> is the size of the whole request.
\<close>

definition write_chunk :: nat where
  "write_chunk = ((nat MAXOPBLOCKS - 1 - 1 - 2) div 2) * 512"

lemma write_chunk_eq: "write_chunk = 1536"
  by (simp add: write_chunk_def)

function filewrite_loop :: "'a filestate_scheme devtab \<Rightarrow> nat \<Rightarrow> int \<Rightarrow> u8 list \<Rightarrow> 'a filestate_scheme \<Rightarrow>
    (int \<times> 'a filestate_scheme) outcome" where
  "filewrite_loop devs f n src s =
     (if src = [] then Ok (n, s)
      else
        let n1 = min (length src) write_chunk; ip = f_ip (ftable s ! f) in
        obind (begin_op s) (\<lambda>s.
        obind (ilock ip s) (\<lambda>s.
        obind (writei devs (the ip) (take n1 src) (f_off (ftable s ! f)) s) (\<lambda>(r, s).
        let s = (if r > 0 then upd_file f (\<lambda>x. x\<lparr>f_off := f_off x + word_of_int r\<rparr>) s else s) in
        obind (iunlock ip s) (\<lambda>s.
        obind (end_op s) (\<lambda>s.
        if r < 0 then Ok (- 1, s)
        else if r \<noteq> int n1 then Panic ''short filewrite''
        else filewrite_loop devs f n (drop n1 src) s))))))"
  by pat_completeness auto
termination
  by (relation "measure (\<lambda>(devs, f, n, src, s). length src)") (auto simp: write_chunk_eq min_def)

declare filewrite_loop.simps [simp del]

definition filewrite :: "'a filestate_scheme devtab \<Rightarrow> nat \<Rightarrow> u8 list \<Rightarrow> 'a filestate_scheme \<Rightarrow>
    (int progress \<times> 'a filestate_scheme) outcome" where
  "filewrite devs f src s =
     (let ff = ftable s ! f in
      if \<not> f_writable ff then Ok (Return (- 1), s)
      else if f_type ff = FD_PIPE then pipewrite (curproc s) (f_pipe ff) src s
      else if f_type ff = FD_INODE then
        obind (filewrite_loop devs f (int (length src)) src s) (\<lambda>(r, s). Ok (Return r, s))
      else Panic ''filewrite'')"

section \<open>Creating a pipe\<close>

text \<open>What the code does at its label \<^verbatim>\<open>bad\<close>.\<close>

definition pipealloc_bad :: "u32 \<Rightarrow> nat option \<Rightarrow> nat option \<Rightarrow> 'a filestate_scheme \<Rightarrow> 'a filestate_scheme outcome" where
  "pipealloc_bad p f0 f1 s =
     obind (if p \<noteq> 0 then kfree p s else Ok s) (\<lambda>s.
     obind (case f0 of None \<Rightarrow> Ok s | Some f \<Rightarrow> fileclose f s) (\<lambda>s.
     case f1 of None \<Rightarrow> Ok s | Some f \<Rightarrow> fileclose f s))"

text \<open>The result is the read end and the write end.\<close>

definition pipealloc :: "'a filestate_scheme \<Rightarrow> ((nat \<times> nat) option \<times> 'a filestate_scheme) outcome" where
  "pipealloc s =
     (case filealloc s of
        (None, s) \<Rightarrow> obind (pipealloc_bad 0 None None s) (\<lambda>s. Ok (None, s))
      | (Some f0, s) \<Rightarrow>
          (case filealloc s of
             (None, s) \<Rightarrow> obind (pipealloc_bad 0 (Some f0) None s) (\<lambda>s. Ok (None, s))
           | (Some f1, s) \<Rightarrow>
               obind (kalloc s) (\<lambda>(p, s).
               if p = 0 then obind (pipealloc_bad 0 (Some f0) (Some f1) s) (\<lambda>s. Ok (None, s))
               else
                 let s = upd_pipe p pipe_init s;
                     s = upd_file f0 (\<lambda>x. x\<lparr>f_type := FD_PIPE, f_readable := True, f_writable := False, f_pipe := p\<rparr>) s;
                     s = upd_file f1 (\<lambda>x. x\<lparr>f_type := FD_PIPE, f_readable := False, f_writable := True, f_pipe := p\<rparr>) s
                 in Ok (Some (f0, f1), s))))"

end
