(* ===== verification/Input.thy ===== *)
theory Input
  imports File
begin

text \<open>
  The input half of \<^verbatim>\<open>console.c\<close>: line editing in the interrupt handler, and reading lines
  through the device table. The buffer is a ring of 128 bytes with free-running indices:
  read up to \<open>in_r\<close>, handed over up to \<open>in_w\<close>, typed up to \<open>in_e\<close>.
\<close>

abbreviation INPUT_BUF :: nat where "INPUT_BUF \<equiv> 128"
abbreviation CONSOLE :: int where "CONSOLE \<equiv> 1"

record instate = filestate +
  in_buf :: "nat \<Rightarrow> u8"
  in_r :: u32
  in_w :: u32
  in_e :: u32

definition in_index :: "u32 \<Rightarrow> nat" where
  "in_index k = unat (k mod of_nat INPUT_BUF)"

section \<open>The interrupt handler\<close>

text \<open>Control-U erases up to the last newline or to what has been handed over.\<close>

function kill_line :: "'a instate_scheme \<Rightarrow> 'a instate_scheme outcome" where
  "kill_line s =
     (if in_e s \<noteq> in_w s \<and> in_buf s (in_index (in_e s - 1)) \<noteq> 10 then
        obind (consputc BACKSPACE (s\<lparr>in_e := in_e s - 1\<rparr>)) kill_line
      else Ok s)"
  by pat_completeness auto

lemma cgaputc_in: "cgaputc c s = Ok s' \<Longrightarrow> in_e s' = in_e (s :: 'a instate_scheme) \<and> in_w s' = in_w s"
  by (auto simp: cgaputc_def Let_def split: if_splits prod.splits)

lemma consputc_in: "consputc c s = Ok s' \<Longrightarrow> in_e s' = in_e (s :: 'a instate_scheme) \<and> in_w s' = in_w s"
  by (auto simp: consputc_def uartputc_def Let_def split: if_splits dest!: cgaputc_in)

termination kill_line
proof (relation "measure (\<lambda>s. unat (in_e s - in_w s))")
  fix s s' :: "'a instate_scheme"
  assume c: "in_e s \<noteq> in_w s \<and> in_buf s (in_index (in_e s - 1)) \<noteq> 10"
    and p: "consputc BACKSPACE (s\<lparr>in_e := in_e s - 1\<rparr>) = Ok s'"
  from consputc_in [OF p] have e: "in_e s' - in_w s' = in_e s - in_w s - 1" by simp
  have "in_e s - in_w s \<noteq> 0" using c by simp
  then have "unat (in_e s - in_w s - 1) < unat (in_e s - in_w s)"
    by (simp add: unat_minus_one unat_gt_0)
  with e show "(s', s) \<in> measure (\<lambda>s. unat (in_e s - in_w s))" by simp
qed simp

declare kill_line.simps [simp del]

definition erase_char :: "'a instate_scheme \<Rightarrow> 'a instate_scheme outcome" where
  "erase_char s =
     (if in_e s \<noteq> in_w s then consputc BACKSPACE (s\<lparr>in_e := in_e s - 1\<rparr>) else Ok s)"

text \<open>An ordinary character; a carriage return counts as a newline.\<close>

definition input_char :: "int \<Rightarrow> 'a instate_scheme \<Rightarrow> 'a instate_scheme outcome" where
  "input_char c s =
     (if c \<noteq> 0 \<and> in_e s - in_r s < of_nat INPUT_BUF then
        let c = (if c = 13 then 10 else c);
            s = s\<lparr>in_buf := (in_buf s)(in_index (in_e s) := word_of_int c), in_e := in_e s + 1\<rparr> in
        obind (consputc c s) (\<lambda>s.
        if c = 10 \<or> c = 4 \<or> in_e s = in_r s + of_nat INPUT_BUF then
          wakeup ChInput (s\<lparr>in_w := in_e s\<rparr>)
        else Ok s)
      else Ok s)"

text \<open>
  \<open>cs\<close> are the results of the calls of \<^verbatim>\<open>getc\<close> before the first negative one: 16 is
  control-P, 21 control-U, 8 and 127 erase.
\<close>

fun consoleintr_loop :: "int list \<Rightarrow> bool \<Rightarrow> 'a instate_scheme \<Rightarrow> (bool \<times> 'a instate_scheme) outcome" where
  "consoleintr_loop [] dump s = Ok (dump, s)"
| "consoleintr_loop (c # cs) dump s =
     (if c = 16 then consoleintr_loop cs True s
      else if c = 21 then obind (kill_line s) (consoleintr_loop cs dump)
      else if c = 8 \<or> c = 127 then obind (erase_char s) (consoleintr_loop cs dump)
      else obind (input_char c s) (consoleintr_loop cs dump))"

definition consoleintr :: "int list \<Rightarrow> 'a instate_scheme \<Rightarrow> 'a instate_scheme outcome" where
  "consoleintr cs s =
     obind (consoleintr_loop cs False s) (\<lambda>(dump, s). if dump then procdump s else Ok s)"

section \<open>Reading and writing the console\<close>

text \<open>
  The loop of \<^verbatim>\<open>consoleread\<close>: \<open>n\<close> bytes are still wanted of \<open>target\<close>, and \<open>acc\<close> has been
  delivered. Control-D ends a read; one met after other bytes is left for the next read.
  The inode's lock is given up while waiting and taken again before the return.
\<close>

definition console_done :: "nat \<Rightarrow> u8 list option \<Rightarrow> 'a instate_scheme \<Rightarrow>
    (u8 list option progress \<times> 'a instate_scheme) outcome" where
  "console_done ip r s = obind (ilock (Some ip) s) (\<lambda>s. Ok (Return r, s))"

fun consoleread_loop :: "nat \<Rightarrow> nat \<Rightarrow> nat \<Rightarrow> u8 list \<Rightarrow> 'a instate_scheme \<Rightarrow>
    (u8 list option progress \<times> 'a instate_scheme) outcome" where
  "consoleread_loop ip target 0 acc s = console_done ip (Some acc) s"
| "consoleread_loop ip target (Suc n) acc s =
     (if in_r s = in_w s then
        if p_killed (procs s ! curproc s) then console_done ip None s
        else obind (sleep_enter (curproc s) ChInput False s) (\<lambda>s. Ok (Blocked acc, s))
      else
        let c = in_buf s (in_index (in_r s)); s = s\<lparr>in_r := in_r s + 1\<rparr> in
        if c = 4 then
          console_done ip (Some acc) (if Suc n < target then s\<lparr>in_r := in_r s - 1\<rparr> else s)
        else if c = 10 then console_done ip (Some (acc @ [c])) s
        else consoleread_loop ip target n (acc @ [c]) s)"

definition consoleread :: "nat \<Rightarrow> u32 \<Rightarrow> 'a instate_scheme \<Rightarrow>
    (u8 list option progress \<times> 'a instate_scheme) outcome" where
  "consoleread ip n s =
     obind (iunlock (Some ip) s) (consoleread_loop ip (nat (sint n)) (nat (sint n)) [])"

definition consoleread_resume :: "nat \<Rightarrow> u32 \<Rightarrow> u8 list \<Rightarrow> 'a instate_scheme \<Rightarrow>
    (u8 list option progress \<times> 'a instate_scheme) outcome" where
  "consoleread_resume ip n acc s =
     obind (sleep_resume (curproc s) False s)
       (consoleread_loop ip (nat (sint n)) (nat (sint n) - length acc) acc)"

definition consolewrite :: "nat \<Rightarrow> u8 list \<Rightarrow> 'a instate_scheme \<Rightarrow> (int \<times> 'a instate_scheme) outcome" where
  "consolewrite ip buf s =
     obind (iunlock (Some ip) s) (\<lambda>s.
     obind (consputs buf s) (\<lambda>s.
     obind (ilock (Some ip) s) (\<lambda>s. Ok (int (length buf), s))))"

text \<open>
  The device table after \<^verbatim>\<open>consoleinit\<close>. Where the console has to wait for a line, the
  read as a whole is not finished.
\<close>

definition console_dev :: "'a instate_scheme devsw" where
  "console_dev =
     \<lparr>dev_read = (\<lambda>ip n s. obind (consoleread ip n s) (\<lambda>(r, s).
        case r of Return x \<Rightarrow> Ok (x, s) | Blocked acc \<Rightarrow> Sleep ChInput)),
      dev_write = consolewrite\<rparr>"

definition consoleinit :: "'a instate_scheme devtab \<Rightarrow> 'a instate_scheme devtab" where
  "consoleinit devs = devs(CONSOLE \<mapsto> console_dev)"

section \<open>The edited line\<close>

text \<open>The bytes typed and not yet read, of which the first \<open>in_w - in_r\<close> may be read.\<close>

definition pending_input :: "'a instate_scheme \<Rightarrow> u8 list" where
  "pending_input s = map (\<lambda>k. in_buf s (in_index (in_r s + of_nat k))) [0 ..< unat (in_e s - in_r s)]"

end
