(* ===== verification/Uaccess.thy ===== *)
theory Uaccess
  imports Input
begin

text \<open>
  The argument-fetching half of \<^verbatim>\<open>syscall.c\<close>, over direct accesses to user memory: the
  kernel reads and writes user addresses through the page table of the current process,
  which \<open>cr3\<close> holds. A page that is not mapped (or not writable, on a write) makes the
  access fault, which in the kernel ends in \<^verbatim>\<open>panic("trap")\<close>.
\<close>

unbundle bit_operations_syntax

section \<open>User memory\<close>

definition user_pte :: "u32 \<Rightarrow> 'a pstate_scheme \<Rightarrow> u32" where
  "user_pte va s = pte_of (k_mem s) (P2V (cr3 s)) va"

definition user_addr :: "u32 \<Rightarrow> 'a pstate_scheme \<Rightarrow> u32" where
  "user_addr va s = P2V (PTE_ADDR (user_pte va s)) + PTE_FLAGS va"

definition user_load :: "u32 \<Rightarrow> 'a pstate_scheme \<Rightarrow> u8 outcome" where
  "user_load va s =
     (if user_pte va s AND PTE_P = 0 then Panic ''trap'' else Ok (k_mem s (user_addr va s)))"

definition user_store :: "u32 \<Rightarrow> u8 \<Rightarrow> 'a pstate_scheme \<Rightarrow> 'a pstate_scheme outcome" where
  "user_store va c s =
     (if user_pte va s AND PTE_P = 0 \<or> user_pte va s AND PTE_W = 0 then Panic ''trap''
      else Ok (s\<lparr>k_mem := (k_mem s)(user_addr va s := c)\<rparr>))"

fun user_bytes :: "u32 \<Rightarrow> nat \<Rightarrow> 'a pstate_scheme \<Rightarrow> u8 list outcome" where
  "user_bytes va 0 s = Ok []"
| "user_bytes va (Suc n) s =
     obind (user_load va s) (\<lambda>c. obind (user_bytes (va + 1) n s) (\<lambda>cs. Ok (c # cs)))"

fun user_put :: "u32 \<Rightarrow> u8 list \<Rightarrow> 'a pstate_scheme \<Rightarrow> 'a pstate_scheme outcome" where
  "user_put va [] s = Ok s"
| "user_put va (c # cs) s = obind (user_store va c s) (user_put (va + 1) cs)"

definition user_word :: "u32 \<Rightarrow> 'a pstate_scheme \<Rightarrow> u32 outcome" where
  "user_word va s = obind (user_bytes va 4 s) (\<lambda>cs. Ok (get32 (cstr_of cs) 0))"

definition word_bytes :: "u32 \<Rightarrow> u8 list" where
  "word_bytes v = [ucast v, ucast (drop_bit 8 v), ucast (drop_bit 16 v), ucast (drop_bit 24 v)]"

section \<open>The trap frame\<close>

text \<open>Offsets of the fields of \<^verbatim>\<open>struct trapframe\<close>.\<close>

definition tf_eax :: u32 where "tf_eax = 28"
definition tf_es :: u32 where "tf_es = 40"
definition tf_ds :: u32 where "tf_ds = 44"
definition tf_trapno :: u32 where "tf_trapno = 48"
definition tf_err :: u32 where "tf_err = 52"
definition tf_eip :: u32 where "tf_eip = 56"
definition tf_cs :: u32 where "tf_cs = 60"
definition tf_eflags :: u32 where "tf_eflags = 64"
definition tf_esp :: u32 where "tf_esp = 68"
definition tf_ss :: u32 where "tf_ss = 72"

definition tf_get :: "nat \<Rightarrow> u32 \<Rightarrow> 'a pstate_scheme \<Rightarrow> u32" where
  "tf_get i off s = load32 (k_mem s) (p_tf (procs s ! i) + off)"

definition tf_set :: "nat \<Rightarrow> u32 \<Rightarrow> u32 \<Rightarrow> 'a pstate_scheme \<Rightarrow> 'a pstate_scheme" where
  "tf_set i off v s = s\<lparr>k_mem := store32 (k_mem s) (p_tf (procs s ! i) + off) v\<rparr>"

definition cur_sz :: "'a pstate_scheme \<Rightarrow> u32" where
  "cur_sz s = p_sz (procs s ! curproc s)"

section \<open>Arguments\<close>

text \<open>\<open>None\<close> is the error return -1.\<close>

definition fetchint :: "u32 \<Rightarrow> 'a pstate_scheme \<Rightarrow> u32 option outcome" where
  "fetchint addr s =
     (if addr \<ge> cur_sz s \<or> addr + 4 > cur_sz s then Ok None
      else obind (user_word addr s) (\<lambda>v. Ok (Some v)))"

text \<open>The scan for the NUL, over the \<open>n\<close> bytes up to the end of the process; the string is returned.\<close>

fun fetchstr_scan :: "u32 \<Rightarrow> nat \<Rightarrow> 'a pstate_scheme \<Rightarrow> u8 list option outcome" where
  "fetchstr_scan va 0 s = Ok None"
| "fetchstr_scan va (Suc n) s =
     obind (user_load va s) (\<lambda>c.
     if c = 0 then Ok (Some [])
     else obind (fetchstr_scan (va + 1) n s) (\<lambda>r. Ok (map_option (\<lambda>cs. c # cs) r)))"

text \<open>
  The pointer fetched is \<open>addr\<close> itself and the length is that of the bytes found: a later
  read through the pointer sees these bytes, as nobody else can write them.
\<close>

definition fetchstr :: "u32 \<Rightarrow> 'a pstate_scheme \<Rightarrow> u8 list option outcome" where
  "fetchstr addr s =
     (if addr \<ge> cur_sz s then Ok None
      else fetchstr_scan addr (unat (cur_sz s) - unat addr) s)"

definition argint :: "nat \<Rightarrow> 'a pstate_scheme \<Rightarrow> u32 option outcome" where
  "argint n s = fetchint (tf_get (curproc s) tf_esp s + 4 + 4 * of_nat n) s"

text \<open>\<open>len\<close> is signed, as in the code.\<close>

definition argptr :: "nat \<Rightarrow> u32 \<Rightarrow> 'a pstate_scheme \<Rightarrow> u32 option outcome" where
  "argptr n len s =
     obind (argint n s) (\<lambda>r.
     case r of None \<Rightarrow> Ok None
     | Some i \<Rightarrow>
         if sint len < 0 \<or> i \<ge> cur_sz s \<or> i + len > cur_sz s then Ok None else Ok (Some i))"

definition argstr :: "nat \<Rightarrow> 'a pstate_scheme \<Rightarrow> u8 list option outcome" where
  "argstr n s =
     obind (argint n s) (\<lambda>r. case r of None \<Rightarrow> Ok None | Some addr \<Rightarrow> fetchstr addr s)"

text \<open>An argument that is a descriptor, with the file behind it.\<close>

definition argfd :: "nat \<Rightarrow> 'a pstate_scheme \<Rightarrow> (nat \<times> nat) option outcome" where
  "argfd n s =
     obind (argint n s) (\<lambda>r.
     case r of None \<Rightarrow> Ok None
     | Some fd \<Rightarrow>
         if sint fd < 0 \<or> sint fd \<ge> int NOFILE then Ok None
         else (case p_ofile (procs s ! curproc s) ! unat fd of
                 None \<Rightarrow> Ok None | Some f \<Rightarrow> Ok (Some (unat fd, f))))"

definition fdalloc :: "nat \<Rightarrow> 'a pstate_scheme \<Rightarrow> nat option \<times> 'a pstate_scheme" where
  "fdalloc f s =
     (case scan (\<lambda>x. x = None) (p_ofile (procs s ! curproc s)) of
        None \<Rightarrow> (None, s)
      | Some fd \<Rightarrow> (Some fd, upd_proc (curproc s) (\<lambda>p. p\<lparr>p_ofile := (p_ofile p)[fd := Some f]\<rparr>) s))"

end
