(* ===== verification/Exec.thy ===== *)
theory Exec
  imports Uaccess
begin

text \<open>
  \<^verbatim>\<open>exec.c\<close> with \<^verbatim>\<open>loaduvm\<close> of \<^verbatim>\<open>vm.c\<close>: replacing the memory of the current process by a
  program read from a file. Arguments are C strings without their NULs.
\<close>

unbundle bit_operations_syntax

abbreviation MAXARG :: nat where "MAXARG \<equiv> 32"
definition ELF_MAGIC :: u32 where "ELF_MAGIC = 0x464C457F"

section \<open>Kernel memory\<close>

text \<open>Storing a list of bytes at a kernel address, and reading one.\<close>

definition kput :: "u32 \<Rightarrow> u8 list \<Rightarrow> mem \<Rightarrow> mem" where
  "kput a xs m = (\<lambda>x. if unat (x - a) < length xs then xs ! unat (x - a) else m x)"

section \<open>Loading a segment\<close>

text \<open>\<open>i\<close> is the offset in the segment; the argument \<open>n\<close> bounds the turns of the loop.\<close>

fun loaduvm_loop :: "'a instate_scheme devtab \<Rightarrow> nat \<Rightarrow> u32 \<Rightarrow> u32 \<Rightarrow> nat \<Rightarrow> u32 \<Rightarrow> u32 \<Rightarrow> u32 \<Rightarrow> 'a instate_scheme \<Rightarrow>
    (bool \<times> 'a instate_scheme) outcome" where
  "loaduvm_loop devs n pgdir addr ip offset i sz s =
     (if i < sz then
        case n of
          0 \<Rightarrow> Spin
        | Suc n \<Rightarrow>
            obind (walkpgdir pgdir (addr + i) False s) (\<lambda>(pte, s).
            if pte = 0 then Panic ''loaduvm: address should exist''
            else
              let pa = PTE_ADDR (load32 (k_mem s) pte);
                  m = (if sz - i < PGSIZE then sz - i else PGSIZE) in
              obind (readi devs ip (offset + i) m s) (\<lambda>(r, s).
              case r of
                None \<Rightarrow> Ok (False, s)
              | Some xs \<Rightarrow>
                  let s = s\<lparr>k_mem := kput (P2V pa) xs (k_mem s)\<rparr> in
                  if length xs \<noteq> unat m then Ok (False, s)
                  else loaduvm_loop devs n pgdir addr ip offset (i + PGSIZE) sz s))
      else Ok (True, s))"

declare loaduvm_loop.simps [simp del]

definition loaduvm :: "'a instate_scheme devtab \<Rightarrow> u32 \<Rightarrow> u32 \<Rightarrow> nat \<Rightarrow> u32 \<Rightarrow> u32 \<Rightarrow> 'a instate_scheme \<Rightarrow>
    (bool \<times> 'a instate_scheme) outcome" where
  "loaduvm devs pgdir addr ip offset sz s =
     (if addr mod PGSIZE \<noteq> 0 then Panic ''loaduvm: addr must be page aligned''
      else loaduvm_loop devs (Suc (unat (sz div PGSIZE))) pgdir addr ip offset 0 sz s)"

section \<open>The program file\<close>

text \<open>
  The fields of the ELF header (52 bytes) and of a program header (32 bytes) that the code
  reads, at their byte offsets.
\<close>

definition elf_magic :: "u8 list \<Rightarrow> u32" where "elf_magic e = get32 (cstr_of e) 0"
definition elf_entry :: "u8 list \<Rightarrow> u32" where "elf_entry e = get32 (cstr_of e) 24"
definition elf_phoff :: "u8 list \<Rightarrow> u32" where "elf_phoff e = get32 (cstr_of e) 28"
definition elf_phnum :: "u8 list \<Rightarrow> nat" where "elf_phnum e = unat (get16 (cstr_of e) 44)"
definition ph_type :: "u8 list \<Rightarrow> u32" where "ph_type h = get32 (cstr_of h) 0"
definition ph_off :: "u8 list \<Rightarrow> u32" where "ph_off h = get32 (cstr_of h) 4"
definition ph_vaddr :: "u8 list \<Rightarrow> u32" where "ph_vaddr h = get32 (cstr_of h) 8"
definition ph_filesz :: "u8 list \<Rightarrow> u32" where "ph_filesz h = get32 (cstr_of h) 16"
definition ph_memsz :: "u8 list \<Rightarrow> u32" where "ph_memsz h = get32 (cstr_of h) 20"

text \<open>
  The loop over the program headers, the \<open>k\<close> last of them still to come. The result is the
  size reached, or \<open>None\<close> for a jump to \<^verbatim>\<open>bad\<close>.
\<close>

fun load_segments :: "'a instate_scheme devtab \<Rightarrow> nat \<Rightarrow> u32 \<Rightarrow> nat \<Rightarrow> u32 \<Rightarrow> u32 \<Rightarrow> 'a instate_scheme \<Rightarrow>
    (u32 option \<times> 'a instate_scheme) outcome" where
  "load_segments devs 0 pgdir ip off sz s = Ok (Some sz, s)"
| "load_segments devs (Suc k) pgdir ip off sz s =
     obind (readi devs ip off 32 s) (\<lambda>(r, s).
     case r of
       None \<Rightarrow> Ok (None, s)
     | Some ph \<Rightarrow>
         if length ph \<noteq> 32 then Ok (None, s)
         else if ph_type ph \<noteq> 1 then load_segments devs k pgdir ip (off + 32) sz s
         else if ph_memsz ph < ph_filesz ph then Ok (None, s)
         else if ph_vaddr ph + ph_memsz ph < ph_vaddr ph then Ok (None, s)
         else
           obind (allocuvm pgdir sz (ph_vaddr ph + ph_memsz ph) s) (\<lambda>(sz, s).
           if sz = 0 then Ok (None, s)
           else if ph_vaddr ph mod PGSIZE \<noteq> 0 then Ok (None, s)
           else
             obind (loaduvm devs pgdir (ph_vaddr ph) ip (ph_off ph) (ph_filesz ph) s) (\<lambda>(ok, s).
             if \<not> ok then Ok (None, s) else load_segments devs k pgdir ip (off + 32) sz s)))"

section \<open>The stack of the new program\<close>

text \<open>
  \<^verbatim>\<open>copyout\<close> of bytes that lie in kernel memory outside the model's \<open>k_mem\<close> (the argument
  strings and the local array \<^verbatim>\<open>ustack\<close>): the same loop with the bytes as a list.
\<close>

fun copyout_bytes :: "nat \<Rightarrow> u32 \<Rightarrow> u32 \<Rightarrow> u8 list \<Rightarrow> 'a pstate_scheme \<Rightarrow> (bool \<times> 'a pstate_scheme) outcome" where
  "copyout_bytes fuel pgdir va xs s =
     (if xs \<noteq> [] then
        case fuel of
          0 \<Rightarrow> Spin
        | Suc fuel \<Rightarrow>
            let va0 = PGROUNDDOWN va in
            obind (uva2ka pgdir va0 s) (\<lambda>(pa0, s).
            if pa0 = 0 then Ok (False, s)
            else
              let n = min (unat (PGSIZE - (va - va0))) (length xs);
                  s = s\<lparr>k_mem := kput (pa0 + (va - va0)) (take n xs) (k_mem s)\<rparr>
              in copyout_bytes fuel pgdir (va0 + PGSIZE) (drop n xs) s)
      else Ok (True, s))"

declare copyout_bytes.simps [simp del]

text \<open>The loop over the arguments: the stack pointer and the addresses of the strings pushed.\<close>

fun push_args :: "u32 \<Rightarrow> nat \<Rightarrow> u32 \<Rightarrow> u32 list \<Rightarrow> u8 list list \<Rightarrow> 'a instate_scheme \<Rightarrow>
    ((u32 \<times> u32 list) option \<times> 'a instate_scheme) outcome" where
  "push_args pgdir argc sp ptrs [] s = Ok (Some (sp, ptrs), s)"
| "push_args pgdir argc sp ptrs (a # as) s =
     (if argc \<ge> MAXARG then Ok (None, s)
      else
        let sp = (sp - (of_nat (length a) + 1)) AND NOT 3 in
        obind (copyout_bytes (length a + 1) pgdir sp (a @ [0]) s) (\<lambda>(ok, s).
        if \<not> ok then Ok (None, s)
        else push_args pgdir (argc + 1) sp (ptrs @ [sp]) as s))"

text \<open>The name of the program: what follows the last slash of its path.\<close>

definition last_element :: "u8 list \<Rightarrow> u8 list" where
  "last_element path = rev (takeWhile (\<lambda>c. c \<noteq> slash) (rev path))"

section \<open>exec\<close>

text \<open>The label \<^verbatim>\<open>bad\<close>; \<open>ip\<close> is still held, and its transaction open, when it is given.\<close>

definition exec_bad :: "u32 \<Rightarrow> nat option \<Rightarrow> 'a instate_scheme \<Rightarrow> (bool \<times> 'a instate_scheme) outcome" where
  "exec_bad pgdir ip s =
     obind (if pgdir \<noteq> 0 then freevm pgdir s else Ok s) (\<lambda>s.
     obind (case ip of None \<Rightarrow> Ok s | Some i \<Rightarrow> obind (iunlockput i s) end_op) (\<lambda>s.
     Ok (False, s)))"

text \<open>From the point where the file is no longer needed; \<open>sz\<close> is the size loaded.\<close>

definition exec_stack :: "u8 list \<Rightarrow> u8 list list \<Rightarrow> u32 \<Rightarrow> u32 \<Rightarrow> u32 \<Rightarrow> 'a instate_scheme \<Rightarrow>
    (bool \<times> 'a instate_scheme) outcome" where
  "exec_stack path argv pgdir sz entry_pt s =
     (let sz = PGROUNDUP sz in
      obind (allocuvm pgdir sz (sz + 2 * PGSIZE) s) (\<lambda>(sz, s).
      if sz = 0 then exec_bad pgdir None s
      else
        obind (clearpteu pgdir (sz - 2 * PGSIZE) s) (\<lambda>s.
        obind (push_args pgdir 0 sz [] argv s) (\<lambda>(r, s).
        case r of
          None \<Rightarrow> exec_bad pgdir None s
        | Some (sp, ptrs) \<Rightarrow>
            let argc = length argv;
                ustack = [0xffffffff, of_nat argc, sp - (of_nat argc + 1) * 4] @ ptrs @ [0];
                sp = sp - (3 + of_nat argc + 1) * 4 in
            obind (copyout_bytes (4 * length ustack) pgdir sp (concat (map word_bytes ustack)) s) (\<lambda>(ok, s).
            if \<not> ok then exec_bad pgdir None s
            else
              let i = curproc s;
                  s = upd_proc i (\<lambda>p. p\<lparr>p_name := safestrcpy (p_name p) (cstr_of (last_element path)) 16\<rparr>) s;
                  oldpgdir = p_pgdir (procs s ! i);
                  s = upd_proc i (\<lambda>p. p\<lparr>p_pgdir := pgdir, p_sz := sz\<rparr>) s;
                  s = tf_set i tf_eip entry_pt s;
                  s = tf_set i tf_esp sp s in
              obind (switchuvm (Some i) s) (\<lambda>s.
              obind (freevm oldpgdir s) (\<lambda>s. Ok (True, s))))))))"

text \<open>The result is \<open>True\<close> for 0 and \<open>False\<close> for -1.\<close>

definition exec :: "'a instate_scheme devtab \<Rightarrow> u8 list \<Rightarrow> u8 list list \<Rightarrow> 'a instate_scheme \<Rightarrow>
    (bool \<times> 'a instate_scheme) outcome" where
  "exec devs path argv s =
     obind (begin_op s) (\<lambda>s.
     obind (namei path s) (\<lambda>(r, s).
     case r of
       None \<Rightarrow>
         obind (end_op s) (\<lambda>s.
         obind (cprintf (bytes ''exec: fail'' @ nl) [] s) (\<lambda>s. Ok (False, s)))
     | Some ip \<Rightarrow>
         obind (ilock (Some ip) s) (\<lambda>s.
         obind (readi devs ip 0 52 s) (\<lambda>(r, s).
         case r of
           None \<Rightarrow> exec_bad 0 (Some ip) s
         | Some elf \<Rightarrow>
             if length elf \<noteq> 52 \<or> elf_magic elf \<noteq> ELF_MAGIC then exec_bad 0 (Some ip) s
             else
               obind (setupkvm s) (\<lambda>(pgdir, s).
               if pgdir = 0 then exec_bad 0 (Some ip) s
               else
                 obind (load_segments devs (elf_phnum elf) pgdir ip (elf_phoff elf) 0 s) (\<lambda>(r, s).
                 case r of
                   None \<Rightarrow> exec_bad pgdir (Some ip) s
                 | Some sz \<Rightarrow>
                     obind (iunlockput ip s) (\<lambda>s.
                     obind (end_op s) (\<lambda>s.
                     exec_stack path argv pgdir sz (elf_entry elf) s))))))))"

end
