(* ===== verification/Sysproc.thy ===== *)
theory Sysproc
  imports Exec
begin

text \<open>
  The life of a process in \<^verbatim>\<open>proc.c\<close> (\<^verbatim>\<open>userinit\<close>, \<^verbatim>\<open>fork\<close>, \<^verbatim>\<open>exit\<close>, \<^verbatim>\<open>forkret\<close>), which needs
  the file system, and the system calls of \<^verbatim>\<open>sysproc.c\<close>. A call that has to wait, or that
  never returns, ends as \<open>Blocked\<close>.
\<close>

unbundle bit_operations_syntax

record kstate = instate +
  itoa_temp :: cstr
  forkret_first :: bool

section \<open>The first process\<close>

definition store16 :: "mem \<Rightarrow> u32 \<Rightarrow> u16 \<Rightarrow> mem" where
  "store16 m a v = m(a := ucast v, a + 1 := ucast (drop_bit 8 v))"

definition set_tf16 :: "nat \<Rightarrow> u32 \<Rightarrow> u16 \<Rightarrow> 'a pstate_scheme \<Rightarrow> 'a pstate_scheme" where
  "set_tf16 i off v s = s\<lparr>k_mem := store16 (k_mem s) (p_tf (procs s ! i) + off) v\<rparr>"

definition user_cs :: u16 where "user_cs = push_bit 3 3 OR 3"
definition user_ds :: u16 where "user_ds = push_bit 3 4 OR 3"
definition FL_IF :: u32 where "FL_IF = 0x200"

text \<open>
  \<open>start\<close> and \<open>len\<close> are the linker's symbols for the first program. There is always a free
  slot at boot; without one the code would follow a null pointer.
\<close>

definition userinit :: "u32 \<Rightarrow> u32 \<Rightarrow> 'a kstate_scheme \<Rightarrow> 'a kstate_scheme outcome" where
  "userinit start len s =
     obind (allocproc s) (\<lambda>(p, s).
     let s = s\<lparr>initproc := p\<rparr>; i = the p in
     obind (setupkvm s) (\<lambda>(d, s).
     let s = upd_proc i (\<lambda>p. p\<lparr>p_pgdir := d\<rparr>) s in
     if d = 0 then Panic ''userinit: out of memory?''
     else
       obind (inituvm d start len s) (\<lambda>s.
       let s = upd_proc i (\<lambda>p. p\<lparr>p_sz := PGSIZE\<rparr>) s;
           s = s\<lparr>k_mem := memset (k_mem s) (p_tf (procs s ! i)) 0 sizeof_trapframe\<rparr>;
           s = set_tf16 i tf_cs user_cs s;
           s = set_tf16 i tf_ds user_ds s;
           s = set_tf16 i tf_es user_ds s;
           s = set_tf16 i tf_ss user_ds s;
           s = tf_set i tf_eflags FL_IF s;
           s = tf_set i tf_esp PGSIZE s;
           s = tf_set i tf_eip 0 s;
           s = upd_proc i (\<lambda>p. p\<lparr>p_name := safestrcpy (p_name p) (cstr_of (bytes ''initcode'')) 16\<rparr>) s in
       obind (namei [slash] s) (\<lambda>(ip, s).
       let s = upd_proc i (\<lambda>p. p\<lparr>p_cwd := ip\<rparr>) s in
       obind (ptable_acquire s) (\<lambda>s.
       ptable_release (upd_proc i (\<lambda>p. p\<lparr>p_state := RUNNABLE\<rparr>) s))))))"

section \<open>fork\<close>

fun dup_files :: "nat \<Rightarrow> nat \<Rightarrow> nat list \<Rightarrow> 'a kstate_scheme \<Rightarrow> 'a kstate_scheme outcome" where
  "dup_files cur np [] s = Ok s"
| "dup_files cur np (fd # fds) s =
     (case p_ofile (procs s ! cur) ! fd of
        None \<Rightarrow> dup_files cur np fds s
      | Some f \<Rightarrow>
          obind (filedup f s) (\<lambda>s.
          dup_files cur np fds (upd_proc np (\<lambda>p. p\<lparr>p_ofile := (p_ofile p)[fd := Some f]\<rparr>) s)))"

text \<open>The result is the child's pid, or -1.\<close>

definition fork :: "nat \<Rightarrow> 'a kstate_scheme \<Rightarrow> (int \<times> 'a kstate_scheme) outcome" where
  "fork cur s =
     obind (allocproc s) (\<lambda>(r, s).
     case r of
       None \<Rightarrow> Ok (- 1, s)
     | Some np \<Rightarrow>
         obind (copyuvm (p_pgdir (procs s ! cur)) (p_sz (procs s ! cur)) s) (\<lambda>(d, s).
         let s = upd_proc np (\<lambda>p. p\<lparr>p_pgdir := d\<rparr>) s in
         if d = 0 then
           obind (kfree (p_kstack (procs s ! np)) s) (\<lambda>s.
           Ok (- 1, upd_proc np (\<lambda>p. p\<lparr>p_kstack := 0, p_state := UNUSED\<rparr>) s))
         else
           let s = upd_proc np (\<lambda>p. p\<lparr>p_sz := p_sz (procs s ! cur)\<rparr>) s;
               s = upd_proc np (\<lambda>p. p\<lparr>p_parent := Some cur\<rparr>) s;
               s = s\<lparr>k_mem := memmove (k_mem s) (p_tf (procs s ! np)) (p_tf (procs s ! cur)) sizeof_trapframe\<rparr>;
               s = tf_set np tf_eax 0 s in
           obind (dup_files cur np [0 ..< NOFILE] s) (\<lambda>s.
           let cwd = the (p_cwd (procs s ! cur));
               s = idup cwd s;
               s = upd_proc np (\<lambda>p. p\<lparr>p_cwd := Some cwd\<rparr>) s;
               s = upd_proc np (\<lambda>p. p\<lparr>p_name := safestrcpy (p_name p) (p_name (procs s ! cur)) 16\<rparr>) s;
               pid = p_pid (procs s ! np) in
           obind (ptable_acquire s) (\<lambda>s.
           obind (ptable_release (upd_proc np (\<lambda>p. p\<lparr>p_state := RUNNABLE\<rparr>) s)) (\<lambda>s.
           Ok (pid, s))))))"

text \<open>
  What a new process does when it is first switched to. The very first one initialises the
  file system, which needs a process that can sleep.
\<close>

definition forkret :: "'a kstate_scheme \<Rightarrow> 'a kstate_scheme outcome" where
  "forkret s =
     obind (ptable_release s) (\<lambda>s.
     if forkret_first s then
       obind (iinit ROOTDEV (s\<lparr>forkret_first := False\<rparr>)) (initlog ROOTDEV)
     else Ok s)"

section \<open>exit\<close>

fun close_files :: "nat \<Rightarrow> nat list \<Rightarrow> 'a kstate_scheme \<Rightarrow> 'a kstate_scheme outcome" where
  "close_files cur [] s = Ok s"
| "close_files cur (fd # fds) s =
     (case p_ofile (procs s ! cur) ! fd of
        None \<Rightarrow> close_files cur fds s
      | Some f \<Rightarrow>
          obind (fileclose f s) (\<lambda>s.
          close_files cur fds (upd_proc cur (\<lambda>p. p\<lparr>p_ofile := (p_ofile p)[fd := None]\<rparr>) s)))"

text \<open>Abandoned children go to the first process, which may have to be woken for a zombie.\<close>

fun reparent :: "nat \<Rightarrow> nat list \<Rightarrow> 'a pstate_scheme \<Rightarrow> 'a pstate_scheme" where
  "reparent cur [] s = s"
| "reparent cur (i # is) s =
     (if p_parent (procs s ! i) = Some cur then
        let s = upd_proc i (\<lambda>p. p\<lparr>p_parent := initproc s\<rparr>) s;
            s = (if p_state (procs s ! i) = ZOMBIE then wakeup1 (map_option ChProc (initproc s)) s else s)
        in reparent cur is s
      else reparent cur is s)"

text \<open>The part of \<^verbatim>\<open>exit\<close> under the lock of the table, up to the switch.\<close>

definition exit_zombie :: "nat \<Rightarrow> 'a pstate_scheme \<Rightarrow> 'a pstate_scheme outcome" where
  "exit_zombie cur s =
     (let s = wakeup1 (map_option ChProc (p_parent (procs s ! cur))) s;
          s = reparent cur [0 ..< length (procs s)] s;
          s = upd_proc cur (\<lambda>p. p\<lparr>p_state := ZOMBIE\<rparr>) s;
          s = upd_proc cur (\<lambda>p. p\<lparr>p_turn_around_time := ticks s - p_turn_around_time p\<rparr>) s;
          p = procs s ! cur in
      obind (cprintf (bytes ''PID = %d'' @ nl @ bytes ''Turn Around Time = %d'' @ nl @
               bytes ''Response Time = %d'' @ nl @ nl)
        [ArgInt (word_of_int (p_pid p)), ArgInt (p_turn_around_time p), ArgInt (p_response_time p)] s) (\<lambda>s.
      sched cur s))"

definition exit_enter :: "nat \<Rightarrow> 'a kstate_scheme \<Rightarrow> 'a kstate_scheme outcome" where
  "exit_enter cur s =
     (if initproc s = Some cur then Panic ''init exiting''
      else
        obind (close_files cur [0 ..< NOFILE] s) (\<lambda>s.
        obind (begin_op s) (\<lambda>s.
        obind (iput (the (p_cwd (procs s ! cur))) s) (\<lambda>s.
        obind (end_op s) (\<lambda>s.
        let s = upd_proc cur (\<lambda>p. p\<lparr>p_cwd := None\<rparr>) s in
        obind (ptable_acquire s) (exit_zombie cur))))))"

section \<open>System calls\<close>

definition sys_fork :: "'a kstate_scheme \<Rightarrow> (int progress \<times> 'a kstate_scheme) outcome" where
  "sys_fork s = obind (fork (curproc s) s) (\<lambda>(r, s). Ok (Return r, s))"

definition sys_exit :: "'a kstate_scheme \<Rightarrow> (int progress \<times> 'a kstate_scheme) outcome" where
  "sys_exit s = obind (exit_enter (curproc s) s) (\<lambda>s. Ok (Blocked [], s))"

definition wait_progress :: "int option \<Rightarrow> int progress" where
  "wait_progress r = (case r of Some v \<Rightarrow> Return v | None \<Rightarrow> Blocked [])"

definition sys_wait :: "'a kstate_scheme \<Rightarrow> (int progress \<times> 'a kstate_scheme) outcome" where
  "sys_wait s = obind (wait_enter (curproc s) s) (\<lambda>(r, s). Ok (wait_progress r, s))"

definition sys_kill :: "'a kstate_scheme \<Rightarrow> (int progress \<times> 'a kstate_scheme) outcome" where
  "sys_kill s =
     obind (argint 0 s) (\<lambda>r.
     case r of None \<Rightarrow> Ok (Return (- 1), s)
     | Some pid \<Rightarrow> obind (kill (sint pid) s) (\<lambda>(ok, s). Ok (Return (if ok then 0 else - 1), s)))"

definition sys_getpid :: "'a kstate_scheme \<Rightarrow> (int progress \<times> 'a kstate_scheme) outcome" where
  "sys_getpid s = Ok (Return (p_pid (procs s ! curproc s)), s)"

definition sys_sbrk :: "'a kstate_scheme \<Rightarrow> (int progress \<times> 'a kstate_scheme) outcome" where
  "sys_sbrk s =
     obind (argint 0 s) (\<lambda>r.
     case r of None \<Rightarrow> Ok (Return (- 1), s)
     | Some n \<Rightarrow>
         let addr = sint (cur_sz s) in
         obind (growproc (curproc s) n s) (\<lambda>(ok, s).
         Ok (Return (if ok then addr else - 1), s)))"

text \<open>The loop of \<^verbatim>\<open>sys_sleep\<close>: the comparison is unsigned.\<close>

definition sleep_loop :: "u32 \<Rightarrow> u32 \<Rightarrow> 'a kstate_scheme \<Rightarrow> (int progress \<times> 'a kstate_scheme) outcome" where
  "sleep_loop ticks0 n s =
     (if ticks s - ticks0 < n then
        if p_killed (procs s ! curproc s) then Ok (Return (- 1), s)
        else obind (sleep_enter (curproc s) ChTicks False s) (\<lambda>s. Ok (Blocked [], s))
      else Ok (Return 0, s))"

definition sys_sleep :: "'a kstate_scheme \<Rightarrow> (int progress \<times> 'a kstate_scheme) outcome" where
  "sys_sleep s =
     obind (argint 0 s) (\<lambda>r.
     case r of None \<Rightarrow> Ok (Return (- 1), s) | Some n \<Rightarrow> sleep_loop (ticks s) n s)"

definition sys_sleep_resume :: "u32 \<Rightarrow> u32 \<Rightarrow> 'a kstate_scheme \<Rightarrow> (int progress \<times> 'a kstate_scheme) outcome" where
  "sys_sleep_resume ticks0 n s = obind (sleep_resume (curproc s) False s) (sleep_loop ticks0 n)"

definition sys_uptime :: "'a kstate_scheme \<Rightarrow> (int progress \<times> 'a kstate_scheme) outcome" where
  "sys_uptime s = Ok (Return (sint (ticks s)), s)"

text \<open>The argument is not checked: without one the pid is whatever the stack holds.\<close>

definition sys_invoked_syscalls :: "'a kstate_scheme \<Rightarrow> (int progress \<times> 'a kstate_scheme) outcome" where
  "sys_invoked_syscalls s =
     obind (argint 0 s) (\<lambda>r.
     obind (invoked_syscalls (case r of Some pid \<Rightarrow> sint pid | None \<Rightarrow> undefined) s) (\<lambda>(x, s).
     Ok (Return 22, s)))"

definition sys_log_syscalls :: "'a kstate_scheme \<Rightarrow> (int progress \<times> 'a kstate_scheme) outcome" where
  "sys_log_syscalls s = obind (log_syscalls s) (\<lambda>(x, s). Ok (Return 23, s))"

end
