(* ===== verification/Sysfile.thy ===== *)
theory Sysfile
  imports Sysproc
begin

text \<open>
  \<^verbatim>\<open>sysfile.c\<close>: the system calls on files, mostly checks of arguments around the operations
  of \<open>File\<close> and \<open>Fs\<close>. \<open>devs\<close> is the device table.
\<close>

unbundle bit_operations_syntax

abbreviation O_RDONLY :: u32 where "O_RDONLY \<equiv> 0"
abbreviation O_WRONLY :: u32 where "O_WRONLY \<equiv> 1"
abbreviation O_RDWR :: u32 where "O_RDWR \<equiv> 2"
abbreviation O_CREATE :: u32 where "O_CREATE \<equiv> 0x200"

text \<open>The return of -1.\<close>

definition failed :: "'a kstate_scheme \<Rightarrow> (int progress \<times> 'a kstate_scheme) outcome" where
  "failed s = Ok (Return (- 1), s)"

definition fail_op :: "'a kstate_scheme \<Rightarrow> (int progress \<times> 'a kstate_scheme) outcome" where
  "fail_op s = obind (end_op s) failed"

section \<open>Descriptors\<close>

definition sys_dup :: "'a kstate_scheme \<Rightarrow> (int progress \<times> 'a kstate_scheme) outcome" where
  "sys_dup s =
     obind (argfd 0 s) (\<lambda>r.
     case r of None \<Rightarrow> failed s
     | Some (fd0, f) \<Rightarrow>
         (case fdalloc f s of
            (None, s) \<Rightarrow> failed s
          | (Some fd, s) \<Rightarrow> obind (filedup f s) (\<lambda>s. Ok (Return (int fd), s))))"

text \<open>
  \<^verbatim>\<open>itoa\<close> writes the digits as they are divided off, so they come out reversed; \<open>k\<close> is the
  next index. The buffer has ten bytes, and more than nine digits run past its end.
\<close>

function itoa_loop :: "cstr \<Rightarrow> nat \<Rightarrow> int \<Rightarrow> cstr" where
  "itoa_loop t k num =
     (if num > 0 then itoa_loop (t(k := word_of_int (num mod 10 + 48))) (k + 1) (num div 10)
      else t(k := 0))"
  by pat_completeness auto
termination
  by (relation "measure (\<lambda>(t, k, num). nat num)") auto

declare itoa_loop.simps [simp del]

definition itoa :: "cstr \<Rightarrow> int \<Rightarrow> cstr" where "itoa t num = itoa_loop t 0 num"

text \<open>The bytes \<^verbatim>\<open>set_last_syscall_info\<close> reads at a user address: at most ten, up to a NUL.\<close>

fun user_prefix :: "u32 \<Rightarrow> nat \<Rightarrow> 'a pstate_scheme \<Rightarrow> u8 list outcome" where
  "user_prefix va 0 s = Ok []"
| "user_prefix va (Suc n) s =
     obind (user_load va s) (\<lambda>c.
     if c = 0 then Ok [] else obind (user_prefix (va + 1) n s) (\<lambda>cs. Ok (c # cs)))"

text \<open>A record past the ten slots writes into other memory, whatever that is.\<close>

definition record_arg :: "u8 list \<Rightarrow> 'a kstate_scheme \<Rightarrow> 'a kstate_scheme" where
  "record_arg xs s =
     (case set_last_syscall_info (cstr_of xs) s of Some s \<Rightarrow> s | None \<Rightarrow> undefined)"

definition sys_read :: "'a kstate_scheme devtab \<Rightarrow> 'a kstate_scheme \<Rightarrow> (int progress \<times> 'a kstate_scheme) outcome" where
  "sys_read devs s =
     obind (argfd 0 s) (\<lambda>r1. case r1 of None \<Rightarrow> failed s | Some (fd, f) \<Rightarrow>
     obind (argint 2 s) (\<lambda>r2. case r2 of None \<Rightarrow> failed s | Some n \<Rightarrow>
     obind (argptr 1 n s) (\<lambda>r3. case r3 of None \<Rightarrow> failed s | Some p \<Rightarrow>
       let s = record_arg (bytes ''fd: '') s;
           s = record_arg (bytes ''Inode'') s;
           s = record_arg (bytes ''ptr: '') s in
       obind (user_prefix p 10 s) (\<lambda>xs.
       let s = record_arg xs s;
           s = record_arg (bytes ''int'') s;
           s = s\<lparr>itoa_temp := itoa (itoa_temp s) (sint n)\<rparr>;
           s = record_arg (cstr_text 10 (itoa_temp s)) s in
       obind (fileread devs f n s) (\<lambda>(r, s).
       case r of
         Blocked xs \<Rightarrow> Ok (Blocked xs, s)
       | Return None \<Rightarrow> failed s
       | Return (Some xs) \<Rightarrow> obind (user_put p xs s) (\<lambda>s. Ok (Return (int (length xs)), s)))))))"

definition sys_write :: "'a kstate_scheme devtab \<Rightarrow> 'a kstate_scheme \<Rightarrow> (int progress \<times> 'a kstate_scheme) outcome" where
  "sys_write devs s =
     obind (argfd 0 s) (\<lambda>r1. case r1 of None \<Rightarrow> failed s | Some (fd, f) \<Rightarrow>
     obind (argint 2 s) (\<lambda>r2. case r2 of None \<Rightarrow> failed s | Some n \<Rightarrow>
     obind (argptr 1 n s) (\<lambda>r3. case r3 of None \<Rightarrow> failed s | Some p \<Rightarrow>
       obind (user_bytes p (unat n) s) (\<lambda>xs. filewrite devs f xs s))))"

definition sys_close :: "'a kstate_scheme \<Rightarrow> (int progress \<times> 'a kstate_scheme) outcome" where
  "sys_close s =
     obind (argfd 0 s) (\<lambda>r. case r of None \<Rightarrow> failed s | Some (fd, f) \<Rightarrow>
       let s = upd_proc (curproc s) (\<lambda>p. p\<lparr>p_ofile := (p_ofile p)[fd := None]\<rparr>) s in
       obind (fileclose f s) (\<lambda>s. Ok (Return 0, s)))"

text \<open>The fields of \<^verbatim>\<open>struct stat\<close> at offsets 0, 4, 8, 12 and 16; padding is not written.\<close>

definition half_bytes :: "u16 \<Rightarrow> u8 list" where "half_bytes v = [ucast v, ucast (drop_bit 8 v)]"

definition put_stat :: "u32 \<Rightarrow> stat \<Rightarrow> 'a pstate_scheme \<Rightarrow> 'a pstate_scheme outcome" where
  "put_stat va st s =
     obind (user_put (va + 4) (word_bytes (st_dev st)) s) (\<lambda>s.
     obind (user_put (va + 8) (word_bytes (st_ino st)) s) (\<lambda>s.
     obind (user_put va (half_bytes (st_type st)) s) (\<lambda>s.
     obind (user_put (va + 12) (half_bytes (st_nlink st)) s) (\<lambda>s.
     user_put (va + 16) (word_bytes (st_size st)) s))))"

definition sys_fstat :: "'a kstate_scheme \<Rightarrow> (int progress \<times> 'a kstate_scheme) outcome" where
  "sys_fstat s =
     obind (argfd 0 s) (\<lambda>r1. case r1 of None \<Rightarrow> failed s | Some (fd, f) \<Rightarrow>
     obind (argptr 1 20 s) (\<lambda>r2. case r2 of None \<Rightarrow> failed s | Some p \<Rightarrow>
       obind (filestat f s) (\<lambda>(r, s).
       case r of None \<Rightarrow> failed s
       | Some st \<Rightarrow> obind (put_stat p st s) (\<lambda>s. Ok (Return 0, s)))))"

section \<open>Links\<close>

definition sys_link_bad :: "nat \<Rightarrow> 'a kstate_scheme \<Rightarrow> (int progress \<times> 'a kstate_scheme) outcome" where
  "sys_link_bad ip s =
     obind (ilock (Some ip) s) (\<lambda>s.
     obind (iupdate ip (upd_inode ip (\<lambda>x. x\<lparr>i_nlink := i_nlink x - 1\<rparr>) s)) (\<lambda>s.
     obind (iunlockput ip s) fail_op))"

definition sys_link :: "'a kstate_scheme \<Rightarrow> (int progress \<times> 'a kstate_scheme) outcome" where
  "sys_link s =
     obind (argstr 0 s) (\<lambda>r1. case r1 of None \<Rightarrow> failed s | Some old \<Rightarrow>
     obind (argstr 1 s) (\<lambda>r2. case r2 of None \<Rightarrow> failed s | Some new \<Rightarrow>
       obind (begin_op s) (\<lambda>s.
       obind (namei old s) (\<lambda>(r, s).
       case r of None \<Rightarrow> fail_op s
       | Some ip \<Rightarrow>
           obind (ilock (Some ip) s) (\<lambda>s.
           if i_type (icache s ! ip) = T_DIR then obind (iunlockput ip s) fail_op
           else
             obind (iupdate ip (upd_inode ip (\<lambda>x. x\<lparr>i_nlink := i_nlink x + 1\<rparr>) s)) (\<lambda>s.
             obind (iunlock (Some ip) s) (\<lambda>s.
             obind (nameiparent new s) (\<lambda>(r, s).
             case r of None \<Rightarrow> sys_link_bad ip s
             | Some (dp, nm) \<Rightarrow>
                 obind (ilock (Some dp) s) (\<lambda>s.
                 obind (if i_dev (icache s ! dp) \<noteq> i_dev (icache s ! ip) then Ok (False, s)
                        else dirlink dp nm (i_inum (icache s ! ip)) s) (\<lambda>(ok, s).
                 obind (iunlockput dp s) (\<lambda>s.
                 if \<not> ok then sys_link_bad ip s
                 else
                   obind (iput ip s) (\<lambda>s.
                   obind (end_op s) (\<lambda>s. Ok (Return 0, s))))))))))))))"

fun isdirempty_from :: "nat \<Rightarrow> nat list \<Rightarrow> 'a fstate_scheme \<Rightarrow> (bool \<times> 'a fstate_scheme) outcome" where
  "isdirempty_from dp [] s = Ok (True, s)"
| "isdirempty_from dp (off # offs) s =
     obind (readi no_devs dp (of_nat off) 16 s) (\<lambda>(r, s).
     case r of None \<Rightarrow> Panic ''isdirempty: readi''
     | Some de \<Rightarrow>
         if length de \<noteq> 16 then Panic ''isdirempty: readi''
         else if de_inum de \<noteq> 0 then Ok (False, s)
         else isdirempty_from dp offs s)"

text \<open>The entries after \<open>.\<close> and \<open>..\<close>, which are the first two.\<close>

definition isdirempty :: "nat \<Rightarrow> 'a fstate_scheme \<Rightarrow> (bool \<times> 'a fstate_scheme) outcome" where
  "isdirempty dp s = isdirempty_from dp (drop 2 (dirent_offsets (unat (i_size (icache s ! dp))))) s"

definition sys_unlink_bad :: "nat \<Rightarrow> 'a kstate_scheme \<Rightarrow> (int progress \<times> 'a kstate_scheme) outcome" where
  "sys_unlink_bad dp s = obind (iunlockput dp s) fail_op"

definition unlink_entry :: "nat \<Rightarrow> nat \<Rightarrow> nat \<Rightarrow> 'a kstate_scheme \<Rightarrow> (int progress \<times> 'a kstate_scheme) outcome" where
  "unlink_entry dp ip off s =
     obind (writei no_devs dp (replicate 16 0) (of_nat off) s) (\<lambda>(n, s).
     if n \<noteq> 16 then Panic ''unlink: writei''
     else
       obind (if i_type (icache s ! ip) = T_DIR
              then iupdate dp (upd_inode dp (\<lambda>x. x\<lparr>i_nlink := i_nlink x - 1\<rparr>) s) else Ok s) (\<lambda>s.
       obind (iunlockput dp s) (\<lambda>s.
       obind (iupdate ip (upd_inode ip (\<lambda>x. x\<lparr>i_nlink := i_nlink x - 1\<rparr>) s)) (\<lambda>s.
       obind (iunlockput ip s) (\<lambda>s.
       obind (end_op s) (\<lambda>s. Ok (Return 0, s)))))))"

definition sys_unlink :: "'a kstate_scheme \<Rightarrow> (int progress \<times> 'a kstate_scheme) outcome" where
  "sys_unlink s =
     obind (argstr 0 s) (\<lambda>r1. case r1 of None \<Rightarrow> failed s | Some path \<Rightarrow>
       obind (begin_op s) (\<lambda>s.
       obind (nameiparent path s) (\<lambda>(r, s).
       case r of None \<Rightarrow> fail_op s
       | Some (dp, nm) \<Rightarrow>
           obind (ilock (Some dp) s) (\<lambda>s.
           if namecmp nm (bytes ''.'') = 0 \<or> namecmp nm (bytes ''..'') = 0 then sys_unlink_bad dp s
           else
             obind (dirlookup dp nm s) (\<lambda>(r, s).
             case r of None \<Rightarrow> sys_unlink_bad dp s
             | Some (ip, off) \<Rightarrow>
                 obind (ilock (Some ip) s) (\<lambda>s.
                 if sint (i_nlink (icache s ! ip)) < 1 then Panic ''unlink: nlink < 1''
                 else
                   obind (if i_type (icache s ! ip) = T_DIR then isdirempty ip s else Ok (True, s)) (\<lambda>(e, s).
                   if \<not> e then obind (iunlockput ip s) (sys_unlink_bad dp)
                   else unlink_entry dp ip off s)))))))"

section \<open>Creating and opening\<close>

text \<open>The inode that is there or made, locked; \<open>None\<close> where the path is no use.\<close>

definition create_entry :: "nat \<Rightarrow> u8 list \<Rightarrow> u16 \<Rightarrow> u16 \<Rightarrow> u16 \<Rightarrow> 'a fstate_scheme \<Rightarrow>
    (nat option \<times> 'a fstate_scheme) outcome" where
  "create_entry dp nm ty mjr mnr s =
     obind (ialloc (i_dev (icache s ! dp)) ty s) (\<lambda>(ip, s).
     obind (ilock (Some ip) s) (\<lambda>s.
     obind (iupdate ip (upd_inode ip (\<lambda>x. x\<lparr>i_major := mjr, i_minor := mnr, i_nlink := 1\<rparr>) s)) (\<lambda>s.
     obind
       (if ty = T_DIR then
          obind (iupdate dp (upd_inode dp (\<lambda>x. x\<lparr>i_nlink := i_nlink x + 1\<rparr>) s)) (\<lambda>s.
          obind (dirlink ip (bytes ''.'') (i_inum (icache s ! ip)) s) (\<lambda>(ok, s).
          if \<not> ok then Panic ''create dots''
          else
            obind (dirlink ip (bytes ''..'') (i_inum (icache s ! dp)) s) (\<lambda>(ok, s).
            if \<not> ok then Panic ''create dots'' else Ok s)))
        else Ok s) (\<lambda>s.
     obind (dirlink dp nm (i_inum (icache s ! ip)) s) (\<lambda>(ok, s).
     if \<not> ok then Panic ''create: dirlink''
     else obind (iunlockput dp s) (\<lambda>s. Ok (Some ip, s)))))))"

definition create :: "u8 list \<Rightarrow> u16 \<Rightarrow> u16 \<Rightarrow> u16 \<Rightarrow> 'a fstate_scheme \<Rightarrow>
    (nat option \<times> 'a fstate_scheme) outcome" where
  "create path ty mjr mnr s =
     obind (nameiparent path s) (\<lambda>(r, s).
     case r of None \<Rightarrow> Ok (None, s)
     | Some (dp, nm) \<Rightarrow>
         obind (ilock (Some dp) s) (\<lambda>s.
         obind (dirlookup dp nm s) (\<lambda>(r, s).
         case r of
           Some (ip, off) \<Rightarrow>
             obind (iunlockput dp s) (\<lambda>s.
             obind (ilock (Some ip) s) (\<lambda>s.
             if ty = T_FILE \<and> i_type (icache s ! ip) = T_FILE then Ok (Some ip, s)
             else obind (iunlockput ip s) (\<lambda>s. Ok (None, s))))
         | None \<Rightarrow> create_entry dp nm ty mjr mnr s)))"

text \<open>The second half of \<^verbatim>\<open>sys_open\<close>, with the inode locked and the transaction open.\<close>

definition open_inode :: "nat \<Rightarrow> u32 \<Rightarrow> 'a kstate_scheme \<Rightarrow> (int progress \<times> 'a kstate_scheme) outcome" where
  "open_inode ip omode s =
     (case filealloc s of
        (None, s) \<Rightarrow> obind (iunlockput ip s) fail_op
      | (Some f, s) \<Rightarrow>
          (case fdalloc f s of
             (None, s) \<Rightarrow>
               obind (fileclose f s) (\<lambda>s. obind (iunlockput ip s) fail_op)
           | (Some fd, s) \<Rightarrow>
               obind (iunlock (Some ip) s) (\<lambda>s.
               obind (end_op s) (\<lambda>s.
               let s = upd_file f (\<lambda>x. x\<lparr>f_type := FD_INODE, f_ip := Some ip, f_off := 0,
                         f_readable := (omode AND O_WRONLY = 0),
                         f_writable := (omode AND O_WRONLY \<noteq> 0 \<or> omode AND O_RDWR \<noteq> 0)\<rparr>) s
               in Ok (Return (int fd), s)))))"

definition sys_open :: "'a kstate_scheme \<Rightarrow> (int progress \<times> 'a kstate_scheme) outcome" where
  "sys_open s =
     obind (argstr 0 s) (\<lambda>r1. case r1 of None \<Rightarrow> failed s | Some path \<Rightarrow>
     obind (argint 1 s) (\<lambda>r2. case r2 of None \<Rightarrow> failed s | Some omode \<Rightarrow>
       obind (begin_op s) (\<lambda>s.
       if omode AND O_CREATE \<noteq> 0 then
         obind (create path T_FILE 0 0 s) (\<lambda>(r, s).
         case r of None \<Rightarrow> fail_op s | Some ip \<Rightarrow> open_inode ip omode s)
       else
         obind (namei path s) (\<lambda>(r, s).
         case r of None \<Rightarrow> fail_op s
         | Some ip \<Rightarrow>
             obind (ilock (Some ip) s) (\<lambda>s.
             if i_type (icache s ! ip) = T_DIR \<and> omode \<noteq> O_RDONLY then obind (iunlockput ip s) fail_op
             else open_inode ip omode s)))))"

text \<open>The end that \<^verbatim>\<open>sys_mkdir\<close> and \<^verbatim>\<open>sys_mknod\<close> share.\<close>

definition made :: "nat option \<Rightarrow> 'a kstate_scheme \<Rightarrow> (int progress \<times> 'a kstate_scheme) outcome" where
  "made r s =
     (case r of None \<Rightarrow> fail_op s
      | Some ip \<Rightarrow>
          obind (iunlockput ip s) (\<lambda>s.
          obind (end_op s) (\<lambda>s. Ok (Return 0, s))))"

definition sys_mkdir :: "'a kstate_scheme \<Rightarrow> (int progress \<times> 'a kstate_scheme) outcome" where
  "sys_mkdir s =
     obind (begin_op s) (\<lambda>s.
     obind (argstr 0 s) (\<lambda>r1. case r1 of None \<Rightarrow> fail_op s | Some path \<Rightarrow>
       obind (create path T_DIR 0 0 s) (\<lambda>(r, s). made r s)))"

definition sys_mknod :: "'a kstate_scheme \<Rightarrow> (int progress \<times> 'a kstate_scheme) outcome" where
  "sys_mknod s =
     obind (begin_op s) (\<lambda>s.
     obind (argstr 0 s) (\<lambda>r1. case r1 of None \<Rightarrow> fail_op s | Some path \<Rightarrow>
     obind (argint 1 s) (\<lambda>r2. case r2 of None \<Rightarrow> fail_op s | Some mjr \<Rightarrow>
     obind (argint 2 s) (\<lambda>r3. case r3 of None \<Rightarrow> fail_op s | Some mnr \<Rightarrow>
       obind (create path T_DEV (ucast mjr) (ucast mnr) s) (\<lambda>(r, s). made r s)))))"

definition sys_chdir :: "'a kstate_scheme \<Rightarrow> (int progress \<times> 'a kstate_scheme) outcome" where
  "sys_chdir s =
     (let cur = curproc s in
      obind (begin_op s) (\<lambda>s.
      obind (argstr 0 s) (\<lambda>r1. case r1 of None \<Rightarrow> fail_op s | Some path \<Rightarrow>
      obind (namei path s) (\<lambda>(r, s). case r of None \<Rightarrow> fail_op s
      | Some ip \<Rightarrow>
          obind (ilock (Some ip) s) (\<lambda>s.
          if i_type (icache s ! ip) \<noteq> T_DIR then obind (iunlockput ip s) fail_op
          else
            obind (iunlock (Some ip) s) (\<lambda>s.
            obind (iput (the (p_cwd (procs s ! cur))) s) (\<lambda>s.
            obind (end_op s) (\<lambda>s.
            Ok (Return 0, upd_proc cur (\<lambda>p. p\<lparr>p_cwd := Some ip\<rparr>) s)))))))))"

section \<open>exec and pipe\<close>

text \<open>
  The argument vector, read one pointer at a time: \<open>k\<close> slots of the local array are still
  free. \<open>None\<close> is a failing fetch or a vector that is too long.
\<close>

fun fetch_argv :: "u32 \<Rightarrow> nat \<Rightarrow> 'a pstate_scheme \<Rightarrow> u8 list list option outcome" where
  "fetch_argv uargv 0 s = Ok None"
| "fetch_argv uargv (Suc k) s =
     obind (fetchint uargv s) (\<lambda>r.
     case r of None \<Rightarrow> Ok None
     | Some uarg \<Rightarrow>
         if uarg = 0 then Ok (Some [])
         else
           obind (fetchstr uarg s) (\<lambda>r.
           case r of None \<Rightarrow> Ok None
           | Some a \<Rightarrow> obind (fetch_argv (uargv + 4) k s) (\<lambda>r. Ok (map_option (\<lambda>as. a # as) r))))"

definition sys_exec :: "'a kstate_scheme devtab \<Rightarrow> 'a kstate_scheme \<Rightarrow> (int progress \<times> 'a kstate_scheme) outcome" where
  "sys_exec devs s =
     obind (argstr 0 s) (\<lambda>r1. case r1 of None \<Rightarrow> failed s | Some path \<Rightarrow>
     obind (argint 1 s) (\<lambda>r2. case r2 of None \<Rightarrow> failed s | Some uargv \<Rightarrow>
     obind (fetch_argv uargv MAXARG s) (\<lambda>r3. case r3 of None \<Rightarrow> failed s | Some argv \<Rightarrow>
       obind (exec devs path argv s) (\<lambda>(ok, s). Ok (Return (if ok then 0 else - 1), s)))))"

definition sys_pipe_bad :: "nat \<Rightarrow> nat \<Rightarrow> 'a kstate_scheme \<Rightarrow> (int progress \<times> 'a kstate_scheme) outcome" where
  "sys_pipe_bad rf wrf s = obind (fileclose rf s) (\<lambda>s. obind (fileclose wrf s) failed)"

definition sys_pipe :: "'a kstate_scheme \<Rightarrow> (int progress \<times> 'a kstate_scheme) outcome" where
  "sys_pipe s =
     obind (argptr 0 8 s) (\<lambda>r1. case r1 of None \<Rightarrow> failed s | Some fd \<Rightarrow>
     obind (pipealloc s) (\<lambda>(r, s).
     case r of None \<Rightarrow> failed s
     | Some (rf, wrf) \<Rightarrow>
         (case fdalloc rf s of
            (None, s) \<Rightarrow> sys_pipe_bad rf wrf s
          | (Some fd0, s) \<Rightarrow>
              (case fdalloc wrf s of
                 (None, s) \<Rightarrow>
                   sys_pipe_bad rf wrf (upd_proc (curproc s) (\<lambda>p. p\<lparr>p_ofile := (p_ofile p)[fd0 := None]\<rparr>) s)
               | (Some fd1, s) \<Rightarrow>
                   obind (user_put fd (word_bytes (of_nat fd0)) s) (\<lambda>s.
                   obind (user_put (fd + 4) (word_bytes (of_nat fd1)) s) (\<lambda>s.
                   Ok (Return 0, s)))))))"

end
