(* ===== verification/Trap.thy ===== *)
theory Trap
  imports Sysfile
begin

text \<open>
  The dispatcher of \<^verbatim>\<open>syscall.c\<close> and \<^verbatim>\<open>trap.c\<close>: what a trap does to the machine. The trap
  frame lies in memory at \<open>tf\<close>. Devices come in as arguments: the characters the keyboard
  or the serial line has ready, the date of the clock chip, the fault address in \<^verbatim>\<open>cr2\<close>.
\<close>

unbundle bit_operations_syntax

abbreviation T_SYSCALL :: u32 where "T_SYSCALL \<equiv> 64"
abbreviation T_IRQ0 :: u32 where "T_IRQ0 \<equiv> 32"
abbreviation IRQ_TIMER :: u32 where "IRQ_TIMER \<equiv> 0"
abbreviation IRQ_KBD :: u32 where "IRQ_KBD \<equiv> 1"
abbreviation IRQ_COM1 :: u32 where "IRQ_COM1 \<equiv> 4"
abbreviation IRQ_IDE :: u32 where "IRQ_IDE \<equiv> 14"
abbreviation IRQ_SPURIOUS :: u32 where "IRQ_SPURIOUS \<equiv> 31"

section \<open>Dispatching a system call\<close>

text \<open>The table \<^verbatim>\<open>syscalls\<close>, by number.\<close>

definition call_table :: "'a kstate_scheme devtab \<Rightarrow> nat \<Rightarrow>
    ('a kstate_scheme \<Rightarrow> (int progress \<times> 'a kstate_scheme) outcome) option" where
  "call_table devs num =
     (if num = 0 then None
      else
        let calls = [sys_fork, sys_exit, sys_wait, sys_pipe, sys_read devs, sys_kill, sys_exec devs,
          sys_fstat, sys_chdir, sys_dup, sys_getpid, sys_sbrk, sys_sleep, sys_uptime, sys_open,
          sys_write devs, sys_mknod, sys_unlink, sys_link, sys_mkdir, sys_close,
          sys_invoked_syscalls, sys_log_syscalls]
        in if num \<le> length calls then Some (calls ! (num - 1)) else None)"

text \<open>
  \<open>r\<close> is the date for the record of the call. A call that waits has not returned, so it is
  not recorded yet; \<open>False\<close> says so.
\<close>

definition syscall_return :: "nat \<Rightarrow> nat \<Rightarrow> rtcdate \<Rightarrow> int \<Rightarrow> 'a kstate_scheme \<Rightarrow> 'a kstate_scheme outcome" where
  "syscall_return cur num r v s =
     (let s = tf_set cur tf_eax (word_of_int v) s in
      obind (getName num) (\<lambda>nm. Ok (register_syscall (p_pid (procs s ! cur)) num nm r s)))"

definition syscall :: "'a kstate_scheme devtab \<Rightarrow> rtcdate \<Rightarrow> 'a kstate_scheme \<Rightarrow> (bool \<times> 'a kstate_scheme) outcome" where
  "syscall devs r s =
     (let cur = curproc s; num = sint (tf_get cur tf_eax s) in
      case (if num > 0 then call_table devs (nat num) else None) of
        Some f \<Rightarrow>
          obind (f s) (\<lambda>(v, s).
          case v of
            Blocked xs \<Rightarrow> Ok (False, s)
          | Return v \<Rightarrow> obind (syscall_return cur (nat num) r v s) (\<lambda>s. Ok (True, s)))
      | None \<Rightarrow>
          obind (cprintf (bytes ''%d %s: unknown sys call %d'' @ nl)
            [ArgInt (word_of_int (p_pid (procs s ! cur))),
             ArgStr (Some (cstr_text 16 (p_name (procs s ! cur)))), ArgInt (word_of_int num)] s) (\<lambda>s.
          Ok (True, tf_set cur tf_eax (- 1) s)))"

section \<open>Traps\<close>

text \<open>
  What a handler needs from outside: the CPU's number and whether it is the first, the
  characters ready at the keyboard and at the serial line, the disk driver's handler (of
  theory \<open>Ide\<close>), the date, and the fault address.
\<close>

record 'a trap_env =
  e_devs :: "'a devtab"
  e_cpuid :: nat
  e_kbd :: "int list"
  e_uart :: "int list"
  e_ideintr :: "'a \<Rightarrow> 'a outcome"
  e_date :: rtcdate
  e_cr2 :: u32

definition cur_opt :: "'a pstate_scheme \<Rightarrow> nat option" where
  "cur_opt s = c_proc (this_cpu s)"

definition cur_killed :: "'a pstate_scheme \<Rightarrow> bool" where
  "cur_killed s = (case cur_opt s of None \<Rightarrow> False | Some i \<Rightarrow> p_killed (procs s ! i))"

text \<open>
  How a trap ends: back to what was interrupted, or with the process switched away from,
  asleep, preempted or dead, and the scheduler to run.
\<close>

datatype trap_end = Resume | Switched

definition timer_tick :: "nat \<Rightarrow> 'a pstate_scheme \<Rightarrow> 'a pstate_scheme outcome" where
  "timer_tick cpuid s =
     (if cpuid = 0 then wakeup ChTicks (s\<lparr>ticks := ticks s + 1\<rparr>) else Ok s)"

definition tf_word :: "u32 \<Rightarrow> u32 \<Rightarrow> 'a pstate_scheme \<Rightarrow> u32" where
  "tf_word tf off s = load32 (k_mem s) (tf + off)"

definition from_user :: "u32 \<Rightarrow> 'a pstate_scheme \<Rightarrow> bool" where
  "from_user tf s \<longleftrightarrow> tf_word tf tf_cs s AND 3 = 3"

definition trap_device :: "'a kstate_scheme trap_env \<Rightarrow> u32 \<Rightarrow> 'a kstate_scheme \<Rightarrow> 'a kstate_scheme outcome" where
  "trap_device e tf s =
     (let no = tf_word tf tf_trapno s in
      if no = T_IRQ0 + IRQ_TIMER then timer_tick (e_cpuid e) s
      else if no = T_IRQ0 + IRQ_IDE then e_ideintr e s
      else if no = T_IRQ0 + IRQ_IDE + 1 then Ok s
      else if no = T_IRQ0 + IRQ_KBD then consoleintr (e_kbd e) s
      else if no = T_IRQ0 + IRQ_COM1 then consoleintr (e_uart e) s
      else if no = T_IRQ0 + 7 \<or> no = T_IRQ0 + IRQ_SPURIOUS then
        cprintf (bytes ''cpu%d: spurious interrupt at %x:%x'' @ nl)
          [ArgInt (of_nat (e_cpuid e)), ArgInt (tf_word tf tf_cs s AND 0xFFFF), ArgInt (tf_word tf tf_eip s)] s
      else
        case cur_opt s of
          None \<Rightarrow> Panic ''trap''
        | Some i \<Rightarrow>
            if tf_word tf tf_cs s AND 3 = 0 then Panic ''trap''
            else
              obind (cprintf (bytes ''pid %d %s: trap %d err %d on cpu %d eip 0x%x addr 0x%x--kill proc'' @ nl)
                [ArgInt (word_of_int (p_pid (procs s ! i))), ArgStr (Some (cstr_text 16 (p_name (procs s ! i)))),
                 ArgInt no, ArgInt (tf_word tf tf_err s), ArgInt (of_nat (e_cpuid e)),
                 ArgInt (tf_word tf tf_eip s), ArgInt (e_cr2 e)] s) (\<lambda>s.
              Ok (upd_proc i (\<lambda>p. p\<lparr>p_killed := True\<rparr>) s)))"

text \<open>The end of a trap that is not a system call; \<open>trap_after_yield\<close> is what is left after a preemption.\<close>

definition trap_exit_if_killed :: "u32 \<Rightarrow> 'a kstate_scheme \<Rightarrow> (trap_end \<times> 'a kstate_scheme) outcome" where
  "trap_exit_if_killed tf s =
     (if cur_killed s \<and> from_user tf s
      then obind (exit_enter (curproc s) s) (\<lambda>s. Ok (Switched, s)) else Ok (Resume, s))"

definition trap_after_yield :: "u32 \<Rightarrow> 'a kstate_scheme \<Rightarrow> (trap_end \<times> 'a kstate_scheme) outcome" where
  "trap_after_yield tf s = obind (yield_resume s) (trap_exit_if_killed tf)"

definition trap :: "'a kstate_scheme trap_env \<Rightarrow> u32 \<Rightarrow> 'a kstate_scheme \<Rightarrow> (trap_end \<times> 'a kstate_scheme) outcome" where
  "trap e tf s =
     (if tf_word tf tf_trapno s = T_SYSCALL then
        if cur_killed s then obind (exit_enter (curproc s) s) (\<lambda>s. Ok (Switched, s))
        else
          let s = upd_proc (curproc s) (\<lambda>p. p\<lparr>p_tf := tf\<rparr>) s in
          obind (syscall (e_devs e) (e_date e) s) (\<lambda>(returned, s).
          if \<not> returned then Ok (Switched, s)
          else if cur_killed s then obind (exit_enter (curproc s) s) (\<lambda>s. Ok (Switched, s))
          else Ok (Resume, s))
      else
        obind (trap_device e tf s) (\<lambda>s.
        obind (trap_exit_if_killed tf s) (\<lambda>(r, s).
        if r = Switched then Ok (Switched, s)
        else
          case cur_opt s of
            None \<Rightarrow> Ok (Resume, s)
          | Some i \<Rightarrow>
              if p_state (procs s ! i) = RUNNING \<and> tf_word tf tf_trapno s = T_IRQ0 + IRQ_TIMER then
                obind (yield_enter i s) (\<lambda>s. Ok (Switched, s))
              else trap_exit_if_killed tf s)))"

end
