(* ===== verification/Scheduler.thy ===== *)
theory Scheduler
  imports Proc
begin

text \<open>
  What a pass of the two schedulers of \<open>Proc\<close> runs: the round-robin one of \<^verbatim>\<open>RR/proc.c\<close> and
  the lottery of \<^verbatim>\<open>Lottery/proc.c\<close>. The processes are represented by the contract that
  \<^verbatim>\<open>swtch\<close> relies on (\<open>cooperative\<close>); the lemmas follow a pass through the table.
\<close>

section \<open>What a pass of the scheduler runs\<close>

text \<open>
  A trace of the processes that were given the CPU, and the contract of a process between
  two calls of \<^verbatim>\<open>swtch\<close>: it comes back through \<^verbatim>\<open>sched\<close>, holding the lock of the table
  alone, and has taken no other process off the run queue (it may have added some).
\<close>

record tstate = pstate +
  trace :: "nat list"

definition startable :: "proc \<Rightarrow> bool" where
  "startable p \<longleftrightarrow> p_kstack p \<noteq> 0 \<and> p_pgdir p \<noteq> 0 \<and> 0 < p_ticket p"

definition runnable :: "tstate \<Rightarrow> nat \<Rightarrow> bool" where
  "runnable s i \<longleftrightarrow> i < length (procs s) \<and> p_state (procs s ! i) = RUNNABLE"

definition table_ok :: "tstate \<Rightarrow> bool" where
  "table_ok s \<longleftrightarrow> length (procs s) = NPROC \<and> (\<forall>i < NPROC. runnable s i \<longrightarrow> startable (procs s ! i))"

definition cooperative :: "(nat \<Rightarrow> tstate \<Rightarrow> tstate outcome) \<Rightarrow> bool" where
  "cooperative run \<longleftrightarrow> (\<forall>i s. in_ptable s \<longrightarrow> table_ok s \<longrightarrow> i < NPROC \<longrightarrow>
     (\<exists>s'. run i s = Ok s' \<and> in_ptable s' \<and> table_ok s' \<and> trace s' = trace s @ [i] \<and>
        (\<forall>j. j \<noteq> i \<longrightarrow> runnable s j \<longrightarrow> runnable s' j)))"

lemma switchuvm_in_ptable:
  assumes "in_ptable s" "startable (procs s ! i)"
  shows "\<exists>a b. switchuvm (Some i) s = Ok (s\<lparr>ts_esp0 := a, cr3 := b\<rparr>)"
proof -
  have c: "popcli (pushcli (this_cpu s)) = Ok (this_cpu s)"
    using assms(1) by (simp add: in_ptable_def pushcli_def popcli_def Let_def)
  have "switchuvm (Some i) s = Ok (s\<lparr>ts_esp0 := p_kstack (procs s ! i) + KSTACKSIZE,
      cr3 := V2P (p_pgdir (procs s ! i))\<rparr>)"
    using assms(2) c by (simp add: switchuvm_def startable_def Let_def)
  then show ?thesis by blast
qed

lemma table_ok_upd:
  assumes "table_ok s" "procs s' = (procs s)[i := p]" "p_state p = RUNNABLE \<longrightarrow> startable p"
  shows "table_ok s'"
proof -
  have "startable (procs s' ! j)" if "j < NPROC" "runnable s' j" for j
    using assms that by (cases "j = i") (auto simp: table_ok_def runnable_def nth_list_update)
  then show ?thesis using assms by (auto simp: table_ok_def)
qed

lemma dispatch_ok:
  assumes s: "in_ptable s" "table_ok s" "runnable s i" and run: "cooperative run"
  shows "\<exists>s'. dispatch run i s = Ok s' \<and> in_ptable s' \<and> table_ok s' \<and> trace s' = trace s @ [i] \<and>
     (\<forall>j. j \<noteq> i \<longrightarrow> runnable s j \<longrightarrow> runnable s' j)"
proof -
  have i: "i < NPROC" "i < length (procs s)" "startable (procs s ! i)"
    using s(2,3) by (auto simp: table_ok_def runnable_def)
  let ?s1 = "s\<lparr>this_cpu := (this_cpu s)\<lparr>c_proc := Some i\<rparr>\<rparr>"
  have "in_ptable ?s1" using s(1) by (simp add: in_ptable_def)
  then obtain a b where u: "switchuvm (Some i) ?s1 = Ok (?s1\<lparr>ts_esp0 := a, cr3 := b\<rparr>)"
    using switchuvm_in_ptable [of ?s1 i] i(3) by auto
  define s2 where "s2 = ?s1\<lparr>ts_esp0 := a, cr3 := b\<rparr>"
  define s3 where "s3 = upd_proc i (\<lambda>p. p\<lparr>p_state := RUNNING\<rparr>) s2"
  define s4 where "s4 = (if \<not> p_serv (procs s3 ! i)
       then upd_proc i (\<lambda>p. p\<lparr>p_response_time := ticks s3 - p_response_time p, p_serv := True\<rparr>) s3 else s3)"
  define p where "p = procs s4 ! i"
  have p: "procs s4 = (procs s)[i := p]" "p_state p = RUNNING"
    using i(2) by (simp_all add: p_def s4_def s3_def upd_proc_def s2_def)
  have f: "pt_lock s4 = pt_lock s" "this_cpu s4 = this_cpu ?s1" "trace s4 = trace s" "me s4 = me s"
    by (simp_all add: s4_def s3_def upd_proc_def s2_def)
  have t4: "table_ok s4" by (rule table_ok_upd [OF s(2) p(1)]) (simp add: p(2))
  have l4: "in_ptable s4" using s(1) by (simp add: in_ptable_def f)
  obtain s5 where s5: "run i s4 = Ok s5" "in_ptable s5" "table_ok s5" "trace s5 = trace s4 @ [i]"
    "\<forall>j. j \<noteq> i \<longrightarrow> runnable s4 j \<longrightarrow> runnable s5 j"
    using run l4 t4 i(1) unfolding cooperative_def by blast
  define s6 where "s6 = (switchkvm s5)\<lparr>this_cpu := (this_cpu (switchkvm s5))\<lparr>c_proc := None\<rparr>\<rparr>"
  have e: "dispatch run i s = Ok s6"
    unfolding dispatch_def Let_def u obind.simps s2_def [symmetric] s3_def [symmetric] s4_def [symmetric]
    by (simp add: s5(1) s6_def)
  have pr: "procs s6 = procs s5" "trace s6 = trace s5" by (simp_all add: s6_def switchkvm_def)
  have "in_ptable s6" using s5(2) by (simp add: in_ptable_def s6_def switchkvm_def)
  moreover have "table_ok s6" using s5(3) by (simp add: table_ok_def runnable_def pr)
  moreover have "runnable s6 j" if "j \<noteq> i" "runnable s j" for j
  proof -
    have "runnable s4 j" using that p(1) by (simp add: runnable_def)
    then have "runnable s5 j" using s5(5) that(1) by blast
    then show ?thesis by (simp add: runnable_def pr)
  qed
  ultimately show ?thesis using e s5(4) f(3) pr(2) by (intro exI [of _ s6]) simp
qed

text \<open>The rest of a pass once the draw has been used up, which is round robin.\<close>

lemma rr_scan_runs:
  assumes "in_ptable s" "table_ok s" "cooperative run" "sorted is" "distinct is" "set is \<subseteq> {0 ..< NPROC}"
  shows "\<exists>s' js. rr_scan run is s = Ok s' \<and> in_ptable s' \<and> table_ok s' \<and> trace s' = trace s @ js \<and>
     sorted js \<and> distinct js \<and> set js \<subseteq> set is \<and> (\<forall>i \<in> set is. runnable s i \<longrightarrow> i \<in> set js) \<and>
     (\<forall>j. j \<notin> set is \<longrightarrow> runnable s j \<longrightarrow> runnable s' j)"
  using assms
proof (induction "is" arbitrary: s)
  case Nil
  then show ?case by (intro exI [of _ s] exI [of _ "[]"]) simp
next
  case (Cons i ks)
  have ks: "sorted ks" "distinct ks" "set ks \<subseteq> {0 ..< NPROC}" "i \<notin> set ks" "i < NPROC" "\<forall>k \<in> set ks. i \<le> k"
    using Cons.prems(4-6) by auto
  show ?case
  proof (cases "runnable s i")
    case False
    then have st: "p_state (procs s ! i) \<noteq> RUNNABLE" using ks(5) Cons.prems(2) by (simp add: runnable_def table_ok_def)
    obtain s' js where r: "rr_scan run ks s = Ok s'" "in_ptable s'" "table_ok s'" "trace s' = trace s @ js"
      "sorted js" "distinct js" "set js \<subseteq> set ks" "\<forall>k \<in> set ks. runnable s k \<longrightarrow> k \<in> set js" "\<forall>j. j \<notin> set ks \<longrightarrow> runnable s j \<longrightarrow> runnable s' j"
      using Cons.IH [OF Cons.prems(1-3) ks(1-3)] by blast
    have "\<forall>k \<in> set (i # ks). runnable s k \<longrightarrow> k \<in> set js" using r(8) False by simp
    moreover have "\<forall>j. j \<notin> set (i # ks) \<longrightarrow> runnable s j \<longrightarrow> runnable s' j" using r(9) by simp
    moreover have "set js \<subseteq> set (i # ks)" using r(7) by auto
    moreover have "rr_scan run (i # ks) s = Ok s'" using r(1) st by simp
    ultimately show ?thesis using r(2-6) by blast
  next
    case True
    then have st: "p_state (procs s ! i) = RUNNABLE" by (simp add: runnable_def)
    obtain t where t: "dispatch run i s = Ok t" "in_ptable t" "table_ok t" "trace t = trace s @ [i]"
      "\<forall>j. j \<noteq> i \<longrightarrow> runnable s j \<longrightarrow> runnable t j" using dispatch_ok [OF Cons.prems(1,2) True Cons.prems(3)] by blast
    obtain s' js where r: "rr_scan run ks t = Ok s'" "in_ptable s'" "table_ok s'" "trace s' = trace t @ js"
      "sorted js" "distinct js" "set js \<subseteq> set ks" "\<forall>k \<in> set ks. runnable t k \<longrightarrow> k \<in> set js" "\<forall>j. j \<notin> set ks \<longrightarrow> runnable t j \<longrightarrow> runnable s' j"
      using Cons.IH [OF t(2,3) Cons.prems(3) ks(1-3)] by blast
    have "\<forall>k \<in> set (i # ks). runnable s k \<longrightarrow> k \<in> set (i # js)" using r(8) t(5) ks(4) by (metis set_ConsD list.set_intros(1,2))
    moreover have "\<forall>j. j \<notin> set (i # ks) \<longrightarrow> runnable s j \<longrightarrow> runnable s' j" using r(9) t(5) by simp
    moreover have "set (i # js) \<subseteq> set (i # ks)" "distinct (i # js)" "sorted (i # js)" using r(5-7) ks(4,6) by auto
    moreover have "rr_scan run (i # ks) s = Ok s'" "trace s' = trace s @ (i # js)" using r(1,4) t(1,4) st by simp_all
    ultimately show ?thesis using r(2,3) by blast
  qed
qed


section \<open>The lottery\<close>

text \<open>The tickets of the runnable processes in the slots before \<open>i\<close>, and the winner of a draw.\<close>

fun tickets_before :: "proc list \<Rightarrow> nat \<Rightarrow> int" where
  "tickets_before ps 0 = 0"
| "tickets_before ps (Suc i) = tickets_before ps i + (if p_state (ps ! i) = RUNNABLE then p_ticket (ps ! i) else 0)"

definition wins :: "proc list \<Rightarrow> int \<Rightarrow> nat \<Rightarrow> bool" where
  "wins ps c i \<longleftrightarrow> i < length ps \<and> p_state (ps ! i) = RUNNABLE \<and> c \<le> tickets_before ps (Suc i) \<and>
     (\<forall>j < i. p_state (ps ! j) = RUNNABLE \<longrightarrow> tickets_before ps (Suc j) < c)"

lemma lottery_total_take: "i \<le> length ps \<Longrightarrow> lottery_total (take i ps) = tickets_before ps i"
proof (induction i)
  case (Suc i)
  then have "take (Suc i) ps = take i ps @ [ps ! i]" by (simp add: take_Suc_conv_app_nth)
  then show ?case using Suc by (simp add: lottery_total_def)
qed (simp add: lottery_total_def)

lemma lottery_total_eq: "lottery_total ps = tickets_before ps (length ps)"
  using lottery_total_take [of "length ps" ps] by simp

definition tickets_ok :: "proc list \<Rightarrow> bool" where
  "tickets_ok ps \<longleftrightarrow> (\<forall>i < length ps. p_state (ps ! i) = RUNNABLE \<longrightarrow> 0 < p_ticket (ps ! i))"

lemma table_ok_tickets: "table_ok s \<Longrightarrow> tickets_ok (procs s)"
  by (auto simp: table_ok_def tickets_ok_def runnable_def startable_def)

lemma tickets_before_mono:
  assumes "tickets_ok ps" "i \<le> j" "j \<le> length ps"
  shows "tickets_before ps i \<le> tickets_before ps j"
  using assms(2,3)
proof (induction j rule: nat_induct_at_least)
  case (Suc j)
  then have "p_state (ps ! j) = RUNNABLE \<longrightarrow> 0 < p_ticket (ps ! j)" using assms(1) by (simp add: tickets_ok_def)
  then show ?case using Suc by auto
qed simp

lemma tickets_before_nonneg: "tickets_ok ps \<Longrightarrow> i \<le> length ps \<Longrightarrow> 0 \<le> tickets_before ps i"
  using tickets_before_mono [of ps 0 i] by simp

text \<open>Every draw up to the total has a winner.\<close>

lemma wins_exists:
  assumes "tickets_ok ps" "0 < lottery_total ps" "c \<le> lottery_total ps"
  shows "\<exists>i. wins ps c i"
proof -
  let ?P = "\<lambda>i. i < length ps \<and> p_state (ps ! i) = RUNNABLE \<and> c \<le> tickets_before ps (Suc i)"
  have "\<exists>i. ?P i"
  proof (rule ccontr)
    assume no: "\<not> (\<exists>i. ?P i)"
    have "tickets_before ps n = 0 \<or> tickets_before ps n < c" if "n \<le> length ps" for n
      using that
    proof (induction n)
      case (Suc n)
      then show ?case using no by (cases "p_state (ps ! n) = RUNNABLE") (auto simp: not_le)
    qed simp
    then have "lottery_total ps = 0 \<or> lottery_total ps < c" unfolding lottery_total_eq by blast
    then show False using assms(2,3) by simp
  qed
  then have l: "?P (LEAST i. ?P i)" by (rule LeastI_ex)
  have "\<not> ?P j" if "j < (LEAST i. ?P i)" for j using that by (rule not_less_Least)
  then have "wins ps c (LEAST i. ?P i)" unfolding wins_def using l
    by (meson dual_order.strict_trans not_le)
  then show ?thesis by blast
qed

lemma lottery_scan_search:
  assumes w: "wins (procs s) c w" and k: "k \<le> w" and n: "w < n"
  shows "lottery_scan run [k ..< n] c (tickets_before (procs s) k) s =
     obind (dispatch run w s) (lottery_scan run [Suc w ..< n] 0 0)"
  using k
proof (induction "w - k" arbitrary: k)
  case 0
  then have kw: "k = w" by simp
  have u: "[w ..< n] = w # [Suc w ..< n]" using n by (simp add: upt_conv_Cons)
  have "p_state (procs s ! w) = RUNNABLE" "\<not> tickets_before (procs s) w + p_ticket (procs s ! w) < c"
    using w by (auto simp: wins_def)
  then show ?case unfolding kw u by simp
next
  case (Suc d)
  then have kw: "k < w" by simp
  then have u: "[k ..< n] = k # [Suc k ..< n]" using n by (simp add: upt_conv_Cons)
  have IH: "lottery_scan run [Suc k ..< n] c (tickets_before (procs s) (Suc k)) s =
     obind (dispatch run w s) (lottery_scan run [Suc w ..< n] 0 0)"
    by (rule Suc.hyps(1)) (use Suc.hyps(2) kw in simp_all)
  show ?case
  proof (cases "p_state (procs s ! k) = RUNNABLE")
    case True
    then have "tickets_before (procs s) k + p_ticket (procs s ! k) < c" using w kw by (auto simp: wins_def)
    then show ?thesis using IH True unfolding u by simp
  next
    case False
    then show ?thesis using IH unfolding u by simp
  qed
qed

text \<open>After the winner has run, the draw is 0 and the rest of the pass is round robin.\<close>

lemma lottery_scan_rest:
  assumes "in_ptable s" "table_ok s" "cooperative run" "set is \<subseteq> {0 ..< NPROC}"
  shows "lottery_scan run is 0 0 s = rr_scan run is s"
  using assms
proof (induction "is" arbitrary: s)
  case (Cons i ks)
  show ?case
  proof (cases "p_state (procs s ! i) = RUNNABLE")
    case True
    then have r: "runnable s i" using Cons.prems(2,4) by (simp add: runnable_def table_ok_def)
    then have "0 < p_ticket (procs s ! i)" using Cons.prems(2,4) by (simp add: table_ok_def startable_def)
    moreover obtain t where t: "dispatch run i s = Ok t" "in_ptable t" "table_ok t"
      using dispatch_ok [OF Cons.prems(1,2) r Cons.prems(3)] by blast
    ultimately show ?thesis using Cons.IH [OF t(2,3) Cons.prems(3)] Cons.prems(4) True by simp
  next
    case False
    then show ?thesis using Cons by simp
  qed
qed simp

text \<open>How many of the draws 0 to the total a process wins.\<close>

lemma wins_card:
  assumes ps: "tickets_ok ps" and i: "i < length ps" "p_state (ps ! i) = RUNNABLE"
  shows "card {c. 0 \<le> c \<and> c \<le> lottery_total ps \<and> wins ps c i} =
     nat (p_ticket (ps ! i)) + (if \<forall>j < i. p_state (ps ! j) \<noteq> RUNNABLE then 1 else 0)"
proof -
  let ?b = "tickets_before ps i" and ?e = "tickets_before ps (Suc i)"
  have e: "?e = ?b + p_ticket (ps ! i)" "0 < p_ticket (ps ! i)" "0 \<le> ?b" "?e \<le> lottery_total ps"
    using i ps tickets_before_nonneg [OF ps, of i] tickets_before_mono [OF ps, of "Suc i" "length ps"]
    by (auto simp: tickets_ok_def lottery_total_eq)
  show ?thesis
  proof (cases "\<forall>j < i. p_state (ps ! j) \<noteq> RUNNABLE")
    case True
    have "tickets_before ps j = 0" if "j \<le> i" for j
      using that True by (induction j) auto
    then have "?b = 0" by simp
    moreover have "{c. 0 \<le> c \<and> c \<le> lottery_total ps \<and> wins ps c i} = {0 .. ?e}"
      using True i e by (auto simp: wins_def simp del: tickets_before.simps)
    ultimately show ?thesis using True e by (simp add: nat_add_distrib del: tickets_before.simps)
  next
    case False
    have before: "tickets_before ps (Suc j) < c" if "?b < c" "j < i" for j c
      using that tickets_before_mono [OF ps, of "Suc j" i] i(1) by (simp del: tickets_before.simps)
    have last: "?b < c" if "\<forall>j < i. p_state (ps ! j) = RUNNABLE \<longrightarrow> tickets_before ps (Suc j) < c" for c
    proof -
      have "tickets_before ps n < c" if "n \<le> i" "\<exists>j < n. p_state (ps ! j) = RUNNABLE" for n
        using that
      proof (induction n)
        case (Suc n)
        show ?case
        proof (cases "p_state (ps ! n) = RUNNABLE")
          case True
          then show ?thesis using \<open>\<forall>j < i. p_state (ps ! j) = RUNNABLE \<longrightarrow> tickets_before ps (Suc j) < c\<close> Suc.prems(1) by simp
        next
          case no: False
          then have "\<exists>j < n. p_state (ps ! j) = RUNNABLE" using Suc.prems(2) less_Suc_eq by blast
          then show ?thesis using Suc no by simp
        qed
      qed simp
      then show ?thesis using False by blast
    qed
    have "{c. 0 \<le> c \<and> c \<le> lottery_total ps \<and> wins ps c i} = {?b <.. ?e}"
    proof (intro set_eqI iffI)
      fix c assume "c \<in> {c. 0 \<le> c \<and> c \<le> lottery_total ps \<and> wins ps c i}"
      then show "c \<in> {?b <.. ?e}" using last [of c] by (auto simp: wins_def simp del: tickets_before.simps)
    next
      fix c assume "c \<in> {?b <.. ?e}"
      then show "c \<in> {c. 0 \<le> c \<and> c \<le> lottery_total ps \<and> wins ps c i}"
        using before [of c] i e by (auto simp: wins_def simp del: tickets_before.simps)
    qed
    then show ?thesis using False e by (simp del: tickets_before.simps)
  qed
qed

lemma wins_unique:
  assumes "tickets_ok ps" "wins ps c i" "wins ps c j"
  shows "i = j"
proof -
  have "\<not> i < j" if "wins ps c i" "wins ps c j" for i j
    using that by (fastforce simp: wins_def simp del: tickets_before.simps)
  then show ?thesis using assms by (metis linorder_neqE_nat)
qed


section \<open>A table of three runnable processes\<close>

definition example_table :: tstate where
  "example_table = (let s = example_state (tstate_ext [] ()) in
     s\<lparr>procs := [example_proc RUNNABLE 1 None, example_proc SLEEPING 2 None, example_proc RUNNABLE 3 None,
        example_proc RUNNABLE 4 None] @ replicate 60 (example_proc UNUSED 0 None)\<rparr>)"

definition go_to_sleep :: "nat \<Rightarrow> tstate \<Rightarrow> tstate outcome" where
  "go_to_sleep i s =
     Ok (s\<lparr>procs := (procs s)[i := (procs s ! i)\<lparr>p_state := SLEEPING\<rparr>], trace := trace s @ [i]\<rparr>)"

lemma cooperative_go_to_sleep: "cooperative go_to_sleep"
  unfolding cooperative_def go_to_sleep_def
proof (intro allI impI)
  fix i and s :: tstate
  assume s: "in_ptable s" "table_ok s" "i < NPROC"
  let ?p = "(procs s ! i)\<lparr>p_state := SLEEPING\<rparr>"
  let ?s = "s\<lparr>procs := (procs s)[i := ?p], trace := trace s @ [i]\<rparr>"
  have "in_ptable ?s" using s(1) by (simp add: in_ptable_def)
  moreover have "table_ok ?s" by (rule table_ok_upd [OF s(2), of _ i ?p]) simp_all
  moreover have "\<forall>j. j \<noteq> i \<longrightarrow> runnable s j \<longrightarrow> runnable ?s j" by (simp add: runnable_def)
  ultimately show "\<exists>s'. Ok ?s = Ok s' \<and> in_ptable s' \<and> table_ok s' \<and> trace s' = trace s @ [i] \<and>
      (\<forall>j. j \<noteq> i \<longrightarrow> runnable s j \<longrightarrow> runnable s' j)" by simp
qed

lemma example_table_ok: "quiet example_table" "table_ok example_table"
  "trace example_table = []"
proof -
  show "quiet example_table" "trace example_table = []"
    by (simp_all add: example_table_def example_state_def quiet_def example_cpu_def Let_def)
  show "table_ok example_table"
    by (auto simp: table_ok_def runnable_def startable_def example_table_def example_state_def example_proc_def Let_def
        nth_Cons nth_append split: nat.splits if_splits)
qed

lemma example_table_total: "lottery_total (procs example_table) = 30"
  by (simp add: lottery_total_def example_table_def example_state_def example_proc_def Let_def eval_nat_numeral)



end
