(* ===== verification/Sleepwake.thy ===== *)
theory Sleepwake
  imports Proc
begin

text \<open>
  The lines of \<^verbatim>\<open>sleep\<close> and \<^verbatim>\<open>wakeup\<close> of \<^verbatim>\<open>proc.c\<close>, interleaved. Any number of
  processes wait for a condition under a lock \<open>lk\<close>, as every caller of \<^verbatim>\<open>sleep\<close> does
  (\<^verbatim>\<open>while(!cond) sleep(ch, lk)\<close>), and any number set it and call \<^verbatim>\<open>wakeup(ch)\<close>. A step is
  one line of one process; a lock is its owner, and a process that finds it taken takes no
  step. \<open>Proc\<close> has the same operations as atomic steps.
\<close>

section \<open>The lines\<close>

text \<open>
  Where a process is: outside; at the test of the condition; in \<^verbatim>\<open>sleep\<close> before
  \<^verbatim>\<open>acquire(&ptable.lock)\<close>, before \<^verbatim>\<open>release(lk)\<close>, before the assignments to \<^verbatim>\<open>chan\<close> and
  \<^verbatim>\<open>state\<close>, before \<^verbatim>\<open>sched\<close>, off the CPU, back with the lock of the table, before the
  second \<^verbatim>\<open>release\<close> and \<^verbatim>\<open>acquire\<close>; with the condition found true; about to set it; in
  \<^verbatim>\<open>wakeup\<close> before its three lines; before the setter's \<^verbatim>\<open>release(lk)\<close>.
\<close>

datatype line = Outer | Test | Acq_pt | Rel_lk | Set_chan | Set_state | Call_sched | Off_cpu | Tidy | Rel_pt | Reacq_lk
  | Found | Set_cond | Wake_acq | Wake_scan | Wake_rel | Set_rel

record sw_sys =
  sw_cond :: bool
  sw_lk :: "nat option"
  sw_pt :: "nat option"
  sw_proc :: "nat \<Rightarrow> proc"
  sw_line :: "nat \<Rightarrow> line"

definition goto :: "sw_sys \<Rightarrow> nat \<Rightarrow> line \<Rightarrow> sw_sys" where
  "goto s i l = s\<lparr>sw_line := (sw_line s)(i := l)\<rparr>"

definition set_proc :: "sw_sys \<Rightarrow> nat \<Rightarrow> (proc \<Rightarrow> proc) \<Rightarrow> sw_sys" where
  "set_proc s i f = s\<lparr>sw_proc := (sw_proc s)(i := f (sw_proc s i))\<rparr>"

inductive sw_step :: "chan \<Rightarrow> sw_sys \<Rightarrow> sw_sys \<Rightarrow> bool" for ch where
  wait: "sw_line s i = Outer \<Longrightarrow> sw_lk s = None \<Longrightarrow> sw_step ch s (goto (s\<lparr>sw_lk := Some i\<rparr>) i Test)"
| test_false: "sw_line s i = Test \<Longrightarrow> \<not> sw_cond s \<Longrightarrow> sw_step ch s (goto s i Acq_pt)"
| test_true: "sw_line s i = Test \<Longrightarrow> sw_cond s \<Longrightarrow> sw_step ch s (goto s i Found)"
| found: "sw_line s i = Found \<Longrightarrow> sw_step ch s (goto (s\<lparr>sw_cond := c, sw_lk := None\<rparr>) i Outer)"
| acquire_pt: "sw_line s i = Acq_pt \<Longrightarrow> sw_pt s = None \<Longrightarrow>
    sw_step ch s (goto (s\<lparr>sw_pt := Some i\<rparr>) i Rel_lk)"
| release_lk: "sw_line s i = Rel_lk \<Longrightarrow> sw_step ch s (goto (s\<lparr>sw_lk := None\<rparr>) i Set_chan)"
| set_chan: "sw_line s i = Set_chan \<Longrightarrow>
    sw_step ch s (goto (set_proc s i (\<lambda>p. p\<lparr>p_chan := Some ch\<rparr>)) i Set_state)"
| set_state: "sw_line s i = Set_state \<Longrightarrow>
    sw_step ch s (goto (set_proc s i (\<lambda>p. p\<lparr>p_state := SLEEPING\<rparr>)) i Call_sched)"
| call_sched: "sw_line s i = Call_sched \<Longrightarrow> sw_step ch s (goto (s\<lparr>sw_pt := None\<rparr>) i Off_cpu)"
| dispatched: "sw_line s i = Off_cpu \<Longrightarrow> p_state (sw_proc s i) = RUNNABLE \<Longrightarrow> sw_pt s = None \<Longrightarrow>
    sw_step ch s (goto (set_proc (s\<lparr>sw_pt := Some i\<rparr>) i (\<lambda>p. p\<lparr>p_state := RUNNING\<rparr>)) i Tidy)"
| tidy: "sw_line s i = Tidy \<Longrightarrow>
    sw_step ch s (goto (set_proc s i (\<lambda>p. p\<lparr>p_chan := None\<rparr>)) i Rel_pt)"
| release_pt: "sw_line s i = Rel_pt \<Longrightarrow> sw_step ch s (goto (s\<lparr>sw_pt := None\<rparr>) i Reacq_lk)"
| reacquire_lk: "sw_line s i = Reacq_lk \<Longrightarrow> sw_lk s = None \<Longrightarrow>
    sw_step ch s (goto (s\<lparr>sw_lk := Some i\<rparr>) i Test)"
| enter_set: "sw_line s i = Outer \<Longrightarrow> sw_lk s = None \<Longrightarrow> sw_step ch s (goto (s\<lparr>sw_lk := Some i\<rparr>) i Set_cond)"
| set_cond: "sw_line s i = Set_cond \<Longrightarrow> sw_step ch s (goto (s\<lparr>sw_cond := True\<rparr>) i Wake_acq)"
| wake_acquire: "sw_line s i = Wake_acq \<Longrightarrow> sw_pt s = None \<Longrightarrow>
    sw_step ch s (goto (s\<lparr>sw_pt := Some i\<rparr>) i Wake_scan)"
| wake_scan: "sw_line s i = Wake_scan \<Longrightarrow>
    sw_step ch s (goto (s\<lparr>sw_proc := (\<lambda>j. wake (Some ch) (sw_proc s j))\<rparr>) i Wake_rel)"
| wake_release: "sw_line s i = Wake_rel \<Longrightarrow> sw_step ch s (goto (s\<lparr>sw_pt := None\<rparr>) i Set_rel)"
| set_release: "sw_line s i = Set_rel \<Longrightarrow> sw_step ch s (goto (s\<lparr>sw_lk := None\<rparr>) i Outer)"

inductive_cases sw_stepE: "sw_step ch s t"

definition sw_start :: "sw_sys \<Rightarrow> bool" where
  "sw_start s \<longleftrightarrow> sw_lk s = None \<and> sw_pt s = None \<and> (\<forall>i. sw_line s i = Outer \<and> p_state (sw_proc s i) = RUNNING)"

inductive sw_reach :: "chan \<Rightarrow> sw_sys \<Rightarrow> bool" for ch where
  start: "sw_start s \<Longrightarrow> sw_reach ch s"
| step: "sw_reach ch s \<Longrightarrow> sw_step ch s t \<Longrightarrow> sw_reach ch t"

section \<open>The invariant\<close>

text \<open>The lines at which a process holds \<open>lk\<close>, and those at which it holds \<^verbatim>\<open>ptable.lock\<close>.\<close>

fun holds_lk :: "line \<Rightarrow> bool" where
  "holds_lk Test = True" | "holds_lk Acq_pt = True" | "holds_lk Rel_lk = True" | "holds_lk Found = True"
| "holds_lk Set_cond = True" | "holds_lk Wake_acq = True" | "holds_lk Wake_scan = True" | "holds_lk Wake_rel = True"
| "holds_lk Set_rel = True" | "holds_lk _ = False"

fun holds_pt :: "line \<Rightarrow> bool" where
  "holds_pt Rel_lk = True" | "holds_pt Set_chan = True" | "holds_pt Set_state = True" | "holds_pt Call_sched = True"
| "holds_pt Tidy = True" | "holds_pt Rel_pt = True" | "holds_pt Wake_scan = True" | "holds_pt Wake_rel = True"
| "holds_pt _ = False"

text \<open>A setter that has not yet looked for sleepers.\<close>

definition waker :: "sw_sys \<Rightarrow> nat \<Rightarrow> bool" where
  "waker s j \<longleftrightarrow> sw_line s j \<in> {Wake_acq, Wake_scan}"

text \<open>The state that goes with a line.\<close>

fun line_state :: "chan \<Rightarrow> line \<Rightarrow> proc \<Rightarrow> bool" where
  "line_state ch Set_state p \<longleftrightarrow> p_state p = RUNNING \<and> p_chan p = Some ch"
| "line_state ch Call_sched p \<longleftrightarrow> p_state p = SLEEPING \<and> p_chan p = Some ch"
| "line_state ch Off_cpu p \<longleftrightarrow> p_chan p = Some ch \<and> (p_state p = SLEEPING \<or> p_state p = RUNNABLE)"
| "line_state ch l p \<longleftrightarrow> p_state p = RUNNING"

definition sw_inv :: "chan \<Rightarrow> sw_sys \<Rightarrow> bool" where
  "sw_inv ch s \<longleftrightarrow>
     (\<forall>i. holds_lk (sw_line s i) \<longleftrightarrow> sw_lk s = Some i) \<and>
     (\<forall>i. holds_pt (sw_line s i) \<longleftrightarrow> sw_pt s = Some i) \<and>
     (\<forall>i. line_state ch (sw_line s i) (sw_proc s i)) \<and>
     (\<forall>i. sw_line s i \<in> {Acq_pt, Rel_lk} \<longrightarrow> \<not> sw_cond s) \<and>
     (\<forall>i. sw_line s i = Found \<longrightarrow> sw_cond s) \<and>
     (\<forall>i. sw_line s i \<in> {Set_chan, Set_state} \<or> p_state (sw_proc s i) = SLEEPING \<longrightarrow> sw_cond s \<longrightarrow> (\<exists>j. waker s j))"


lemma sw_invD:
  assumes "sw_inv ch s"
  shows "holds_lk (sw_line s i) \<longleftrightarrow> sw_lk s = Some i" and "holds_pt (sw_line s i) \<longleftrightarrow> sw_pt s = Some i"
    and "line_state ch (sw_line s i) (sw_proc s i)"
    and "sw_line s i = Acq_pt \<or> sw_line s i = Rel_lk \<Longrightarrow> \<not> sw_cond s" and "sw_line s i = Found \<Longrightarrow> sw_cond s"
    and "sw_line s i \<in> {Set_chan, Set_state} \<or> p_state (sw_proc s i) = SLEEPING \<Longrightarrow> sw_cond s \<Longrightarrow> \<exists>j. waker s j"
  using assms unfolding sw_inv_def by blast+

lemma goto_sels [simp]:
  "sw_cond (goto s i l) = sw_cond s" "sw_lk (goto s i l) = sw_lk s" "sw_pt (goto s i l) = sw_pt s"
  "sw_proc (goto s i l) = sw_proc s" "sw_line (goto s i l) j = (if j = i then l else sw_line s j)"
  by (simp_all add: goto_def)

lemma set_proc_sels [simp]:
  "sw_cond (set_proc s i f) = sw_cond s" "sw_lk (set_proc s i f) = sw_lk s" "sw_pt (set_proc s i f) = sw_pt s"
  "sw_proc (set_proc s i f) j = (if j = i then f (sw_proc s i) else sw_proc s j)" "sw_line (set_proc s i f) = sw_line s"
  by (simp_all add: set_proc_def)

lemma wake_sels: "p_chan (wake c p) = p_chan p" 
   "p_state (wake c p) = (if p_state p = SLEEPING \<and> p_chan p = c then RUNNABLE else p_state p)"
  by (simp_all add: wake_def)

lemma step_lk:
  assumes "sw_step ch s t" and I: "\<And>i. holds_lk (sw_line s i) \<longleftrightarrow> sw_lk s = Some i"
  shows "holds_lk (sw_line t j) \<longleftrightarrow> sw_lk t = Some j"
  using assms(1) I by cases (simp_all, (metis I holds_lk.simps option.inject option.distinct(1))+)

lemma step_pt:
  assumes "sw_step ch s t" and I: "\<And>i. holds_pt (sw_line s i) \<longleftrightarrow> sw_pt s = Some i"
  shows "holds_pt (sw_line t j) \<longleftrightarrow> sw_pt t = Some j"
  using assms(1) I by cases (simp_all, (metis I holds_pt.simps option.inject option.distinct(1))+)

lemma step_state:
  assumes "sw_step ch s t" and I: "sw_inv ch s"
  shows "line_state ch (sw_line t j) (sw_proc t j)"
  using assms(1)
proof cases
  case (wake_scan i)
  have "sw_pt s = Some i" using sw_invD(2) [OF I, of i] wake_scan by simp
  then have "sw_line s j = Call_sched \<Longrightarrow> j = i" using sw_invD(2) [OF I, of j] by simp
  then show ?thesis using wake_scan sw_invD(3) [OF I, of j] by (cases "sw_line s j") (auto simp: wake_sels)
qed (use sw_invD(3) [OF I, of j] in \<open>auto split: if_splits\<close>)

lemma step_conds:
  assumes "sw_step ch s t" and I: "sw_inv ch s"
  shows "sw_line t j = Acq_pt \<or> sw_line t j = Rel_lk \<Longrightarrow> \<not> sw_cond t" and "sw_line t j = Found \<Longrightarrow> sw_cond t"
  using assms(1) sw_invD(4,5) [OF I, of j] sw_invD(1) [OF I]
  by (cases, simp_all split: if_splits, (metis holds_lk.simps option.inject)+)+

lemma waker_stays:
  assumes "waker s j" and "sw_step ch s t"
  shows "waker t j \<or> sw_line s j = Wake_scan"
  using assms(2,1) by cases (auto simp: waker_def)

lemma step_wakers:
  assumes st: "sw_step ch s t" and I: "sw_inv ch s"
    and S: "sw_line t i \<in> {Set_chan, Set_state} \<or> p_state (sw_proc t i) = SLEEPING" and c: "sw_cond t"
  shows "\<exists>j. waker t j"
proof -
  have keep: "\<exists>j. waker t j" if "sw_line s i \<in> {Set_chan, Set_state} \<or> p_state (sw_proc s i) = SLEEPING" "sw_cond s"
     "\<forall>j. sw_line s j = Wake_scan \<longrightarrow> sw_line t j = Wake_scan"
    using sw_invD(6) [OF I that(1,2)] waker_stays [OF _ st] that(3) unfolding waker_def by blast
  show ?thesis
    using st
  proof cases
    case (wake_scan k)
    have "sw_pt s = Some k" using sw_invD(2) [OF I, of k] wake_scan by simp
    then have "holds_pt (sw_line s i) \<Longrightarrow> i = k" using sw_invD(2) [OF I, of i] by simp
    then show ?thesis
      using S wake_scan sw_invD(3) [OF I, of i] by (cases "sw_line s i") (auto simp: wake_sels split: if_splits)
  next
    case (set_cond k)
    then show ?thesis by (intro exI [of _ k]) (simp add: waker_def)
  next
    case (release_lk k)
    then show ?thesis using c sw_invD(4) [OF I, of k] by simp
  next
    case (found k)
    then show ?thesis using keep S c sw_invD(5) [OF I, of k] by (auto split: if_splits)
  qed (use keep S c in \<open>auto split: if_splits\<close>)
qed

lemma sw_inv_step: "sw_step ch s t \<Longrightarrow> sw_inv ch s \<Longrightarrow> sw_inv ch t"
  using step_lk [of ch s t] step_pt [of ch s t] step_state step_conds step_wakers sw_invD(1,2)
  unfolding sw_inv_def by (smt (verit) insert_iff singletonD)

lemma sw_inv_reach: "sw_reach ch s \<Longrightarrow> sw_inv ch s"
proof (induction rule: sw_reach.induct)
  case (start s)
  then show ?case unfolding sw_start_def sw_inv_def by simp
qed (rule sw_inv_step)

section \<open>Nobody sleeps through a wakeup\<close>

text \<open>The holder of the table's lock lets go of it in at most three of its own lines.\<close>

definition frees_pt :: "chan \<Rightarrow> nat \<Rightarrow> sw_sys \<Rightarrow> bool" where
  "frees_pt ch k s \<longleftrightarrow> (\<exists>t. (sw_step ch)\<^sup>*\<^sup>* s t \<and> sw_pt t = None \<and> sw_cond t = sw_cond s \<and>
     (\<forall>i. i \<noteq> k \<longrightarrow> sw_line t i = sw_line s i) \<and>
     (\<forall>i. p_state (sw_proc s i) = SLEEPING \<longrightarrow> p_state (sw_proc t i) = SLEEPING))"

lemma frees_pt_step:
  assumes "sw_step ch s u" and "frees_pt ch k u" and "sw_cond u = sw_cond s"
    and "\<forall>i. i \<noteq> k \<longrightarrow> sw_line u i = sw_line s i"
    and "\<forall>i. p_state (sw_proc s i) = SLEEPING \<longrightarrow> p_state (sw_proc u i) = SLEEPING"
  shows "frees_pt ch k s"
  using assms converse_rtranclp_into_rtranclp [of "sw_step ch" s u] unfolding frees_pt_def by metis

lemma frees_pt_now: "sw_pt s = None \<Longrightarrow> frees_pt ch k s"
  unfolding frees_pt_def by (intro exI [of _ s]) simp

lemma frees_pt_lines:
  "sw_line s k = Rel_pt \<Longrightarrow> frees_pt ch k s" "sw_line s k = Tidy \<Longrightarrow> frees_pt ch k s"
  "sw_line s k = Call_sched \<Longrightarrow> frees_pt ch k s" "sw_line s k = Set_state \<Longrightarrow> frees_pt ch k s"
  "sw_line s k = Set_chan \<Longrightarrow> frees_pt ch k s"
proof -
  show rel: "frees_pt ch k s" if "sw_line s k = Rel_pt" for s
    by (rule frees_pt_step [OF release_pt [OF that]]) (simp_all add: frees_pt_now)
  show "frees_pt ch k s" if "sw_line s k = Tidy"
    by (rule frees_pt_step [OF tidy [OF that] rel]) simp_all
  show sched: "frees_pt ch k s" if "sw_line s k = Call_sched" for s
    by (rule frees_pt_step [OF call_sched [OF that]]) (simp_all add: frees_pt_now)
  show state: "frees_pt ch k s" if "sw_line s k = Set_state" for s
    by (rule frees_pt_step [OF set_state [OF that] sched]) simp_all
  show "frees_pt ch k s" if "sw_line s k = Set_chan"
    by (rule frees_pt_step [OF set_chan [OF that] state]) simp_all
qed

lemma pt_released:
  assumes "sw_inv ch s" and "sw_pt s = Some k" and "sw_lk s \<noteq> Some k"
  shows "frees_pt ch k s"
proof -
  have "holds_pt (sw_line s k)" "\<not> holds_lk (sw_line s k)" using sw_invD(1,2) [OF assms(1), of k] assms(2,3) by auto
  then show ?thesis by (cases "sw_line s k") (auto intro: frees_pt_lines)
qed

lemma scan_wakes:
  assumes "sw_inv ch s" and "sw_line s j = Wake_scan" and "p_state (sw_proc s i) = SLEEPING"
  shows "\<exists>t. (sw_step ch)\<^sup>*\<^sup>* s t \<and> p_state (sw_proc t i) = RUNNABLE"
proof -
  have "p_chan (sw_proc s i) = Some ch"
    using sw_invD(3) [OF assms(1), of i] assms(3) by (cases "sw_line s i") auto
  then show ?thesis using r_into_rtranclp [of "sw_step ch", OF wake_scan [OF assms(2)]] assms(3)
    by (intro exI conjI) (assumption, simp add: wake_sels)
qed

lemma sw_inv_steps: "(sw_step ch)\<^sup>*\<^sup>* s t \<Longrightarrow> sw_inv ch s \<Longrightarrow> sw_inv ch t"
  by (induction rule: rtranclp_induct) (auto intro: sw_inv_step)

lemma waker_wakes:
  assumes I: "sw_inv ch s" and w: "sw_line s j = Wake_acq" and f: "sw_pt s = None"
    and S: "p_state (sw_proc s i) = SLEEPING"
  shows "\<exists>t. (sw_step ch)\<^sup>*\<^sup>* s t \<and> p_state (sw_proc t i) = RUNNABLE"
proof -
  have st: "sw_step ch s (goto (s\<lparr>sw_pt := Some j\<rparr>) j Wake_scan)" by (rule wake_acquire [OF w f])
  show ?thesis using scan_wakes [OF sw_inv_step [OF st I], of j i] S converse_rtranclp_into_rtranclp [of "sw_step ch", OF st] by auto
qed

text \<open>
  C20: no process sleeps through a wakeup. In every interleaving of the lines of \<^verbatim>\<open>sleep\<close> and
  \<^verbatim>\<open>wakeup\<close>, by any number of processes, whenever a process is SLEEPING while the condition
  it waits for holds, some process that set the condition has not yet looked at the table,
  and from there the sleeper can be made RUNNABLE: the two locks \<open>lk\<close> and
  \<^verbatim>\<open>ptable.lock\<close>, taken in the order of the source, leave no window between the test and the
  sleep, and the lock that the waker needs is always released.
\<close>

theorem no_lost_wakeup:
  assumes "sw_reach ch s" and S: "p_state (sw_proc s i) = SLEEPING" and "sw_cond s"
  shows "(\<exists>j. waker s j) \<and> (\<exists>t. (sw_step ch)\<^sup>*\<^sup>* s t \<and> p_state (sw_proc t i) = RUNNABLE)"
proof -
  have I: "sw_inv ch s" using assms(1) by (rule sw_inv_reach)
  obtain j where w: "waker s j" using sw_invD(6) [OF I] assms(2,3) by blast
  have "\<exists>t. (sw_step ch)\<^sup>*\<^sup>* s t \<and> p_state (sw_proc t i) = RUNNABLE"
  proof (cases "sw_line s j = Wake_scan")
    case True
    then show ?thesis using scan_wakes [OF I _ S] by blast
  next
    case False
    then have a: "sw_line s j = Wake_acq" using w by (simp add: waker_def)
    have lk: "sw_lk s = Some j" using sw_invD(1) [OF I, of j] a by simp
    have "i \<noteq> j" using sw_invD(3) [OF I, of j] a S by auto
    show ?thesis
    proof (cases "sw_pt s")
      case None
      then show ?thesis using waker_wakes [OF I a _ S] by blast
    next
      case (Some k)
      have kj: "k \<noteq> j" using sw_invD(2) [OF I, of k] Some a by auto
      obtain t where t: "(sw_step ch)\<^sup>*\<^sup>* s t" "sw_pt t = None" "sw_line t j = Wake_acq" "p_state (sw_proc t i) = SLEEPING"
        using pt_released [OF I Some] lk kj a S unfolding frees_pt_def by (metis option.inject)
      then show ?thesis using waker_wakes [OF sw_inv_steps [OF t(1) I] t(3,2,4)] rtranclp_trans [OF t(1)] by blast
    qed
  qed
  then show ?thesis using w by blast
qed

text \<open>Nine lines after which process 0 sleeps and process 1 is about to wake it.\<close>

definition before_sleep :: sw_sys where
  "before_sleep = \<lparr>sw_cond = False, sw_lk = None, sw_pt = None, sw_proc = \<lambda>i. example_proc RUNNING 1 None,
     sw_line = \<lambda>i. Outer\<rparr>"

lemma sleep_lines:
  assumes "sw_reach ch s" and "sw_line s i = Outer" and "sw_lk s = None" and "sw_pt s = None" and "\<not> sw_cond s"
  shows "\<exists>t. sw_reach ch t \<and> p_state (sw_proc t i) = SLEEPING \<and> sw_lk t = None \<and> (\<forall>j. j \<noteq> i \<longrightarrow> sw_line t j = sw_line s j)"
  by (intro exI conjI, rule sw_reach.step, rule sw_reach.step, rule sw_reach.step, rule sw_reach.step, rule sw_reach.step,
      rule sw_reach.step, rule sw_reach.step, rule assms(1), rule wait [of _ i], rule assms(2), rule assms(3),
      rule test_false [of _ i], simp, simp add: assms, rule acquire_pt [of _ i], simp, simp add: assms,
      rule release_lk [of _ i], simp, rule set_chan [of _ i], simp, rule set_state [of _ i], simp,
      rule call_sched [of _ i], simp, simp_all)

lemma set_lines:
  assumes "sw_reach ch s" and "sw_line s i = Outer" and "sw_lk s = None"
  shows "\<exists>t. sw_reach ch t \<and> sw_cond t \<and> sw_proc t = sw_proc s"
  by (intro exI conjI, rule sw_reach.step, rule sw_reach.step, rule assms(1), rule enter_set [of _ i], rule assms(2),
      rule assms(3), rule set_cond [of _ i], simp_all)

theorem no_lost_wakeup_witness:
  "\<exists>s. sw_reach ChTicks s \<and> p_state (sw_proc s 0) = SLEEPING \<and> sw_cond s \<and> (\<exists>j. waker s j) \<and>
     (\<exists>t. (sw_step ChTicks)\<^sup>*\<^sup>* s t \<and> p_state (sw_proc t 0) = RUNNABLE)"
proof -
  have "sw_reach ChTicks before_sleep"
    by (rule sw_reach.start) (simp add: sw_start_def before_sleep_def example_proc_def)
  then obtain t where t: "sw_reach ChTicks t" "p_state (sw_proc t 0) = SLEEPING" "sw_lk t = None" "sw_line t 1 = Outer"
    using sleep_lines [of ChTicks before_sleep 0] by (auto simp: before_sleep_def)
  obtain s where s: "sw_reach ChTicks s" "sw_cond s" "sw_proc s = sw_proc t"
    using set_lines [OF t(1,4,3)] by blast
  have S: "p_state (sw_proc s 0) = SLEEPING" using s(3) t(2) by simp
  show ?thesis using no_lost_wakeup [OF s(1) S s(2)] s S by blast
qed

end
