(* ===== verification/Ide.thy ===== *)
theory Ide
  imports Bio
begin

text \<open>
  The disk driver \<^verbatim>\<open>ide.c\<close>: a queue of buffers, threaded through \<^verbatim>\<open>qnext\<close>, of which the first
  is the request the disk works on, and the interrupt that completes it. The disk itself is
  hardware: its ports are functions that the operations take as an argument (\<open>ports\<close>), and
  what the driver relies on is stated as \<open>ata\<close>, the documented behaviour of the registers.
  Enabling the interrupt at the I/O APIC is not modelled. The lock \<^verbatim>\<open>idelock\<close> makes each
  operation up to a \<^verbatim>\<open>sleep\<close> atomic.
\<close>

unbundle bit_operations_syntax

abbreviation FSSIZE :: u32 where "FSSIZE \<equiv> 1000"
definition SECTOR_SIZE :: nat where "SECTOR_SIZE = 512"
definition IDE_BSY :: u8 where "IDE_BSY = 0x80"
definition IDE_DRDY :: u8 where "IDE_DRDY = 0x40"
definition IDE_DF :: u8 where "IDE_DF = 0x20"
definition IDE_ERR :: u8 where "IDE_ERR = 0x01"
definition IDE_CMD_READ :: u8 where "IDE_CMD_READ = 0x20"
definition IDE_CMD_WRITE :: u8 where "IDE_CMD_WRITE = 0x30"
definition IDE_CMD_RDMUL :: u8 where "IDE_CMD_RDMUL = 0xc4"
definition IDE_CMD_WRMUL :: u8 where "IDE_CMD_WRMUL = 0xc5"

record 'd ports =
  inb :: "u16 \<Rightarrow> 'd \<Rightarrow> u8 \<times> 'd"
  outb :: "u16 \<Rightarrow> u8 \<Rightarrow> 'd \<Rightarrow> 'd"
  outsl :: "u16 \<Rightarrow> block \<Rightarrow> 'd \<Rightarrow> 'd"
  insl :: "u16 \<Rightarrow> 'd \<Rightarrow> block \<times> 'd"

record 'd idestate = bstate +
  idequeue :: "nat option"
  qnext :: "nat \<Rightarrow> nat option"
  havedisk1 :: bool
  hw :: 'd

section \<open>The operations\<close>

text \<open>Polling the status, which need not end.\<close>

partial_function (option) idewait_loop :: "'d ports \<Rightarrow> 'd \<Rightarrow> (u8 \<times> 'd) option" where
  "idewait_loop P d =
     (let (r, d) = inb P 0x1f7 d in
      if r AND (IDE_BSY OR IDE_DRDY) \<noteq> IDE_DRDY then idewait_loop P d else Some (r, d))"

definition idewait :: "'d ports \<Rightarrow> bool \<Rightarrow> ('d, 'a) idestate_scheme \<Rightarrow> (int \<times> ('d, 'a) idestate_scheme) outcome" where
  "idewait P checkerr s =
     (case idewait_loop P (hw s) of
        None \<Rightarrow> Spin
      | Some (r, d) \<Rightarrow>
          Ok (if checkerr \<and> r AND (IDE_DF OR IDE_ERR) \<noteq> 0 then -1 else 0, s\<lparr>hw := d\<rparr>))"

definition port_out :: "'d ports \<Rightarrow> u16 \<Rightarrow> u8 \<Rightarrow> ('d, 'a) idestate_scheme \<Rightarrow> ('d, 'a) idestate_scheme" where
  "port_out P p v s = s\<lparr>hw := outb P p v (hw s)\<rparr>"

fun probe_disk1 :: "'d ports \<Rightarrow> nat \<Rightarrow> ('d, 'a) idestate_scheme \<Rightarrow> ('d, 'a) idestate_scheme" where
  "probe_disk1 P 0 s = s"
| "probe_disk1 P (Suc n) s =
     (let (r, d) = inb P 0x1f7 (hw s); s = s\<lparr>hw := d\<rparr> in
      if r \<noteq> 0 then s\<lparr>havedisk1 := True\<rparr> else probe_disk1 P n s)"

definition ideinit :: "'d ports \<Rightarrow> ('d, 'a) idestate_scheme \<Rightarrow> ('d, 'a) idestate_scheme outcome" where
  "ideinit P s =
     obind (idewait P False s) (\<lambda>(r, s).
     Ok (port_out P 0x1f6 0xe0 (probe_disk1 P 1000 (port_out P 0x1f6 (0xe0 OR push_bit 4 1) s))))"

definition idestart :: "'d ports \<Rightarrow> nat \<Rightarrow> ('d, 'a) idestate_scheme \<Rightarrow> ('d, 'a) idestate_scheme outcome" where
  "idestart P i s =
     (let b = bufs s ! i in
      if b_blockno b \<ge> FSSIZE then Panic ''incorrect blockno''
      else
        let sector_per_block = BSIZE div SECTOR_SIZE;
            sector = b_blockno b * of_nat sector_per_block;
            read_cmd = (if sector_per_block = 1 then IDE_CMD_READ else IDE_CMD_RDMUL);
            write_cmd = (if sector_per_block = 1 then IDE_CMD_WRITE else IDE_CMD_WRMUL)
        in
        if sector_per_block > 7 then Panic ''idestart''
        else
          obind (idewait P False s) (\<lambda>(r, s).
          let s = port_out P 0x3f6 0 s;
              s = port_out P 0x1f2 (of_nat sector_per_block) s;
              s = port_out P 0x1f3 (ucast (sector AND 0xff)) s;
              s = port_out P 0x1f4 (ucast (drop_bit 8 sector AND 0xff)) s;
              s = port_out P 0x1f5 (ucast (drop_bit 16 sector AND 0xff)) s;
              s = port_out P 0x1f6 (ucast (0xe0 OR push_bit 4 (b_dev b AND 1) OR (drop_bit 24 sector AND 0x0f))) s
          in
          if b_dirty b then
            let s = port_out P 0x1f7 write_cmd s
            in Ok (s\<lparr>hw := outsl P 0x1f0 (b_data b) (hw s)\<rparr>)
          else Ok (port_out P 0x1f7 read_cmd s)))"

definition ideintr :: "'d ports \<Rightarrow> ('d, 'a) idestate_scheme \<Rightarrow> ('d, 'a) idestate_scheme outcome" where
  "ideintr P s =
     (case idequeue s of
        None \<Rightarrow> Ok s
      | Some i \<Rightarrow>
          let s = s\<lparr>idequeue := qnext s i\<rparr> in
          obind (if \<not> b_dirty (bufs s ! i) then
                   obind (idewait P True s) (\<lambda>(r, s).
                   if r \<ge> 0 then
                     let (x, d) = insl P 0x1f0 (hw s)
                     in Ok (upd_buf i (\<lambda>b. b\<lparr>b_data := x\<rparr>) (s\<lparr>hw := d\<rparr>))
                   else Ok s)
                 else Ok s) (\<lambda>s.
          let s = upd_buf i (\<lambda>b. b\<lparr>b_valid := True\<rparr>) s;
              s = upd_buf i (\<lambda>b. b\<lparr>b_dirty := False\<rparr>) s
          in
          obind (wakeup (ChBuf i) s) (\<lambda>s.
          case idequeue s of None \<Rightarrow> Ok s | Some j \<Rightarrow> idestart P j s)))"

text \<open>The walk to the last \<^verbatim>\<open>qnext\<close>.\<close>

partial_function (option) last_queued :: "(nat \<Rightarrow> nat option) \<Rightarrow> nat \<Rightarrow> nat option" where
  "last_queued nx i = (case nx i of None \<Rightarrow> Some i | Some j \<Rightarrow> last_queued nx j)"

definition ide_append :: "nat \<Rightarrow> ('d, 'a) idestate_scheme \<Rightarrow> ('d, 'a) idestate_scheme outcome" where
  "ide_append i s =
     (let s = s\<lparr>qnext := (qnext s)(i := None)\<rparr> in
      case idequeue s of
        None \<Rightarrow> Ok (s\<lparr>idequeue := Some i\<rparr>)
      | Some h \<Rightarrow>
          (case last_queued (qnext s) h of
             None \<Rightarrow> Spin
           | Some l \<Rightarrow> Ok (s\<lparr>qnext := (qnext s)(l := Some i)\<rparr>)))"

text \<open>
  \<^verbatim>\<open>iderw\<close> up to its first \<^verbatim>\<open>sleep\<close> or its return, and from a wakeup on. The result says
  whether it returns; otherwise the process sleeps.
\<close>

definition ide_rw_loop :: "nat \<Rightarrow> ('d, 'a) idestate_scheme \<Rightarrow> (bool \<times> ('d, 'a) idestate_scheme) outcome" where
  "ide_rw_loop i s =
     (if \<not> (b_valid (bufs s ! i) \<and> \<not> b_dirty (bufs s ! i)) then
        obind (sleep_enter (the (c_proc (this_cpu s))) (ChBuf i) False s) (\<lambda>s. Ok (False, s))
      else Ok (True, s))"

definition ide_rw :: "'d ports \<Rightarrow> nat \<Rightarrow> ('d, 'a) idestate_scheme \<Rightarrow> (bool \<times> ('d, 'a) idestate_scheme) outcome" where
  "ide_rw P i s =
     (let b = bufs s ! i in
      if \<not> holdingsleep (b_lock b) s then Panic ''iderw: buf not locked''
      else if b_valid b \<and> \<not> b_dirty b then Panic ''iderw: nothing to do''
      else if b_dev b \<noteq> 0 \<and> \<not> havedisk1 s then Panic ''iderw: ide disk 1 not present''
      else
        obind (ide_append i s) (\<lambda>s.
        obind (if idequeue s = Some i then idestart P i s else Ok s) (ide_rw_loop i)))"

definition ide_rw_resume :: "nat \<Rightarrow> ('d, 'a) idestate_scheme \<Rightarrow> (bool \<times> ('d, 'a) idestate_scheme) outcome" where
  "ide_rw_resume i s = obind (sleep_resume (the (c_proc (this_cpu s))) False s) (ide_rw_loop i)"

section \<open>The disk\<close>

text \<open>
  What the registers do: \<open>regs\<close> is their contents, \<open>phase\<close> what the disk is doing and
  \<open>content\<close> the blocks of its two drives. The address is in the registers 0x1f3 to 0x1f6;
  commands 0x20 and 0x30 transfer the number of sectors that 0x1f2 holds, here one. Polling
  the status ends, without an error.
\<close>

datatype phase = Ready | Reading bool nat | Writing bool nat

definition lba :: "(u16 \<Rightarrow> u8) \<Rightarrow> nat" where
  "lba r = unat (ucast (r 0x1f3) OR push_bit 8 (ucast (r 0x1f4)) OR push_bit 16 (ucast (r 0x1f5)) OR
     push_bit 24 (ucast (r 0x1f6 AND 0x0f)) :: u32)"

definition drive :: "(u16 \<Rightarrow> u8) \<Rightarrow> bool" where
  "drive r = bit (r 0x1f6) 4"

definition ata :: "'d ports \<Rightarrow> ('d \<Rightarrow> u16 \<Rightarrow> u8) \<Rightarrow> ('d \<Rightarrow> phase) \<Rightarrow> ('d \<Rightarrow> bool \<Rightarrow> nat \<Rightarrow> block) \<Rightarrow> bool" where
  "ata P regs phase content \<longleftrightarrow>
     (\<forall>d p v. p \<in> {0x1f2, 0x1f3, 0x1f4, 0x1f5, 0x1f6, 0x3f6} \<longrightarrow>
        regs (outb P p v d) = (regs d)(p := v) \<and> phase (outb P p v d) = phase d \<and> content (outb P p v d) = content d) \<and>
     (\<forall>d. phase d = Ready \<longrightarrow> regs d 0x1f2 = 1 \<longrightarrow>
        phase (outb P 0x1f7 IDE_CMD_READ d) = Reading (drive (regs d)) (lba (regs d)) \<and>
        phase (outb P 0x1f7 IDE_CMD_WRITE d) = Writing (drive (regs d)) (lba (regs d)) \<and>
        content (outb P 0x1f7 IDE_CMD_READ d) = content d \<and> content (outb P 0x1f7 IDE_CMD_WRITE d) = content d) \<and>
     (\<forall>d dr n x. phase d = Writing dr n \<longrightarrow> phase (outsl P 0x1f0 x d) = Ready \<and>
        content (outsl P 0x1f0 x d) = (content d)(dr := (content d dr)(n := x))) \<and>
     (\<forall>d dr n. phase d = Reading dr n \<longrightarrow> fst (insl P 0x1f0 d) = content d dr n \<and>
        phase (snd (insl P 0x1f0 d)) = Ready \<and> content (snd (insl P 0x1f0 d)) = content d) \<and>
     (\<forall>d. \<exists>r d'. idewait_loop P d = Some (r, d') \<and> r AND (IDE_DF OR IDE_ERR) = 0 \<and>
        regs d' = regs d \<and> phase d' = phase d \<and> content d' = content d)"

lemma ata_outb:
  assumes "ata P regs phase content" and "p \<in> {0x1f2, 0x1f3, 0x1f4, 0x1f5, 0x1f6, 0x3f6}"
  shows "regs (outb P p v d) = (regs d)(p := v)" "phase (outb P p v d) = phase d" "content (outb P p v d) = content d"
  using assms unfolding ata_def by blast+

lemma ata_wait:
  assumes "ata P regs phase content"
  obtains d' where "\<And>c. idewait P c s = Ok (0, s\<lparr>hw := d'\<rparr>)" "phase d' = phase (hw s)" "content d' = content (hw s)"
proof -
  have "\<exists>r d'. idewait_loop P (hw s) = Some (r, d') \<and> r AND (IDE_DF OR IDE_ERR) = 0 \<and>
      regs d' = regs (hw s) \<and> phase d' = phase (hw s) \<and> content d' = content (hw s)"
    using assms unfolding ata_def by blast
  then obtain r d' where d: "idewait_loop P (hw s) = Some (r, d')" "r AND (IDE_DF OR IDE_ERR) = 0"
    "phase d' = phase (hw s)" "content d' = content (hw s)" by blast
  show thesis by (rule that [of d']) (simp_all add: idewait_def d)
qed

text \<open>The address of a block, sent byte by byte, is the block.\<close>

lemma bit_low4: "bit (0x0f :: 'a :: len word) n \<longleftrightarrow> n < 4 \<and> n < LENGTH('a)"
proof -
  have "(0x0f :: 'a word) = mask 4" by (simp add: mask_eq_exp_minus_1)
  then show ?thesis by (simp only: bit_mask_iff) auto
qed

lemma bit_low8: "bit (0xff :: u32) n \<longleftrightarrow> n < 8"
proof -
  have "(0xff :: u32) = mask 8" by (simp add: mask_eq_exp_minus_1)
  then show ?thesis by (simp only: bit_mask_iff) auto
qed

lemma bit_e0: "bit (0xe0 :: u32) n \<longleftrightarrow> n \<in> {5, 6, 7}"
proof -
  have "(0xe0 :: u32) = push_bit 5 (mask 3)" by (simp add: mask_eq_exp_minus_1 push_bit_eq_mult)
  then show ?thesis by (simp only: bit_push_bit_iff bit_mask_iff) auto
qed

lemma bit_16: "bit (16 :: u32) n \<longleftrightarrow> n = 4"
proof -
  have "(16 :: u32) = push_bit 4 1" by (simp add: push_bit_eq_mult)
  then show ?thesis by (simp only: bit_push_bit_iff bit_1_iff) auto
qed

lemma lba_sent:
  fixes n dev :: u32
  assumes "n < 2 ^ 28"
  shows "ucast (ucast (n AND 0xff) :: u8) OR push_bit 8 (ucast (ucast (drop_bit 8 n AND 0xff) :: u8)) OR
     push_bit 16 (ucast (ucast (drop_bit 16 n AND 0xff) :: u8)) OR
     push_bit 24 (ucast ((ucast (0xe0 OR push_bit 4 (dev AND 1) OR (drop_bit 24 n AND 0x0f)) :: u8) AND 0x0f)) = n"
proof (rule bit_word_eqI)
  fix k assume "k < LENGTH(32)"
  have "n = take_bit 28 n" using assms by (simp add: word_less_nat_alt take_bit_eq_mod unat_mod word_unat_eq_iff)
  then have hi: "bit n k \<Longrightarrow> k < 28" by (metis bit_take_bit_iff)
  consider "k < 8" | j where "k = 8 + j" "j < 8" | j where "k = 16 + j" "j < 8" | j where "k = 24 + j" "j < 8"
  proof -
    have "k < 8 \<or> (\<exists>j. k = 8 + j \<and> j < 8) \<or> (\<exists>j. k = 16 + j \<and> j < 8) \<or> (\<exists>j. k = 24 + j \<and> j < 8)"
      using \<open>k < LENGTH(32)\<close> by simp presburger
    then show thesis using that by blast
  qed
  then show "bit (ucast (ucast (n AND 0xff) :: u8) OR push_bit 8 (ucast (ucast (drop_bit 8 n AND 0xff) :: u8)) OR
     push_bit 16 (ucast (ucast (drop_bit 16 n AND 0xff) :: u8)) OR
     push_bit 24 (ucast ((ucast (0xe0 OR push_bit 4 (dev AND 1) OR (drop_bit 24 n AND 0x0f)) :: u8) AND 0x0f)) :: u32) k = bit n k"
    by cases (use hi in \<open>auto simp: bit_simps bit_low4 bit_low8 bit_e0 bit_16 simp del: bit_numeral_word_iff\<close>)
qed

lemma drive_sent:
  fixes n dev :: u32
  shows "bit (ucast (0xe0 OR push_bit 4 (dev AND 1) OR (drop_bit 24 n AND 0x0f)) :: u8) 4 = odd dev"
  by (auto simp: bit_simps bit_low4 bit_e0 bit_0 bit_16 simp del: bit_numeral_word_iff)

section \<open>The promise\<close>

text \<open>
  What a request is for: a write puts the buffer's data on the disk, a read fetches the
  block. \<open>disk_after\<close> and \<open>data_after\<close> are the same for the driver of \<^verbatim>\<open>memide.c\<close>.
\<close>

type_synonym disks = "bool \<Rightarrow> nat \<Rightarrow> block"

definition disk_after :: "buf \<Rightarrow> disks \<Rightarrow> disks" where
  "disk_after b D =
     (if b_dirty b then D(odd (b_dev b) := (D (odd (b_dev b)))(unat (b_blockno b) := b_data b)) else D)"

definition data_after :: "buf \<Rightarrow> disks \<Rightarrow> block" where
  "data_after b D = (if b_dirty b then b_data b else D (odd (b_dev b)) (unat (b_blockno b)))"

lemma memide_promise:
  assumes "iderw i s = Ok s'" and "i < length (bufs s)"
  shows "memdisk s' = disk_after (bufs s ! i) (\<lambda>dr. memdisk s) True"
    and "b_data (bufs s' ! i) = data_after (bufs s ! i) (\<lambda>dr. memdisk s)"
    and "b_valid (bufs s' ! i)" and "\<not> b_dirty (bufs s' ! i)"
  using assms by (auto simp: iderw_def Let_def disk_after_def data_after_def upd_buf_def split: if_splits)

lemma disk_after_idem: "disk_after b (disk_after b D) = disk_after b D"
  by (simp add: disk_after_def)

lemma data_after_idem: "data_after b (disk_after b D) = data_after b D"
  by (simp add: data_after_def disk_after_def)

lemma idestart_ok:
  assumes A: "ata P regs phase content" and r: "phase (hw s) = Ready" and n: "b_blockno (bufs s ! i) < FSSIZE"
  obtains d where "idestart P i s = Ok (s\<lparr>hw := d\<rparr>)" "content d = disk_after (bufs s ! i) (content (hw s))"
    "phase d = (if b_dirty (bufs s ! i) then Ready else Reading (odd (b_dev (bufs s ! i))) (unat (b_blockno (bufs s ! i))))"
proof -
  let ?b = "bufs s ! i" and ?n = "b_blockno (bufs s ! i)"
  obtain d0 where d0: "\<And>c. idewait P c s = Ok (0, s\<lparr>hw := d0\<rparr>)" "phase d0 = Ready" "content d0 = content (hw s)"
    using ata_wait [OF A] r by metis
  define drv :: u8 where "drv = ucast (0xe0 OR push_bit 4 (b_dev ?b AND 1) OR (drop_bit 24 ?n AND 0x0f))"
  define d1 where "d1 = outb P 0x1f6 drv
    (outb P 0x1f5 (ucast (drop_bit 16 ?n AND 0xff)) (outb P 0x1f4 (ucast (drop_bit 8 ?n AND 0xff))
    (outb P 0x1f3 (ucast (?n AND 0xff)) (outb P 0x1f2 1 (outb P 0x3f6 0 d0)))))"
  note o = ata_outb [OF A]
  have d1: "phase d1 = Ready" "content d1 = content (hw s)" unfolding d1_def by (simp_all add: o d0)
  have n28: "?n < 2 ^ 28" using n by (rule order_less_trans) simp
  have regs: "regs d1 0x1f2 = 1" "lba (regs d1) = unat ?n" "drive (regs d1) = odd (b_dev ?b)"
    unfolding d1_def lba_def drive_def
    by (simp_all add: o lba_sent [OF n28, of "b_dev ?b", folded drv_def] drive_sent [of "b_dev ?b" ?n, folded drv_def])
  let ?w = "outsl P 0x1f0 (b_data ?b) (outb P 0x1f7 IDE_CMD_WRITE d1)"
  have w: "phase (outb P 0x1f7 IDE_CMD_WRITE d1) = Writing (odd (b_dev ?b)) (unat ?n)"
    "content (outb P 0x1f7 IDE_CMD_WRITE d1) = content (hw s)"
    "phase (outb P 0x1f7 IDE_CMD_READ d1) = Reading (odd (b_dev ?b)) (unat ?n)"
    "content (outb P 0x1f7 IDE_CMD_READ d1) = content (hw s)"
    using A d1 regs unfolding ata_def by simp_all
  have w2: "phase ?w = Ready" "content ?w = (content (hw s))(odd (b_dev ?b) := (content (hw s) (odd (b_dev ?b)))(unat ?n := b_data ?b))"
    using A w(1,2) unfolding ata_def by simp_all
  have start: "idestart P i s = Ok (s\<lparr>hw := if b_dirty ?b then ?w else outb P 0x1f7 IDE_CMD_READ d1\<rparr>)"
    using n d0(1) unfolding idestart_def Let_def port_out_def d1_def drv_def SECTOR_SIZE_def by simp
  show thesis
    by (rule that [OF start]) (use w w2 in \<open>simp_all add: disk_after_def\<close>)
qed

section \<open>The queue\<close>

text \<open>The buffers queued from \<open>h\<close> on.\<close>

fun queued :: "(nat \<Rightarrow> nat option) \<Rightarrow> nat option \<Rightarrow> nat list \<Rightarrow> bool" where
  "queued nx h [] \<longleftrightarrow> h = None"
| "queued nx h (i # q) \<longleftrightarrow> h = Some i \<and> queued nx (nx i) q"

lemma queued_upd [simp]: "j \<notin> set q \<Longrightarrow> queued (nx(j := x)) h q = queued nx h q"
  by (induction q arbitrary: h) auto

lemma queued_unique: "queued nx h q \<Longrightarrow> queued nx h q' \<Longrightarrow> q = q'"
proof (induction q arbitrary: h q')
  case Nil
  then show ?case by (cases q') auto
next
  case (Cons i q)
  then show ?case by (cases q') auto
qed

lemma last_queued_last: "queued nx (Some h) q \<Longrightarrow> last_queued nx h = Some (last q)"
proof (induction q arbitrary: h)
  case (Cons i q)
  then show ?case by (cases q) (auto simp: last_queued.simps [of nx i])
qed simp

lemma queued_append:
  assumes "queued nx h q" and "distinct q" and "i \<notin> set q" and "nx i = None" and "q \<noteq> []"
  shows "queued (nx(last q := Some i)) h (q @ [i])"
  using assms
proof (induction q arbitrary: h)
  case (Cons j q)
  show ?case
  proof (cases "q = []")
    case True
    then show ?thesis using Cons.prems by auto
  next
    case False
    then have "queued (nx(last q := Some i)) (nx j) (q @ [i])" using Cons by (simp del: fun_upd_apply)
    moreover have "j \<noteq> last q" using Cons.prems(2) False by auto
    ultimately show ?thesis using Cons.prems(1) False by (simp del: fun_upd_apply add: fun_upd_other)
  qed
qed simp

lemma ide_append_ok:
  assumes q: "queued (qnext s) (idequeue s) q" "distinct q" "i \<notin> set q"
  obtains nx h where "ide_append i s = Ok (s\<lparr>qnext := nx, idequeue := Some h\<rparr>)" "queued nx (Some h) (q @ [i])"
proof (cases q)
  case Nil
  then have "ide_append i s = Ok (s\<lparr>qnext := (qnext s)(i := None), idequeue := Some i\<rparr>)"
    using q by (simp add: ide_append_def)
  then show thesis by (rule that) (simp add: Nil)
next
  case (Cons h r)
  let ?nx = "(qnext s)(i := None)"
  have qn: "queued ?nx (Some h) q" using q Cons by simp
  have "ide_append i s = Ok (s\<lparr>qnext := ?nx(last q := Some i)\<rparr>)"
    using q Cons last_queued_last [OF qn] by (simp add: ide_append_def)
  then have "ide_append i s = Ok (s\<lparr>qnext := ?nx(last q := Some i), idequeue := Some h\<rparr>)"
    using q(1) Cons by (simp add: idestate.equality)
  then show thesis by (rule that) (rule queued_append [OF qn q(2,3)], use Cons in auto)
qed

section \<open>Every request is served, in order\<close>

fun settle :: "(nat \<Rightarrow> buf) \<Rightarrow> nat list \<Rightarrow> disks \<Rightarrow> disks" where
  "settle B [] D = D"
| "settle B (i # q) D = settle B q (disk_after (B i) D)"

fun promised :: "(nat \<Rightarrow> buf) \<Rightarrow> (nat \<Rightarrow> block) \<Rightarrow> nat list \<Rightarrow> disks \<Rightarrow> bool" where
  "promised B W [] D \<longleftrightarrow> True"
| "promised B W (i # q) D \<longleftrightarrow> W i = data_after (B i) D \<and> promised B W q (disk_after (B i) D)"

lemma settle_append [simp]: "settle B (q @ r) D = settle B r (settle B q D)"
  by (induction q arbitrary: D) auto

lemma promised_append [simp]: "promised B W (q @ r) D = (promised B W q D \<and> promised B W r (settle B q D))"
  by (induction q arbitrary: D) auto

lemma settle_cong: "(\<And>i. i \<in> set q \<Longrightarrow> B i = B' i) \<Longrightarrow> settle B q D = settle B' q D"
  by (induction q arbitrary: D) auto

lemma promised_cong:
  "(\<And>i. i \<in> set q \<Longrightarrow> B i = B' i) \<Longrightarrow> (\<And>i. i \<in> set q \<Longrightarrow> W i = W' i) \<Longrightarrow> promised B W q D = promised B' W' q D"
  by (induction q arbitrary: D) auto

text \<open>
  The histories of the driver. \<open>A\<close> is the disks as the requests so far mean them to be, and
  \<open>W i\<close> what the buffer \<open>i\<close> will hold when its request is complete: both are fixed when the
  request is made. Between the driver's steps everything else may change, the queue and the
  buffers in it excepted, whose holders sleep.
\<close>

inductive ide_history :: "'d ports \<Rightarrow> ('d \<Rightarrow> phase) \<Rightarrow> ('d \<Rightarrow> bool \<Rightarrow> nat \<Rightarrow> block) \<Rightarrow>
    ('d, 'a) idestate_scheme \<Rightarrow> disks \<Rightarrow> (nat \<Rightarrow> block) \<Rightarrow> bool" for P phase content where
  initial: "idequeue s = None \<Longrightarrow> phase (hw s) = Ready \<Longrightarrow> ide_history P phase content s (content (hw s)) W"
| request: "ide_history P phase content s A W \<Longrightarrow> queued (qnext s) (idequeue s) q \<Longrightarrow> i \<notin> set q \<Longrightarrow>
    i < length (bufs s) \<Longrightarrow> b_blockno (bufs s ! i) < FSSIZE \<Longrightarrow> ide_rw P i s = Ok (r, t) \<Longrightarrow>
    ide_history P phase content t (disk_after (bufs s ! i) A) (W(i := data_after (bufs s ! i) A))"
| interrupt: "ide_history P phase content s A W \<Longrightarrow> ideintr P s = Ok t \<Longrightarrow> ide_history P phase content t A W"
| other: "ide_history P phase content s A W \<Longrightarrow> queued (qnext s) (idequeue s) q \<Longrightarrow>
    idequeue t = idequeue s \<Longrightarrow> qnext t = qnext s \<Longrightarrow> hw t = hw s \<Longrightarrow> length (bufs t) = length (bufs s) \<Longrightarrow>
    (\<forall>i \<in> set q. bufs t ! i = bufs s ! i) \<Longrightarrow> ide_history P phase content t A W"

text \<open>The first request is what the disk works on; its data is on the disk if it is a write.\<close>

definition head_started :: "buf \<Rightarrow> phase \<Rightarrow> disks \<Rightarrow> bool" where
  "head_started b ph D \<longleftrightarrow>
     (if b_dirty b then ph = Ready \<and> disk_after b D = D
      else ph = Reading (odd (b_dev b)) (unat (b_blockno b)))"

definition ide_inv :: "('d \<Rightarrow> phase) \<Rightarrow> ('d \<Rightarrow> bool \<Rightarrow> nat \<Rightarrow> block) \<Rightarrow> ('d, 'a) idestate_scheme \<Rightarrow>
    disks \<Rightarrow> (nat \<Rightarrow> block) \<Rightarrow> nat list \<Rightarrow> bool" where
  "ide_inv phase content s A W q \<longleftrightarrow>
     queued (qnext s) (idequeue s) q \<and> distinct q \<and>
     (\<forall>i \<in> set q. i < length (bufs s) \<and> b_blockno (bufs s ! i) < FSSIZE) \<and>
     (case q of [] \<Rightarrow> phase (hw s) = Ready | i # _ \<Rightarrow> head_started (bufs s ! i) (phase (hw s)) (content (hw s))) \<and>
     A = settle ((!) (bufs s)) q (content (hw s)) \<and> promised ((!) (bufs s)) W q (content (hw s))"

text \<open>Starting the first request of a queue whose promises hold.\<close>

lemma idestart_head:
  assumes A: "ata P regs phase content" and q: "queued (qnext s) (idequeue s) (i # q)" "distinct (i # q)"
    and r: "\<forall>j \<in> set (i # q). j < length (bufs s) \<and> b_blockno (bufs s ! j) < FSSIZE" and rd: "phase (hw s) = Ready"
    and p: "promised ((!) (bufs s)) W (i # q) (content (hw s))"
  obtains d where "idestart P i s = Ok (s\<lparr>hw := d\<rparr>)"
    "ide_inv phase content (s\<lparr>hw := d\<rparr>) (settle ((!) (bufs s)) (i # q) (content (hw s))) W (i # q)"
proof -
  obtain d where d: "idestart P i s = Ok (s\<lparr>hw := d\<rparr>)" "content d = disk_after (bufs s ! i) (content (hw s))"
    "phase d = (if b_dirty (bufs s ! i) then Ready else Reading (odd (b_dev (bufs s ! i))) (unat (b_blockno (bufs s ! i))))"
    using idestart_ok [OF A rd] r by (metis list.set_intros(1))
  have h: "head_started (bufs s ! i) (phase d) (content d)"
    using d(2,3) by (simp add: head_started_def disk_after_idem)
  have pr: "promised ((!) (bufs s)) W (i # q) (content d)"
    using p by (simp add: d(2) disk_after_idem data_after_idem)
  show thesis
    by (rule that [OF d(1)]) (use q r h pr d(2) in \<open>simp add: ide_inv_def disk_after_idem\<close>)
qed

text \<open>A process that goes to sleep, or is woken, changes only the process table.\<close>

definition procs_only :: "'a pstate_scheme \<Rightarrow> 'a pstate_scheme \<Rightarrow> bool" where
  "procs_only s t \<longleftrightarrow> t = s\<lparr>procs := procs t, pt_lock := pt_lock t, this_cpu := this_cpu t\<rparr>"

lemma ide_inv_procs_only:
  fixes s t :: "('d, 'a) idestate_scheme"
  assumes "procs_only s t" shows "ide_inv phase content t A W q = ide_inv phase content s A W q"
proof -
  have "t = s\<lparr>procs := procs t, pt_lock := pt_lock t, this_cpu := this_cpu t\<rparr>" using assms by (simp add: procs_only_def)
  from arg_cong [OF this, of qnext] arg_cong [OF this, of idequeue] arg_cong [OF this, of hw] arg_cong [OF this, of bufs]
  show ?thesis by (cases q) (simp_all add: ide_inv_def)
qed

lemma sleep_enter_procs_only: "sleep_enter i ch False s = Ok t \<Longrightarrow> procs_only s t"
  unfolding procs_only_def sleep_enter_def ptable_acquire_def sched_def upd_proc_def Let_def
  by (auto simp: outcome_simps split: prod.splits if_splits)

lemma wakeup_procs_only:
  assumes "wakeup ch s = Ok t" shows "procs_only s t"
proof -
  obtain s1 where s1: "ptable_acquire s = Ok s1" "ptable_release (wakeup1 (Some ch) s1) = Ok t"
    using assms by (auto simp: wakeup_def outcome_simps)
  obtain lk c where a: "s1 = s\<lparr>pt_lock := lk, this_cpu := c\<rparr>"
    using s1(1) by (auto simp: ptable_acquire_def outcome_simps)
  obtain lk' c' where b: "t = (wakeup1 (Some ch) s1)\<lparr>pt_lock := lk', this_cpu := c'\<rparr>"
    using s1(2) by (auto simp: ptable_release_def outcome_simps)
  show ?thesis unfolding b a wakeup1_def procs_only_def by auto
qed

lemma ide_inv_request:
  assumes A: "ata P regs phase content" and I: "ide_inv phase content s D W q" and i: "i \<notin> set q"
    and r: "i < length (bufs s)" "b_blockno (bufs s ! i) < FSSIZE" and t: "ide_rw P i s = Ok (x, t)"
  shows "ide_inv phase content t (disk_after (bufs s ! i) D) (W(i := data_after (bufs s ! i) D)) (q @ [i])"
proof -
  let ?W = "W(i := data_after (bufs s ! i) D)"
  have q: "queued (qnext s) (idequeue s) q" "distinct q" using I by (auto simp: ide_inv_def)
  obtain nx h where a: "ide_append i s = Ok (s\<lparr>qnext := nx, idequeue := Some h\<rparr>)" "queued nx (Some h) (q @ [i])"
    by (rule ide_append_ok [OF q i])
  let ?s = "s\<lparr>qnext := nx, idequeue := Some h\<rparr>"
  have h: "h = i \<longleftrightarrow> q = []" using a(2) i by (cases q) auto
  obtain u where u: "(if h = i then idestart P i ?s else Ok ?s) = Ok u" "ide_rw_loop i u = Ok (x, t)"
    using t a(1) unfolding ide_rw_def Let_def by (auto simp: outcome_simps split: if_splits)
  have p: "promised ((!) (bufs s)) ?W (q @ [i]) (content (hw s))"
  proof -
    have "promised ((!) (bufs s)) ?W q (content (hw s)) = promised ((!) (bufs s)) W q (content (hw s))"
      by (rule promised_cong) (use i in auto)
    then show ?thesis using I by (simp add: ide_inv_def)
  qed
  have d: "disk_after (bufs s ! i) D = settle ((!) (bufs s)) (q @ [i]) (content (hw s))" using I by (simp add: ide_inv_def)
  have U: "ide_inv phase content u (disk_after (bufs s ! i) D) ?W (q @ [i])"
  proof (cases "q = []")
    case True
    then have hi: "h = i" using h by simp
    have rd: "phase (hw ?s) = Ready" using I True by (simp add: ide_inv_def)
    have "queued (qnext ?s) (idequeue ?s) (i # [])" "distinct (i # [])"
      "\<forall>j \<in> set (i # []). j < length (bufs ?s) \<and> b_blockno (bufs ?s ! j) < FSSIZE"
      "promised ((!) (bufs ?s)) ?W (i # []) (content (hw ?s))"
      using a(2) p r True hi by auto
    from idestart_head [OF A this(1,2,3) rd this(4)] obtain d' where
      "idestart P i ?s = Ok (?s\<lparr>hw := d'\<rparr>)"
      "ide_inv phase content (?s\<lparr>hw := d'\<rparr>) (settle ((!) (bufs ?s)) (i # []) (content (hw ?s))) ?W (i # [])" .
    then show ?thesis using u(1) hi d True by simp
  next
    case False
    then have "u = ?s" using u(1) h by simp
    then show ?thesis using I a(2) i r p d False by (cases q) (auto simp: ide_inv_def)
  qed
  have "t = u \<or> procs_only u t"
    using u(2) sleep_enter_procs_only by (auto simp: ide_rw_loop_def outcome_simps split: if_splits)
  then show ?thesis
  proof
    assume "procs_only u t"
    from ide_inv_procs_only [OF this] U show ?thesis by simp
  qed (use U in simp)
qed

text \<open>
  An interrupt completes the first request: the buffer is valid and clean and holds what was
  promised, no other buffer changes, and the next request is started.
\<close>

lemma ide_invD:
  assumes "ide_inv phase content s D W (i # q)"
  shows "idequeue s = Some i" "queued (qnext s) (qnext s i) q" "distinct (i # q)"
    "\<forall>j \<in> set (i # q). j < length (bufs s) \<and> b_blockno (bufs s ! j) < FSSIZE"
    "head_started (bufs s ! i) (phase (hw s)) (content (hw s))"
    "D = settle ((!) (bufs s)) q (disk_after (bufs s ! i) (content (hw s)))"
    "W i = data_after (bufs s ! i) (content (hw s))"
    "promised ((!) (bufs s)) W q (disk_after (bufs s ! i) (content (hw s)))"
  using assms by (simp_all add: ide_inv_def)

lemma ideintr_head:
  fixes s :: "('d, 'a) idestate_scheme"
  assumes A: "ata P regs phase content" and I: "ide_inv phase content s D W (i # q)"
  obtains d where "phase d = Ready" "content d = disk_after (bufs s ! i) (content (hw s))"
    "ideintr P s = obind (wakeup (ChBuf i) (s\<lparr>idequeue := qnext s i, hw := d,
        bufs := (bufs s)[i := (bufs s ! i)\<lparr>b_data := W i, b_valid := True, b_dirty := False\<rparr>]\<rparr>)) (\<lambda>s.
      case idequeue s of None \<Rightarrow> Ok s | Some j \<Rightarrow> idestart P j s)"
proof (cases "b_dirty (bufs s ! i)")
  case True
  note I = ide_invD [OF I]
  have "phase (hw s) = Ready" "disk_after (bufs s ! i) (content (hw s)) = content (hw s)"
    using I(5) True by (simp_all add: head_started_def)
  moreover have "(bufs s ! i)\<lparr>b_valid := True, b_dirty := False\<rparr> = (bufs s ! i)\<lparr>b_data := W i, b_valid := True, b_dirty := False\<rparr>"
    using I(7) True by (simp add: data_after_def)
  ultimately show thesis
    using I(1,4) True by (intro that [of "hw s"]) (simp_all add: ideintr_def upd_buf_def)
next
  case False
  note I = ide_invD [OF I]
  have rd: "phase (hw s) = Reading (odd (b_dev (bufs s ! i))) (unat (b_blockno (bufs s ! i)))"
    using I(5) False by (simp add: head_started_def)
  let ?s = "s\<lparr>idequeue := qnext s i\<rparr>"
  obtain d1 where d1: "\<And>c. idewait P c ?s = Ok (0, ?s\<lparr>hw := d1\<rparr>)" "phase d1 = phase (hw s)" "content d1 = content (hw s)"
    by (rule ata_wait [OF A, of ?s]) auto
  define d2 where "d2 = snd (insl P 0x1f0 d1)"
  have d2: "insl P 0x1f0 d1 = (W i, d2)" "phase d2 = Ready" "content d2 = content (hw s)"
    using A d1(2,3) rd I(7) False unfolding ata_def d2_def by (auto simp: data_after_def prod_eq_iff)
  show thesis
    using I(1,4) False d1(1) d2 by (intro that [of d2]) (simp_all add: ideintr_def upd_buf_def disk_after_def)
qed

lemma ide_inv_woken:
  fixes s :: "('d, 'a) idestate_scheme"
  assumes A: "ata P regs phase content" and I: "ide_inv phase content s D W (i # q)"
    and d: "phase d = Ready" "content d = disk_after (bufs s ! i) (content (hw s))"
    and u: "procs_only (s\<lparr>idequeue := qnext s i, hw := d,
        bufs := (bufs s)[i := (bufs s ! i)\<lparr>b_data := W i, b_valid := True, b_dirty := False\<rparr>]\<rparr>) u"
  obtains t where "(case idequeue u of None \<Rightarrow> Ok u | Some j \<Rightarrow> idestart P j u) = Ok t"
    "ide_inv phase content t D W q"
    "bufs t = (bufs s)[i := (bufs s ! i)\<lparr>b_data := W i, b_valid := True, b_dirty := False\<rparr>]"
proof -
  let ?bs = "(bufs s)[i := (bufs s ! i)\<lparr>b_data := W i, b_valid := True, b_dirty := False\<rparr>]"
  let ?s = "s\<lparr>idequeue := qnext s i, hw := d, bufs := ?bs\<rparr>"
  note I = ide_invD [OF I]
  have eq: "u = ?s\<lparr>procs := procs u, pt_lock := pt_lock u, this_cpu := this_cpu u\<rparr>"
    using u by (simp add: procs_only_def)
  have f: "idequeue u = qnext s i" "qnext u = qnext s" "hw u = d" "bufs u = ?bs" by (subst eq, simp)+
  have B: "bufs u ! j = bufs s ! j" if "j \<in> set q" for j
    using that I(3) f(4) by (cases "j = i") simp_all
  have st: "settle ((!) (bufs u)) q (content (hw u)) = D"
    using I(6) d(2) f(3) settle_cong [of q "(!) (bufs u)" "(!) (bufs s)"] B by simp
  have pr: "promised ((!) (bufs u)) W q (content (hw u))"
    using I(8) d(2) f(3) promised_cong [of q "(!) (bufs u)" "(!) (bufs s)" W W] B by simp
  show thesis
  proof (cases q)
    case Nil
    show ?thesis by (rule that [of u]) (use f Nil st d(1) I(2) in \<open>simp_all add: ide_inv_def\<close>)
  next
    case (Cons j q')
    have "queued (qnext u) (idequeue u) (j # q')" "distinct (j # q')"
      "\<forall>k \<in> set (j # q'). k < length (bufs u) \<and> b_blockno (bufs u ! k) < FSSIZE"
      "phase (hw u) = Ready" "promised ((!) (bufs u)) W (j # q') (content (hw u))"
      using I(2,3,4) f d pr B Cons by auto
    from idestart_head [OF A this] obtain d' where d': "idestart P j u = Ok (u\<lparr>hw := d'\<rparr>)"
      "ide_inv phase content (u\<lparr>hw := d'\<rparr>) (settle ((!) (bufs u)) (j # q') (content (hw u))) W (j # q')" .
    show ?thesis
      by (rule that [of "u\<lparr>hw := d'\<rparr>"]) (use d' st f I(2) Cons in simp_all)
  qed
qed

lemma ide_inv_interrupt:
  fixes s :: "('d, 'a) idestate_scheme"
  assumes A: "ata P regs phase content" and I: "ide_inv phase content s D W (i # q)" and t: "ideintr P s = Ok t"
  shows "ide_inv phase content t D W q \<and>
    bufs t = (bufs s)[i := (bufs s ! i)\<lparr>b_data := W i, b_valid := True, b_dirty := False\<rparr>]"
proof -
  obtain d where d: "phase d = Ready" "content d = disk_after (bufs s ! i) (content (hw s))"
    "ideintr P s = obind (wakeup (ChBuf i) (s\<lparr>idequeue := qnext s i, hw := d,
        bufs := (bufs s)[i := (bufs s ! i)\<lparr>b_data := W i, b_valid := True, b_dirty := False\<rparr>]\<rparr>)) (\<lambda>s.
      case idequeue s of None \<Rightarrow> Ok s | Some j \<Rightarrow> idestart P j s)" by (rule ideintr_head [OF A I])
  then obtain u where u: "wakeup (ChBuf i) (s\<lparr>idequeue := qnext s i, hw := d,
        bufs := (bufs s)[i := (bufs s ! i)\<lparr>b_data := W i, b_valid := True, b_dirty := False\<rparr>]\<rparr>) = Ok u"
    "(case idequeue u of None \<Rightarrow> Ok u | Some j \<Rightarrow> idestart P j u) = Ok t"
    using t unfolding d(3) obind_eq_Ok by blast
  from ide_inv_woken [OF A I d(1,2) wakeup_procs_only [OF u(1)]] u(2) show ?thesis by (metis outcome.inject(1))
qed

lemma ide_interrupt_returns:
  fixes s :: "('d, 'a) idestate_scheme"
  assumes A: "ata P regs phase content" and I: "ide_inv phase content s D W q" and "quiet s"
  shows "\<exists>t. ideintr P s = Ok t"
proof (cases q)
  case Nil
  then show ?thesis using I by (simp add: ide_inv_def ideintr_def)
next
  case (Cons i r)
  note I = I [unfolded Cons]
  obtain d where d: "phase d = Ready" "content d = disk_after (bufs s ! i) (content (hw s))"
    "ideintr P s = obind (wakeup (ChBuf i) (s\<lparr>idequeue := qnext s i, hw := d,
        bufs := (bufs s)[i := (bufs s ! i)\<lparr>b_data := W i, b_valid := True, b_dirty := False\<rparr>]\<rparr>)) (\<lambda>s.
      case idequeue s of None \<Rightarrow> Ok s | Some j \<Rightarrow> idestart P j s)" by (rule ideintr_head [OF A I])
  let ?s = "s\<lparr>idequeue := qnext s i, hw := d,
        bufs := (bufs s)[i := (bufs s ! i)\<lparr>b_data := W i, b_valid := True, b_dirty := False\<rparr>]\<rparr>"
  have "quiet ?s" using assms(3) by (simp add: quiet_def)
  then obtain u where u: "wakeup (ChBuf i) ?s = Ok u" using wakeup_Ok by blast
  from ide_inv_woken [OF A I d(1,2) wakeup_procs_only [OF u]] show ?thesis using d(3) u by auto
qed

lemma ide_history_inv:
  assumes "ide_history P phase content s A W" and ata: "ata P regs phase content"
  shows "\<exists>q. ide_inv phase content s A W q"
  using assms(1)
proof induction
  case (initial s W)
  then show ?case by (intro exI [of _ "[]"]) (simp add: ide_inv_def)
next
  case (request s A W q i r t)
  then obtain q' where I: "ide_inv phase content s A W q'" by blast
  then have "q' = q" using request.hyps queued_unique unfolding ide_inv_def by blast
  then show ?case using ide_inv_request [OF ata I] request.hyps by blast
next
  case (interrupt s A W t)
  then obtain q where I: "ide_inv phase content s A W q" by blast
  show ?case
  proof (cases q)
    case Nil
    then have "t = s" using I interrupt.hyps by (simp add: ide_inv_def ideintr_def)
    then show ?thesis using I by blast
  next
    case (Cons i q')
    then show ?thesis using ide_inv_interrupt [OF ata, of s A W i q' t] I interrupt.hyps by blast
  qed
next
  case (other s A W q t)
  then obtain q' where I: "ide_inv phase content s A W q'" by blast
  then have qq: "q' = q" using other.hyps queued_unique unfolding ide_inv_def by blast
  have st: "settle ((!) (bufs t)) q D = settle ((!) (bufs s)) q D" for D
    by (rule settle_cong) (use other.hyps in auto)
  have pr: "promised ((!) (bufs t)) W q D = promised ((!) (bufs s)) W q D" for D
    by (rule promised_cong) (use other.hyps in auto)
  have "(case q of [] \<Rightarrow> phase (hw t) = Ready | i # _ \<Rightarrow> head_started (bufs t ! i) (phase (hw t)) (content (hw t)))"
    using I other.hyps unfolding qq by (cases q) (simp_all add: ide_inv_def)
  then have "ide_inv phase content t A W q"
    using I other.hyps unfolding qq ide_inv_def st pr by simp
  then show ?case by blast
qed

text \<open>
  C26: the disk driver serves every request, first come first served. Take any history of
  requests, interrupts and unrelated steps over a disk that behaves as documented. Then the
  buffers waiting form a queue; the next interrupt completes the first of them and no other,
  with the data that was on the disk when the request was made, every earlier request having
  taken effect (or, for a write, with its own data, which is then on the disk); and when the
  queue is empty the disks are exactly what the requests, in the order made, mean them to be.
  So the driver with the queue and the interrupt does for each request what the driver of
  \<^verbatim>\<open>memide.c\<close> does at once.
\<close>

theorem ide_serves_requests_in_order:
  fixes s :: "('d, 'a) idestate_scheme"
  assumes ata: "ata P regs phase content" and "ide_history P phase content s A W"
  shows "\<exists>q. queued (qnext s) (idequeue s) q \<and> distinct q \<and> (q = [] \<longrightarrow> content (hw s) = A) \<and>
     (\<forall>i r t. q = i # r \<longrightarrow> ideintr P s = Ok t \<longrightarrow>
        queued (qnext t) (idequeue t) r \<and>
        bufs t = (bufs s)[i := (bufs s ! i)\<lparr>b_data := W i, b_valid := True, b_dirty := False\<rparr>]) \<and>
     (quiet s \<longrightarrow> (\<exists>t. ideintr P s = Ok t))"
proof -
  obtain q where I: "ide_inv phase content s A W q" using ide_history_inv [OF assms(2) ata] by blast
  have "queued (qnext s) (idequeue s) q" "distinct q" "q = [] \<longrightarrow> content (hw s) = A"
    using I by (auto simp: ide_inv_def)
  moreover have "queued (qnext t) (idequeue t) r \<and>
      bufs t = (bufs s)[i := (bufs s ! i)\<lparr>b_data := W i, b_valid := True, b_dirty := False\<rparr>]"
    if "q = i # r" "ideintr P s = Ok t" for i r t
    using ide_inv_interrupt [OF ata I [unfolded that(1)] that(2)] by (simp add: ide_inv_def)
  moreover have "quiet s \<longrightarrow> (\<exists>t. ideintr P s = Ok t)" using ide_interrupt_returns [OF ata I] by simp
  ultimately show ?thesis by blast
qed

text \<open>A request that may be made is queued, and its process sleeps until it is served.\<close>

lemma ide_request_sleeps:
  fixes s :: "('d, 'a) idestate_scheme"
  assumes A: "ata P regs phase content" and I: "ide_inv phase content s D W q" and i: "i \<notin> set q"
    and r: "b_blockno (bufs s ! i) < FSSIZE" and hold: "holdingsleep (b_lock (bufs s ! i)) s"
    and fl: "\<not> b_valid (bufs s ! i) \<or> b_dirty (bufs s ! i)" and dev: "b_dev (bufs s ! i) = 0 \<or> havedisk1 s"
    and run: "in_process s"
  shows "\<exists>t. ide_rw P i s = Ok (False, t)"
proof -
  have q: "queued (qnext s) (idequeue s) q" "distinct q" using I by (auto simp: ide_inv_def)
  obtain nx h where a: "ide_append i s = Ok (s\<lparr>qnext := nx, idequeue := Some h\<rparr>)" "queued nx (Some h) (q @ [i])"
    by (rule ide_append_ok [OF q i])
  let ?s = "s\<lparr>qnext := nx, idequeue := Some h\<rparr>"
  have "\<exists>d. (if h = i then idestart P i ?s else Ok ?s) = Ok (?s\<lparr>hw := d\<rparr>)"
  proof (cases "h = i")
    case True
    then have "q = []" using a(2) i by (cases q) auto
    then have "phase (hw ?s) = Ready" using I by (simp add: ide_inv_def)
    from idestart_ok [OF A this, of i] r show ?thesis using True by auto
  next
    case False
    then show ?thesis by (intro exI [of _ "hw s"]) (simp add: idestate.equality)
  qed
  then obtain d where d: "(if h = i then idestart P i ?s else Ok ?s) = Ok (?s\<lparr>hw := d\<rparr>)" by blast
  let ?u = "?s\<lparr>hw := d\<rparr>"
  have "quiet ?u" "the (c_proc (this_cpu ?u)) < length (procs ?u)" using run by (auto simp: in_process_def quiet_def)
  then obtain t where "sleep_enter (the (c_proc (this_cpu ?u))) (ChBuf i) False ?u = Ok t"
    using sleep_enter_Ok by blast
  then have "ide_rw_loop i ?u = Ok (False, t)" using fl by (auto simp: ide_rw_loop_def)
  then have "ide_rw P i s = Ok (False, t)"
    using a(1) d hold fl dev by (auto simp: ide_rw_def)
  then show ?thesis ..
qed

section \<open>An example disk\<close>

record example_disk =
  x_regs :: "u16 \<Rightarrow> u8"
  x_phase :: phase
  x_content :: disks

definition example_ports :: "example_disk ports" where
  "example_ports =
     \<lparr>inb = (\<lambda>p d. (IDE_DRDY, d)),
      outb = (\<lambda>p v d.
        if p = 0x1f7 then
          d\<lparr>x_phase := (if v = IDE_CMD_READ then Reading else Writing) (drive (x_regs d)) (lba (x_regs d))\<rparr>
        else d\<lparr>x_regs := (x_regs d)(p := v)\<rparr>),
      outsl = (\<lambda>p x d. case x_phase d of
          Writing dr n \<Rightarrow> d\<lparr>x_phase := Ready, x_content := (x_content d)(dr := (x_content d dr)(n := x))\<rparr>
        | _ \<Rightarrow> d),
      insl = (\<lambda>p d. case x_phase d of
          Reading dr n \<Rightarrow> (x_content d dr n, d\<lparr>x_phase := Ready\<rparr>)
        | _ \<Rightarrow> (\<lambda>k. 0, d))\<rparr>"

lemma example_ata: "ata example_ports x_regs x_phase x_content"
  unfolding ata_def
  by (simp add: example_ports_def IDE_CMD_READ_def IDE_CMD_WRITE_def idewait_loop.simps IDE_DRDY_def IDE_BSY_def
      IDE_DF_def IDE_ERR_def)

text \<open>Buffer 0, locked by the current process, is to be read from block 7.\<close>

definition example_ide :: "(example_disk, unit) idestate_scheme" where
  "example_ide =
     (example_bstate \<lparr>idequeue = None, qnext = (\<lambda>i. None), havedisk1 = True,
        hw = \<lparr>x_regs = (\<lambda>p. 0), x_phase = Ready, x_content = (\<lambda>dr n k. of_nat n)\<rparr>, \<dots> = ()\<rparr>)
     \<lparr>bufs := [empty_buf\<lparr>b_blockno := 7, b_dev := 1, b_lock := \<lparr>sl_locked = True, sl_name = ''buffer'', sl_pid = 1\<rparr>\<rparr>]\<rparr>"

lemma example_ide_idle:
  "ide_inv x_phase x_content example_ide (x_content (hw example_ide)) (\<lambda>i k. 0) []" "in_process example_ide"
  "length (bufs example_ide) = 1" "idequeue example_ide = None" "x_phase (hw example_ide) = Ready"
  "bufs example_ide ! 0 = empty_buf\<lparr>b_blockno := 7, b_dev := 1, b_lock := \<lparr>sl_locked = True, sl_name = ''buffer'', sl_pid = 1\<rparr>\<rparr>"
  "x_content (hw example_ide) = (\<lambda>dr n k. of_nat n)" "havedisk1 example_ide" "cur_pid example_ide = 1" "qnext example_ide = (\<lambda>i. None)"
  by (simp_all add: example_ide_def ide_inv_def in_process_def quiet_def example_bstate_def example_state_def
      example_cpu_def cur_pid_def example_proc_def)

theorem ide_serves_requests_in_order_witness:
  "\<exists>(t :: (example_disk, unit) idestate_scheme) W. ide_history example_ports x_phase x_content t (\<lambda>dr n k. of_nat n) W \<and> queued (qnext t) (idequeue t) [0] \<and>
     W 0 = (\<lambda>k. 7) \<and>
     (\<forall>u. ideintr example_ports t = Ok u \<longrightarrow>
        bufs u = (bufs t)[0 := (bufs t ! 0)\<lparr>b_data := W 0, b_valid := True, b_dirty := False\<rparr>])"
proof -
  let ?s = example_ide
  let ?A = "disk_after (bufs ?s ! 0) (x_content (hw ?s))"
  let ?W = "(\<lambda>i k. 0)(0 := data_after (bufs ?s ! 0) (x_content (hw ?s)))"
  note e = example_ide_idle
  have h0: "ide_history example_ports x_phase x_content ?s (x_content (hw ?s)) (\<lambda>i k. 0)"
    using e(4,5) by (rule ide_history.initial)
  obtain t where t: "ide_rw example_ports 0 ?s = Ok (False, t)"
    using ide_request_sleeps [OF example_ata e(1), of 0] e by (auto simp: holdingsleep_def empty_buf_def)
  have h1: "ide_history example_ports x_phase x_content t ?A ?W"
    by (rule ide_history.request [OF h0 _ _ _ _ t, of "[]"]) (simp_all add: e)
  have "ide_inv x_phase x_content t ?A ?W ([] @ [0])"
    by (rule ide_inv_request [OF example_ata e(1) _ _ _ t]) (simp_all add: e)
  then have q: "queued (qnext t) (idequeue t) [0]" unfolding ide_inv_def append_Nil by (elim conjE)
  have A: "?A = (\<lambda>dr n k. of_nat n)" "?W 0 = (\<lambda>k. 7)" using e(6,7) by (simp_all add: disk_after_def data_after_def empty_buf_def)
  obtain q' where q': "queued (qnext t) (idequeue t) q'" "\<forall>i r u. q' = i # r \<longrightarrow> ideintr example_ports t = Ok u \<longrightarrow>
      queued (qnext u) (idequeue u) r \<and>
      bufs u = (bufs t)[i := (bufs t ! i)\<lparr>b_data := ?W i, b_valid := True, b_dirty := False\<rparr>]"
    using ide_serves_requests_in_order [OF example_ata h1] by (elim exE conjE)
  have "q' = [0]" using q'(1) q by (rule queued_unique)
  then have "\<forall>u. ideintr example_ports t = Ok u \<longrightarrow>
      bufs u = (bufs t)[0 := (bufs t ! 0)\<lparr>b_data := ?W 0, b_valid := True, b_dirty := False\<rparr>]"
    using q'(2) by simp
  then show ?thesis using h1 q A by (intro exI [of _ t], intro exI [of _ ?W]) simp
qed

text \<open>
  C27: a failed read is taken for a good one. When the disk reports an error, the interrupt
  handler fetches nothing but marks the buffer valid and wakes its reader all the same: the
  reader gets whatever the buffer held before.
\<close>

theorem ide_read_error_ignored:
  fixes s :: "('d, 'a) idestate_scheme"
  assumes "idequeue s = Some i" and "qnext s i = None" and "i < length (bufs s)" and "\<not> b_dirty (bufs s ! i)"
    and "idewait_loop P (hw s) = Some (r, d)" and "r AND IDE_ERR \<noteq> 0" and "quiet s"
  shows "\<exists>t. ideintr P s = Ok t \<and> b_valid (bufs t ! i) \<and> b_data (bufs t ! i) = b_data (bufs s ! i)"
proof -
  let ?s = "s\<lparr>idequeue := None, hw := d, bufs := (bufs s)[i := (bufs s ! i)\<lparr>b_valid := True, b_dirty := False\<rparr>]\<rparr>"
  have e: "r AND (IDE_DF OR IDE_ERR) \<noteq> 0" using assms(6) by (simp add: bit.conj_disj_distrib or_eq_0_iff)
  have "idewait P True (s\<lparr>idequeue := None\<rparr>) = Ok (-1, s\<lparr>idequeue := None, hw := d\<rparr>)"
    using assms(5) e by (simp add: idewait_def)
  then have i: "ideintr P s = obind (wakeup (ChBuf i) ?s) (\<lambda>s. case idequeue s of None \<Rightarrow> Ok s | Some j \<Rightarrow> idestart P j s)"
    using assms(1-4) by (simp add: ideintr_def upd_buf_def)
  have "quiet ?s" using assms(7) by (simp add: quiet_def)
  then obtain u where u: "wakeup (ChBuf i) ?s = Ok u" using wakeup_Ok by blast
  have eq: "u = ?s\<lparr>procs := procs u, pt_lock := pt_lock u, this_cpu := this_cpu u\<rparr>"
    using wakeup_procs_only [OF u] by (simp add: procs_only_def)
  have "idequeue u = None" "bufs u = bufs ?s" by (subst eq, simp)+
  then show ?thesis using i u assms(3) by simp
qed

theorem ide_read_error_ignored_witness:
  "\<exists>t. ideintr (example_ports\<lparr>inb := (\<lambda>p d. (IDE_DRDY OR IDE_ERR, d))\<rparr>) (example_ide\<lparr>idequeue := Some 0\<rparr>) = Ok t \<and>
     b_valid (bufs t ! 0) \<and> b_data (bufs t ! 0) = (\<lambda>k. 0)"
proof -
  let ?P = "example_ports\<lparr>inb := (\<lambda>p d. (IDE_DRDY OR IDE_ERR, d))\<rparr>" and ?s = "example_ide\<lparr>idequeue := Some 0\<rparr>"
  have "idewait_loop ?P (hw ?s) = Some (IDE_DRDY OR IDE_ERR, hw ?s)"
    by (simp add: idewait_loop.simps IDE_DRDY_def IDE_BSY_def IDE_ERR_def)
  moreover have "qnext ?s 0 = None" "quiet ?s" "(IDE_DRDY OR IDE_ERR) AND IDE_ERR \<noteq> 0" "\<not> b_dirty (bufs ?s ! 0)"
    "b_data (bufs ?s ! 0) = (\<lambda>k. 0)"
    using example_ide_idle(2,6,10) by (simp_all add: in_process_def quiet_def IDE_DRDY_def IDE_ERR_def empty_buf_def)
  ultimately show ?thesis
    using ide_read_error_ignored [of ?s 0 ?P] example_ide_idle(3) by simp
qed

end
