(* ===== verification/Grep.thy ===== *)
theory Grep
  imports Prelude
begin

text \<open>
  The user program \<^verbatim>\<open>grep.c\<close>: the matcher for patterns with \<^verbatim>\<open>^ . * $\<close>, against a declarative
  meaning of patterns, and the loop that cuts the input into lines. A C string qs the list
  of its bytes before the NUL, and \<open>at0\<close> reads its first byte, the NUL at the end.
\<close>

section \<open>The matcher\<close>

abbreviation STAR :: u8 where "STAR \<equiv> 42"
abbreviation DOT :: u8 where "DOT \<equiv> 46"
abbreviation DOLLAR :: u8 where "DOLLAR \<equiv> 36"
abbreviation CARET :: u8 where "CARET \<equiv> 94"
abbreviation NL :: u8 where "NL \<equiv> 10"

fun at0 :: "u8 list \<Rightarrow> u8" where
  "at0 [] = 0"
| "at0 (c # cs) = c"

function matchhere :: "u8 list \<Rightarrow> u8 list \<Rightarrow> bool" and matchstar :: "u8 \<Rightarrow> u8 list \<Rightarrow> u8 list \<Rightarrow> bool" where
  "matchhere re ts =
     (if re = [] then True
      else if at0 (tl re) = STAR then matchstar (at0 re) (tl (tl re)) ts
      else if at0 re = DOLLAR \<and> tl re = [] then ts = []
      else if ts \<noteq> [] \<and> (at0 re = DOT \<or> at0 re = at0 ts) then matchhere (tl re) (tl ts)
      else False)"
| "matchstar c re ts =
     (if matchhere re ts then True
      else if ts \<noteq> [] \<and> (at0 ts = c \<or> c = DOT) then matchstar c re (tl ts)
      else False)"
  by pat_completeness auto
termination
proof (relation "measures [\<lambda>x. case x of Inl (re, t) \<Rightarrow> 2 * length re | Inr (c, re, t) \<Rightarrow> 2 * length re + 1,
    \<lambda>x. case x of Inl (re, t) \<Rightarrow> length t | Inr (c, re, t) \<Rightarrow> length t]", goal_cases)
  case (2 re ts)
  then show ?case by (cases re; cases "tl re") auto
qed auto

declare matchhere.simps [simp del] matchstar.simps [simp del]

text \<open>The loop of \<^verbatim>\<open>match\<close> over the suffixes of the ts, the empty one included.\<close>

fun match_from :: "u8 list \<Rightarrow> u8 list \<Rightarrow> bool" where
  "match_from re [] = matchhere re []"
| "match_from re (c # cs) = (if matchhere re (c # cs) then True else match_from re cs)"

definition match :: "u8 list \<Rightarrow> u8 list \<Rightarrow> bool" where
  "match re ts = (if at0 re = CARET then matchhere (tl re) ts else match_from re ts)"

section \<open>What a pattern means\<close>

text \<open>
  A pattern qs a sequence of single characters and starred characters, perhaps anchored at
  the end; the words it stands for are those of the concatenation.
\<close>

datatype item = Once u8 | Many u8

fun accepts :: "u8 \<Rightarrow> u8 \<Rightarrow> bool" where
  "accepts c x \<longleftrightarrow> c = DOT \<or> c = x"

fun items :: "u8 list \<Rightarrow> item list \<times> bool" where
  "items [] = ([], False)"
| "items [c] = (if c = DOLLAR then ([], True) else ([Once c], False))"
| "items (c # d # re) =
     (if d = STAR then let (qs, e) = items re in (Many c # qs, e)
      else let (qs, e) = items (d # re) in (Once c # qs, e))"

inductive word_of :: "item list \<Rightarrow> u8 list \<Rightarrow> bool" where
  empty: "word_of [] []"
| once: "accepts c x \<Longrightarrow> word_of qs w \<Longrightarrow> word_of (Once c # qs) (x # w)"
| none: "word_of qs w \<Longrightarrow> word_of (Many c # qs) w"
| more: "accepts c x \<Longrightarrow> word_of (Many c # qs) w \<Longrightarrow> word_of (Many c # qs) (x # w)"

inductive_simps word_of_simps [simp]: "word_of [] w" "word_of (Once c # qs) w"

definition prefix_matches :: "item list \<times> bool \<Rightarrow> u8 list \<Rightarrow> bool" where
  "prefix_matches p ts \<longleftrightarrow> (\<exists>u v. ts = u @ v \<and> word_of (fst p) u \<and> (snd p \<longrightarrow> v = []))"

text \<open>\<open>re\<close> matches somewhere in the ts, where its anchors allow it.\<close>

definition pattern_matches :: "u8 list \<Rightarrow> u8 list \<Rightarrow> bool" where
  "pattern_matches re ts \<longleftrightarrow>
     (let start = (at0 re = CARET); p = items (if start then tl re else re) in
      \<exists>a u v. ts = a @ u @ v \<and> word_of (fst p) u \<and> (start \<longrightarrow> a = []) \<and> (snd p \<longrightarrow> v = []))"

lemma prefix_matchesI: "word_of qs u \<Longrightarrow> (e \<longrightarrow> v = []) \<Longrightarrow> ts = u @ v \<Longrightarrow> prefix_matches (qs, e) ts"
  unfolding prefix_matches_def by auto

lemma prefix_matchesE:
  assumes "prefix_matches (qs, e) ts"
  obtains u v where "ts = u @ v" "word_of qs u" "e \<longrightarrow> v = []"
  using assms unfolding prefix_matches_def by auto

lemma prefix_matches_empty: "prefix_matches ([], e) ts \<longleftrightarrow> (e \<longrightarrow> ts = [])"
  by (auto simp: prefix_matches_def)

lemma prefix_matches_once:
  "prefix_matches (Once c # qs, e) ts \<longleftrightarrow>
     (\<exists>x xs. ts = x # xs \<and> accepts c x \<and> prefix_matches (qs, e) xs)"
  (is "_ \<longleftrightarrow> ?r")
proof
  assume "prefix_matches (Once c # qs, e) ts"
  then obtain u v where u: "ts = u @ v" "word_of (Once c # qs) u" "e \<longrightarrow> v = []" by (rule prefix_matchesE)
  from u(2) obtain x w where w: "u = x # w" "accepts c x" "word_of qs w" by (cases rule: word_of.cases)
  have "prefix_matches (qs, e) (w @ v)" using w(3) u(3) by (rule prefix_matchesI [OF _ _ refl])
  then show ?r using u(1) w(1,2) by (intro exI [of _ x] exI [of _ "w @ v"]) simp
next
  assume ?r
  then obtain x xs where x: "ts = x # xs" "accepts c x" "prefix_matches (qs, e) xs" by blast
  from x(3) obtain w v where w: "xs = w @ v" "word_of qs w" "e \<longrightarrow> v = []" by (rule prefix_matchesE)
  show "prefix_matches (Once c # qs, e) ts"
    by (rule prefix_matchesI [OF once [OF x(2) w(2)] w(3)]) (simp_all add: x w)
qed

lemma prefix_matches_many:
  "prefix_matches (Many c # qs, e) ts \<longleftrightarrow>
     prefix_matches (qs, e) ts \<or> (\<exists>x xs. ts = x # xs \<and> accepts c x \<and> prefix_matches (Many c # qs, e) xs)"
  (is "?l \<longleftrightarrow> ?here \<or> ?later")
proof
  assume ?l
  then obtain u v where t: "ts = u @ v" "word_of (Many c # qs) u" "e \<longrightarrow> v = []" by (rule prefix_matchesE)
  from t(2) show "?here \<or> ?later"
  proof cases
    case none
    have ?here by (rule prefix_matchesI [OF none t(3,1)])
    then show ?thesis ..
  next
    case (more x w)
    have "prefix_matches (Many c # qs, e) (w @ v)" using more(3) t(3) by (rule prefix_matchesI [OF _ _ refl])
    then have ?later using t(1) more(1,2) by (intro exI [of _ x] exI [of _ "w @ v"]) simp
    then show ?thesis ..
  qed
next
  assume "?here \<or> ?later"
  then show ?l
  proof
    assume ?here
    then obtain u v where t: "ts = u @ v" "word_of qs u" "e \<longrightarrow> v = []" by (rule prefix_matchesE)
    show ?l by (rule prefix_matchesI [OF none [OF t(2)] t(3,1)])
  next
    assume ?later
    then obtain x xs where x: "ts = x # xs" "accepts c x" "prefix_matches (Many c # qs, e) xs" by blast
    from x(3) obtain w v where w: "xs = w @ v" "word_of (Many c # qs) w" "e \<longrightarrow> v = []" by (rule prefix_matchesE)
    show ?l by (rule prefix_matchesI [OF more [OF x(2) w(2)] w(3)]) (simp_all add: x w)
  qed
qed

lemma items_cases:
  "items re = (if re = [] then ([], False)
     else if at0 (tl re) = STAR then (Many (at0 re) # fst (items (tl (tl re))), snd (items (tl (tl re))))
     else if at0 re = DOLLAR \<and> tl re = [] then ([], True)
     else (Once (at0 re) # fst (items (tl re)), snd (items (tl re))))"
  by (cases re rule: items.cases) (auto split: prod.splits)

lemma matchhere_items:
  "matchhere re ts = prefix_matches (items re) ts"
  "matchstar c re ts = prefix_matches (Many c # fst (items re), snd (items re)) ts"
proof (induction re ts and c re ts rule: matchhere_matchstar.induct)
  case (1 re ts)
  show ?case
  proof (cases "re = []")
    case True
    then show ?thesis by (simp add: matchhere.simps [of "[]" ts] prefix_matches_empty)
  next
    case False
    show ?thesis
    proof (cases "at0 (tl re) = STAR")
      case True
      then show ?thesis using 1(1) [OF False True] False by (simp add: matchhere.simps [of re ts] items_cases [of re])
    next
      case star: False
      show ?thesis
      proof (cases "at0 re = DOLLAR \<and> tl re = []")
        case True
        then show ?thesis using False by (simp add: matchhere.simps [of re ts] items_cases [of re] prefix_matches_empty)
      next
        case dollar: False
        then have it: "items re = (Once (at0 re) # fst (items (tl re)), snd (items (tl re)))"
          using False star unfolding items_cases [of re] by simp
        have m: "matchhere re ts = (ts \<noteq> [] \<and> accepts (at0 re) (at0 ts) \<and> matchhere (tl re) (tl ts))"
          unfolding matchhere.simps [of re ts] if_not_P [OF False] if_not_P [OF star] if_not_P [OF dollar] by simp
        show ?thesis
        proof (cases "ts \<noteq> [] \<and> accepts (at0 re) (at0 ts)")
          case True
          then have c: "ts \<noteq> [] \<and> (at0 re = DOT \<or> at0 re = at0 ts)" by simp
          obtain x xs where "ts = x # xs" using True by (cases ts) auto
          then show ?thesis unfolding m it prefix_matches_once using True 1(2) [OF False star dollar c] by simp
        next
          case False
          then show ?thesis unfolding m it prefix_matches_once by auto
        qed
      qed
    qed
  qed
next
  case (2 c re ts)
  have m: "matchstar c re ts = (matchhere re ts \<or> (ts \<noteq> [] \<and> accepts c (at0 ts) \<and> matchstar c re (tl ts)))"
    unfolding matchstar.simps [of c re ts] by auto
  show ?case
  proof (cases "\<not> matchhere re ts \<and> ts \<noteq> [] \<and> accepts c (at0 ts)")
    case True
    then have c: "\<not> matchhere re ts" "ts \<noteq> [] \<and> (at0 ts = c \<or> c = DOT)" by auto
    show ?thesis unfolding m 2(1) 2(2) [OF c] prod.collapse
      by (subst (2) prefix_matches_many, cases ts) (simp_all del: accepts.simps)
  next
    case False
    then show ?thesis unfolding m 2(1) prod.collapse
      by (subst prefix_matches_many, cases ts) (auto simp del: accepts.simps)
  qed
qed

lemma match_from_suffix: "match_from re ts \<longleftrightarrow> (\<exists>a b. ts = a @ b \<and> matchhere re b)"
proof (induction ts)
  case Nil
  then show ?case by simp
next
  case (Cons c cs)
  have "(\<exists>a b. c # cs = a @ b \<and> matchhere re b) \<longleftrightarrow> matchhere re (c # cs) \<or> (\<exists>a b. cs = a @ b \<and> matchhere re b)"
    by (auto simp: Cons_eq_append_conv)
  with Cons.IH show ?case by simp
qed

lemma ex_split_anchored: "(\<exists>a u v. ts = a @ u @ v \<and> W u \<and> a = [] \<and> E v) = (\<exists>u v. ts = u @ v \<and> W u \<and> E v)"
  by (metis append_Nil)

lemma ex_split: "(\<exists>a u v. ts = a @ u @ v \<and> W u \<and> E v) = (\<exists>a b. ts = a @ b \<and> (\<exists>u v. b = u @ v \<and> W u \<and> E v))"
  by blast

lemma match_exact: "match re ts = pattern_matches re ts"
proof (cases "at0 re = CARET")
  case True
  show ?thesis
    unfolding match_def pattern_matches_def Let_def matchhere_items prefix_matches_def if_P [OF True]
      eqTrueI [OF True] if_True simp_thms ex_split_anchored ..
next
  case False
  show ?thesis
    unfolding match_def pattern_matches_def Let_def match_from_suffix matchhere_items prefix_matches_def if_not_P [OF False]
      eq_False [THEN iffD2, OF False] if_False simp_thms ex_split ..
qed

text \<open>
  C23: the matcher of \<^verbatim>\<open>grep\<close> is exact. For every pattern and every line, \<^verbatim>\<open>match\<close> answers
  yes just when the line has a part that is one of the words of the pattern, at the start of
  the line if the pattern begins with \<^verbatim>\<open>^\<close> and at its end if it ends with \<^verbatim>\<open>$\<close>: the search
  for the shortest run of a starred character never misses a match.
\<close>

theorem match_is_pattern_matching: "match re ts = pattern_matches re ts"
  by (rule match_exact)

section \<open>Cutting the input into lines\<close>

abbreviation GREP_BUF :: nat where "GREP_BUF \<equiv> 1024"

text \<open>
  \<^verbatim>\<open>strchr(p, '\n')\<close> as an offset. \<open>grep_lines\<close> is the inner loop on the bytes from \<open>p\<close> to the end
  of the buffer: what it writes, and the bytes from the last \<open>p\<close> on.
\<close>

fun strchr_nl :: "u8 list \<Rightarrow> nat option" where
  "strchr_nl [] = None"
| "strchr_nl (c # cs) =
     (if c = 0 then None else if c = NL then Some 0 else map_option Suc (strchr_nl cs))"

lemma strchr_nl_less: "strchr_nl p = Some k \<Longrightarrow> k < length p"
  by (induction p arbitrary: k) (auto split: if_splits)

function grep_lines :: "u8 list \<Rightarrow> u8 list \<Rightarrow> u8 list \<times> u8 list" where
  "grep_lines pat p =
     (case strchr_nl p of
        None \<Rightarrow> ([], p)
      | Some k \<Rightarrow>
          let (w, q) = grep_lines pat (drop (k + 1) p)
          in ((if match pat (take k p) then take (k + 1) p else []) @ w, q))"
  by pat_completeness auto
termination by (relation "measure (\<lambda>(pat, p). length p)") (auto dest: strchr_nl_less)

declare grep_lines.simps [simp del]

text \<open>
  The input, as the batches in which it arrives: a \<^verbatim>\<open>read\<close> returns at most what has
  arrived and at most what it asked for. A file is one batch, a pipe has one per write.
\<close>

fun read_upto :: "nat \<Rightarrow> u8 list list \<Rightarrow> u8 list \<times> u8 list list" where
  "read_upto k [] = ([], [])"
| "read_upto k (c # cs) = (take k c, if drop k c = [] then cs else drop k c # cs)"

lemma read_upto_less:
  "read_upto k cs = (x, cs') \<Longrightarrow> x \<noteq> [] \<Longrightarrow> sum_list (map length cs') < sum_list (map length cs)"
  by (cases cs) (auto split: if_splits)

text \<open>The outer loop, with the \<open>m\<close> bytes \<open>b\<close> kept from the last round.\<close>

function grep_loop :: "u8 list \<Rightarrow> u8 list \<Rightarrow> u8 list list \<Rightarrow> u8 list" where
  "grep_loop pat b cs =
     (let (x, cs) = read_upto (GREP_BUF - length b - 1) cs in
      if x = [] then []
      else
        let (w, p) = grep_lines pat (b @ x)
        in w @ grep_loop pat (if length p = length (b @ x) then [] else p) cs)"
  by pat_completeness auto
termination
proof (relation "measure (\<lambda>(pat, b, cs). sum_list (map length cs))", goal_cases)
  case (2 pat b cs y x cs' z w p)
  then show ?case using read_upto_less [of _ cs x cs'] by simp
qed simp

declare grep_loop.simps [simp del]

definition grep :: "u8 list \<Rightarrow> u8 list list \<Rightarrow> u8 list" where
  "grep pat cs = grep_loop pat [] cs"

section \<open>What is printed\<close>

definition plain :: "u8 list \<Rightarrow> bool" where
  "plain l \<longleftrightarrow> NL \<notin> set l \<and> 0 \<notin> set l"

definition unlines :: "u8 list list \<Rightarrow> u8 list" where
  "unlines ls = concat (map (\<lambda>l. l @ [NL]) ls)"

lemma unlines_simps [simp]: "unlines [] = []" "unlines (l # ls) = l @ NL # unlines ls"
  "unlines (ls @ ms) = unlines ls @ unlines ms"
  by (simp_all add: unlines_def)

lemma strchr_nl_plain: "plain l \<Longrightarrow> strchr_nl l = None" "plain l \<Longrightarrow> strchr_nl (l @ NL # r) = Some (length l)"
  by (induction l) (auto simp: plain_def)

lemma grep_lines_unlines:
  assumes "\<forall>l \<in> set ls. plain l" and "plain r"
  shows "grep_lines pat (unlines ls @ r) = (unlines (filter (match pat) ls), r)"
  using assms(1)
proof (induction ls)
  case Nil
  show ?case using assms(2) by (simp add: grep_lines.simps [of pat r] strchr_nl_plain)
next
  case (Cons l ls)
  then have l: "plain l" by simp
  have "grep_lines pat (unlines ls @ r) = (unlines (filter (match pat) ls), r)" by (rule Cons.IH) (use Cons.prems in simp)
  then show ?case by (simp add: grep_lines.simps [of pat "l @ NL # unlines ls @ r"] strchr_nl_plain(2) [OF l])
qed

text \<open>Every text is some lines and the beginning of another.\<close>

lemma unlines_exists: "0 \<notin> set xs \<Longrightarrow> \<exists>ls r. xs = unlines ls @ r \<and> (\<forall>l \<in> set ls. plain l) \<and> plain r"
proof (induction "length xs" arbitrary: xs rule: less_induct)
  case less
  show ?case
  proof (cases "NL \<in> set xs")
    case False
    then show ?thesis using less.prems by (intro exI [of _ "[]"] exI [of _ xs]) (simp add: plain_def)
  next
    case True
    then obtain l ys where x: "xs = l @ NL # ys" "NL \<notin> set l" by (metis split_list_first)
    then obtain ls r where "ys = unlines ls @ r" "\<forall>l \<in> set ls. plain l" "plain r"
      using less.hyps [of ys] less.prems by auto
    then show ?thesis using x less.prems by (intro exI [of _ "l # ls"] exI [of _ r]) (auto simp: plain_def)
  qed
qed

lemma unlines_split:
  assumes "unlines ls @ r = unlines ms @ s @ t" and "\<forall>l \<in> set ls. plain l" and "plain r" and "\<forall>l \<in> set ms. plain l" and "plain s"
  shows "\<exists>ns. ls = ms @ ns \<and> unlines ns @ r = s @ t"
  using assms(1,2,4)
proof (induction ms arbitrary: ls)
  case Nil
  then show ?case by simp
next
  case (Cons m ms)
  show ?case
  proof (cases ls)
    case Nil
    then show ?thesis using Cons.prems assms(3) by (auto simp: plain_def)
  next
    case c: (Cons l ls')
    have "l @ NL # (unlines ls' @ r) = m @ NL # (unlines ms @ s @ t)" using Cons.prems(1) c by simp
    moreover have "NL \<notin> set l" "NL \<notin> set m" using Cons.prems(2,3) c by (auto simp: plain_def)
    ultimately have "l = m" "unlines ls' @ r = unlines ms @ s @ t" by (auto simp: append_eq_append_conv2 Cons_eq_append_conv append_eq_Cons_conv)
    then show ?thesis using Cons.IH [of ls'] Cons.prems(2,3) c by auto
  qed
qed

lemma unlines_plain: "plain (unlines ls @ r) \<Longrightarrow> ls = []"
  by (cases ls) (auto simp: plain_def)

lemma plain_append: "plain (s @ t) \<longleftrightarrow> plain s \<and> plain t"
  by (auto simp: plain_def)

lemma plain_unlines_0: "\<forall>l \<in> set ls. plain l \<Longrightarrow> 0 \<notin> set (unlines ls)"
  by (induction ls) (auto simp: plain_def)

text \<open>A buffer without a newline is full, which no line fills, or has the end of the file in it.\<close>

lemma no_newline_no_lines:
  assumes "unlines ls @ r = s @ t" and "plain s" and "t = [] \<or> length s = GREP_BUF - 1"
    and "\<forall>l \<in> set ls. length l \<le> 1022"
  shows "ls = []"
proof (cases ls)
  case (Cons l ls')
  then have e: "l @ NL # (unlines ls' @ r) = s @ t" "length l \<le> 1022" using assms(1,4) by auto
  have "t = [] \<or> length l < length s" using e(2) assms(3) by auto
  then have "(s @ t) ! length l \<in> set s" using arg_cong [OF e(1), of length] by (auto simp: nth_append)
  then have "NL \<in> set s" using arg_cong [OF e(1), of "\<lambda>xs. xs ! length l"] by simp
  then show ?thesis using assms(2) by (simp add: plain_def)
qed

lemma grep_loop_file:
  assumes "b @ concat cs = unlines ls @ r" and "length cs \<le> 1" and "plain b" and "length b \<le> 1022"
    and "\<forall>l \<in> set ls. plain l" and "\<forall>l \<in> set ls. length l \<le> 1022" and "plain r"
  shows "grep_loop pat b cs = unlines (filter (match pat) ls)"
  using assms
proof (induction "length (concat cs)" arbitrary: b cs ls r rule: less_induct)
  case less
  define f where "f = concat cs"
  define k where "k = GREP_BUF - length b - 1"
  define x where "x = take k f"
  define t where "t = drop k f"
  obtain cs' where rd: "read_upto k cs = (x, cs')" and cs': "concat cs' = t" "length cs' \<le> 1"
    using less.prems(2) unfolding x_def t_def f_def by (cases cs) auto
  have ft: "f = x @ t" by (simp add: x_def t_def)
  show ?case
  proof (cases "x = []")
    case True
    then have "f = []" using less.prems(4) by (simp add: x_def k_def)
    then have "unlines ls @ r = b" using less.prems(1) unfolding f_def by (metis append.right_neutral)
    then have "ls = []" using less.prems(3) unlines_plain [of ls r] by metis
    then show ?thesis using rd True by (simp add: grep_loop.simps [of pat b cs] k_def)
  next
    case False
    have "0 \<notin> set (b @ x)"
      using less.prems(1,5,7) plain_unlines_0 [of ls] ft f_def by (metis Un_iff plain_def set_append)
    then obtain ms s where m: "b @ x = unlines ms @ s" "\<forall>l \<in> set ms. plain l" "plain s"
      using unlines_exists by blast
    have all: "unlines ls @ r = unlines ms @ s @ t" using less.prems(1) m(1) ft f_def by (metis append.assoc)
    obtain ns where n: "ls = ms @ ns" "unlines ns @ r = s @ t"
      using unlines_split [OF all less.prems(5,7) m(2,3)] by blast
    have gl: "grep_lines pat (b @ x) = (unlines (filter (match pat) ms), s)"
      unfolding m(1) by (rule grep_lines_unlines [OF m(2,3)])
    have len: "length (concat cs') < length (concat cs)" using False cs'(1) ft f_def by simp
    have step: "grep_loop pat b cs = unlines (filter (match pat) ms) @ grep_loop pat (if length s = length (b @ x) then [] else s) cs'"
      using rd False gl by (simp add: grep_loop.simps [of pat b cs] k_def)
    have bx: "length (b @ x) \<le> 1023" using less.prems(4) by (simp add: x_def k_def)
    show ?thesis
    proof (cases "ms = []")
      case True
      then have s: "s = b @ x" using m(1) by simp
      have "t = [] \<or> length s = GREP_BUF - 1" using less.prems(4) s by (auto simp: t_def x_def k_def)
      then have ls: "ls = []" using no_newline_no_lines [OF _ m(3), of ls r t] all True less.prems(6) by simp
      then have "plain t" using n less.prems(7) by (simp add: plain_append)
      then have "grep_loop pat [] cs' = unlines (filter (match pat) [])"
        using cs' by (intro less.hyps [OF len, of "[]" "[]" t]) (auto simp: plain_def)
      then show ?thesis using step s True ls by simp
    next
      case ms: False
      then have "length s < length (b @ x)" unfolding m(1) by (cases ms) auto
      moreover have "grep_loop pat s cs' = unlines (filter (match pat) ns)"
        using n less.prems(5,6,7) m(3) cs' bx \<open>length s < length (b @ x)\<close>
        by (intro less.hyps [OF len, of s ns r]) auto
      ultimately show ?thesis using step n(1) by simp
    qed
  qed
qed

text \<open>
  C24: \<^verbatim>\<open>grep\<close> on a file prints the lines that match, whole and in order, and nothing else:
  on any file of text whose lines fit its buffer, wherever the reads of 1023 bytes and fewer
  cut the lines, a last line without a newline excepted.
\<close>

theorem grep_prints_matching_lines:
  assumes "\<forall>l \<in> set ls. plain l" and "\<forall>l \<in> set ls. length l \<le> 1022" and "plain r"
  shows "grep pat [unlines ls @ r] = unlines (filter (pattern_matches pat) ls)"
proof -
  have "pattern_matches pat = match pat" by (rule ext) (rule match_exact [symmetric])
  then show ?thesis
    unfolding grep_def using grep_loop_file [of "[]" "[unlines ls @ r]" ls r pat] assms by (simp add: plain_def)
qed

theorem grep_prints_matching_lines_witness:
  "grep [94, 99] [unlines [[99, 97], [98]] @ [99]] = unlines (filter (pattern_matches [94, 99]) [[99, 97], [98]]) \<and>
   filter (pattern_matches [94, 99]) [[99, 97], [98]] = [[99, 97]]"
  using grep_prints_matching_lines [of "[[99, 97], [98]]" "[99]" "[94, 99]"]
  by (simp add: plain_def match_exact [symmetric] match_def matchhere.simps)

text \<open>
  C25: what a pipe does to it. When a line arrives in two writes, \<^verbatim>\<open>grep\<close> throws away the
  first part, as a buffer without a newline is taken for one that a long line fills, and
  matches and prints the second part as if it were the line.
\<close>

theorem grep_loses_split_line:
  assumes "plain u" and "plain v" and "u \<noteq> []" and "length u \<le> 1022" and "length v \<le> 1022"
  shows "grep pat [u, v @ [NL]] = (if pattern_matches pat v then v @ [NL] else [])"
proof -
  have p: "pattern_matches pat v = match pat v" by (rule match_exact [symmetric])
  have u: "grep_lines pat u = ([], u)" using grep_lines_unlines [of "[]" u pat] assms(1) by simp
  have v: "grep_lines pat (v @ [NL]) = (if match pat v then v @ [NL] else [], [])"
    using grep_lines_unlines [of "[v]" "[]" pat] assms(2) by (auto simp: plain_def)
  show ?thesis
    using assms u v p
    by (simp add: grep_def grep_loop.simps [of pat "[]" "[u, v @ [NL]]"] grep_loop.simps [of pat "[]" "[v @ [NL]]"]
        grep_loop.simps [of pat "[]" "[]"])
qed

theorem grep_loses_split_line_witness:
  "grep [94, 99] [[97, 98], [99] @ [NL]] = [99, NL]"
  using grep_loses_split_line [of "[97, 98]" "[99]" "[94, 99]"]
  by (simp add: plain_def match_exact [symmetric] match_def matchhere.simps)

end
