(* ===== verification/Sh.thy ===== *)
theory Sh
  imports Prelude
begin

text \<open>
  The parser of the shell, \<^verbatim>\<open>sh.c\<close>. A pointer into the command line is the text from there
  to the end of the line (\<^verbatim>\<open>es\<close>), so that \<^verbatim>\<open>s < es\<close> is a non-empty rest and \<^verbatim>\<open>*es\<close> is the NUL;
  a word is a pair of pointers, to its first byte and behind its last. The tree has the
  constructors of the \<^verbatim>\<open>struct\<close>s, over any type of words. The recursive functions take fuel;
  \<open>parsecmd\<close> gives them enough, as \<open>parsecmd_returns\<close> shows.
\<close>

section \<open>Tokens\<close>

declare dropWhile_eq_Nil_conv [simp del]

type_synonym ptr = "u8 list"
type_synonym extent = "ptr \<times> ptr"

abbreviation MAXARGS :: nat where "MAXARGS \<equiv> 10"

definition whitespace :: "u8 list" where "whitespace = [32, 9, 13, 10, 11]"
definition symbols :: "u8 list" where "symbols = [60, 124, 62, 38, 59, 40, 41]"

abbreviation LT :: u8 where "LT \<equiv> 60"
abbreviation GT :: u8 where "GT \<equiv> 62"
abbreviation BAR :: u8 where "BAR \<equiv> 124"
abbreviation AMP :: u8 where "AMP \<equiv> 38"
abbreviation SEMI :: u8 where "SEMI \<equiv> 59"
abbreviation LPAR :: u8 where "LPAR \<equiv> 40"
abbreviation RPAR :: u8 where "RPAR \<equiv> 41"
abbreviation PLUS :: u8 where "PLUS \<equiv> 43"
abbreviation WORD :: u8 where "WORD \<equiv> 97"

definition blank :: "u8 \<Rightarrow> bool" where "blank c \<longleftrightarrow> c \<in> set whitespace"
definition wordchar :: "u8 \<Rightarrow> bool" where "wordchar c \<longleftrightarrow> \<not> blank c \<and> c \<notin> set symbols"

abbreviation skip :: "ptr \<Rightarrow> ptr" where "skip s \<equiv> dropWhile blank s"

text \<open>The token's kind, its extent, and the updated \<^verbatim>\<open>*ps\<close>.\<close>

definition gettoken :: "ptr \<Rightarrow> u8 \<times> extent \<times> ptr" where
  "gettoken s =
     (let q = skip s in
      case q of
        [] \<Rightarrow> (0, (q, []), [])
      | c # s \<Rightarrow>
          if c \<in> {BAR, LPAR, RPAR, SEMI, AMP, LT} then (c, (q, s), skip s)
          else if c = GT then
            (case s of
               [] \<Rightarrow> (GT, (q, s), skip s)
             | d # s' \<Rightarrow> if d = GT then (PLUS, (q, s'), skip s') else (GT, (q, s), skip s))
          else let s = dropWhile wordchar q in (WORD, (q, s), skip s))"

definition peek :: "ptr \<Rightarrow> u8 list \<Rightarrow> bool \<times> ptr" where
  "peek s toks = (let s = skip s in (s \<noteq> [] \<and> hd s \<in> set toks, s))"

section \<open>The tree\<close>

datatype 'w cmd =
    Exec "'w list"
  | Redir "'w cmd" 'w nat nat
  | Pipe "'w cmd" "'w cmd"
  | List "'w cmd" "'w cmd"
  | Back "'w cmd"

abbreviation O_RDONLY :: nat where "O_RDONLY \<equiv> 0"
abbreviation O_WRONLY :: nat where "O_WRONLY \<equiv> 1"
abbreviation O_CREATE :: nat where "O_CREATE \<equiv> 512"

section \<open>The parser\<close>

lemma skip_Cons: "skip s = c # r \<Longrightarrow> \<not> blank c"
  by (metis dropWhile_eq_Cons_conv)

lemma length_skip: "length (skip s) \<le> length s"
  by (rule length_dropWhile_le)

lemma skip_skip [simp]: "skip (skip s) = skip s"
  by (cases "skip s") (auto dest: skip_Cons)

lemma wordchar_first: "\<not> blank c \<Longrightarrow> c \<notin> {BAR, LPAR, RPAR, SEMI, AMP, LT} \<Longrightarrow> c \<noteq> GT \<Longrightarrow> wordchar c"
  by (simp add: wordchar_def symbols_def)

lemma gettoken_shape:
  assumes "gettoken s = (k, (q, e), s')"
  shows "q = skip s" and "s' = skip e" and "q \<noteq> [] \<Longrightarrow> length e < length q"
    and "q = [] \<Longrightarrow> k = 0 \<and> e = []" and "k = WORD \<Longrightarrow> e = dropWhile wordchar q \<and> q \<noteq> []"
proof -
  have "q = skip s \<and> s' = skip e \<and> (q \<noteq> [] \<longrightarrow> length e < length q) \<and> (q = [] \<longrightarrow> k = 0 \<and> e = []) \<and>
    (k = WORD \<longrightarrow> e = dropWhile wordchar q \<and> q \<noteq> [])"
  proof (cases "skip s")
    case Nil
    then show ?thesis using assms by (simp add: gettoken_def Let_def del: dropWhile_eq_Nil_conv)
  next
    case (Cons c r)
    show ?thesis
    proof (cases "c \<in> {BAR, LPAR, RPAR, SEMI, AMP, LT}")
      case True
      then show ?thesis using assms Cons by (auto simp: gettoken_def)
    next
      case sym: False
      show ?thesis
      proof (cases "c = GT")
        case True
        then show ?thesis using assms unfolding gettoken_def Let_def Cons by (cases r) (auto split: if_splits)
      next
        case False
        then have "wordchar c" using sym skip_Cons [OF Cons] wordchar_first by blast
        then show ?thesis using assms sym False unfolding gettoken_def Let_def Cons
          by (auto simp: less_Suc_eq_le length_dropWhile_le)
      qed
    qed
  qed
  then show "q = skip s" "s' = skip e" "q \<noteq> [] \<Longrightarrow> length e < length q"
    "q = [] \<Longrightarrow> k = 0 \<and> e = []" "k = WORD \<Longrightarrow> e = dropWhile wordchar q \<and> q \<noteq> []" by auto
qed

lemma gettoken_length:
  assumes "gettoken s = (k, w, s')"
  shows "length s' \<le> length s" and "k \<noteq> 0 \<or> skip s \<noteq> [] \<Longrightarrow> length s' < length s"
proof -
  obtain q e where w: "w = (q, e)" by fastforce
  note g = gettoken_shape [OF assms [unfolded w]]
  have "length s' \<le> length e" "length q \<le> length s" using g(1,2) length_skip by auto
  then show "length s' \<le> length s" "k \<noteq> 0 \<or> skip s \<noteq> [] \<Longrightarrow> length s' < length s"
    using g(1,3,4) by (cases "q = []"; auto)+
qed

lemma peek_length: "peek s ts = (b, s') \<Longrightarrow> length s' \<le> length s"
  by (auto simp: peek_def Let_def length_skip)

lemma peek_True: "peek s ts = (True, s') \<Longrightarrow> skip s' = s' \<and> s' \<noteq> []"
  by (auto simp: peek_def Let_def)

lemma peek_gettoken: "peek s ts = (True, s1) \<Longrightarrow> gettoken s1 = (k, w, s2) \<Longrightarrow> length s2 < length s1"
  using peek_True [of s ts s1] gettoken_length(2) [of s1 k w s2] by metis

section \<open>The parser\<close>

function parseredirs :: "extent cmd \<Rightarrow> ptr \<Rightarrow> (extent cmd \<times> ptr) outcome" where
  "parseredirs cmd s =
     (let (b, s) = peek s [LT, GT] in
      if b then
        let (tok, w, s) = gettoken s; (tok2, w, s) = gettoken s in
        if tok2 \<noteq> WORD then Panic ''missing file for redirection''
        else parseredirs
          (if tok = LT then Redir cmd w O_RDONLY 0
           else if tok = GT then Redir cmd w (O_WRONLY + O_CREATE) 1
           else if tok = PLUS then Redir cmd w (O_WRONLY + O_CREATE) 1
           else cmd) s
      else Ok (cmd, s))"
  by pat_completeness auto
termination
proof (relation "measure (\<lambda>(cmd, s). length s)", goal_cases)
  case (2 cmd s p b s1 p2 tok p3 w s2 p4 tok2 p5 w2 s3)
  then have "length s1 \<le> length s" "skip s1 = s1 \<and> s1 \<noteq> []" "length s2 < length s1" "length s3 \<le> length s2"
    using peek_length [of s _ b s1] peek_True [of s _ s1] gettoken_length [of s1 tok w s2] gettoken_length [of s2 tok2 w2 s3]
    by auto
  then show ?case by simp
qed simp

declare parseredirs.simps [simp del]

text \<open>One turn of the loop, with the tokens named.\<close>

definition redirect :: "u8 \<Rightarrow> 'w cmd \<Rightarrow> 'w \<Rightarrow> 'w cmd" where
  "redirect tok cmd w =
     (if tok = LT then Redir cmd w O_RDONLY 0
      else if tok = GT \<or> tok = PLUS then Redir cmd w (O_WRONLY + O_CREATE) 1 else cmd)"

lemma parseredirs_step:
  "parseredirs cmd s =
     (if skip s \<noteq> [] \<and> hd (skip s) \<in> {LT, GT} then
        (case gettoken (skip s) of (tok, _, s1) \<Rightarrow>
         case gettoken s1 of (tok2, w, s2) \<Rightarrow>
           if tok2 \<noteq> WORD then Panic ''missing file for redirection'' else parseredirs (redirect tok cmd w) s2)
      else Ok (cmd, skip s))"
  by (subst parseredirs.simps) (auto simp: peek_def Let_def redirect_def split: prod.splits)

lemma parseredirs_length: "parseredirs cmd s = Ok (cmd', s') \<Longrightarrow> length s' \<le> length s"
proof (induction "length s" arbitrary: cmd s rule: less_induct)
  case less
  show ?case
  proof (cases "skip s \<noteq> [] \<and> hd (skip s) \<in> {LT, GT}")
    case False
    then have "s' = skip s" using less.prems by (subst (asm) parseredirs_step) (auto split: if_splits)
    then show ?thesis by (simp add: length_skip)
  next
    case True
    obtain tok w1 s1 where g1: "gettoken (skip s) = (tok, w1, s1)" by (metis prod_cases3)
    obtain tok2 w s2 where g2: "gettoken s1 = (tok2, w, s2)" by (metis prod_cases3)
    have "length s1 < length (skip s)" using gettoken_length(2) [OF g1] True by simp
    then have l: "length s2 < length s" using gettoken_length(1) [OF g2] length_skip [of s] by linarith
    have "parseredirs (redirect tok cmd w) s2 = Ok (cmd', s')"
      using less.prems True g1 g2 by (subst (asm) parseredirs_step) (auto split: if_splits)
    then show ?thesis using less.hyps [OF l] l by fastforce
  qed
qed

text \<open>
  The arguments. \<^verbatim>\<open>ret\<close> is the tree so far, with the \<^verbatim>\<open>execcmd\<close> at the bottom of its
  redirections; \<open>set_argv\<close> writes to that node, as the code does through \<^verbatim>\<open>cmd\<close>.
\<close>

fun set_argv :: "'w list \<Rightarrow> 'w cmd \<Rightarrow> 'w cmd" where
  "set_argv ws (Exec _) = Exec ws"
| "set_argv ws (Redir c f m fd) = Redir (set_argv ws c) f m fd"
| "set_argv ws c = c"

function parseargs :: "extent list \<Rightarrow> extent cmd \<Rightarrow> ptr \<Rightarrow> (extent cmd \<times> ptr) outcome" where
  "parseargs argv ret s =
     (let (b, s) = peek s [BAR, RPAR, AMP, SEMI] in
      if b then Ok (set_argv argv ret, s)
      else
        let (tok, w, s) = gettoken s in
        if tok = 0 then Ok (set_argv argv ret, s)
        else if tok \<noteq> WORD then Panic ''syntax''
        else
          let argv = argv @ [w] in
          if length argv \<ge> MAXARGS then Panic ''too many args''
          else obind (parseredirs ret s) (\<lambda>(ret, s). parseargs argv ret s))"
  by pat_completeness auto
termination
proof (relation "measure (\<lambda>(argv, ret, s). length s)", goal_cases)
  case (2 argv ret s p b s1 p2 tok p3 w s2 argv' r ret' s3)
  then have "length s1 \<le> length s" "length s2 < length s1" "length s3 \<le> length s2"
    using peek_length [of s _ b s1] gettoken_length [of s1 tok w s2] parseredirs_length [of ret s2 ret' s3] by auto
  then show ?case by simp
qed simp

declare parseargs.simps [simp del]

text \<open>The loop over \<^verbatim>\<open>&\<close>.\<close>

function parsebacks :: "extent cmd \<Rightarrow> ptr \<Rightarrow> extent cmd \<times> ptr" where
  "parsebacks cmd s =
     (let (b, s) = peek s [AMP] in
      if b then let (tok, w, s) = gettoken s in parsebacks (Back cmd) s
      else (cmd, s))"
  by pat_completeness auto
termination
proof (relation "measure (\<lambda>(cmd, s). length s)", goal_cases)
  case (2 cmd s p b s1 p2 tok p3 w s2)
  then have "length s1 \<le> length s" "length s2 < length s1"
    using peek_length [of s _ b s1] peek_True [of s _ s1] gettoken_length [of s1 tok w s2] by auto
  then show ?case by simp
qed simp

declare parsebacks.simps [simp del]

fun parseline :: "nat \<Rightarrow> ptr \<Rightarrow> (extent cmd \<times> ptr) outcome"
  and parsepipe :: "nat \<Rightarrow> ptr \<Rightarrow> (extent cmd \<times> ptr) outcome"
  and parseexec :: "nat \<Rightarrow> ptr \<Rightarrow> (extent cmd \<times> ptr) outcome"
  and parseblock :: "nat \<Rightarrow> ptr \<Rightarrow> (extent cmd \<times> ptr) outcome" where
  "parseline 0 s = Spin"
| "parseline (Suc n) s =
     obind (parsepipe n s) (\<lambda>(cmd, s).
     let (cmd, s) = parsebacks cmd s; (b, s) = peek s [SEMI] in
     if b then
       let (tok, w, s) = gettoken s in
       obind (parseline n s) (\<lambda>(rest, s). Ok (List cmd rest, s))
     else Ok (cmd, s))"
| "parsepipe 0 s = Spin"
| "parsepipe (Suc n) s =
     obind (parseexec n s) (\<lambda>(cmd, s).
     let (b, s) = peek s [BAR] in
     if b then
       let (tok, w, s) = gettoken s in
       obind (parsepipe n s) (\<lambda>(rest, s). Ok (Pipe cmd rest, s))
     else Ok (cmd, s))"
| "parseexec 0 s = Spin"
| "parseexec (Suc n) s =
     (let (b, s) = peek s [LPAR] in
      if b then parseblock n s
      else obind (parseredirs (Exec []) s) (\<lambda>(ret, s). parseargs [] ret s))"
| "parseblock 0 s = Spin"
| "parseblock (Suc n) s =
     (let (b, s) = peek s [LPAR] in
      if \<not> b then Panic ''parseblock''
      else
        let (tok, w, s) = gettoken s in
        obind (parseline n s) (\<lambda>(cmd, s).
        let (b, s) = peek s [RPAR] in
        if \<not> b then Panic ''syntax - missing )''
        else let (tok, w, s) = gettoken s in parseredirs cmd s))"

text \<open>
  \<^verbatim>\<open>nulterminate\<close> ends every word with a NUL: its result is the buffer after that. \<open>nul_at\<close>
  is the store through a pointer into the line \<open>t\<close>, at its end the NUL that is there already.
\<close>

definition nul_at :: "ptr \<Rightarrow> u8 list \<Rightarrow> u8 list" where
  "nul_at p t = t[length t - length p := 0]"

fun nulterminate :: "extent cmd \<Rightarrow> u8 list \<Rightarrow> u8 list" where
  "nulterminate (Exec ws) t = fold (\<lambda>(q, e) t. nul_at e t) ws t"
| "nulterminate (Redir c (q, e) m fd) t = nul_at e (nulterminate c t)"
| "nulterminate (Pipe l r) t = nulterminate r (nulterminate l t)"
| "nulterminate (List l r) t = nulterminate r (nulterminate l t)"
| "nulterminate (Back c) t = nulterminate c t"

definition parse_fuel :: "ptr \<Rightarrow> nat" where
  "parse_fuel s = 4 * length s + 4"

definition parsecmd :: "u8 list \<Rightarrow> (extent cmd \<times> u8 list) outcome" where
  "parsecmd t =
     obind (parseline (parse_fuel t) t) (\<lambda>(cmd, s).
     let (b, s) = peek s [] in
     if s \<noteq> [] then Panic ''syntax''
     else Ok (cmd, nulterminate cmd t))"

section \<open>The parser always returns\<close>

definition syntax_errors :: "string set" where
  "syntax_errors = {''syntax'', ''too many args'', ''missing file for redirection'', ''syntax - missing )''}"

fun returns :: "'a outcome \<Rightarrow> bool" where
  "returns (Ok x) = True"
| "returns (Panic m) = (m \<in> syntax_errors)"
| "returns _ = False"

lemma returns_obind: "returns (obind m f) \<longleftrightarrow> returns m \<and> (\<forall>x. m = Ok x \<longrightarrow> returns (f x))"
  by (cases m) auto

lemma parseredirs_returns: "returns (parseredirs cmd s)"
proof (induction "length s" arbitrary: cmd s rule: less_induct)
  case less
  show ?case
  proof (cases "skip s \<noteq> [] \<and> hd (skip s) \<in> {LT, GT}")
    case False
    then show ?thesis by (subst parseredirs_step) auto
  next
    case True
    obtain tok w1 s1 where g1: "gettoken (skip s) = (tok, w1, s1)" by (metis prod_cases3)
    obtain tok2 w s2 where g2: "gettoken s1 = (tok2, w, s2)" by (metis prod_cases3)
    have "length s1 < length (skip s)" using gettoken_length(2) [OF g1] True by simp
    then have l: "length s2 < length s" using gettoken_length(1) [OF g2] length_skip [of s] by linarith
    show ?thesis using less.hyps [OF l] g1 g2 True by (subst parseredirs_step) (auto simp: syntax_errors_def)
  qed
qed

lemma parseargs_step:
  "parseargs argv ret s =
     (if skip s \<noteq> [] \<and> hd (skip s) \<in> {BAR, RPAR, AMP, SEMI} then Ok (set_argv argv ret, skip s)
      else case gettoken (skip s) of (tok, w, s1) \<Rightarrow>
        if tok = 0 then Ok (set_argv argv ret, s1)
        else if tok \<noteq> WORD then Panic ''syntax''
        else if length argv + 1 \<ge> MAXARGS then Panic ''too many args''
        else obind (parseredirs ret s1) (\<lambda>(ret, s). parseargs (argv @ [w]) ret s))"
  by (subst parseargs.simps) (auto simp: peek_def Let_def split: prod.splits)

lemma parseargs_both:
  "returns (parseargs argv ret s) \<and> (parseargs argv ret s = Ok (c, s') \<longrightarrow> length s' \<le> length s)"
proof (induction "length s" arbitrary: argv ret s rule: less_induct)
  case less
  show ?case
  proof (cases "skip s \<noteq> [] \<and> hd (skip s) \<in> {BAR, RPAR, AMP, SEMI}")
    case True
    then show ?thesis by (subst (1 2) parseargs_step) (auto simp: length_skip)
  next
    case no: False
    obtain tok w s1 where g: "gettoken (skip s) = (tok, w, s1)" by (metis prod_cases3)
    have l1: "length s1 \<le> length s" using gettoken_length(1) [OF g] length_skip [of s] by linarith
    show ?thesis
    proof (cases "tok \<noteq> WORD \<or> length argv + 1 \<ge> MAXARGS")
      case True
      then show ?thesis using no g l1 by (subst (1 2) parseargs_step) (auto simp: syntax_errors_def)
    next
      case False
      have step: "parseargs argv ret s = obind (parseredirs ret s1) (\<lambda>(ret, s). parseargs (argv @ [w]) ret s)"
        using no g False by (subst parseargs_step) auto
      have l: "length s1 < length s" using gettoken_length(2) [OF g] False length_skip [of s] by simp
      show ?thesis
      proof (cases "parseredirs ret s1")
        case (Ok x)
        obtain r s2 where x: "x = (r, s2)" by (cases x)
        have "length s2 < length s" using parseredirs_length Ok x l by fastforce
        from less.hyps [OF this, of "argv @ [w]" r] show ?thesis using step Ok x \<open>length s2 < length s\<close> by auto
      qed (use step parseredirs_returns [of ret s1] in auto)
    qed
  qed
qed

lemma parsebacks_length: "parsebacks c s = (c', s') \<Longrightarrow> length s' \<le> length s"
proof (induction "length s" arbitrary: c s rule: less_induct)
  case less
  obtain tok w s1 where g: "gettoken (skip s) = (tok, w, s1)" by (metis prod_cases3)
  show ?case
  proof (cases "skip s \<noteq> [] \<and> hd (skip s) = AMP")
    case True
    have l: "length s1 < length s" using gettoken_length(2) [OF g] True length_skip [of s] by simp
    have "parsebacks (Back c) s1 = (c', s')"
      using less.prems True g by (subst (asm) parsebacks.simps) (simp add: peek_def Let_def)
    from less.hyps [OF l this] l show ?thesis by simp
  next
    case False
    then have "s' = skip s" using less.prems by (subst (asm) parsebacks.simps) (auto simp: peek_def Let_def)
    then show ?thesis by (simp add: length_skip)
  qed
qed

text \<open>What an operation of the parser keeps: it returns, with no more of the line than before.\<close>

definition shrinks :: "ptr \<Rightarrow> ('c \<times> ptr) outcome \<Rightarrow> bool" where
  "shrinks s m \<longleftrightarrow> returns m \<and> (\<forall>c s'. m = Ok (c, s') \<longrightarrow> length s' \<le> length s)"

lemma shrinks_obind:
  assumes "shrinks s m" and "\<And>c s'. m = Ok (c, s') \<Longrightarrow> length s' \<le> length s \<Longrightarrow> shrinks s (f (c, s'))"
  shows "shrinks s (obind m f)"
  using assms by (cases m) (auto simp: shrinks_def)

lemma shrinks_trans: "shrinks s' m \<Longrightarrow> length s' \<le> length s \<Longrightarrow> shrinks s m"
  by (auto simp: shrinks_def)

lemma parse_shrinks:
  "4 * length s + 3 < n \<Longrightarrow> shrinks s (parseline n s)"
  "4 * length s + 2 < n \<Longrightarrow> shrinks s (parsepipe n s)"
  "4 * length s + 1 < n \<Longrightarrow> shrinks s (parseexec n s)"
  "4 * length s < n \<Longrightarrow> fst (peek s [LPAR]) \<Longrightarrow> shrinks s (parseblock n s)"
proof (induction n arbitrary: s)
  case (Suc n)
  {
    case 1
    show ?case
      unfolding parseline.simps Let_def
    proof (rule shrinks_obind)
      show "shrinks s (parsepipe n s)" by (rule Suc.IH(2)) (use 1 in simp)
    next
      fix c and s1 :: ptr assume l1: "length s1 \<le> length s"
      obtain c2 s2 where b: "parsebacks c s1 = (c2, s2)" by fastforce
      obtain p s3 where pk: "peek s2 [SEMI] = (p, s3)" by fastforce
      obtain tok w s4 where g: "gettoken s3 = (tok, w, s4)" by (metis prod_cases3)
      have l: "length s3 \<le> length s" using l1 parsebacks_length [OF b] peek_length [OF pk] by simp
      have "shrinks s (obind (parseline n s4) (\<lambda>(rest, s). Ok (List c2 rest, s)))" if p
      proof (rule shrinks_obind)
        have l4: "length s4 < length s3" using peek_gettoken [OF _ g] pk that by simp
        show "shrinks s (parseline n s4)" by (rule shrinks_trans [OF Suc.IH(1)]) (use 1 l l4 in linarith)+
      qed (auto simp: shrinks_def)
      then show "shrinks s (case (c, s1) of (cmd, s) \<Rightarrow> case parsebacks cmd s of (cmd, s) \<Rightarrow> case peek s [SEMI] of (b, s) \<Rightarrow>
          if b then case gettoken s of (tok, w, s) \<Rightarrow> obind (parseline n s) (\<lambda>(rest, s). Ok (List cmd rest, s)) else Ok (cmd, s))"
        using b pk g l by (auto simp: shrinks_def)
    qed
  next
    case 2
    show ?case
      unfolding parsepipe.simps Let_def
    proof (rule shrinks_obind)
      show "shrinks s (parseexec n s)" by (rule Suc.IH(3)) (use 2 in simp)
    next
      fix c and s1 :: ptr assume l1: "length s1 \<le> length s"
      obtain p s3 where pk: "peek s1 [BAR] = (p, s3)" by fastforce
      obtain tok w s4 where g: "gettoken s3 = (tok, w, s4)" by (metis prod_cases3)
      have l: "length s3 \<le> length s" using l1 peek_length [OF pk] by simp
      have "shrinks s (obind (parsepipe n s4) (\<lambda>(rest, s). Ok (Pipe c rest, s)))" if p
      proof (rule shrinks_obind)
        have l4: "length s4 < length s3" using peek_gettoken [OF _ g] pk that by simp
        show "shrinks s (parsepipe n s4)" by (rule shrinks_trans [OF Suc.IH(2)]) (use 2 l l4 in linarith)+
      qed (auto simp: shrinks_def)
      then show "shrinks s (case (c, s1) of (cmd, s) \<Rightarrow> case peek s [BAR] of (b, s) \<Rightarrow>
          if b then case gettoken s of (tok, w, s) \<Rightarrow> obind (parsepipe n s) (\<lambda>(rest, s). Ok (Pipe cmd rest, s)) else Ok (cmd, s))"
        using pk g l by (auto simp: shrinks_def)
    qed
  next
    case 3
    obtain p s1 where pk: "peek s [LPAR] = (p, s1)" by fastforce
    have l: "length s1 \<le> length s" by (rule peek_length [OF pk])
    have "shrinks s (parseblock n s1)" if p
    proof -
      have f: "fst (peek s1 [LPAR])" using pk that by (auto simp: peek_def Let_def)
      show ?thesis by (rule shrinks_trans [OF Suc.IH(4) [OF _ f] l]) (use 3 l in linarith)
    qed
    moreover have "shrinks s (obind (parseredirs (Exec []) s1) (\<lambda>(ret, s). parseargs [] ret s))"
    proof (rule shrinks_obind)
      show "shrinks s (parseredirs (Exec []) s1)"
        using parseredirs_returns parseredirs_length l unfolding shrinks_def by (meson le_trans)
    next
      fix c and s2 :: ptr assume "length s2 \<le> length s"
      then show "shrinks s (case (c, s2) of (ret, s) \<Rightarrow> parseargs [] ret s)"
        using parseargs_both [of "[]" c s2] unfolding shrinks_def by (auto intro: le_trans)
    qed
    ultimately show ?case using pk by simp
  next
    case 4
    obtain p s1 where pk: "peek s [LPAR] = (p, s1)" by fastforce
    obtain tok w s2 where g: "gettoken s1 = (tok, w, s2)" by (metis prod_cases3)
    have l: "length s1 \<le> length s" by (rule peek_length [OF pk])
    have "shrinks s (obind (parseline n s2) (\<lambda>(cmd, s). let (b, s) = peek s [RPAR] in
        if \<not> b then Panic ''syntax - missing )'' else let (tok, w, s) = gettoken s in parseredirs cmd s))" if p
    proof (rule shrinks_obind)
      have l4: "length s2 < length s1" using peek_gettoken [OF _ g] pk that by simp
      show "shrinks s (parseline n s2)" by (rule shrinks_trans [OF Suc.IH(1)]) (use 4(1) l l4 in linarith)+
    next
      fix c and s3 :: ptr assume l3: "length s3 \<le> length s"
      obtain p s4 where pk4: "peek s3 [RPAR] = (p, s4)" by fastforce
      obtain tok w s5 where g5: "gettoken s4 = (tok, w, s5)" by (metis prod_cases3)
      have "length s5 \<le> length s" using peek_length [OF pk4] gettoken_length(1) [OF g5] l3 by simp
      then have "shrinks s (parseredirs c s5)"
        using parseredirs_returns [of c s5] parseredirs_length [of c s5] unfolding shrinks_def by (meson le_trans)
      then show "shrinks s (case (c, s3) of (cmd, s) \<Rightarrow> let (b, s) = peek s [RPAR] in
          if \<not> b then Panic ''syntax - missing )'' else let (tok, w, s) = gettoken s in parseredirs cmd s)"
        using pk4 g5 by (simp add: shrinks_def syntax_errors_def)
    qed
    then show ?case using pk g 4(2) by simp
  }
qed simp_all

text \<open>
  C29: the parser of the shell returns on every command line, with a tree or with one of its
  four messages; it never recurses without end, however deep the parentheses and however
  long the lists and pipes, as every recursive call is made on a shorter rest of the line.
\<close>

theorem parsecmd_returns:
  "(\<exists>c buf. parsecmd t = Ok (c, buf)) \<or>
   (\<exists>m \<in> {''syntax'', ''too many args'', ''missing file for redirection'', ''syntax - missing )''}. parsecmd t = Panic m)"
proof -
  have "shrinks t (parseline (parse_fuel t) t)" by (rule parse_shrinks) (simp add: parse_fuel_def)
  then have "returns (parsecmd t)"
    by (auto simp: parsecmd_def shrinks_def returns_obind Let_def syntax_errors_def split: prod.splits)
  then show ?thesis by (cases "parsecmd t") (auto simp: syntax_errors_def)
qed

section \<open>The words of the tree\<close>

definition word_at :: "extent \<Rightarrow> u8 list" where
  "word_at w = take (length (fst w) - length (snd w)) (fst w)"

text \<open>The C string that a pointer into the line \<open>t\<close> names, in the buffer \<open>buf\<close>.\<close>

definition string_at :: "u8 list \<Rightarrow> u8 list \<Rightarrow> ptr \<Rightarrow> u8 list" where
  "string_at t buf q = takeWhile (\<lambda>c. c \<noteq> 0) (drop (length t - length q) buf)"

definition tail_of :: "u8 list \<Rightarrow> ptr \<Rightarrow> bool" where
  "tail_of t s \<longleftrightarrow> (\<exists>p. t = p @ s)"

definition extent_ok :: "u8 list \<Rightarrow> extent \<Rightarrow> bool" where
  "extent_ok t w \<longleftrightarrow> tail_of t (fst w) \<and> fst w \<noteq> [] \<and> wordchar (hd (fst w)) \<and> snd w = dropWhile wordchar (fst w)"

lemma tail_of_dropWhile [simp]: "tail_of t s \<Longrightarrow> tail_of t (dropWhile P s)"
  unfolding tail_of_def by (metis append.assoc takeWhile_dropWhile_id)

lemma tail_of_Nil [simp]: "tail_of t []"
  by (simp add: tail_of_def)

lemma tail_of_Cons: "tail_of t (c # s) \<Longrightarrow> tail_of t s"
  unfolding tail_of_def by (metis append.assoc append_Cons append_Nil)

lemma gettoken_tail:
  assumes "gettoken s = (k, (q, e), s')" and t: "tail_of t s"
  shows "tail_of t s'" and "k = WORD \<Longrightarrow> extent_ok t (q, e)"
proof -
  have q: "tail_of t (skip s)" using t by simp
  have "tail_of t s' \<and> (k = WORD \<longrightarrow> extent_ok t (q, e))"
  proof (cases "skip s")
    case Nil
    then show ?thesis using assms q by (simp add: gettoken_def Let_def)
  next
    case (Cons c r)
    have r: "tail_of t r" using q Cons tail_of_Cons by simp
    show ?thesis
    proof (cases "c \<in> {BAR, LPAR, RPAR, SEMI, AMP, LT, GT}")
      case True
      then show ?thesis using assms(1) r unfolding gettoken_def Let_def Cons
        by (cases r) (auto split: if_splits dest: tail_of_Cons)
    next
      case False
      then have "wordchar c" using skip_Cons [OF Cons] wordchar_first by blast
      then show ?thesis using assms(1) q r False unfolding gettoken_def Let_def Cons
        by (auto simp: extent_ok_def)
    qed
  qed
  then show "tail_of t s'" "k = WORD \<Longrightarrow> extent_ok t (q, e)" by auto
qed

lemma peek_rest: "peek s ts = (b, s') \<Longrightarrow> s' = skip s"
  by (auto simp: peek_def Let_def)

lemma peek_tail: "peek s ts = (b, s') \<Longrightarrow> tail_of t s \<Longrightarrow> tail_of t s'"
  by (drule peek_rest) simp

text \<open>What every operation of the parser keeps of the words.\<close>

definition words_in :: "u8 list \<Rightarrow> extent cmd \<Rightarrow> bool" where
  "words_in t c \<longleftrightarrow> (\<forall>w \<in> set_cmd c. extent_ok t w)"

definition parses_in :: "u8 list \<Rightarrow> (extent cmd \<times> ptr) outcome \<Rightarrow> bool" where
  "parses_in t m \<longleftrightarrow> (\<forall>c s. m = Ok (c, s) \<longrightarrow> tail_of t s \<and> words_in t c)"

lemma parses_in_simps [simp]: "parses_in t (Ok (c, s)) \<longleftrightarrow> tail_of t s \<and> words_in t c" "parses_in t (Panic m)"
  "parses_in t Spin" "parses_in t (Sleep ch)"
  by (simp_all add: parses_in_def)

lemma parses_in_obind:
  assumes m: "parses_in t m" and f: "\<And>c s. tail_of t s \<Longrightarrow> words_in t c \<Longrightarrow> parses_in t (f (c, s))"
  shows "parses_in t (obind m f)"
proof (cases m)
  case (Ok x)
  then show ?thesis using m f by (cases x) simp
qed simp_all

lemma words_in_simps [simp]:
  "words_in t (Exec ws) \<longleftrightarrow> (\<forall>w \<in> set ws. extent_ok t w)" "words_in t (Redir c w m fd) \<longleftrightarrow> words_in t c \<and> extent_ok t w"
  "words_in t (Pipe l r) \<longleftrightarrow> words_in t l \<and> words_in t r" "words_in t (List l r) \<longleftrightarrow> words_in t l \<and> words_in t r"
  "words_in t (Back c) \<longleftrightarrow> words_in t c"
  by (auto simp: words_in_def)

lemma words_in_redirect: "words_in t c \<Longrightarrow> extent_ok t w \<Longrightarrow> words_in t (redirect tok c w)"
  by (simp add: redirect_def)

lemma words_in_set_argv: "words_in t c \<Longrightarrow> \<forall>w \<in> set ws. extent_ok t w \<Longrightarrow> words_in t (set_argv ws c)"
  by (induction ws c rule: set_argv.induct) auto

lemma parseredirs_in: "tail_of t s \<Longrightarrow> words_in t c \<Longrightarrow> parses_in t (parseredirs c s)"
proof (induction "length s" arbitrary: c s rule: less_induct)
  case less
  show ?case
  proof (cases "skip s \<noteq> [] \<and> hd (skip s) \<in> {LT, GT}")
    case False
    then show ?thesis using less.prems by (subst parseredirs_step) auto
  next
    case True
    obtain tok w1 s1 where g1: "gettoken (skip s) = (tok, w1, s1)" by (metis prod_cases3)
    obtain tok2 q e s2 where g2: "gettoken s1 = (tok2, (q, e), s2)" by (metis prod_cases3 surj_pair)
    have "length s1 < length (skip s)" using gettoken_length(2) [OF g1] True by simp
    then have l: "length s2 < length s" using gettoken_length(1) [OF g2] length_skip [of s] by linarith
    have t1: "tail_of t s1" using gettoken_tail(1) [of "skip s" tok "fst w1" "snd w1" s1 t] g1 less.prems(1) by simp
    note t2 = gettoken_tail [OF g2 t1]
    show ?thesis
      using less.hyps [OF l t2(1), of "redirect tok c (q, e)"] words_in_redirect t2(2) less.prems(2) g1 g2 True
      by (subst parseredirs_step) auto
  qed
qed

lemma parseargs_in:
  "tail_of t s \<Longrightarrow> words_in t ret \<Longrightarrow> \<forall>w \<in> set argv. extent_ok t w \<Longrightarrow> parses_in t (parseargs argv ret s)"
proof (induction "length s" arbitrary: argv ret s rule: less_induct)
  case less
  show ?case
  proof (cases "skip s \<noteq> [] \<and> hd (skip s) \<in> {BAR, RPAR, AMP, SEMI}")
    case True
    then show ?thesis using less.prems by (subst parseargs_step) (auto intro: words_in_set_argv)
  next
    case no: False
    obtain tok q e s1 where g: "gettoken (skip s) = (tok, (q, e), s1)" by (metis prod_cases3 surj_pair)
    have ts: "tail_of t (skip s)" using less.prems(1) by simp
    note t1 = gettoken_tail [OF g ts]
    show ?thesis
    proof (cases "tok = WORD \<and> length argv + 1 < MAXARGS")
      case False
      then show ?thesis using no g t1 less.prems by (subst parseargs_step) (auto intro: words_in_set_argv)
    next
      case True
      have l: "length s1 < length s" using gettoken_length(2) [OF g] True length_skip [of s] by simp
      have "parses_in t (obind (parseredirs ret s1) (\<lambda>(ret, s). parseargs (argv @ [(q, e)]) ret s))"
      proof (cases "parseredirs ret s1")
        case (Ok x)
        obtain r s2 where x: "x = (r, s2)" by (cases x)
        have l2: "length s2 < length s" using parseredirs_length Ok x l by fastforce
        have "tail_of t s2" "words_in t r" using parseredirs_in [OF t1(1) less.prems(2)] Ok x by (auto simp: parses_in_def)
        then show ?thesis using less.hyps [OF l2] Ok x t1(2) True less.prems(3) by simp
      qed simp_all
      then show ?thesis using no g True by (subst parseargs_step) auto
    qed
  qed
qed

lemma parsebacks_in: "parsebacks c s = (c', s') \<Longrightarrow> tail_of t s \<Longrightarrow> words_in t c \<Longrightarrow> tail_of t s' \<and> words_in t c'"
proof (induction "length s" arbitrary: c s rule: less_induct)
  case less
  obtain tok q e s1 where g: "gettoken (skip s) = (tok, (q, e), s1)" by (metis prod_cases3 surj_pair)
  show ?case
  proof (cases "skip s \<noteq> [] \<and> hd (skip s) = AMP")
    case True
    have l: "length s1 < length s" using gettoken_length(2) [OF g] True length_skip [of s] by simp
    have "parsebacks (Back c) s1 = (c', s')"
      using less.prems(1) True g by (subst (asm) parsebacks.simps) (simp add: peek_def Let_def)
    moreover have "tail_of t s1" using gettoken_tail(1) [OF g, of t] less.prems(2) by simp
    ultimately show ?thesis using less.hyps [OF l, of "Back c"] less.prems(3) by simp
  next
    case False
    then show ?thesis using less.prems by (subst (asm) parsebacks.simps) (auto simp: peek_def Let_def)
  qed
qed

lemma parse_in:
  "tail_of t s \<Longrightarrow> parses_in t (parseline n s)"
  "tail_of t s \<Longrightarrow> parses_in t (parsepipe n s)"
  "tail_of t s \<Longrightarrow> parses_in t (parseexec n s)"
  "tail_of t s \<Longrightarrow> parses_in t (parseblock n s)"
proof (induction n arbitrary: s)
  case (Suc n)
  {
    case 1
    show ?case
      unfolding parseline.simps Let_def
    proof (rule parses_in_obind [OF Suc.IH(2) [OF 1]])
      fix c s1 assume 2: "tail_of t s1" "words_in t c"
      obtain c2 s2 where b: "parsebacks c s1 = (c2, s2)" by fastforce
      obtain p s3 where pk: "peek s2 [SEMI] = (p, s3)" by fastforce
      obtain tok q e s4 where g: "gettoken s3 = (tok, (q, e), s4)" by (metis prod_cases3 surj_pair)
      have 3: "tail_of t s2" "words_in t c2" using parsebacks_in [OF b 2] by auto
      have 4: "tail_of t s3" by (rule peek_tail [OF pk 3(1)])
      have "parses_in t (obind (parseline n s4) (\<lambda>(rest, s). Ok (List c2 rest, s)))"
        by (rule parses_in_obind [OF Suc.IH(1) [OF gettoken_tail(1) [OF g 4]]]) (simp add: 3)
      then show "parses_in t (case (c, s1) of (cmd, s) \<Rightarrow> case parsebacks cmd s of (cmd, s) \<Rightarrow> case peek s [SEMI] of (b, s) \<Rightarrow>
          if b then case gettoken s of (tok, w, s) \<Rightarrow> obind (parseline n s) (\<lambda>(rest, s). Ok (List cmd rest, s)) else Ok (cmd, s))"
        using b pk g 3 4 by simp
    qed
  next
    case 2
    show ?case
      unfolding parsepipe.simps Let_def
    proof (rule parses_in_obind [OF Suc.IH(3) [OF 2]])
      fix c s1 assume 3: "tail_of t s1" "words_in t c"
      obtain p s3 where pk: "peek s1 [BAR] = (p, s3)" by fastforce
      obtain tok q e s4 where g: "gettoken s3 = (tok, (q, e), s4)" by (metis prod_cases3 surj_pair)
      have 4: "tail_of t s3" by (rule peek_tail [OF pk 3(1)])
      have "parses_in t (obind (parsepipe n s4) (\<lambda>(rest, s). Ok (Pipe c rest, s)))"
        by (rule parses_in_obind [OF Suc.IH(2) [OF gettoken_tail(1) [OF g 4]]]) (simp add: 3)
      then show "parses_in t (case (c, s1) of (cmd, s) \<Rightarrow> case peek s [BAR] of (b, s) \<Rightarrow>
          if b then case gettoken s of (tok, w, s) \<Rightarrow> obind (parsepipe n s) (\<lambda>(rest, s). Ok (Pipe cmd rest, s)) else Ok (cmd, s))"
        using pk g 3 4 by simp
    qed
  next
    case 3
    obtain p s1 where pk: "peek s [LPAR] = (p, s1)" by fastforce
    have t1: "tail_of t s1" by (rule peek_tail [OF pk 3])
    have "parses_in t (obind (parseredirs (Exec []) s1) (\<lambda>(ret, s). parseargs [] ret s))"
      by (rule parses_in_obind [OF parseredirs_in [OF t1]]) (simp_all add: parseargs_in)
    then show ?case using pk Suc.IH(4) [OF t1] by simp
  next
    case 4
    obtain p s1 where pk: "peek s [LPAR] = (p, s1)" by fastforce
    obtain tok q e s2 where g: "gettoken s1 = (tok, (q, e), s2)" by (metis prod_cases3 surj_pair)
    have t2: "tail_of t s2" by (rule gettoken_tail(1) [OF g peek_tail [OF pk 4]])
    have "parses_in t (obind (parseline n s2) (\<lambda>(cmd, s). let (b, s) = peek s [RPAR] in
        if \<not> b then Panic ''syntax - missing )'' else let (tok, w, s) = gettoken s in parseredirs cmd s))"
    proof (rule parses_in_obind [OF Suc.IH(1) [OF t2]])
      fix c s3 assume 5: "tail_of t s3" "words_in t c"
      obtain p s4 where pk4: "peek s3 [RPAR] = (p, s4)" by fastforce
      obtain tok q e s5 where g5: "gettoken s4 = (tok, (q, e), s5)" by (metis prod_cases3 surj_pair)
      have "tail_of t s5" by (rule gettoken_tail(1) [OF g5 peek_tail [OF pk4 5(1)]])
      then show "parses_in t (case (c, s3) of (cmd, s) \<Rightarrow> let (b, s) = peek s [RPAR] in
          if \<not> b then Panic ''syntax - missing )'' else let (tok, w, s) = gettoken s in parseredirs cmd s)"
        using pk4 g5 parseredirs_in [OF _ 5(2)] by simp
    qed
    then show ?case using pk g by simp
  }
qed simp_all

section \<open>nulterminate\<close>

text \<open>The NULs go behind the words, and nowhere else.\<close>

definition ends_of :: "u8 list \<Rightarrow> extent cmd \<Rightarrow> nat set" where
  "ends_of t c = {length t - length (snd w) | w. w \<in> set_cmd c}"

lemma nul_at_nth:
  assumes "length b = length t"
  shows "nul_at p b ! i = (if i = length t - length p \<and> i < length t then 0 else b ! i)"
  using assms by (cases "length t - length p < length t") (auto simp: nul_at_def nth_list_update list_update_beyond not_less)

lemma nulterminate_nth:
  "length (nulterminate c b) = length b \<and>
   (length b = length t \<longrightarrow> i < length t \<longrightarrow> nulterminate c b ! i = (if i \<in> ends_of t c then 0 else b ! i))"
proof (induction c arbitrary: b)
  case (Exec ws)
  show ?case
  proof (induction ws arbitrary: b)
    case (Cons w ws)
    obtain q e where w: "w = (q, e)" by fastforce
    have "length (nul_at e b) = length b" by (simp add: nul_at_def)
    then show ?case using Cons.IH [of "nul_at e b"] w nul_at_nth [of b t e i] by (auto simp: ends_of_def)
  qed (simp add: ends_of_def)
next
  case (Redir c w m fd)
  obtain q e where w: "w = (q, e)" by fastforce
  then show ?case using Redir [of b] nul_at_nth [of "nulterminate c b" t e i] by (auto simp: ends_of_def nul_at_def)
next
  case (Pipe l r)
  then show ?case using Pipe(1) [of b] Pipe(2) [of "nulterminate l b"] by (auto simp: ends_of_def)
next
  case (List l r)
  then show ?case using List(1) [of b] List(2) [of "nulterminate l b"] by (auto simp: ends_of_def)
next
  case (Back c)
  then show ?case using Back [of b] by (auto simp: ends_of_def)
qed

lemma takeWhile_drop_eq:
  assumes "\<And>j. j < k \<Longrightarrow> f (b ! (n + j))" and "n + k \<le> length b" and "n + k = length b \<or> \<not> f (b ! (n + k))"
  shows "takeWhile f (drop n b) = take k (drop n b)"
  using assms
proof (induction k arbitrary: n)
  case 0
  show ?case
  proof (cases "n = length b")
    case False
    then have "drop n b = b ! n # drop (Suc n) b" using 0 by (simp add: Cons_nth_drop_Suc)
    then show ?thesis using 0 False by simp
  qed simp
next
  case (Suc k)
  have d: "drop n b = b ! n # drop (Suc n) b" using Suc.prems(2) by (simp add: Cons_nth_drop_Suc)
  have "takeWhile f (drop (Suc n) b) = take k (drop (Suc n) b)"
  proof (rule Suc.IH)
    show "f (b ! (Suc n + j))" if "j < k" for j using Suc.prems(1) [of "Suc j"] that by simp
  qed (use Suc.prems(2,3) in auto)
  then show ?case using d Suc.prems(1) [of 0] by simp
qed

lemma extent_nth:
  assumes "extent_ok t (q, e)"
  shows "length e < length q" "length q \<le> length t"
    "i < length q \<Longrightarrow> t ! (length t - length q + i) = q ! i"
    "i < length q - length e \<Longrightarrow> wordchar (q ! i)"
    "e \<noteq> [] \<Longrightarrow> \<not> wordchar (t ! (length t - length e))"
proof -
  obtain p where t: "t = p @ q" and q: "q \<noteq> []" "wordchar (hd q)" and e: "e = dropWhile wordchar q"
    using assms by (auto simp: extent_ok_def tail_of_def)
  have qe: "q = takeWhile wordchar q @ e" using e by simp
  show "length e < length q" using q by (cases q) (auto simp: e less_Suc_eq_le length_dropWhile_le)
  show "length q \<le> length t" using t by simp
  show "i < length q \<Longrightarrow> t ! (length t - length q + i) = q ! i" using t by (simp add: nth_append)
  have l: "length q - length e = length (takeWhile wordchar q)" using arg_cong [OF qe, of length] by simp
  show "i < length q - length e \<Longrightarrow> wordchar (q ! i)"
    unfolding l by (metis nth_mem set_takeWhileD takeWhile_nth)
  have "t = (p @ takeWhile wordchar q) @ e" using t qe by simp
  then have "e \<noteq> [] \<Longrightarrow> t ! (length t - length e) = hd e" by (metis add_diff_cancel_right' hd_conv_nth length_append nth_append_length_plus nth_append_right cancel_comm_monoid_add_class.diff_cancel le_refl)
  then show "e \<noteq> [] \<Longrightarrow> \<not> wordchar (t ! (length t - length e))" using hd_dropWhile e by metis
qed

lemma word_at_takeWhile: "word_at (q, dropWhile wordchar q) = takeWhile wordchar q"
  unfolding word_at_def by (metis add_diff_cancel_right' append_eq_conv_conj fst_conv length_append snd_conv takeWhile_dropWhile_id)

lemma nulterminate_cuts:
  assumes c: "words_in t c" and w: "(q, e) \<in> set_cmd c" and nz: "0 \<notin> set t"
  shows "string_at t (nulterminate c t) q = word_at (q, e)"
proof -
  let ?b = "nulterminate c t" and ?n = "length t - length q" and ?k = "length q - length e"
  have x: "extent_ok t (q, e)" using c w by (simp add: words_in_def)
  note X = extent_nth [OF x]
  have len: "length ?b = length t" using nulterminate_nth by blast
  have b: "?b ! i = (if i \<in> ends_of t c then 0 else t ! i)" if "i < length t" for i
    using nulterminate_nth [of c t t i] that by simp
  have ends: "\<not> wordchar (t ! i)" if i: "i \<in> ends_of t c" "i < length t" for i
  proof -
    obtain w' where "w' \<in> set_cmd c" "i = length t - length (snd w')" using i(1) unfolding ends_of_def by blast
    then have w': "(fst w', snd w') \<in> set_cmd c" "i = length t - length (snd w')" by simp_all
    then have "snd w' \<noteq> []" using i(2) by auto
    moreover have "extent_ok t (fst w', snd w')" using c w'(1) by (simp add: words_in_def)
    ultimately show ?thesis using extent_nth(5) [of t "fst w'" "snd w'"] w'(2) by simp
  qed
  have same: "?b ! (?n + j) = q ! j" if "j < ?k" for j
  proof -
    have j: "j < length q" "?n + j < length t" using that X(1,2) by auto
    have "t ! (?n + j) = q ! j" using X(3) j(1) .
    moreover have "wordchar (q ! j)" using X(4) that .
    ultimately show ?thesis using b [OF j(2)] ends [OF _ j(2)] by metis
  qed
  have "takeWhile (\<lambda>c. c \<noteq> 0) (drop ?n ?b) = take ?k (drop ?n ?b)"
  proof (rule takeWhile_drop_eq)
    show "?b ! (?n + j) \<noteq> 0" if "j < ?k" for j
    proof -
      have "j < length q" "?n + j < length t" using that X(1,2) by auto
      then have "q ! j \<in> set t" using X(3) [of j] nth_mem [of "?n + j" t] by simp
      then show ?thesis using same [OF that] nz by metis
    qed
    show "?n + ?k \<le> length ?b" using X(1,2) len by simp
    have k: "?n + ?k = length t - length e" using X(1,2) by simp
    show "?n + ?k = length ?b \<or> \<not> ?b ! (?n + ?k) \<noteq> 0"
    proof (cases "e = []")
      case False
      then have "length t - length e < length t" using X(1,2) by (cases e) auto
      moreover have "length t - length e \<in> ends_of t c" using w by (force simp: ends_of_def)
      ultimately show ?thesis using b k by simp
    qed (use k len in simp)
  qed
  also have "\<dots> = take ?k q"
    by (rule nth_equalityI) (use same X(1,2) len in auto)
  finally show ?thesis by (simp add: string_at_def word_at_def)
qed

text \<open>
  C30: after \<^verbatim>\<open>nulterminate\<close> every word of the tree is the right string: the NULs that end the
  words are written in place over the command line, and none falls inside another word, so
  that each pointer handed to \<^verbatim>\<open>exec\<close> or \<^verbatim>\<open>open\<close> names exactly the characters the parser took
  for the word, a non-empty run without blanks or symbols.
\<close>

theorem nulterminate_ends_every_word:
  assumes "parsecmd t = Ok (c, buf)" and "0 \<notin> set t" and "(q, e) \<in> set_cmd c"
  shows "string_at t buf q = word_at (q, e) \<and> word_at (q, e) \<noteq> [] \<and> (\<forall>x \<in> set (word_at (q, e)). wordchar x) \<and>
     (\<exists>u v. t = u @ word_at (q, e) @ v)"
proof -
  have "tail_of t t" by (simp add: tail_of_def)
  note P = parse_in(1) [OF this, of "parse_fuel t"]
  obtain s1 where "parseline (parse_fuel t) t = Ok (c, s1)" and b: "buf = nulterminate c t"
    using assms(1) by (auto simp: parsecmd_def outcome_simps peek_def Let_def split: if_splits)
  then have "words_in t c" using P by (simp add: parses_in_def)
  then have x: "extent_ok t (q, e)" using assms(3) by (simp add: words_in_def)
  note X = extent_nth [OF x]
  obtain p where p: "t = p @ q" using x by (auto simp: extent_ok_def tail_of_def)
  have q: "q = word_at (q, e) @ e" using x word_at_takeWhile [of q] by (simp add: extent_ok_def)
  have "word_at (q, e) \<noteq> []" using X(1) by (cases q) (auto simp: word_at_def)
  moreover have "\<forall>x \<in> set (word_at (q, e)). wordchar x" using X(4) by (auto simp: word_at_def in_set_conv_nth)
  moreover have "string_at t buf q = word_at (q, e)"
    using nulterminate_cuts [OF \<open>words_in t c\<close> assms(3,2)] b by simp
  ultimately show ?thesis using p q by metis
qed

section \<open>Printing a tree and reading it back\<close>

text \<open>
  The text of a tree, at the level of the grammar at which it stands: 0 a line, 1 before an
  ampersand or a semicolon, 2 a pipe, 3 its elements. A tree of a lower level is put in
  parentheses. A blank follows every token.
\<close>

abbreviation SP :: u8 where "SP \<equiv> 32"

fun words_text :: "u8 list list \<Rightarrow> u8 list" where
  "words_text [] = []"
| "words_text (w # ws) = w @ SP # words_text ws"

definition parens :: "bool \<Rightarrow> u8 list \<Rightarrow> u8 list" where
  "parens b s = (if b then [LPAR, SP] @ s @ [RPAR, SP] else s)"

fun show_cmd :: "nat \<Rightarrow> u8 list cmd \<Rightarrow> u8 list" where
  "show_cmd k (Exec ws) = words_text ws"
| "show_cmd k (Redir c f m fd) = show_cmd 3 c @ (if fd = 0 then LT else GT) # SP # f @ [SP]"
| "show_cmd k (Pipe l r) = parens (2 < k) (show_cmd 3 l @ BAR # SP # show_cmd 2 r)"
| "show_cmd k (List l r) = parens (0 < k) (show_cmd 1 l @ SEMI # SP # show_cmd 0 r)"
| "show_cmd k (Back c) = parens (1 < k) (show_cmd 1 c @ [AMP, SP])"

text \<open>The trees of the shell: words are words, at most nine to a command, and a redirection is one of two.\<close>

definition is_word :: "u8 list \<Rightarrow> bool" where
  "is_word w \<longleftrightarrow> w \<noteq> [] \<and> (\<forall>x \<in> set w. wordchar x)"

fun well_formed :: "u8 list cmd \<Rightarrow> bool" where
  "well_formed (Exec ws) \<longleftrightarrow> length ws < MAXARGS \<and> (\<forall>w \<in> set ws. is_word w)"
| "well_formed (Redir c f m fd) \<longleftrightarrow> well_formed c \<and> is_word f \<and> ((m, fd) = (O_RDONLY, 0) \<or> (m, fd) = (O_WRONLY + O_CREATE, 1))"
| "well_formed (Pipe l r) \<longleftrightarrow> well_formed l \<and> well_formed r"
| "well_formed (List l r) \<longleftrightarrow> well_formed l \<and> well_formed r"
| "well_formed (Back c) \<longleftrightarrow> well_formed c"

text \<open>A rest that starts with a symbol of \<open>A\<close>, or is empty.\<close>

definition starts :: "u8 set \<Rightarrow> u8 list \<Rightarrow> bool" where
  "starts A r \<longleftrightarrow> r = [] \<or> hd r \<in> A"

definition solid :: "u8 list \<Rightarrow> bool" where
  "solid r \<longleftrightarrow> r = [] \<or> \<not> blank (hd r)"

lemma skip_solid: "solid r \<Longrightarrow> skip r = r"
  by (cases r) (auto simp: solid_def)

lemma blank_SP [simp]: "blank SP"
  by (simp add: blank_def whitespace_def)

lemma wordchar_not_blank: "wordchar c \<Longrightarrow> \<not> blank c"
  by (simp add: wordchar_def)

lemma gettoken_symbol:
  assumes "c \<in> {BAR, LPAR, RPAR, SEMI, AMP, LT, GT}" and "solid r"
  obtains w where "gettoken (c # SP # r) = (c, w, r)"
proof -
  have "\<not> blank c" using assms(1) by (auto simp: blank_def whitespace_def)
  then show thesis using assms skip_solid [OF assms(2)] that
    by (cases "c = GT") (auto simp: gettoken_def Let_def)
qed

lemma gettoken_word:
  assumes "is_word w" and "solid r"
  shows "gettoken (w @ SP # r) = (WORD, (w @ SP # r, SP # r), r)" and "word_at (w @ SP # r, SP # r) = w"
    and "skip (w @ SP # r) = w @ SP # r"
proof -
  obtain c w' where w: "w = c # w'" "wordchar c" using assms(1) by (cases w) (auto simp: is_word_def)
  have c: "\<not> blank c" "c \<notin> set symbols" using w(2) by (auto simp: wordchar_def)
  have d: "dropWhile wordchar (w @ SP # r) = SP # r"
    using assms(1) by (subst dropWhile_append2) (auto simp: is_word_def wordchar_def blank_def whitespace_def)
  show "skip (w @ SP # r) = w @ SP # r" using c(1) w(1) by simp
  then show "gettoken (w @ SP # r) = (WORD, (w @ SP # r, SP # r), r)"
    using c w(1) d skip_solid [OF assms(2)] by (simp add: gettoken_def Let_def symbols_def)
  show "word_at (w @ SP # r, SP # r) = w" by (simp add: word_at_def)
qed

definition wrap :: "'w cmd \<Rightarrow> ('w \<times> nat \<times> nat) list \<Rightarrow> 'w cmd" where
  "wrap c fs = foldl (\<lambda>c (f, m, fd). Redir c f m fd) c fs"

definition redirs_text :: "(u8 list \<times> nat \<times> nat) list \<Rightarrow> u8 list" where
  "redirs_text fs = concat (map (\<lambda>(f, m, fd). (if fd = 0 then LT else GT) # SP # f @ [SP]) fs)"

definition redirs_ok :: "(u8 list \<times> nat \<times> nat) list \<Rightarrow> bool" where
  "redirs_ok fs \<longleftrightarrow> (\<forall>(f, m, fd) \<in> set fs. is_word f \<and> ((m, fd) = (O_RDONLY, 0) \<or> (m, fd) = (O_WRONLY + O_CREATE, 1)))"

abbreviation word_redirs :: "(extent \<times> nat \<times> nat) list \<Rightarrow> (u8 list \<times> nat \<times> nat) list" where
  "word_redirs \<equiv> map (\<lambda>(w, m, fd). (word_at w, m, fd))"

lemma wrap_simps [simp]: "wrap c [] = c" "wrap c ((f, m, fd) # fs) = wrap (Redir c f m fd) fs"
  by (simp_all add: wrap_def)

lemma redirs_text_simps [simp]: "redirs_text [] = []"
  "redirs_text ((f, m, fd) # fs) = (if fd = 0 then LT else GT) # SP # f @ SP # redirs_text fs"
  by (simp_all add: redirs_text_def)

lemma set_argv_wrap: "set_argv ws (wrap c fs) = wrap (set_argv ws c) fs"
  by (induction fs arbitrary: c) auto

lemma map_wrap: "map_cmd word_at (wrap c fs) = wrap (map_cmd word_at c) (word_redirs fs)"
  by (induction fs arbitrary: c) auto

lemma show_wrap: "show_cmd k (wrap c fs) = (if fs = [] then show_cmd k c else show_cmd 3 c @ redirs_text fs)"
  by (induction fs arbitrary: c k) auto

lemma starts_solid: "starts A r \<Longrightarrow> A \<subseteq> set symbols \<Longrightarrow> solid r"
  by (cases r) (auto simp: starts_def solid_def blank_def whitespace_def symbols_def)

lemma blank_symbols [simp]: "\<not> blank LT" "\<not> blank GT" "\<not> blank BAR" "\<not> blank AMP" "\<not> blank SEMI" "\<not> blank LPAR" "\<not> blank RPAR"
  by (simp_all add: blank_def whitespace_def)

lemma solid_Cons [simp]: "solid (c # r) \<longleftrightarrow> \<not> blank c"
  by (simp add: solid_def)

lemma solid_word: "is_word w \<Longrightarrow> solid (w @ s)"
  by (cases w) (auto simp: is_word_def solid_def wordchar_def)

lemma solid_redirs: "solid r \<Longrightarrow> solid (redirs_text fs @ r)"
  by (cases fs) auto

lemma solid_words: "\<forall>w \<in> set ws. is_word w \<Longrightarrow> solid r \<Longrightarrow> solid (words_text ws @ r)"
  by (cases ws) (simp_all add: solid_word)

lemma solid_show: "well_formed c \<Longrightarrow> solid r \<Longrightarrow> solid (show_cmd k c @ r)"
proof (induction c arbitrary: k r)
  case (Exec ws)
  then show ?case by (simp add: solid_words)
next
  case (Redir c f m fd)
  have "solid ((if fd = 0 then LT else GT) # SP # f @ SP # r)" by simp
  then show ?case using Redir.IH Redir.prems by simp
next
  case (Pipe l r')
  then show ?case using Pipe.IH(1) [of "BAR # SP # show_cmd 2 r' @ r" 3] by (simp add: parens_def)
next
  case (List l r')
  then show ?case using List.IH(1) [of "SEMI # SP # show_cmd 0 r' @ r" 1] by (simp add: parens_def)
next
  case (Back c)
  then show ?case using Back.IH [of "AMP # SP # r" 1] by (simp add: parens_def)
qed

lemma peek_solid: "solid s \<Longrightarrow> peek s ts = (s \<noteq> [] \<and> hd s \<in> set ts, s)"
  by (simp add: peek_def Let_def skip_solid)

text \<open>Redirections, then words with redirections behind them.\<close>

lemma parseredirs_reads:
  assumes "redirs_ok fs" and "solid r" and "r = [] \<or> hd r \<notin> {LT, GT}"
  shows "\<exists>fs'. parseredirs c (redirs_text fs @ r) = Ok (wrap c fs', r) \<and> word_redirs fs' = fs"
  using assms(1)
proof (induction fs arbitrary: c)
  case Nil
  have "parseredirs c r = Ok (c, r)" using assms(2,3) by (subst parseredirs_step) (auto simp: skip_solid)
  then show ?case by (intro exI [of _ "[]"]) simp
next
  case (Cons x fs)
  obtain f m fd where x: "x = (f, m, fd)" by (cases x)
  have f: "is_word f" and m: "(m, fd) = (O_RDONLY, 0) \<or> (m, fd) = (O_WRONLY + O_CREATE, 1)" and fs: "redirs_ok fs"
    using Cons.prems x by (auto simp: redirs_ok_def)
  let ?t = "if fd = 0 then LT else GT" and ?r = "redirs_text fs @ r"
  have sr: "solid ?r" using assms(2) by (rule solid_redirs)
  obtain w1 where g1: "gettoken (?t # SP # f @ SP # ?r) = (?t, w1, f @ SP # ?r)"
  proof (rule gettoken_symbol)
    show "?t \<in> {BAR, LPAR, RPAR, SEMI, AMP, LT, GT}" by simp
    show "solid (f @ SP # ?r)" by (rule solid_word [OF f])
  qed
  let ?w = "(f @ SP # ?r, SP # ?r)"
  note g2 = gettoken_word [OF f sr]
  have sk: "skip (?t # SP # f @ SP # ?r) = ?t # SP # f @ SP # ?r" by simp
  have "redirect ?t c ?w = Redir c ?w m fd" using m by (auto simp: redirect_def)
  then have "parseredirs c (?t # SP # f @ SP # ?r) = parseredirs (Redir c ?w m fd) ?r"
    using g1 g2(1) by (subst parseredirs_step) (simp add: sk)
  moreover obtain fs' where "parseredirs (Redir c ?w m fd) ?r = Ok (wrap (Redir c ?w m fd) fs', r)" "word_redirs fs' = fs"
    using Cons.IH [OF fs] by blast
  ultimately show ?case using x g2(2) by (intro exI [of _ "(?w, m, fd) # fs'"]) simp
qed

lemma parseargs_stop:
  "starts {BAR, RPAR, AMP, SEMI} r \<Longrightarrow> parseargs argv ret r = Ok (set_argv argv ret, r)"
  by (cases "r = []"; subst parseargs_step)
    (auto simp: starts_def gettoken_def Let_def skip_solid solid_def blank_def whitespace_def)

lemma parseargs_reads:
  assumes "\<forall>w \<in> set ws. is_word w" and "length argv + length ws < MAXARGS" and "redirs_ok fs"
    and "starts {BAR, RPAR, AMP, SEMI} r" and "ws \<noteq> [] \<or> fs = []"
  shows "\<exists>ws' fs'. parseargs argv ret (words_text ws @ redirs_text fs @ r) = Ok (set_argv (argv @ ws') (wrap ret fs'), r) \<and>
     map word_at ws' = ws \<and> word_redirs fs' = fs"
  using assms
proof (induction ws arbitrary: argv)
  case Nil
  then show ?case using parseargs_stop [of r argv ret] by (intro exI [of _ "[]"]) simp
next
  case (Cons w ws)
  have sr: "solid r" using Cons.prems(4) by (rule starts_solid) (simp add: symbols_def)
  have r: "r = [] \<or> hd r \<notin> {LT, GT}" using Cons.prems(4) by (auto simp: starts_def)
  let ?rest = "words_text ws @ redirs_text fs @ r"
  have srest: "solid ?rest" using Cons.prems(1) sr by (intro solid_words solid_redirs) auto
  have w: "is_word w" using Cons.prems(1) by simp
  note g = gettoken_word [OF w srest]
  let ?w = "(w @ SP # ?rest, SP # ?rest)"
  obtain c0 w0 where c0: "w = c0 # w0" "wordchar c0" using w by (cases w) (auto simp: is_word_def)
  have ns: "c0 \<notin> {BAR, RPAR, AMP, SEMI}" using c0(2) by (auto simp: wordchar_def symbols_def)
  have step: "parseargs argv ret (w @ SP # ?rest) = obind (parseredirs ret ?rest) (\<lambda>(ret, s). parseargs (argv @ [?w]) ret s)"
    using g Cons.prems(2) c0(1) ns by (subst parseargs_step) simp
  show ?case
  proof (cases "ws = []")
    case True
    obtain fs' where "parseredirs ret (redirs_text fs @ r) = Ok (wrap ret fs', r)" "word_redirs fs' = fs"
      using parseredirs_reads [OF Cons.prems(3) sr r] by blast
    then show ?thesis using step True parseargs_stop [OF Cons.prems(4)] g(2)
      by (intro exI [of _ "[?w]"] exI [of _ fs']) simp
  next
    case False
    then obtain w1 ws1 where ws: "ws = w1 # ws1" by (cases ws) auto
    then have "is_word w1" using Cons.prems(1) by simp
    then have "?rest = [] \<or> hd ?rest \<notin> {LT, GT}" using ws
      by (cases w1) (auto simp: is_word_def wordchar_def symbols_def)
    from parseredirs_reads [of "[]", OF _ srest this, of ret]
    have "parseredirs ret ?rest = Ok (ret, ?rest)" by (auto simp: redirs_ok_def)
    moreover obtain ws' fs' where "parseargs (argv @ [?w]) ret ?rest = Ok (set_argv ((argv @ [?w]) @ ws') (wrap ret fs'), r)"
      "map word_at ws' = ws" "word_redirs fs' = fs"
      using Cons.IH [of "argv @ [?w]"] Cons.prems False by auto
    ultimately show ?thesis using step g(2) by (intro exI [of _ "?w # ws'"] exI [of _ fs']) simp
  qed
qed

text \<open>What the functions of the parser make of a printed tree. \<open>line_rest\<close> is \<open>parseline\<close> after its first pipe.\<close>

definition reads :: "(extent cmd \<times> ptr) outcome \<Rightarrow> u8 list cmd \<Rightarrow> ptr \<Rightarrow> bool" where
  "reads m c r \<longleftrightarrow> (\<exists>c'. m = Ok (c', r) \<and> map_cmd word_at c' = c)"

definition line_rest :: "nat \<Rightarrow> extent cmd \<Rightarrow> ptr \<Rightarrow> (extent cmd \<times> ptr) outcome" where
  "line_rest n cmd s =
     (let (cmd, s) = parsebacks cmd s; (b, s) = peek s [SEMI] in
      if b then
        let (tok, w, s) = gettoken s in
        obind (parseline n s) (\<lambda>(rest, s). Ok (List cmd rest, s))
      else Ok (cmd, s))"

definition reads0 :: "u8 list cmd \<Rightarrow> bool" where
  "reads0 c \<longleftrightarrow> (\<forall>n r. starts {RPAR} r \<longrightarrow> 4 * length (show_cmd 0 c @ r) + 3 < n \<longrightarrow> reads (parseline n (show_cmd 0 c @ r)) c r)"

definition reads1 :: "u8 list cmd \<Rightarrow> bool" where
  "reads1 c \<longleftrightarrow> (\<forall>n r. starts {RPAR, AMP, SEMI} r \<longrightarrow> 4 * length (show_cmd 1 c @ r) + 3 < Suc n \<longrightarrow>
     (\<exists>c'. parseline (Suc n) (show_cmd 1 c @ r) = line_rest n c' r \<and> map_cmd word_at c' = c))"

definition reads2 :: "u8 list cmd \<Rightarrow> bool" where
  "reads2 c \<longleftrightarrow> (\<forall>n r. starts {RPAR, AMP, SEMI} r \<longrightarrow> 4 * length (show_cmd 2 c @ r) + 2 < n \<longrightarrow> reads (parsepipe n (show_cmd 2 c @ r)) c r)"

definition reads3 :: "u8 list cmd \<Rightarrow> bool" where
  "reads3 c \<longleftrightarrow> (\<forall>n r. starts {RPAR, AMP, SEMI, BAR} r \<longrightarrow> 4 * length (show_cmd 3 c @ r) + 1 < n \<longrightarrow> reads (parseexec n (show_cmd 3 c @ r)) c r)"

lemma starts_mono: "starts A r \<Longrightarrow> A \<subseteq> B \<Longrightarrow> starts B r"
  by (auto simp: starts_def)

lemma starts_sym: "starts A r \<Longrightarrow> A \<subseteq> {RPAR, AMP, SEMI, BAR} \<Longrightarrow> solid r"
  by (erule starts_solid) (auto simp: symbols_def)

lemma parseline_rest: "parseline (Suc n) s = obind (parsepipe n s) (\<lambda>(cmd, s). line_rest n cmd s)"
  by (simp add: line_rest_def)

lemma line_rest_stop: "starts {RPAR} r \<Longrightarrow> line_rest n c r = Ok (c, r)"
  using starts_sym [of "{RPAR}" r] 
  by (simp add: line_rest_def parsebacks.simps [of c r] peek_solid) (auto simp: starts_def)

lemma line_rest_amp: "solid r \<Longrightarrow> line_rest n c (AMP # SP # r) = line_rest n (Back c) r"
  by (rule gettoken_symbol [of AMP r]) (simp_all add: line_rest_def parsebacks.simps [of c "AMP # SP # r"] peek_solid)

lemma line_rest_semi:
  "solid r \<Longrightarrow> line_rest n c (SEMI # SP # r) = obind (parseline n r) (\<lambda>(rest, s). Ok (List c rest, s))"
  by (rule gettoken_symbol [of SEMI r]) (simp_all add: line_rest_def parsebacks.simps [of c "SEMI # SP # r"] peek_solid)

lemma reads2_exec: "reads3 c \<Longrightarrow> show_cmd 2 c = show_cmd 3 c \<Longrightarrow> reads2 c"
  unfolding reads2_def
proof (intro allI impI)
  fix n r assume c: "reads3 c" "show_cmd 2 c = show_cmd 3 c" and r: "starts {RPAR, AMP, SEMI} r"
    and n: "4 * length (show_cmd 2 c @ r) + 2 < n"
  obtain k where k: "n = Suc k" using n by (cases n) auto
  have "reads (parseexec k (show_cmd 3 c @ r)) c r"
    using c n k starts_mono [OF r, of "{RPAR, AMP, SEMI, BAR}"] by (auto simp: reads3_def)
  then obtain c' where c': "parseexec k (show_cmd 3 c @ r) = Ok (c', r)" "map_cmd word_at c' = c" by (auto simp: reads_def)
  have "solid r" by (rule starts_sym [OF r]) auto
  then show "reads (parsepipe n (show_cmd 2 c @ r)) c r"
    using c c' k r by (auto simp: reads_def peek_solid starts_def)
qed

lemma reads2_pipe:
  assumes "reads3 l" and "reads2 r" and "well_formed r"
  shows "reads2 (Pipe l r)"
  unfolding reads2_def
proof (intro allI impI)
  fix n x assume x: "starts {RPAR, AMP, SEMI} x" and n: "4 * length (show_cmd 2 (Pipe l r) @ x) + 2 < n"
  obtain k where k: "n = Suc k" using n by (cases n) auto
  let ?y = "show_cmd 2 r @ x"
  have t: "show_cmd 2 (Pipe l r) @ x = show_cmd 3 l @ BAR # SP # ?y" by (simp add: parens_def)
  have sy: "solid ?y" by (rule solid_show [OF assms(3) starts_sym [OF x]]) auto
  have "reads (parseexec k (show_cmd 3 l @ BAR # SP # ?y)) l (BAR # SP # ?y)"
    using assms(1) n k by (simp add: reads3_def starts_def parens_def)
  then obtain l' where l': "parseexec k (show_cmd 3 l @ BAR # SP # ?y) = Ok (l', BAR # SP # ?y)" "map_cmd word_at l' = l"
    by (auto simp: reads_def)
  have "reads (parsepipe k ?y) r x" using assms(2) n k x by (simp add: reads2_def parens_def)
  then obtain r' where r': "parsepipe k ?y = Ok (r', x)" "map_cmd word_at r' = r" by (auto simp: reads_def)
  obtain w where "gettoken (BAR # SP # ?y) = (BAR, w, ?y)" by (rule gettoken_symbol [of BAR, OF _ sy]) auto
  then show "reads (parsepipe n (show_cmd 2 (Pipe l r) @ x)) (Pipe l r) x"
    using l' r' unfolding t k by (simp add: reads_def peek_solid)
qed

lemma reads1_pipe:
  assumes "reads2 c" and "show_cmd 1 c = show_cmd 2 c"
  shows "reads1 c"
  unfolding reads1_def
proof (intro allI impI)
  fix n r assume r: "starts {RPAR, AMP, SEMI} r" and n: "4 * length (show_cmd 1 c @ r) + 3 < Suc n"
  have "reads (parsepipe n (show_cmd 2 c @ r)) c r" using assms n r by (simp add: reads2_def)
  then obtain c' where c': "parsepipe n (show_cmd 2 c @ r) = Ok (c', r)" "map_cmd word_at c' = c" by (auto simp: reads_def)
  then show "\<exists>c'. parseline (Suc n) (show_cmd 1 c @ r) = line_rest n c' r \<and> map_cmd word_at c' = c"
    unfolding parseline_rest assms(2) by (intro exI [of _ c']) simp
qed

lemma reads1_back:
  assumes "reads1 c"
  shows "reads1 (Back c)"
  unfolding reads1_def
proof (intro allI impI)
  fix n r assume r: "starts {RPAR, AMP, SEMI} r" and n: "4 * length (show_cmd 1 (Back c) @ r) + 3 < Suc n"
  have t: "show_cmd 1 (Back c) @ r = show_cmd 1 c @ AMP # SP # r" by (simp add: parens_def)
  have sr: "solid r" by (rule starts_sym [OF r]) auto
  obtain c' where c': "parseline (Suc n) (show_cmd 1 c @ AMP # SP # r) = line_rest n c' (AMP # SP # r)" "map_cmd word_at c' = c"
    using assms n unfolding reads1_def t by (metis insertI1 insertI2 list.sel(1) starts_def)
  then show "\<exists>c'. parseline (Suc n) (show_cmd 1 (Back c) @ r) = line_rest n c' r \<and> map_cmd word_at c' = Back c"
    unfolding t line_rest_amp [OF sr] by (intro exI [of _ "Back c'"]) simp
qed

lemma reads0_line:
  assumes "reads1 c" and "show_cmd 0 c = show_cmd 1 c"
  shows "reads0 c"
  unfolding reads0_def
proof (intro allI impI)
  fix n r assume r: "starts {RPAR} r" and n: "4 * length (show_cmd 0 c @ r) + 3 < n"
  obtain k where k: "n = Suc k" using n by (cases n) auto
  obtain c' where "parseline (Suc k) (show_cmd 1 c @ r) = line_rest k c' r" "map_cmd word_at c' = c"
    using assms n k starts_mono [OF r, of "{RPAR, AMP, SEMI}"] unfolding reads1_def by auto
  then show "reads (parseline n (show_cmd 0 c @ r)) c r"
    unfolding assms(2) k line_rest_stop [OF r] reads_def by blast
qed

lemma reads0_list:
  assumes "reads1 l" and "reads0 r" and "well_formed r"
  shows "reads0 (List l r)"
  unfolding reads0_def
proof (intro allI impI)
  fix n x assume x: "starts {RPAR} x" and n: "4 * length (show_cmd 0 (List l r) @ x) + 3 < n"
  obtain k where k: "n = Suc k" using n by (cases n) auto
  let ?y = "show_cmd 0 r @ x"
  have t: "show_cmd 0 (List l r) @ x = show_cmd 1 l @ SEMI # SP # ?y" by (simp add: parens_def)
  have sy: "solid ?y" by (rule solid_show [OF assms(3) starts_sym [OF x]]) auto
  obtain l' where l': "parseline (Suc k) (show_cmd 1 l @ SEMI # SP # ?y) = line_rest k l' (SEMI # SP # ?y)" "map_cmd word_at l' = l"
    using assms(1) n k unfolding reads1_def t by (metis insertI1 insertI2 list.sel(1) starts_def)
  have "reads (parseline k ?y) r x" using assms(2) n k x by (simp add: reads0_def parens_def)
  then obtain r' where "parseline k ?y = Ok (r', x)" "map_cmd word_at r' = r" by (auto simp: reads_def)
  then show "reads (parseline n (show_cmd 0 (List l r) @ x)) (List l r) x"
    using l' unfolding t k line_rest_semi [OF sy] by (simp add: reads_def)
qed

lemma reads3_exec:
  assumes "\<forall>w \<in> set ws. is_word w" and "length ws < MAXARGS" and fs: "redirs_ok fs"
  shows "reads3 (wrap (Exec ws) fs)"
  unfolding reads3_def
proof (intro allI impI)
  fix n r assume r: "starts {RPAR, AMP, SEMI, BAR} r" and n: "4 * length (show_cmd 3 (wrap (Exec ws) fs) @ r) + 1 < n"
  obtain k where k: "n = Suc k" using n by (cases n) auto
  have sr: "solid r" by (rule starts_sym [OF r]) auto
  have r1: "r = [] \<or> hd r \<notin> {LT, GT}" and r2: "starts {BAR, RPAR, AMP, SEMI} r" using r by (auto simp: starts_def)
  let ?t = "words_text ws @ redirs_text fs @ r"
  have t: "show_cmd 3 (wrap (Exec ws) fs) @ r = ?t" by (simp add: show_wrap)
  have st: "solid ?t" using assms(1) sr by (intro solid_words solid_redirs)
  have first: "?t = [] \<or> hd ?t \<noteq> LPAR \<and> (ws \<noteq> [] \<longrightarrow> hd ?t \<notin> {LT, GT})"
  proof (cases ws)
    case (Cons w ws')
    then obtain c w' where "w = c # w'" "wordchar c" using assms(1) by (cases w) (auto simp: is_word_def)
    then show ?thesis using Cons by (auto simp: wordchar_def symbols_def)
  next
    case Nil
    then show ?thesis using r by (cases fs) (auto simp: starts_def split: if_splits)
  qed
  have pe: "parseexec n ?t = obind (parseredirs (Exec []) ?t) (\<lambda>(ret, s). parseargs [] ret s)"
    using first by (auto simp: k peek_solid [OF st])
  show "reads (parseexec n (show_cmd 3 (wrap (Exec ws) fs) @ r)) (wrap (Exec ws) fs) r"
  proof (cases "ws = []")
    case True
    obtain fs' where "parseredirs (Exec []) (redirs_text fs @ r) = Ok (wrap (Exec []) fs', r)" "word_redirs fs' = fs"
      using parseredirs_reads [OF fs sr r1] by blast
    then show ?thesis using True parseargs_stop [OF r2]
      unfolding t pe reads_def by (intro exI [of _ "wrap (Exec []) fs'"]) (simp add: set_argv_wrap map_wrap)
  next
    case False
    have none: "?t = [] \<or> hd ?t \<notin> {LT, GT}" using first False by auto
    have "parseredirs (Exec []) ?t = Ok (Exec [], ?t)"
      using parseredirs_reads [of "[]", OF _ st none, of "Exec []"] by (auto simp: redirs_ok_def)
    moreover obtain ws' fs' where "parseargs [] (Exec []) ?t = Ok (set_argv ([] @ ws') (wrap (Exec []) fs'), r)"
      "map word_at ws' = ws" "word_redirs fs' = fs"
      using parseargs_reads [of ws "[]" fs r "Exec []"] assms r2 False by auto
    ultimately show ?thesis
      unfolding t pe reads_def by (intro exI [of _ "wrap (Exec ws') fs'"]) (simp add: set_argv_wrap map_wrap)
  qed
qed

lemma reads3_block:
  assumes c: "reads0 c" and wf: "well_formed c" and p: "show_cmd 3 c = [LPAR, SP] @ show_cmd 0 c @ [RPAR, SP]"
    and fs: "redirs_ok fs"
  shows "reads3 (wrap c fs)"
  unfolding reads3_def
proof (intro allI impI)
  fix n r assume r: "starts {RPAR, AMP, SEMI, BAR} r" and n: "4 * length (show_cmd 3 (wrap c fs) @ r) + 1 < n"
  have sr: "solid r" by (rule starts_sym [OF r]) auto
  have r1: "r = [] \<or> hd r \<notin> {LT, GT}" using r by (auto simp: starts_def)
  let ?y = "redirs_text fs @ r"
  let ?x = "show_cmd 0 c @ RPAR # SP # ?y"
  have t: "show_cmd 3 (wrap c fs) @ r = LPAR # SP # ?x" by (simp add: show_wrap p)
  have len: "4 * length ?x + 8 + 1 < n" using n unfolding t by simp
  define j where "j = n - 2"
  have k: "n = Suc (Suc j)" and lj: "4 * length ?x + 3 < j" using len unfolding j_def by linarith+
  have sy: "solid ?y" using sr by (rule solid_redirs)
  have sx: "solid ?x" by (rule solid_show [OF wf]) simp
  obtain w1 where g1: "gettoken (LPAR # SP # ?x) = (LPAR, w1, ?x)" by (rule gettoken_symbol [of LPAR, OF _ sx]) auto
  obtain w2 where g2: "gettoken (RPAR # SP # ?y) = (RPAR, w2, ?y)" by (rule gettoken_symbol [of RPAR, OF _ sy]) auto
  have "reads (parseline j ?x) c (RPAR # SP # ?y)" using c lj unfolding reads0_def by (simp add: starts_def)
  then obtain c' where c': "parseline j ?x = Ok (c', RPAR # SP # ?y)" "map_cmd word_at c' = c" by (auto simp: reads_def)
  obtain fs' where fs': "parseredirs c' ?y = Ok (wrap c' fs', r)" "word_redirs fs' = fs"
    using parseredirs_reads [OF fs sr r1] by blast
  have "parseexec n (LPAR # SP # ?x) = Ok (wrap c' fs', r)"
    using c'(1) fs'(1) by (simp add: k g1 g2 peek_solid)
  then show "reads (parseexec n (show_cmd 3 (wrap c fs) @ r)) (wrap c fs) r"
    unfolding t reads_def using c'(2) fs'(2) by (simp add: map_wrap)
qed

lemma redirs_ok_simps [simp]: "redirs_ok []"
  "redirs_ok ((f, m, fd) # fs) \<longleftrightarrow> is_word f \<and> ((m, fd) = (O_RDONLY, 0) \<or> (m, fd) = (O_WRONLY + O_CREATE, 1)) \<and> redirs_ok fs"
  by (auto simp: redirs_ok_def)

lemma reads_all:
  "well_formed c \<Longrightarrow> reads0 c \<and> reads1 c \<and> reads2 c \<and> (\<forall>fs. redirs_ok fs \<longrightarrow> reads3 (wrap c fs))"
proof (induction c)
  case (Exec ws)
  have r3: "redirs_ok fs \<Longrightarrow> reads3 (wrap (Exec ws) fs)" for fs using Exec reads3_exec by simp
  from r3 [of "[]"] have "reads2 (Exec ws)" by (intro reads2_exec) auto
  moreover from this have "reads1 (Exec ws)" by (intro reads1_pipe) auto
  moreover from this have "reads0 (Exec ws)" by (intro reads0_line) auto
  ultimately show ?case using r3 by blast
next
  case (Redir c f m fd)
  have r3: "redirs_ok fs \<Longrightarrow> reads3 (wrap (Redir c f m fd) fs)" for fs
    using Redir wrap_simps(2) [of c f m fd fs] redirs_ok_simps(2) [of f m fd fs] by (metis well_formed.simps(2))
  from r3 [of "[]"] have "reads2 (Redir c f m fd)" by (intro reads2_exec) auto
  moreover from this have "reads1 (Redir c f m fd)" by (intro reads1_pipe) auto
  moreover from this have "reads0 (Redir c f m fd)" by (intro reads0_line) auto
  ultimately show ?case using r3 by blast
next
  case (Pipe l r)
  then have l: "reads3 l" by (metis redirs_ok_simps(1) well_formed.simps(3) wrap_simps(1))
  have "reads2 (Pipe l r)" using Pipe l by (intro reads2_pipe) auto
  moreover from this have "reads1 (Pipe l r)" by (intro reads1_pipe) (auto simp: parens_def)
  moreover from this have "reads0 (Pipe l r)" by (intro reads0_line) (auto simp: parens_def)
  moreover from this have "redirs_ok fs \<Longrightarrow> reads3 (wrap (Pipe l r) fs)" for fs
    using Pipe.prems by (intro reads3_block) (auto simp: parens_def)
  ultimately show ?case by blast
next
  case (List l r)
  have "reads0 (List l r)" using List by (intro reads0_list) auto
  then have r3: "redirs_ok fs \<Longrightarrow> reads3 (wrap (List l r) fs)" for fs
    using List.prems by (intro reads3_block) (auto simp: parens_def)
  from r3 [of "[]"] have "reads2 (List l r)" by (intro reads2_exec) (auto simp: parens_def)
  moreover from this have "reads1 (List l r)" by (intro reads1_pipe) (auto simp: parens_def)
  ultimately show ?case using \<open>reads0 (List l r)\<close> r3 by blast
next
  case (Back c)
  have "reads1 (Back c)" using Back by (intro reads1_back) auto
  moreover from this have "reads0 (Back c)" by (intro reads0_line) (auto simp: parens_def)
  moreover from this have r3: "redirs_ok fs \<Longrightarrow> reads3 (wrap (Back c) fs)" for fs
    using Back.prems by (intro reads3_block) (auto simp: parens_def)
  moreover from r3 [of "[]"] have "reads2 (Back c)" by (intro reads2_exec) (auto simp: parens_def)
  ultimately show ?case by blast
qed

lemma parse_printed:
  assumes "well_formed c"
  shows "\<exists>c' buf. parsecmd (show_cmd 0 c) = Ok (c', buf) \<and> map_cmd word_at c' = c"
proof -
  have "reads (parseline (parse_fuel (show_cmd 0 c)) (show_cmd 0 c @ [])) c []"
    using reads_all [OF assms] unfolding reads0_def by (simp add: starts_def parse_fuel_def)
  then show ?thesis by (auto simp: parsecmd_def reads_def peek_def)
qed

text \<open>
  C28: printing a command and parsing the text gives the command back. Every tree that the
  shell can run, of any depth, is the value of \<^verbatim>\<open>parsecmd\<close> on some line: on the text in
  which it is printed, with parentheses where a list, a pipe or a background command stands
  inside another, the parser returns a tree of the same shape with the same words, files
  and modes.
\<close>

theorem parsecmd_reads_printed:
  assumes "well_formed c"
  shows "\<exists>c' buf. parsecmd (show_cmd 0 c) = Ok (c', buf) \<and> map_cmd word_at c' = c"
  using assms by (rule parse_printed)

text \<open>\<^verbatim>\<open>(a | b c < d ; e) & \<close>, and the line \<^verbatim>\<open>a > b\<close>.\<close>

definition example_cmd :: "u8 list cmd" where
  "example_cmd = Back (List (Pipe (Exec [[97]]) (Redir (Exec [[98], [99]]) [100] O_RDONLY 0)) (Exec [[101]]))"

lemma is_word_letter: "c \<in> {97, 98, 99, 100, 101} \<Longrightarrow> is_word [c]"
  by (auto simp: is_word_def wordchar_def blank_def whitespace_def symbols_def)

lemma example_cmd_wf: "well_formed example_cmd"
  by (simp add: example_cmd_def is_word_letter)

theorem parsecmd_reads_printed_witness:
  "\<exists>c' buf. parsecmd (show_cmd 0 example_cmd) = Ok (c', buf) \<and> map_cmd word_at c' = example_cmd"
  by (rule parsecmd_reads_printed [OF example_cmd_wf])

theorem nulterminate_ends_every_word_witness:
  "\<exists>c buf q e. parsecmd [97, 32, 62, 32, 98, 32] = Ok (c, buf) \<and> (q, e) \<in> set_cmd c \<and>
     string_at [97, 32, 62, 32, 98, 32] buf q = [98]"
proof -
  let ?t = "[97, 32, 62, 32, 98, 32]"
  let ?c = "Redir (Exec [[97]]) [98] (O_WRONLY + O_CREATE) 1"
  have "show_cmd 0 ?c = ?t" by simp
  moreover have "well_formed ?c" by (simp add: is_word_letter)
  ultimately obtain c buf where c: "parsecmd ?t = Ok (c, buf)" "map_cmd word_at c = ?c" using parse_printed by metis
  then obtain c1 w m fd where "c = Redir c1 w m fd" "word_at w = [98]" by (cases c) auto
  moreover obtain q e where "w = (q, e)" by fastforce
  ultimately have qe: "(q, e) \<in> set_cmd c" "word_at (q, e) = [98]" by auto
  then have "string_at ?t buf q = [98]" using nulterminate_ends_every_word [OF c(1) _ qe(1)] by simp
  then show ?thesis using c(1) qe(1) by blast
qed

end
