(* ===== verification/Ptable.thy ===== *)
theory Ptable
  imports Sysproc Scheduler
begin

text \<open>
  The invariant of the process table, kept by every operation of \<^verbatim>\<open>proc.c\<close> that changes it.
  Each operation is first reduced to what it does to the table (\<open>tab\<close>), with the rest of the
  state framed away; the operations then are the steps of a relation in which the processes
  of all CPUs interleave, and the invariant follows by rule induction.
\<close>

section \<open>What the memory operations leave alone\<close>

text \<open>
  The memory operations see a state as the allocator's fields and \<open>more\<close>; they leave
  \<open>more\<close>, and with it the table, as it is.
\<close>

lemma more_procs:
  fixes s t :: "'a pstate_scheme"
  assumes "kmem.more t = kmem.more s"
  shows "procs t = procs s" "nextpid t = nextpid s" "initproc t = initproc s"
    "this_cpu t = this_cpu s" "pt_lock t = pt_lock s" "me t = me s" "ticks t = ticks s"
  using assms by (cases s; cases t; simp)+

lemma kfree_more: "kfree v s = Ok t \<Longrightarrow> kmem.more t = kmem.more s"
  by (auto simp: kfree_def kmem_acquire_def kmem_release_def outcome_simps Let_def split: if_splits)

lemma kalloc_more: "kalloc s = Ok (r, t) \<Longrightarrow> kmem.more t = kmem.more s"
  by (auto simp: kalloc_def kmem_acquire_def kmem_release_def outcome_simps Let_def split: if_splits)

lemma walkpgdir_more: "walkpgdir d va al s = Ok (r, t) \<Longrightarrow> kmem.more t = kmem.more s"
  by (auto simp: walkpgdir_def outcome_simps Let_def dest!: kalloc_more split: if_splits prod.splits)

lemma mappages_loop_more: "mappages_loop n d a l pa perm s = Ok (r, t) \<Longrightarrow> kmem.more t = kmem.more s"
proof (induction n arbitrary: a pa s)
  case 0
  then show ?case by (simp add: mappages_loop.simps)
next
  case (Suc n)
  from Suc.prems show ?case
    by (auto simp: mappages_loop.simps outcome_simps Let_def split: if_splits
        dest!: walkpgdir_more Suc.IH)
qed

lemma mappages_more: "mappages d va sz pa perm s = Ok (r, t) \<Longrightarrow> kmem.more t = kmem.more s"
  by (auto simp: mappages_def Let_def simp del: mappages_loop.simps dest: mappages_loop_more)

lemma deallocuvm_loop_more: "deallocuvm_loop n d a l s = Ok t \<Longrightarrow> kmem.more t = kmem.more s"
proof (induction n arbitrary: a s)
  case 0
  then show ?case by (simp add: deallocuvm_loop.simps split: if_splits)
next
  case (Suc n)
  from Suc.prems show ?case
    by (subst (asm) deallocuvm_loop.simps) (auto simp: outcome_simps Let_def split: if_splits
        dest!: walkpgdir_more kfree_more Suc.IH)
qed

lemma freevm_tables_more: "freevm_tables d is s = Ok t \<Longrightarrow> kmem.more t = kmem.more s"
  by (induction "is" arbitrary: s)
    (auto simp: outcome_simps Let_def split: if_splits dest!: kfree_more)

lemma freevm_more: "freevm d s = Ok t \<Longrightarrow> kmem.more t = kmem.more s"
  by (auto simp: freevm_def deallocuvm_def outcome_simps split: if_splits
      dest!: freevm_tables_more deallocuvm_loop_more kfree_more)

lemma setupkvm_loop_more: "setupkvm_loop d ks s = Ok (r, t) \<Longrightarrow> kmem.more t = kmem.more s"
proof (induction ks arbitrary: s)
  case (Cons k ks)
  from Cons.prems show ?case
    by (cases k) (auto simp: outcome_simps split: if_splits dest!: mappages_more freevm_more Cons.IH)
qed simp

lemma setupkvm_more: "setupkvm s = Ok (r, t) \<Longrightarrow> kmem.more t = kmem.more s"
  by (auto simp: setupkvm_def outcome_simps Let_def split: if_splits
      dest!: kalloc_more setupkvm_loop_more)

lemma copyuvm_loop_more: "copyuvm_loop n p d i sz s = Ok (r, t) \<Longrightarrow> kmem.more t = kmem.more s"
proof (induction n arbitrary: i s)
  case 0
  then show ?case by (simp add: copyuvm_loop.simps split: if_splits)
next
  case (Suc n)
  from Suc.prems show ?case
    by (subst (asm) copyuvm_loop.simps) (auto simp: outcome_simps Let_def split: if_splits
        dest!: walkpgdir_more kalloc_more mappages_more freevm_more kfree_more Suc.IH)
qed

lemma copyuvm_more: "copyuvm p sz s = Ok (r, t) \<Longrightarrow> kmem.more t = kmem.more s"
  by (auto simp: copyuvm_def outcome_simps split: if_splits
      dest!: setupkvm_more copyuvm_loop_more)

text \<open>Printing changes the screen and the serial line only.\<close>

lemma consputs_more: "consputs cs s = Ok t \<Longrightarrow> constate.more t = constate.more s"
proof (induction cs arbitrary: s)
  case (Cons c cs)
  then show ?case
    by (fastforce simp: outcome_simps consputc_def cgaputc_def uartputc_def Let_def split: if_splits prod.splits)
qed simp

lemma cprintf_more:
  fixes s t :: "'a pstate_scheme"
  assumes "cprintf fmt as s = Ok t"
  shows "procs t = procs s" "nextpid t = nextpid s" "initproc t = initproc s"
proof -
  have "constate.more t = constate.more s"
    using assms unfolding cprintf_def by (rule consputs_more)
  then show "procs t = procs s" "nextpid t = nextpid s" "initproc t = initproc s"
    by (cases s; cases t; simp)+
qed

text \<open>The fields of the table and its lock.\<close>

definition tab :: "'a pstate_scheme \<Rightarrow> proc list \<times> int \<times> nat option" where
  "tab s = (procs s, nextpid s, initproc s)"

lemma tab_simps [simp]:
  "tab (s\<lparr>procs := ps\<rparr>) = (ps, nextpid s, initproc s)"
  "tab (s\<lparr>nextpid := n\<rparr>) = (procs s, n, initproc s)"
  "tab (s\<lparr>this_cpu := c\<rparr>) = tab s"
  "tab (s\<lparr>pt_lock := l\<rparr>) = tab s"
  "tab (s\<lparr>ts_esp0 := a\<rparr>) = tab s"
  "tab (s\<lparr>cr3 := a\<rparr>) = tab s"
  "tab (s\<lparr>k_mem := m\<rparr>) = tab s"
  by (simp_all add: tab_def)

lemma tab_more: "kmem.more t = kmem.more s \<Longrightarrow> tab t = tab (s :: 'a pstate_scheme)"
  using more_procs [of t s] by (simp add: tab_def)

lemma tab_cprintf: "cprintf fmt as s = Ok t \<Longrightarrow> tab t = tab (s :: 'a pstate_scheme)"
  using cprintf_more [of fmt as s t] by (simp add: tab_def)

lemma tab_acquire: "ptable_acquire s = Ok t \<Longrightarrow> tab t = tab s"
  by (auto simp: ptable_acquire_def outcome_simps)

lemma tab_release: "ptable_release s = Ok t \<Longrightarrow> tab t = tab s"
  by (auto simp: ptable_release_def outcome_simps)

lemma tab_sched: "sched i s = Ok t \<Longrightarrow> tab t = tab s"
  by (auto simp: sched_def outcome_simps Let_def split: if_splits)

lemma tab_switchuvm: "switchuvm i s = Ok t \<Longrightarrow> tab t = tab s"
  by (auto simp: switchuvm_def outcome_simps Let_def split: option.splits if_splits)

lemma tab_eqD: "tab t = tab s \<Longrightarrow> procs t = procs s \<and> nextpid t = nextpid s \<and> initproc t = initproc s"
  by (simp add: tab_def)

lemma tab_upd [simp]: "tab (upd_proc i f s) = ((procs s)[i := f (procs s ! i)], nextpid s, initproc s)"
  by (simp add: upd_proc_def tab_def)

section \<open>The invariant\<close>

text \<open>A process that exists, and one that can still wait for its children.\<close>

definition alive :: "proc \<Rightarrow> bool" where
  "alive p \<longleftrightarrow> p_state p \<notin> {UNUSED, EMBRYO}"

definition able :: "proc \<Rightarrow> bool" where
  "able p \<longleftrightarrow> p_state p \<notin> {UNUSED, EMBRYO, ZOMBIE}"

text \<open>
  What the state of a process says about its other fields: a sleeper names its channel, a
  live process has the stack and the page table that \<^verbatim>\<open>switchuvm\<close> insists on, and a free slot
  is nobody's child.
\<close>

definition proc_ok :: "proc \<Rightarrow> bool" where
  "proc_ok p \<longleftrightarrow>
     (p_state p = SLEEPING \<longrightarrow> p_chan p \<noteq> None) \<and>
     (alive p \<longrightarrow> p_kstack p \<noteq> 0 \<and> p_pgdir p \<noteq> 0) \<and>
     (p_state p = UNUSED \<longrightarrow> p_parent p = None)"

text \<open>Pids in use are positive, already given out, and different.\<close>

definition pids_ok :: "proc list \<Rightarrow> int \<Rightarrow> bool" where
  "pids_ok ps n \<longleftrightarrow> (\<forall>i < length ps. p_state (ps ! i) \<noteq> UNUSED \<longrightarrow>
     0 < p_pid (ps ! i) \<and> p_pid (ps ! i) < n \<and>
     (\<forall>j < length ps. p_state (ps ! j) \<noteq> UNUSED \<and> p_pid (ps ! j) = p_pid (ps ! i) \<longrightarrow> j = i))"

text \<open>Every live process but the first has a parent that can wait for it.\<close>

definition has_parent :: "proc list \<Rightarrow> nat \<Rightarrow> bool" where
  "has_parent ps i \<longleftrightarrow> (\<exists>j < length ps. p_parent (ps ! i) = Some j \<and> able (ps ! j))"

definition tree_ok :: "proc list \<Rightarrow> nat option \<Rightarrow> bool" where
  "tree_ok ps r \<longleftrightarrow> (\<exists>i < length ps. r = Some i \<and> able (ps ! i)) \<and>
     (\<forall>i < length ps. alive (ps ! i) \<and> r \<noteq> Some i \<longrightarrow> has_parent ps i)"

fun table_inv :: "proc list \<times> int \<times> nat option \<Rightarrow> bool" where
  "table_inv (ps, n, r) \<longleftrightarrow> 0 < n \<and> (\<forall>p \<in> set ps. proc_ok p) \<and> pids_ok ps n \<and> tree_ok ps r"

text \<open>A step that changes no slot in more than what the invariant allows.\<close>

definition milder :: "proc \<Rightarrow> proc \<Rightarrow> bool" where
  "milder p q \<longleftrightarrow> p_pid q = p_pid p \<and> p_parent q = p_parent p \<and> alive q = alive p \<and>
     (p_state q = UNUSED) = (p_state p = UNUSED) \<and> (able p \<longrightarrow> able q) \<and> (proc_ok p \<longrightarrow> proc_ok q)"

lemma milder_refl [simp]: "milder p p"
  by (simp add: milder_def)

lemma table_inv_milder:
  assumes "table_inv (ps, n, r)" "list_all2 milder ps qs"
  shows "table_inv (qs, n, r)"
proof -
  have len: "length qs = length ps" and m: "\<And>i. i < length ps \<Longrightarrow> milder (ps ! i) (qs ! i)"
    using assms(2) by (auto simp: list_all2_conv_all_nth)
  have "\<forall>q \<in> set qs. proc_ok q"
    using assms(1) m unfolding table_inv.simps all_set_conv_all_nth len milder_def by blast
  moreover have "pids_ok qs n"
    using assms(1) m unfolding table_inv.simps pids_ok_def len milder_def by metis
  moreover have "has_parent ps i \<Longrightarrow> i < length ps \<Longrightarrow> has_parent qs i" for i
    using m unfolding has_parent_def len milder_def by metis
  then have "tree_ok qs r"
    using assms(1) m unfolding table_inv.simps tree_ok_def len milder_def by metis
  ultimately show ?thesis using assms(1) by simp
qed

lemma milder_upd: "i < length ps \<Longrightarrow> milder (ps ! i) p \<Longrightarrow> list_all2 milder ps (ps[i := p])"
  by (auto simp: list_all2_conv_all_nth nth_list_update)

lemma table_inv_upd:
  assumes "table_inv (ps, n, r)" "i < length ps \<Longrightarrow> milder (ps ! i) p"
  shows "table_inv (ps[i := p], n, r)"
proof (cases "i < length ps")
  case True
  then show ?thesis using assms by (blast intro: table_inv_milder milder_upd)
next
  case False
  then show ?thesis using assms(1) by (simp add: list_update_beyond)
qed

lemma milder_wake: "milder p (wake c p)"
  by (auto simp: milder_def wake_def alive_def able_def proc_ok_def)

lemma table_inv_wake: "table_inv (ps, n, r) \<Longrightarrow> table_inv (map (wake c) ps, n, r)"
  by (erule table_inv_milder) (simp add: list_all2_conv_all_nth milder_wake)

section \<open>What each operation does to the table\<close>

lemma tab_yield_enter:
  "yield_enter i s = Ok t \<Longrightarrow>
     tab t = ((procs s)[i := (procs s ! i)\<lparr>p_state := RUNNABLE\<rparr>], nextpid s, initproc s)"
  by (auto simp: yield_enter_def outcome_simps Let_def upd_proc_def tab_def [of t] dest!: tab_acquire tab_sched tab_eqD)

lemma tab_sleep_enter:
  "sleep_enter i c own s = Ok t \<Longrightarrow> i < length (procs s) \<Longrightarrow>
     tab t = (asleep i c (procs s), nextpid s, initproc s)"
  by (auto simp: sleep_enter_def outcome_simps Let_def asleep_def upd_proc_def
      dest!: tab_acquire tab_sched dest: tab_eqD split: if_splits)

lemma tab_sleep_resume:
  "sleep_resume i own s = Ok t \<Longrightarrow>
     tab t = ((procs s)[i := (procs s ! i)\<lparr>p_chan := None\<rparr>], nextpid s, initproc s)"
  by (auto simp: sleep_resume_def outcome_simps Let_def dest!: tab_release split: if_splits)

lemma tab_wakeup1: "tab (wakeup1 c s) = (map (wake c) (procs s), nextpid s, initproc s)"
  by (simp add: wakeup1_def)

lemma tab_wakeup:
  "wakeup c s = Ok t \<Longrightarrow> tab t = (map (wake (Some c)) (procs s), nextpid s, initproc s)"
  by (auto simp: wakeup_def outcome_simps wakeup1_def tab_def [of t] dest!: tab_acquire tab_release tab_eqD)

text \<open>What \<open>kill\<close> does to the process it finds.\<close>

definition killed_proc :: "proc \<Rightarrow> proc" where
  "killed_proc p = (let p = p\<lparr>p_killed := True\<rparr> in if p_state p = SLEEPING then p\<lparr>p_state := RUNNABLE\<rparr> else p)"

lemma tab_kill:
  assumes "kill pid s = Ok (ok, t)"
  shows "tab t = (case scan (\<lambda>p. p_pid p = pid) (procs s) of None \<Rightarrow> procs s
      | Some i \<Rightarrow> (procs s)[i := killed_proc (procs s ! i)], nextpid s, initproc s)"
proof (cases "scan (\<lambda>p. p_pid p = pid) (procs s)")
  case None
  then show ?thesis using assms
    by (auto simp: kill_def outcome_simps dest!: tab_acquire tab_release tab_eqD simp: tab_def)
next
  case (Some i)
  then have "i < length (procs s)" by (simp add: scan_Some)
  then show ?thesis using assms Some
    by (auto simp: kill_def outcome_simps upd_proc_def killed_proc_def Let_def tab_def [of t]
        dest!: tab_acquire tab_release tab_eqD split: if_splits)
qed

lemma milder_killed: "milder p (killed_proc p)"
  by (auto simp: milder_def killed_proc_def Let_def alive_def able_def proc_ok_def)

lemma yield_enter_inv:
  assumes "yield_enter i s = Ok t" "table_inv (tab s)" "p_state (procs s ! i) = RUNNING"
  shows "table_inv (tab t)"
proof -
  have "milder (procs s ! i) ((procs s ! i)\<lparr>p_state := RUNNABLE\<rparr>)"
    using assms(3) by (simp add: milder_def alive_def able_def proc_ok_def)
  with assms(2) show ?thesis
    unfolding tab_yield_enter [OF assms(1)] tab_def [of s] by (blast intro: table_inv_upd)
qed

lemma asleep_inv:
  assumes "table_inv (ps, n, r)" "p_state (ps ! i) = RUNNING"
  shows "table_inv (asleep i c ps, n, r)"
proof -
  have "milder (ps ! i) ((ps ! i)\<lparr>p_chan := Some c, p_state := SLEEPING\<rparr>)"
    using assms(2) by (simp add: milder_def alive_def able_def proc_ok_def)
  with assms(1) show ?thesis unfolding asleep_def by (blast intro: table_inv_upd)
qed

lemma sleep_enter_inv:
  assumes "sleep_enter i c own s = Ok t" "table_inv (tab s)" "i < length (procs s)" "p_state (procs s ! i) = RUNNING"
  shows "table_inv (tab t)"
  using assms(2,4) unfolding tab_sleep_enter [OF assms(1,3)] tab_def [of s] by (rule asleep_inv)

lemma sleep_resume_inv:
  assumes "sleep_resume i own s = Ok t" "table_inv (tab s)" "p_state (procs s ! i) = RUNNING"
  shows "table_inv (tab t)"
proof -
  have "milder (procs s ! i) ((procs s ! i)\<lparr>p_chan := None\<rparr>)"
    using assms(3) by (simp add: milder_def alive_def able_def proc_ok_def)
  with assms(2) show ?thesis
    unfolding tab_sleep_resume [OF assms(1)] tab_def [of s] by (blast intro: table_inv_upd)
qed

lemma wakeup_inv: "wakeup c s = Ok t \<Longrightarrow> table_inv (tab s) \<Longrightarrow> table_inv (tab t)"
  unfolding tab_def [of s] by (drule tab_wakeup) (simp only: table_inv_wake)

lemma kill_inv: "kill pid s = Ok (ok, t) \<Longrightarrow> table_inv (tab s) \<Longrightarrow> table_inv (tab t)"
  unfolding tab_def [of s]
  by (drule tab_kill)
    (auto simp only: milder_killed intro!: table_inv_upd split: option.splits)

text \<open>The slot of a process that is about to run, and the state it starts from.\<close>

definition first_run :: "u32 \<Rightarrow> proc \<Rightarrow> proc" where
  "first_run t p = (if p_serv p then p else p\<lparr>p_response_time := t - p_response_time p, p_serv := True\<rparr>)"

definition start_running :: "nat \<Rightarrow> 'a pstate_scheme \<Rightarrow> 'a pstate_scheme" where
  "start_running i s =
     (let s = upd_proc i (\<lambda>p. p\<lparr>p_state := RUNNING\<rparr>) s in
      if \<not> p_serv (procs s ! i)
      then upd_proc i (\<lambda>p. p\<lparr>p_response_time := ticks s - p_response_time p, p_serv := True\<rparr>) s else s)"

lemma dispatch_run:
  assumes "dispatch run i s = Ok t"
  obtains s1 u where "tab s1 = tab s" "run i (start_running i s1) = Ok u" "tab t = tab u"
proof -
  from assms obtain s1 where 1: "switchuvm (Some i) (s\<lparr>this_cpu := (this_cpu s)\<lparr>c_proc := Some i\<rparr>\<rparr>) = Ok s1"
    unfolding dispatch_def Let_def obind_eq_Ok by blast
  from assms [unfolded dispatch_def Let_def 1 obind.simps obind_eq_Ok]
  obtain u where u: "run i (start_running i s1) = Ok u"
    and t: "(switchkvm u)\<lparr>this_cpu := (this_cpu (switchkvm u))\<lparr>c_proc := None\<rparr>\<rparr> = t"
    unfolding Let_def start_running_def outcome.inject by blast
  have "tab s1 = tab s" using tab_switchuvm [OF 1] by simp
  moreover have "tab t = tab u" unfolding t [symmetric] switchkvm_def tab_simps ..
  ultimately show thesis using u by (intro that)
qed

lemma milder_first_run:
  "p_state p = RUNNABLE \<Longrightarrow> milder p (first_run t (p\<lparr>p_state := RUNNING\<rparr>))"
  by (auto simp: first_run_def milder_def alive_def able_def proc_ok_def)

lemma tab_start_running:
  "tab (start_running i s) =
     ((procs s)[i := first_run (ticks s) ((procs s ! i)\<lparr>p_state := RUNNING\<rparr>)], nextpid s, initproc s)"
proof (cases "i < length (procs s)")
  case True
  then show ?thesis by (simp add: start_running_def upd_proc_def Let_def first_run_def tab_def)
next
  case False
  then show ?thesis by (simp add: start_running_def upd_proc_def Let_def tab_def list_update_beyond)
qed

lemma start_running_inv:
  assumes "table_inv (tab s)" "p_state (procs s ! i) = RUNNABLE"
  shows "table_inv (tab (start_running i s))"
  using assms milder_first_run unfolding tab_start_running tab_def [of s] by (blast intro: table_inv_upd)

lemma dispatch_inv:
  fixes s :: "'a pstate_scheme"
  assumes d: "dispatch run i s = Ok t" and s: "table_inv (tab s)" "p_state (procs s ! i) = RUNNABLE"
    and run: "\<And>u v. run i u = Ok v \<Longrightarrow> table_inv (tab u) \<Longrightarrow> table_inv (tab v)"
  shows "table_inv (tab t)"
proof -
  from d obtain s1 u where u: "tab s1 = tab s" "run i (start_running i s1) = Ok u" "tab t = tab u"
    by (rule dispatch_run)
  have "table_inv (tab (start_running i s1))"
    by (rule start_running_inv) (use s u(1) in \<open>auto dest: tab_eqD\<close>)
  with run u show ?thesis by simp
qed

section \<open>fork\<close>

lemma pids_ok_new:
  assumes "pids_ok ps n" "p_pid p = n" "0 < n"
  shows "pids_ok (ps[i := p]) (n + 1)"
  unfolding pids_ok_def length_list_update
proof (intro allI impI conjI)
  fix a assume a: "a < length ps" "p_state (ps[i := p] ! a) \<noteq> UNUSED"
  show "0 < p_pid (ps[i := p] ! a)" "p_pid (ps[i := p] ! a) < n + 1"
    using a assms by (cases "a = i"; force simp: pids_ok_def)+
  fix b assume b: "b < length ps" "p_state (ps[i := p] ! b) \<noteq> UNUSED \<and> p_pid (ps[i := p] ! b) = p_pid (ps[i := p] ! a)"
  show "b = a"
    using a b assms by (cases "a = i"; cases "b = i"; force simp: pids_ok_def)
qed

text \<open>\<open>allocproc\<close> finds no slot, gives one back unused, or leaves an embryo with a kernel stack.\<close>

lemma tab_allocproc:
  assumes "allocproc s = Ok (r, t)"
  shows "(r = None \<and> tab t = tab s) \<or>
     (\<exists>i p. i < length (procs s) \<and> p_state (procs s ! i) = UNUSED \<and>
        scan (\<lambda>p. p_state p = UNUSED) (procs s) = Some i \<and>
        tab t = ((procs s)[i := p], nextpid s + 1, initproc s) \<and>
        p_pid p = nextpid s \<and> p_parent p = p_parent (procs s ! i) \<and> p_killed p = p_killed (procs s ! i) \<and>
        (r = None \<and> p_state p = UNUSED \<or> r = Some i \<and> p_state p = EMBRYO \<and> p_kstack p \<noteq> 0))"
proof (cases "scan (\<lambda>p. p_state p = UNUSED) (procs s)")
  case None
  then show ?thesis using assms
    by (auto simp: allocproc_def outcome_simps dest!: tab_acquire tab_release tab_eqD simp: tab_def)
next
  case (Some i)
  then have i: "i < length (procs s)" "p_state (procs s ! i) = UNUSED" by (simp_all add: scan_Some)
  have "(r = None \<and> p_state (procs t ! i) = UNUSED \<or> r = Some i \<and> p_state (procs t ! i) = EMBRYO \<and> p_kstack (procs t ! i) \<noteq> 0) \<and>
      p_pid (procs t ! i) = nextpid s \<and> p_parent (procs t ! i) = p_parent (procs s ! i) \<and>
      p_killed (procs t ! i) = p_killed (procs s ! i) \<and>
      tab t = ((procs s)[i := procs t ! i], nextpid s + 1, initproc s)"
    using assms Some i
    by (auto simp: allocproc_def outcome_simps upd_proc_def Let_def tab_def [of t]
        dest!: tab_acquire tab_release tab_eqD kalloc_more tab_more split: if_splits)
  with i Some show ?thesis by blast
qed

text \<open>A free slot is filled with the next pid; a live process put there has a parent.\<close>

lemma table_inv_new:
  assumes "table_inv (ps, n, r)" "i < length ps" "p_state (ps ! i) = UNUSED" "p_pid p = n" "proc_ok p"
    "alive p \<Longrightarrow> \<exists>j < length ps. p_parent p = Some j \<and> able (ps ! j)"
  shows "table_inv (ps[i := p], n + 1, r)"
proof -
  let ?qs = "ps[i := p]"
  have kept: "j < length ps \<Longrightarrow> able (ps ! j) \<Longrightarrow> able (?qs ! j)" for j
    using assms(3) by (cases "j = i") (auto simp: able_def)
  have "tree_ok ps r" using assms(1) by simp
  then obtain k where k: "k < length ps" "r = Some k" "able (ps ! k)" unfolding tree_ok_def by blast
  have "has_parent ?qs a" if a: "a < length ps" "alive (?qs ! a)" "r \<noteq> Some a" for a
  proof (cases "a = i")
    case True
    then show ?thesis using assms(2,6) a(2) kept by (auto simp: has_parent_def)
  next
    case False
    then have "has_parent ps a" using a \<open>tree_ok ps r\<close> by (simp add: tree_ok_def)
    then show ?thesis using False kept by (auto simp: has_parent_def)
  qed
  then have "tree_ok ?qs r" using k kept by (auto simp: tree_ok_def)
  moreover have "\<forall>q \<in> set ?qs. proc_ok q" using assms(1,5) by (auto dest: in_set_list_update)
  ultimately show ?thesis using assms(1,4) by (simp add: pids_ok_new)
qed

text \<open>What \<open>fork\<close> copies after the embryo is made does not touch its place in the table.\<close>

definition same_place :: "proc \<Rightarrow> proc \<Rightarrow> bool" where
  "same_place p q \<longleftrightarrow> p_pid q = p_pid p \<and> p_parent q = p_parent p \<and> p_state q = p_state p \<and>
     p_kstack q = p_kstack p \<and> p_pgdir q = p_pgdir p"

lemma tab_filedup: "filedup f s = Ok t \<Longrightarrow> tab t = tab s"
  by (auto simp: filedup_def upd_file_def tab_def split: if_splits)

lemma tab_dup_files:
  "dup_files cur np fds s = Ok t \<Longrightarrow> np < length (procs s) \<Longrightarrow>
     \<exists>q. tab t = ((procs s)[np := q], nextpid s, initproc s) \<and> same_place (procs s ! np) q"
proof (induction fds arbitrary: s)
  case Nil
  then show ?case by (intro exI [of _ "procs s ! np"]) (simp add: tab_def same_place_def)
next
  case (Cons fd fds)
  show ?case
  proof (cases "p_ofile (procs s ! cur) ! fd")
    case None
    then show ?thesis using Cons by simp
  next
    case (Some f)
    then obtain u where u: "filedup f s = Ok u"
      "dup_files cur np fds (upd_proc np (\<lambda>p. p\<lparr>p_ofile := (p_ofile p)[fd := Some f]\<rparr>) u) = Ok t"
      using Cons.prems(1) by (auto simp: outcome_simps)
    have e: "procs u = procs s" "nextpid u = nextpid s" "initproc u = initproc s"
      using tab_filedup [OF u(1)] by (auto dest: tab_eqD)
    from Cons.IH [OF u(2)] Cons.prems(2) e show ?thesis
      by (auto simp: upd_proc_def same_place_def)
  qed
qed

lemma tab_idup [simp]: "tab (idup i s) = tab s"
  and tab_tf_set [simp]: "tab (tf_set np off v s) = tab s"
  by (simp_all add: idup_def upd_inode_def tf_set_def tab_def)

lemma procs_idup [simp]: "procs (idup i s) = procs s" "nextpid (idup i s) = nextpid s"
    "initproc (idup i s) = initproc s"
  and procs_tf_set [simp]: "procs (tf_set np off v s) = procs s" "nextpid (tf_set np off v s) = nextpid s"
    "initproc (tf_set np off v s) = initproc s"
  by (simp_all add: idup_def upd_inode_def tf_set_def)

text \<open>The last part of \<open>fork\<close>, from the open files on, publishes the child.\<close>

lemma tab_fork_publish:
  assumes "obind (dup_files cur np [0 ..< NOFILE] s) (\<lambda>s.
           let cwd = the (p_cwd (procs s ! cur));
               s = idup cwd s;
               s = upd_proc np (\<lambda>p. p\<lparr>p_cwd := Some cwd\<rparr>) s;
               s = upd_proc np (\<lambda>p. p\<lparr>p_name := safestrcpy (p_name p) (p_name (procs s ! cur)) 16\<rparr>) s;
               pid = p_pid (procs s ! np) in
           obind (ptable_acquire s) (\<lambda>s.
           obind (ptable_release (upd_proc np (\<lambda>p. p\<lparr>p_state := RUNNABLE\<rparr>) s)) (\<lambda>s.
           Ok (pid, s)))) = Ok (r, t)"
    and np: "np < length (procs s)"
  shows "\<exists>q. tab t = ((procs s)[np := q], nextpid s, initproc s) \<and> r = p_pid q \<and>
    same_place ((procs s ! np)\<lparr>p_state := RUNNABLE\<rparr>) q"
proof -
  obtain u where u: "dup_files cur np [0 ..< NOFILE] s = Ok u"
    and rest: "(let cwd = the (p_cwd (procs u ! cur));
               s = idup cwd u;
               s = upd_proc np (\<lambda>p. p\<lparr>p_cwd := Some cwd\<rparr>) s;
               s = upd_proc np (\<lambda>p. p\<lparr>p_name := safestrcpy (p_name p) (p_name (procs s ! cur)) 16\<rparr>) s;
               pid = p_pid (procs s ! np) in
           obind (ptable_acquire s) (\<lambda>s.
           obind (ptable_release (upd_proc np (\<lambda>p. p\<lparr>p_state := RUNNABLE\<rparr>) s)) (\<lambda>s.
           Ok (pid, s)))) = Ok (r, t)"
    using assms(1) unfolding obind_eq_Ok by blast
  from tab_dup_files [OF u np] obtain q where q: "procs u = (procs s)[np := q]" "nextpid u = nextpid s"
    "initproc u = initproc s" "same_place (procs s ! np) q"
    by (auto simp: tab_def)
  have "tab t = ((procs u)[np := procs t ! np], nextpid u, initproc u) \<and> r = p_pid (procs t ! np) \<and>
      same_place ((procs u ! np)\<lparr>p_state := RUNNABLE\<rparr>) (procs t ! np)"
    using rest np unfolding Let_def
    by (auto simp: outcome_simps upd_proc_def tab_def [of t] q(1) same_place_def
        dest!: tab_acquire tab_release tab_eqD)
  then show ?thesis using q np by (intro exI [of _ "procs t ! np"]) (simp add: same_place_def)
qed

lemma tab_fork:
  assumes "fork cur s = Ok (r, t)"
  shows "(r = - 1 \<and> tab t = tab s) \<or>
     (\<exists>i p. i < length (procs s) \<and> p_state (procs s ! i) = UNUSED \<and>
        tab t = ((procs s)[i := p], nextpid s + 1, initproc s) \<and> p_pid p = nextpid s \<and>
        (r = - 1 \<and> p_state p = UNUSED \<and> p_parent p = p_parent (procs s ! i) \<or>
         r = nextpid s \<and> p_state p = RUNNABLE \<and> p_parent p = Some cur \<and> p_kstack p \<noteq> 0 \<and> p_pgdir p \<noteq> 0))"
proof -
  obtain a s1 where a: "allocproc s = Ok (a, s1)"
    using assms unfolding fork_def obind_eq_Ok by force
  show ?thesis
  proof (cases a)
    case None
    then have "r = - 1" "t = s1" using assms a by (simp_all add: fork_def)
    then show ?thesis using tab_allocproc [OF a] None by auto
  next
    case (Some i)
    with tab_allocproc [OF a] obtain p where p: "i < length (procs s)" "p_state (procs s ! i) = UNUSED"
      "procs s1 = (procs s)[i := p]" "nextpid s1 = nextpid s + 1" "initproc s1 = initproc s"
      "p_pid p = nextpid s" "p_parent p = p_parent (procs s ! i)" "p_kstack p \<noteq> 0"
      by (auto simp: tab_def)
    obtain d s2 where d: "copyuvm (p_pgdir (procs s1 ! cur)) (p_sz (procs s1 ! cur)) s1 = Ok (d, s2)"
      using assms a Some unfolding fork_def obind_eq_Ok by (force simp: obind_eq_Ok)
    note e = more_procs [OF copyuvm_more [OF d]]
    let ?s = "upd_proc i (\<lambda>p. p\<lparr>p_pgdir := d\<rparr>) s2"
    show ?thesis
    proof (cases "d = 0")
      case True
      then have k: "obind (kfree (p_kstack (procs ?s ! i)) ?s)
          (\<lambda>s. Ok (- 1, upd_proc i (\<lambda>p. p\<lparr>p_kstack := 0, p_state := UNUSED\<rparr>) s)) = Ok (r, t)"
        using assms unfolding fork_def a Some d Let_def by (simp add: d)
      then obtain u where u: "kmem.more u = kmem.more ?s" "r = - 1"
        "t = upd_proc i (\<lambda>p. p\<lparr>p_kstack := 0, p_state := UNUSED\<rparr>) u"
        by (auto simp: outcome_simps dest!: kfree_more)
      show ?thesis using more_procs [OF u(1)] u(2,3) p e
        by (intro disjI2 exI [of _ i] exI [of _ "procs t ! i"])
          (simp add: tab_def upd_proc_def)
    next
      case False
      let ?u = "upd_proc i (\<lambda>p. p\<lparr>p_parent := Some cur\<rparr>) (upd_proc i (\<lambda>p. p\<lparr>p_sz := p_sz (procs ?s ! cur)\<rparr>) ?s)"
      let ?v = "tf_set i tf_eax 0 (?u\<lparr>k_mem := memmove (k_mem ?u) (p_tf (procs ?u ! i)) (p_tf (procs ?u ! cur)) sizeof_trapframe\<rparr>)"
      have "i < length (procs ?v)" using p e by (simp add: upd_proc_def)
      moreover have "obind (dup_files cur i [0 ..< NOFILE] ?v) (\<lambda>s.
           let cwd = the (p_cwd (procs s ! cur));
               s = idup cwd s;
               s = upd_proc i (\<lambda>p. p\<lparr>p_cwd := Some cwd\<rparr>) s;
               s = upd_proc i (\<lambda>p. p\<lparr>p_name := safestrcpy (p_name p) (p_name (procs s ! cur)) 16\<rparr>) s;
               pid = p_pid (procs s ! i) in
           obind (ptable_acquire s) (\<lambda>s.
           obind (ptable_release (upd_proc i (\<lambda>p. p\<lparr>p_state := RUNNABLE\<rparr>) s)) (\<lambda>s.
           Ok (pid, s)))) = Ok (r, t)"
        using assms False unfolding fork_def a by (simp only: Some d obind.simps prod.case option.case if_False Let_def)
      ultimately obtain q where q: "tab t = ((procs ?v)[i := q], nextpid ?v, initproc ?v)" "r = p_pid q"
        "same_place ((procs ?v ! i)\<lparr>p_state := RUNNABLE\<rparr>) q"
        using tab_fork_publish by blast
      have v: "procs ?v = (procs s)[i := p\<lparr>p_pgdir := d, p_sz := p_sz (procs ?s ! cur), p_parent := Some cur\<rparr>]"
        "nextpid ?v = nextpid s + 1" "initproc ?v = initproc s"
        using p e by (simp_all add: upd_proc_def tf_set_def)
      show ?thesis using q p(1,2,6,8) False unfolding v
        by (intro disjI2 exI [of _ i] exI [of _ q]) (simp add: same_place_def)
    qed
  qed
qed

lemma fork_inv:
  assumes "fork cur s = Ok (r, t)" "table_inv (tab s)" "cur < length (procs s)" "p_state (procs s ! cur) = RUNNING"
  shows "table_inv (tab t)"
  using tab_fork [OF assms(1)]
proof (elim disjE exE conjE)
  assume "tab t = tab s"
  then show ?thesis using assms(2) by simp
next
  fix i p
  assume i: "i < length (procs s)" "p_state (procs s ! i) = UNUSED"
    "tab t = ((procs s)[i := p], nextpid s + 1, initproc s)" "p_pid p = nextpid s"
  have inv: "table_inv (procs s, nextpid s, initproc s)" using assms(2) by (simp add: tab_def)
  { assume "p_state p = UNUSED" "p_parent p = p_parent (procs s ! i)"
    moreover have "p_parent (procs s ! i) = None" using inv i by (simp add: proc_ok_def)
    ultimately show ?thesis unfolding i(3)
      by (intro table_inv_new [OF inv i(1,2,4)]) (simp_all add: proc_ok_def alive_def)
  next
    assume "p_state p = RUNNABLE" "p_parent p = Some cur" "p_kstack p \<noteq> 0" "p_pgdir p \<noteq> 0"
    then show ?thesis unfolding i(3) using assms(3,4)
      by (intro table_inv_new [OF inv i(1,2,4)]) (simp_all add: proc_ok_def alive_def able_def)
  }
qed

section \<open>wait\<close>

text \<open>A zombie has no children, so its slot can be freed.\<close>

lemma table_inv_free:
  assumes "table_inv (ps, n, r)" "i < length ps" "p_state (ps ! i) = ZOMBIE" "p_state p = UNUSED" "p_parent p = None"
  shows "table_inv (ps[i := p], n, r)"
proof -
  let ?qs = "ps[i := p]"
  have kept: "j < length ps \<Longrightarrow> able (ps ! j) \<Longrightarrow> ?qs ! j = ps ! j" for j
    using assms(3) by (cases "j = i") (auto simp: able_def)
  have tree: "tree_ok ps r" and pids: "pids_ok ps n" using assms(1) by simp_all
  have "has_parent ?qs a" if a: "a < length ps" "alive (?qs ! a)" "r \<noteq> Some a" for a
  proof -
    have ai: "a \<noteq> i" using a(2) assms(2,4) by (auto simp: alive_def)
    then have "has_parent ps a" using a tree by (simp add: tree_ok_def)
    then show ?thesis using ai kept by (auto simp: has_parent_def)
  qed
  then have "tree_ok ?qs r" using tree kept by (auto simp: tree_ok_def)
  moreover have "pids_ok ?qs n"
    unfolding pids_ok_def length_list_update
  proof (intro allI impI)
    fix a assume a: "a < length ps" "p_state (?qs ! a) \<noteq> UNUSED"
    then have ai: "a \<noteq> i" using assms(2,4) by auto
    have "b = a" if "b < length ps" "p_state (?qs ! b) \<noteq> UNUSED \<and> p_pid (?qs ! b) = p_pid (ps ! a)" for b
      using that pids ai a assms(2,4) by (cases "b = i") (auto simp: pids_ok_def)
    then show "0 < p_pid (?qs ! a) \<and> p_pid (?qs ! a) < n \<and>
        (\<forall>j < length ps. p_state (?qs ! j) \<noteq> UNUSED \<and> p_pid (?qs ! j) = p_pid (?qs ! a) \<longrightarrow> j = a)"
      using pids a ai by (simp add: pids_ok_def)
  qed
  moreover have "\<forall>q \<in> set ?qs. proc_ok q"
    using assms(1,4,5) by (auto simp: proc_ok_def alive_def dest!: in_set_list_update)
  ultimately show ?thesis using assms(1) by simp
qed

lemma tab_reap:
  assumes "reap i s = Ok (pid, t)" "i < length (procs s)"
  shows "\<exists>p. tab t = ((procs s)[i := p], nextpid s, initproc s) \<and> p_state p = UNUSED \<and> p_parent p = None"
    "pid = p_pid (procs s ! i)"
proof -
  obtain u v where u: "kfree (p_kstack (procs s ! i)) s = Ok u"
    "freevm (p_pgdir (procs (upd_proc i (\<lambda>p. p\<lparr>p_kstack := 0\<rparr>) u) ! i)) (upd_proc i (\<lambda>p. p\<lparr>p_kstack := 0\<rparr>) u) = Ok v"
    "pid = p_pid (procs s ! i)"
    "t = upd_proc i (\<lambda>p. p\<lparr>p_pid := 0, p_parent := None, p_name := (p_name p)(0 := 0),
                 p_killed := False, p_state := UNUSED\<rparr>) v"
    using assms(1) unfolding reap_def Let_def by (auto simp: outcome_simps)
  note e = more_procs [OF kfree_more [OF u(1)]] more_procs [OF freevm_more [OF u(2)]]
  show "\<exists>p. tab t = ((procs s)[i := p], nextpid s, initproc s) \<and> p_state p = UNUSED \<and> p_parent p = None"
    using e assms(2) by (intro exI [of _ "procs t ! i"]) (simp add: u(4) tab_def upd_proc_def)
  show "pid = p_pid (procs s ! i)" by (rule u(3))
qed

text \<open>
  The three ends of a turn of \<open>wait\<close>: a zombie child's pid, -1 when there is no child or the
  caller has been killed, or sleep while some child lives.
\<close>

lemma wait_turn_cases:
  assumes "wait_turn cur s = Ok (r, t)" "cur < length (procs s)"
  obtains (reaped) i p where "r = Some (p_pid (procs s ! i))" "i < length (procs s)" "child_of cur (procs s ! i)"
      "p_state (procs s ! i) = ZOMBIE" "tab t = ((procs s)[i := p], nextpid s, initproc s)"
      "p_state p = UNUSED" "p_parent p = None"
  | (failed) "r = Some (- 1)" "tab t = tab s"
      "(\<forall>p \<in> set (procs s). \<not> child_of cur p) \<or> p_killed (procs s ! cur)"
  | (slept) "r = None" "tab t = (asleep cur (ChProc cur) (procs s), nextpid s, initproc s)"
      "\<exists>p \<in> set (procs s). child_of cur p" "\<forall>p \<in> set (procs s). child_of cur p \<longrightarrow> p_state p \<noteq> ZOMBIE"
proof (cases "scan (\<lambda>p. child_of cur p \<and> p_state p = ZOMBIE) (procs s)")
  case (Some i)
  then have i: "i < length (procs s)" "child_of cur (procs s ! i)" "p_state (procs s ! i) = ZOMBIE"
    by (auto dest: scan_SomeD)
  obtain pid u where u: "reap i s = Ok (pid, u)" "ptable_release u = Ok t" "r = Some pid"
    using assms(1) Some by (auto simp: wait_turn_def outcome_simps)
  from tab_reap(1) [OF u(1) i(1)] obtain p where
    "tab u = ((procs s)[i := p], nextpid s, initproc s)" "p_state p = UNUSED" "p_parent p = None" by blast
  with i u tab_reap(2) [OF u(1) i(1)] show ?thesis by (intro reaped) (auto dest: tab_release)
next
  case None
  then have z: "\<forall>p \<in> set (procs s). child_of cur p \<longrightarrow> p_state p \<noteq> ZOMBIE" by (simp add: scan_None)
  show ?thesis
  proof (cases "\<not> (\<exists>p \<in> set (procs s). child_of cur p) \<or> p_killed (procs s ! cur)")
    case True
    then have "r = Some (- 1)" "ptable_release s = Ok t"
      using assms(1) None unfolding wait_turn_def by (simp_all add: outcome_simps)
    then show ?thesis using True by (intro failed) (auto dest: tab_release)
  next
    case False
    then have "r = None" "sleep_enter cur (ChProc cur) True s = Ok t"
      using assms(1) None unfolding wait_turn_def by (auto simp: outcome_simps)
    then show ?thesis using False z assms(2) by (intro slept) (auto dest: tab_sleep_enter)
  qed
qed

lemma wait_turn_inv:
  assumes "wait_turn cur s = Ok (r, t)" "table_inv (tab s)" "cur < length (procs s)" "p_state (procs s ! cur) = RUNNING"
  shows "table_inv (tab t)"
  using assms(1,3)
proof (cases rule: wait_turn_cases)
  case (reaped i p)
  then show ?thesis using assms(2) unfolding tab_def [of s] by (simp only: table_inv_free)
next
  case failed
  then show ?thesis using assms(2) by simp
next
  case slept
  then show ?thesis using assms(2,4) unfolding tab_def [of s] by (simp only: asleep_inv)
qed

lemma wait_enter_inv:
  assumes "wait_enter cur s = Ok (r, t)" "table_inv (tab s)" "cur < length (procs s)" "p_state (procs s ! cur) = RUNNING"
  shows "table_inv (tab t)"
proof -
  obtain u where u: "ptable_acquire s = Ok u" "wait_turn cur u = Ok (r, t)"
    using assms(1) by (auto simp: wait_enter_def outcome_simps)
  have e: "tab u = tab s" "procs u = procs s" using tab_acquire [OF u(1)] by (auto dest: tab_eqD)
  show ?thesis by (rule wait_turn_inv [OF u(2)]) (use assms e in simp_all)
qed

lemma wait_resume_inv:
  assumes "wait_resume cur s = Ok (r, t)" "table_inv (tab s)" "cur < length (procs s)" "p_state (procs s ! cur) = RUNNING"
  shows "table_inv (tab t)"
proof -
  obtain u where u: "sleep_resume cur True s = Ok u" "wait_turn cur u = Ok (r, t)"
    using assms(1) by (auto simp: wait_resume_def outcome_simps)
  have e: "procs u = (procs s)[cur := (procs s ! cur)\<lparr>p_chan := None\<rparr>]"
    using tab_sleep_resume [OF u(1)] by (simp add: tab_def)
  show ?thesis by (rule wait_turn_inv [OF u(2) sleep_resume_inv [OF u(1)]]) (use assms e in simp_all)
qed

section \<open>exit\<close>

lemma table_inv_adopted:
  assumes "table_inv (ps, n, r)" "p_parent (ps ! i) = Some cur"
  shows "table_inv (ps[i := (ps ! i)\<lparr>p_parent := r\<rparr>], n, r)"
proof (cases "i < length ps")
  case False
  then show ?thesis using assms(1) by (simp add: list_update_beyond)
next
  case i: True
  let ?qs = "ps[i := (ps ! i)\<lparr>p_parent := r\<rparr>]"
  have st: "j < length ps \<Longrightarrow> p_state (?qs ! j) = p_state (ps ! j) \<and> p_pid (?qs ! j) = p_pid (ps ! j)" for j
    by (cases "j = i") simp_all
  then have al: "j < length ps \<Longrightarrow> alive (?qs ! j) = alive (ps ! j) \<and> able (?qs ! j) = able (ps ! j)" for j
    by (simp add: alive_def able_def)
  have tree: "tree_ok ps r" using assms(1) by simp
  then obtain k where k: "k < length ps" "r = Some k" "able (ps ! k)" unfolding tree_ok_def by blast
  have "has_parent ?qs a" if a: "a < length ps" "alive (?qs ! a)" "r \<noteq> Some a" for a
  proof (cases "a = i")
    case True
    then show ?thesis using i k al by (auto simp: has_parent_def intro!: exI [of _ k])
  next
    case False
    then have "has_parent ps a" using a tree al by (simp add: tree_ok_def)
    then show ?thesis using False al by (auto simp: has_parent_def)
  qed
  then have "tree_ok ?qs r" using k al by (auto simp: tree_ok_def)
  moreover have "pids_ok ?qs n" using assms(1) st by (simp add: pids_ok_def)
  moreover have "proc_ok (ps ! i)" using assms(1) i by simp
  then have "\<forall>q \<in> set ?qs. proc_ok q"
    using assms by (auto simp: proc_ok_def alive_def dest!: in_set_list_update)
  ultimately show ?thesis using assms(1) by simp
qed

lemma table_inv_zombie:
  assumes "table_inv (ps, n, r)" "cur < length ps" "p_state (ps ! cur) = RUNNING" "r \<noteq> Some cur"
    "\<forall>j < length ps. p_parent (ps ! j) \<noteq> Some cur"
    "p_state p = ZOMBIE" "p_pid p = p_pid (ps ! cur)" "p_parent p = p_parent (ps ! cur)"
    "p_kstack p = p_kstack (ps ! cur)" "p_pgdir p = p_pgdir (ps ! cur)"
  shows "table_inv (ps[cur := p], n, r)"
proof -
  let ?qs = "ps[cur := p]"
  have al: "j < length ps \<Longrightarrow> alive (?qs ! j) = alive (ps ! j) \<and>
      (p_state (?qs ! j) = UNUSED) = (p_state (ps ! j) = UNUSED) \<and>
      p_pid (?qs ! j) = p_pid (ps ! j) \<and> p_parent (?qs ! j) = p_parent (ps ! j)" for j
    using assms(3,6,7,8) by (cases "j = cur") (simp_all add: alive_def)
  have ab: "j < length ps \<Longrightarrow> j \<noteq> cur \<Longrightarrow> able (?qs ! j) = able (ps ! j)" for j by simp
  have tree: "tree_ok ps r" using assms(1) by simp
  have "has_parent ?qs a" if a: "a < length ps" "alive (?qs ! a)" "r \<noteq> Some a" for a
  proof -
    have "has_parent ps a" using a tree al by (simp add: tree_ok_def)
    then obtain j where j: "j < length ps" "p_parent (ps ! a) = Some j" "able (ps ! j)"
      unfolding has_parent_def by blast
    moreover have "j \<noteq> cur" using j(2) assms(5) a(1) by auto
    ultimately show ?thesis using al [OF a(1)] ab by (auto simp: has_parent_def)
  qed
  moreover obtain k where "k < length ps" "r = Some k" "able (ps ! k)" "k \<noteq> cur"
    using tree assms(4) by (auto simp: tree_ok_def)
  ultimately have "tree_ok ?qs r" using ab by (auto simp: tree_ok_def)
  moreover have "pids_ok ?qs n" using assms(1) al by (simp add: pids_ok_def)
  moreover have "proc_ok p"
    using assms(1,2,3,6,9,10) by (auto simp: proc_ok_def alive_def)
  then have "\<forall>q \<in> set ?qs. proc_ok q" using assms(1) by (auto dest!: in_set_list_update)
  ultimately show ?thesis using assms(1) by simp
qed

lemma reparent_Cons: "reparent cur (i # is) s = reparent cur is (reparent cur [i] s)"
  by (simp add: Let_def)

lemma wake_fields [simp]:
  "p_parent (wake c p) = p_parent p" "p_pid (wake c p) = p_pid p" "p_state p = RUNNING \<Longrightarrow> wake c p = p"
  by (simp_all add: wake_def)

lemma reparent_turn:
  assumes "table_inv (tab s)" "initproc s \<noteq> Some cur" "p_state (procs s ! cur) = RUNNING" "cur < length (procs s)"
    and "t = reparent cur [i] s" "i < length (procs s)"
  shows "table_inv (tab t)" "nextpid t = nextpid s" "initproc t = initproc s" "length (procs t) = length (procs s)"
    "p_state (procs t ! cur) = RUNNING" "p_parent (procs t ! i) \<noteq> Some cur"
    "\<forall>j < length (procs s). p_parent (procs s ! j) \<noteq> Some cur \<longrightarrow> p_parent (procs t ! j) \<noteq> Some cur"
proof -
  let ?ps = "procs s"
  let ?qs = "if p_parent (?ps ! i) = Some cur then ?ps[i := (?ps ! i)\<lparr>p_parent := initproc s\<rparr>] else ?ps"
  have t: "procs t = ?qs \<or> (\<exists>c. procs t = map (wake c) ?qs)" "nextpid t = nextpid s" "initproc t = initproc s"
    using assms(5) by (auto simp: Let_def upd_proc_def wakeup1_def)
  have inv: "table_inv (?ps, nextpid s, initproc s)" using assms(1) unfolding tab_def .
  have q: "table_inv (?qs, nextpid s, initproc s)"
  proof (cases "p_parent (?ps ! i) = Some cur")
    case True
    show ?thesis unfolding if_P [OF True] using inv True by (rule table_inv_adopted)
  next
    case False
    show ?thesis unfolding if_not_P [OF False] by (rule inv)
  qed
  from t(1) have "table_inv (procs t, nextpid s, initproc s)"
    by (elim disjE exE) (simp_all only: q table_inv_wake)
  then show "table_inv (tab t)" unfolding tab_def t(2,3) .
  show "nextpid t = nextpid s" "initproc t = initproc s" by fact+
  show len: "length (procs t) = length ?ps" using t(1) by auto
  have "j < length ?ps \<Longrightarrow> p_parent (procs t ! j) = p_parent (?qs ! j)" for j using t(1) by auto
  then show "p_parent (procs t ! i) \<noteq> Some cur"
    "\<forall>j < length ?ps. p_parent (?ps ! j) \<noteq> Some cur \<longrightarrow> p_parent (procs t ! j) \<noteq> Some cur"
    using assms(2,6) by (auto simp: nth_list_update)
  have "p_state (?qs ! cur) = RUNNING" using assms(3,6) by (auto simp: nth_list_update)
  then show "p_state (procs t ! cur) = RUNNING" using t(1) assms(4) by auto
qed

lemma reparent_inv:
  assumes "table_inv (tab s)" "initproc s \<noteq> Some cur" "p_state (procs s ! cur) = RUNNING" "cur < length (procs s)"
    and "t = reparent cur is s" "\<forall>i \<in> set is. i < length (procs s)"
  shows "table_inv (tab t) \<and> nextpid t = nextpid s \<and> initproc t = initproc s \<and> length (procs t) = length (procs s) \<and>
    p_state (procs t ! cur) = RUNNING \<and> (\<forall>j \<in> set is. p_parent (procs t ! j) \<noteq> Some cur) \<and>
    (\<forall>j < length (procs s). p_parent (procs s ! j) \<noteq> Some cur \<longrightarrow> p_parent (procs t ! j) \<noteq> Some cur)"
  using assms
proof (induction "is" arbitrary: s)
  case Nil
  then show ?case by simp
next
  case (Cons i js)
  let ?u = "reparent cur [i] s"
  have i: "i < length (procs s)" using Cons.prems(6) by simp
  note u = reparent_turn [OF Cons.prems(1-4) refl i]
  have "table_inv (tab t) \<and> nextpid t = nextpid ?u \<and> initproc t = initproc ?u \<and> length (procs t) = length (procs ?u) \<and>
    p_state (procs t ! cur) = RUNNING \<and> (\<forall>j \<in> set js. p_parent (procs t ! j) \<noteq> Some cur) \<and>
    (\<forall>j < length (procs ?u). p_parent (procs ?u ! j) \<noteq> Some cur \<longrightarrow> p_parent (procs t ! j) \<noteq> Some cur)"
    using Cons.prems(2-6) u by (intro Cons.IH) (simp_all only: reparent_Cons [of cur i js s], auto)
  then show ?case using u(2-7) i by simp
qed

text \<open>The table at the switch, after which \<open>exit_zombie\<close> only prints.\<close>

definition exit_table :: "nat \<Rightarrow> 'a pstate_scheme \<Rightarrow> 'a pstate_scheme" where
  "exit_table cur s =
     (let s = wakeup1 (map_option ChProc (p_parent (procs s ! cur))) s;
          s = reparent cur [0 ..< length (procs s)] s;
          s = upd_proc cur (\<lambda>p. p\<lparr>p_state := ZOMBIE\<rparr>) s
      in upd_proc cur (\<lambda>p. p\<lparr>p_turn_around_time := ticks s - p_turn_around_time p\<rparr>) s)"

lemma tab_exit_zombie: "exit_zombie cur s = Ok t \<Longrightarrow> tab t = tab (exit_table cur s)"
proof -
  assume e: "exit_zombie cur s = Ok t"
  have "\<exists>fmt as u. cprintf fmt as (exit_table cur s) = Ok u \<and> sched cur u = Ok t"
    using e unfolding exit_zombie_def exit_table_def Let_def obind_eq_Ok
    by (elim exE conjE) (intro exI conjI)
  then show ?thesis by (elim exE conjE) (simp only: tab_cprintf tab_sched)
qed

lemma exit_zombie_inv:
  assumes "exit_zombie cur s = Ok t" "table_inv (tab s)" "cur < length (procs s)" "p_state (procs s ! cur) = RUNNING"
    "initproc s \<noteq> Some cur"
  shows "table_inv (tab t)"
proof -
  let ?w = "wakeup1 (map_option ChProc (p_parent (procs s ! cur))) s"
  let ?r = "reparent cur [0 ..< length (procs ?w)] ?w"
  let ?z = "exit_table cur s"
  have "table_inv (tab ?w)" using assms(2) unfolding tab_wakeup1 tab_def [of s] by (rule table_inv_wake)
  moreover have "procs ?w = map (wake (map_option ChProc (p_parent (procs s ! cur)))) (procs s)" "initproc ?w = initproc s"
    by (simp_all add: wakeup1_def)
  ultimately have r: "table_inv (tab ?r)" "length (procs ?r) = length (procs s)" "initproc ?r = initproc s"
    "p_state (procs ?r ! cur) = RUNNING" "\<forall>j < length (procs ?r). p_parent (procs ?r ! j) \<noteq> Some cur"
    using reparent_inv [of ?w cur ?r "[0 ..< length (procs ?w)]"] assms(3,4,5) by auto
  have z: "tab ?z = ((procs ?r)[cur := (procs ?r ! cur)\<lparr>p_state := ZOMBIE,
      p_turn_around_time := ticks ?r - p_turn_around_time (procs ?r ! cur)\<rparr>], nextpid ?r, initproc ?r)"
    using r(2) assms(3) by (simp add: exit_table_def Let_def upd_proc_def)
  have "table_inv (tab ?z)"
    unfolding z using r assms(3,5) by (intro table_inv_zombie) (simp_all add: tab_def)
  then show ?thesis unfolding tab_exit_zombie [OF assms(1)] .
qed

section \<open>The first process\<close>

lemma tab_namei_root: "namei [slash] s = Ok (r, t) \<Longrightarrow> tab t = tab s"
  by (auto simp: namei_def namex_def iget_def namex_loop.simps skipelem_def Let_def upd_inode_def tab_def
      split: option.splits)

text \<open>The table at boot: static data, so every slot is zero.\<close>

definition boot_table :: "'a pstate_scheme \<Rightarrow> bool" where
  "boot_table s \<longleftrightarrow> (\<forall>p \<in> set (procs s). p_state p = UNUSED \<and> p_parent p = None) \<and> nextpid s = 1"

lemma inituvm_more: "inituvm d start len s = Ok t \<Longrightarrow> kmem.more t = kmem.more s"
  by (auto simp: inituvm_def outcome_simps Let_def dest!: kalloc_more mappages_more split: if_splits)

lemma set_tf16_tab [simp]: "procs (set_tf16 i off v s) = procs s" "nextpid (set_tf16 i off v s) = nextpid s"
    "initproc (set_tf16 i off v s) = initproc s"
  by (simp_all add: set_tf16_def)

text \<open>The table of the first process alone.\<close>

lemma table_inv_first:
  assumes "\<forall>p \<in> set ps. p_state p = UNUSED \<and> p_parent p = None" "i < length ps"
    "p_state p = RUNNABLE" "p_pid p = 1" "p_kstack p \<noteq> 0" "p_pgdir p \<noteq> 0"
  shows "table_inv (ps[i := p], 2, Some i)"
proof -
  have st: "j < length ps \<Longrightarrow> p_state (ps[i := p] ! j) = (if j = i then RUNNABLE else UNUSED)" for j
    using assms(1,3) by (cases "j = i") simp_all
  have "tree_ok (ps[i := p]) (Some i)" "pids_ok (ps[i := p]) 2"
    using assms(2,3,4) st by (auto simp: tree_ok_def pids_ok_def alive_def able_def)
  moreover have "\<forall>q \<in> set (ps[i := p]). proc_ok q"
    using assms by (auto simp: proc_ok_def alive_def dest!: in_set_list_update)
  ultimately show ?thesis by simp
qed

lemma userinit_inv:
  assumes "userinit start len s = Ok t" "boot_table s" "allocproc s = Ok (Some i, s1)"
  shows "table_inv (tab t)"
proof -
  from tab_allocproc [OF assms(3)] obtain p where p: "i < length (procs s)" "procs s1 = (procs s)[i := p]"
    "nextpid s1 = 2" "p_pid p = 1" "p_kstack p \<noteq> 0"
    using assms(2) by (auto simp: tab_def boot_table_def)
  obtain d s2 where d: "setupkvm (s1\<lparr>initproc := Some i\<rparr>) = Ok (d, s2)" "d \<noteq> 0"
    using assms(1) unfolding userinit_def assms(3) Let_def obind.simps prod.case option.sel
    by (cases "setupkvm (s1\<lparr>initproc := Some i\<rparr>)") (auto split: if_splits)
  note e2 = more_procs [OF setupkvm_more [OF d(1)]]
  let ?s3 = "upd_proc i (\<lambda>p. p\<lparr>p_pgdir := d\<rparr>) s2"
  obtain s4 where s4: "inituvm d start len ?s3 = Ok s4"
    using assms(1) d unfolding userinit_def assms(3) Let_def obind.simps prod.case option.sel
    by (cases "inituvm d start len ?s3") auto
  note e4 = more_procs [OF inituvm_more [OF s4]]
  have "tab t = ((procs s)[i := procs t ! i], 2, Some i) \<and> p_state (procs t ! i) = RUNNABLE \<and>
      p_pid (procs t ! i) = 1 \<and> p_kstack (procs t ! i) \<noteq> 0 \<and> p_pgdir (procs t ! i) \<noteq> 0"
    using assms(1) d(2) p e2 e4 s4 unfolding userinit_def assms(3) Let_def obind.simps prod.case option.sel d(1)
    by (auto simp: outcome_simps upd_proc_def tab_def [of t]
        dest!: tab_acquire tab_release tab_namei_root tab_eqD)
  moreover have "\<forall>p \<in> set (procs s). p_state p = UNUSED \<and> p_parent p = None"
    using assms(2) by (simp add: boot_table_def)
  ultimately show ?thesis using table_inv_first p(1) by metis
qed

section \<open>The operations of the table, interleaved\<close>

text \<open>
  A step is one operation of a process that has the CPU, the dispatch of a process that is
  ready, or a step of the rest of the kernel, which writes only other fields of the table
  (\<open>elsewhere\<close>). The processes that run at the same time on several CPUs take their steps in
  any order.
\<close>

definition running :: "nat \<Rightarrow> 'a pstate_scheme \<Rightarrow> bool" where
  "running i s \<longleftrightarrow> i < length (procs s) \<and> p_state (procs s ! i) = RUNNING"

definition elsewhere :: "'a pstate_scheme \<Rightarrow> 'a pstate_scheme \<Rightarrow> bool" where
  "elsewhere s t \<longleftrightarrow> nextpid t = nextpid s \<and> initproc t = initproc s \<and>
     list_all2 (\<lambda>p q. p_pid q = p_pid p \<and> p_parent q = p_parent p \<and> p_state q = p_state p \<and>
       p_chan q = p_chan p \<and> p_kstack q = p_kstack p \<and> (p_pgdir p \<noteq> 0 \<longrightarrow> p_pgdir q \<noteq> 0)) (procs s) (procs t)"

inductive pt_step :: "'a kstate_scheme \<Rightarrow> 'a kstate_scheme \<Rightarrow> bool" where
  pt_fork: "running i s \<Longrightarrow> fork i s = Ok (r, t) \<Longrightarrow> pt_step s t"
| pt_kill: "running i s \<Longrightarrow> kill pid s = Ok (ok, t) \<Longrightarrow> pt_step s t"
| pt_yield: "running i s \<Longrightarrow> yield_enter i s = Ok t \<Longrightarrow> pt_step s t"
| pt_resume: "running i s \<Longrightarrow> yield_resume s = Ok t \<Longrightarrow> pt_step s t"
| pt_sleep: "running i s \<Longrightarrow> sleep_enter i c own s = Ok t \<Longrightarrow> pt_step s t"
| pt_awake: "running i s \<Longrightarrow> sleep_resume i own s = Ok t \<Longrightarrow> pt_step s t"
| pt_wakeup: "wakeup c s = Ok t \<Longrightarrow> pt_step s t"
| pt_wait: "running i s \<Longrightarrow> wait_enter i s = Ok (r, t) \<Longrightarrow> pt_step s t"
| pt_wait_again: "running i s \<Longrightarrow> wait_resume i s = Ok (r, t) \<Longrightarrow> pt_step s t"
| pt_exit: "running i s \<Longrightarrow> initproc s \<noteq> Some i \<Longrightarrow> exit_zombie i s = Ok t \<Longrightarrow> pt_step s t"
| pt_dispatch: "p_state (procs s ! i) = RUNNABLE \<Longrightarrow> t = start_running i s \<Longrightarrow> pt_step s t"
| pt_elsewhere: "elsewhere s t \<Longrightarrow> pt_step s t"

lemmas op_invs = fork_inv kill_inv yield_enter_inv sleep_enter_inv sleep_resume_inv wakeup_inv
  wait_enter_inv wait_resume_inv exit_zombie_inv start_running_inv

lemma elsewhere_inv:
  assumes "elsewhere s t" "table_inv (tab s)"
  shows "table_inv (tab t)"
proof -
  have "list_all2 milder (procs s) (procs t)"
    using assms(1) unfolding elsewhere_def
    by (auto elim!: list_all2_mono simp: milder_def alive_def able_def proc_ok_def)
  then show ?thesis using assms by (auto simp only: elsewhere_def tab_def intro: table_inv_milder)
qed

lemma pt_step_inv: "pt_step s t \<Longrightarrow> table_inv (tab s) \<Longrightarrow> table_inv (tab t)"
proof (induction rule: pt_step.induct)
  case (pt_resume i s t)
  then show ?case by (simp add: yield_resume_def tab_release)
next
  case (pt_elsewhere s t)
  then show ?case by (blast intro: elsewhere_inv)
next
  case (pt_exit i s t)
  then show ?case unfolding running_def by (blast intro: exit_zombie_inv)
qed (simp_all only: running_def op_invs)

lemma pt_steps_inv: "pt_step\<^sup>*\<^sup>* s t \<Longrightarrow> table_inv (tab s) \<Longrightarrow> table_inv (tab t)"
  by (induction rule: rtranclp_induct) (blast intro: pt_step_inv)+

section \<open>Properties\<close>


text \<open>C32: every process of a table so reached is well formed: a sleeper has a channel, a live process
  has a kernel stack and a page table, and a free slot has no parent; so \<^verbatim>\<open>switchuvm\<close>, which
  panics without stack or page table, never stops the dispatch of a process.\<close>

theorem processes_well_formed:
  assumes "table_inv (tab s)" "pt_step\<^sup>*\<^sup>* s t" "i < length (procs t)"
  shows "proc_ok (procs t ! i) \<and>
    (p_state (procs t ! i) = RUNNABLE \<and> in_ptable t \<longrightarrow> is_ok (switchuvm (Some i) t))"
proof (intro conjI impI)
  show ok: "proc_ok (procs t ! i)" using pt_steps_inv [OF assms(2,1)] assms(3) by (simp add: tab_def)
  assume "p_state (procs t ! i) = RUNNABLE \<and> in_ptable t"
  moreover from this have "popcli (pushcli (this_cpu t)) = Ok (this_cpu t)"
    by (simp add: in_ptable_def pushcli_def popcli_def Let_def)
  ultimately show "is_ok (switchuvm (Some i) t)"
    using ok by (simp add: switchuvm_def proc_ok_def alive_def Let_def)
qed


text \<open>C34: \<^verbatim>\<open>kill(0)\<close> succeeds when a slot has been freed, because it does not skip free slots, whose
  pid is 0; and \<^verbatim>\<open>allocproc\<close> does not clear \<^verbatim>\<open>killed\<close>, so the next process in that slot is born killed.\<close>

theorem kill_zero_kills_next_process:
  assumes "table_inv (tab s)" "quiet s" "scan (\<lambda>p. p_state p = UNUSED) (procs s) = Some i" "p_pid (procs s ! i) = 0"
  shows "\<exists>t. kill 0 s = Ok (True, t) \<and> p_killed (procs t ! i) \<and>
    (\<forall>r u. allocproc t = Ok (r, u) \<longrightarrow> p_killed (procs u ! i) \<and> (r = None \<or> r = Some i))"
proof -
  have i: "i < length (procs s)" "p_state (procs s ! i) = UNUSED" using assms(3) by (auto dest: scan_SomeD)
  have "p_pid (procs s ! j) \<noteq> 0" if "j < i" for j
  proof -
    have "p_state (procs s ! j) \<noteq> UNUSED" "j < length (procs s)" using that assms(3) i by (auto simp: scan_Some)
    moreover have "pids_ok (procs s) (nextpid s)" using assms(1) by (simp add: tab_def)
    ultimately show ?thesis unfolding pids_ok_def by fastforce
  qed
  then have "scan (\<lambda>p. p_pid p = 0) (procs s) = Some i" using i assms(4) by (simp add: scan_Some)
  moreover obtain s1 where s1: "ptable_acquire s = Ok s1" "procs s1 = procs s"
      "\<forall>ps. \<exists>s2. ptable_release (s1\<lparr>procs := ps\<rparr>) = Ok s2 \<and> same_but_lock (s\<lparr>procs := ps\<rparr>) s2"
    using ptable_section [OF assms(2)] by blast
  moreover from s1(3) obtain t where t: "ptable_release (s1\<lparr>procs := (procs s)[i := (procs s ! i)\<lparr>p_killed := True\<rparr>]\<rparr>) = Ok t"
      "same_but_lock (s\<lparr>procs := (procs s)[i := (procs s ! i)\<lparr>p_killed := True\<rparr>]\<rparr>) t" by blast
  ultimately have k: "kill 0 s = Ok (True, t)" using i by (simp add: kill_def upd_proc_def Let_def)
  have p: "procs t = (procs s)[i := (procs s ! i)\<lparr>p_killed := True\<rparr>]"
    using t(2) by (auto simp: same_but_lock_iff)
  have sc: "scan (\<lambda>p. p_state p = UNUSED) (procs t) = Some i"
    using assms(3) i by (auto simp: scan_Some p)
  have "p_killed (procs u ! i) \<and> (r = None \<or> r = Some i)" if "allocproc t = Ok (r, u)" for r u
    using tab_allocproc [OF that] sc p i by (auto simp: tab_def)
  then show ?thesis using k p i by auto
qed

section \<open>Example\<close>

definition no_file :: ofile where
  "no_file = \<lparr>f_type = FD_NONE, f_ref = 0, f_readable = False, f_writable = False, f_pipe = 0, f_ip = None, f_off = 0\<rparr>"

definition example_kstate :: kstate where
  "example_kstate = example_pipestate (filestate_ext (replicate NFILE no_file)
     (instate_ext (\<lambda>k. 0) 0 0 0 (kstate_ext (\<lambda>k. 0) False ())))"

lemma example_table:
  "procs example_kstate = [example_proc RUNNING 1 None, example_proc RUNNABLE 2 (Some 0), example_proc ZOMBIE 3 (Some 0),
     example_proc UNUSED 0 None]" "nextpid example_kstate = 4" "initproc example_kstate = Some 0"
  "quiet example_kstate"
  by (simp_all add: example_kstate_def example_defs quiet_def example_cpu_def)

lemma example_table_inv: "table_inv (tab example_kstate)"
proof -
  have four: "i < 4 \<longleftrightarrow> i = 0 \<or> i = 1 \<or> i = 2 \<or> i = 3" for i :: nat by arith
  have a: "(\<forall>i < 4 :: nat. P i) = (P 0 \<and> P 1 \<and> P 2 \<and> P 3)" for P by (auto simp: four)
  have e: "(\<exists>i < 4 :: nat. P i) = (P 0 \<or> P 1 \<or> P 2 \<or> P 3)" for P by (auto simp: four)
  have len: "length (procs example_kstate) = 4" by (simp add: example_table)
  show ?thesis
    unfolding tab_def table_inv.simps pids_ok_def tree_ok_def has_parent_def len a e
    by (simp add: example_table example_proc_def proc_ok_def alive_def able_def)
qed

lemma example_kill: "\<exists>t. kill 2 example_kstate = Ok (True, t) \<and> length (procs t) = 4"
proof -
  obtain s1 where s1: "ptable_acquire example_kstate = Ok s1" "procs s1 = procs example_kstate"
      "\<forall>ps. \<exists>s2. ptable_release (s1\<lparr>procs := ps\<rparr>) = Ok s2 \<and> same_but_lock (example_kstate\<lparr>procs := ps\<rparr>) s2"
    using ptable_section [OF example_table(4)] by blast
  let ?ps = "(procs example_kstate)[1 := (procs example_kstate ! 1)\<lparr>p_killed := True\<rparr>]"
  from s1(3) obtain t where "ptable_release (s1\<lparr>procs := ?ps\<rparr>) = Ok t" "same_but_lock (example_kstate\<lparr>procs := ?ps\<rparr>) t"
    by blast
  with s1(1,2) show ?thesis
    by (auto simp: kill_def example_table scan_def example_proc_def upd_proc_def Let_def same_but_lock_iff)
qed

lemma example_step: "\<exists>t. pt_step example_kstate t \<and> length (procs t) = 4"
proof -
  have "running 0 example_kstate" by (simp add: running_def example_table example_proc_def)
  then show ?thesis using example_kill pt_kill by blast
qed


theorem processes_well_formed_witness: "\<exists>t. pt_step\<^sup>*\<^sup>* example_kstate t \<and> proc_ok (procs t ! 1)"
proof -
  obtain t where "pt_step example_kstate t" "length (procs t) = 4" using example_step by blast
  then have "pt_step\<^sup>*\<^sup>* example_kstate t" "1 < length (procs t)" by auto
  with processes_well_formed [OF example_table_inv] show ?thesis by blast
qed

theorem kill_zero_kills_next_process_witness:
  "\<exists>t. kill 0 example_kstate = Ok (True, t) \<and> p_killed (procs t ! 3) \<and>
    (\<forall>r u. allocproc t = Ok (r, u) \<longrightarrow> p_killed (procs u ! 3) \<and> (r = None \<or> r = Some 3))"
  by (rule kill_zero_kills_next_process [OF example_table_inv example_table(4)])
    (simp_all add: example_table scan_def example_proc_def)

text \<open>The second process, which has no child, when it runs and waits.\<close>

abbreviation example_waiter :: kstate where
  "example_waiter \<equiv> start_running 1 example_kstate"

lemma example_waiter:
  "table_inv (tab example_waiter)" "running 1 example_waiter" "quiet example_waiter"
  "\<forall>p \<in> set (procs example_waiter). \<not> child_of 1 p"
proof -
  show "table_inv (tab example_waiter)"
    by (rule start_running_inv [OF example_table_inv]) (simp add: example_table example_proc_def)
  have "procs example_waiter = [example_proc RUNNING 1 None,
      first_run (ticks example_kstate) ((example_proc RUNNABLE 2 (Some 0))\<lparr>p_state := RUNNING\<rparr>),
      example_proc ZOMBIE 3 (Some 0), example_proc UNUSED 0 None]"
    using tab_start_running [of 1 example_kstate] by (simp add: tab_def example_table)
  then show "running 1 example_waiter" "\<forall>p \<in> set (procs example_waiter). \<not> child_of 1 p"
    by (simp_all add: running_def first_run_def example_proc_def child_of_def)
  show "quiet example_waiter"
    using example_table(4) by (simp add: start_running_def upd_proc_def Let_def)
qed


end
