(* ===== verification/Syslog.thy ===== *)
theory Syslog
  imports Sysproc
begin

text \<open>
  The history of system calls that \<^verbatim>\<open>syscall\<close> keeps with \<^verbatim>\<open>register_syscall\<close> and
  \<^verbatim>\<open>set_last_syscall_info\<close>: what one call adds to it, what happens when it is full, and where
  its arrays end.
\<close>

text \<open>What \<open>log_syscalls\<close> prints, and the slot that the next call fills.\<close>

definition recorded :: "'a pstate_scheme \<Rightarrow> syscall_info list" where
  "recorded s = take (rscount s) (history s)"

definition filled :: "int \<Rightarrow> nat \<Rightarrow> u8 list \<Rightarrow> rtcdate \<Rightarrow> syscall_info \<Rightarrow> syscall_info" where
  "filled pid num nm r si = si\<lparr>si_date := r, si_pid := pid, si_name := Some nm, si_id := num\<rparr>"

lemma history_upd_proc [simp]: "history (upd_proc i f s) = history s" "rscount (upd_proc i f s) = rscount s"
  by (simp_all add: upd_proc_def)

lemma register_history:
  "history (register_syscall pid num nm r s) =
     (let h = (history s)[rscount s := filled pid num nm r (history s ! rscount s)]
      in if RSCOUNTMAX \<le> rscount s + 1 then compact_history h else h)"
  "rscount (register_syscall pid num nm r s) = (if RSCOUNTMAX \<le> rscount s + 1 then 51 else rscount s + 1)"
  by (simp_all add: register_syscall_def Let_def filled_def split: option.splits)

lemma compact_take:
  assumes "length h = RSCOUNTMAX"
  shows "take 51 (compact_history h) = drop 50 h @ [h ! 50]"
proof (rule nth_equalityI)
  show "length (take 51 (compact_history h)) = length (drop 50 h @ [h ! 50])"
    using assms by (simp add: compact_history_def Let_def)
next
  fix i assume "i < length (take 51 (compact_history h))"
  then have i: "i < 51" by simp
  show "take 51 (compact_history h) ! i = (drop 50 h @ [h ! 50]) ! i"
  proof (cases "i < 50")
    case True
    then show ?thesis using assms by (simp add: compact_history_def Let_def nth_append add.commute)
  next
    case False
    then have "i = 50" using i by simp
    then show ?thesis using assms by (simp add: compact_history_def Let_def nth_append)
  qed
qed

lemma compact_slot: "length h = RSCOUNTMAX \<Longrightarrow> compact_history h ! 51 = h ! 51"
  by (simp add: compact_history_def Let_def)

text \<open>C35: a system call is added to the end of the recorded ones; when that fills the history, the older
  half is dropped and the count is one too high, so that the oldest call kept is listed a second time, as the latest.\<close>

theorem register_syscall_appends:
  assumes "length (history s) = RSCOUNTMAX" "rscount s < RSCOUNTMAX" "t = register_syscall pid num nm r s"
  shows "length (history t) = RSCOUNTMAX \<and> rscount t < RSCOUNTMAX \<and>
    recorded t =
      (let log = recorded s @ [filled pid num nm r (history s ! rscount s)]
       in if length log < RSCOUNTMAX then log else drop 50 log @ [hd (drop 50 log)])"
proof -
  let ?h = "(history s)[rscount s := filled pid num nm r (history s ! rscount s)]"
  have len: "length ?h = RSCOUNTMAX" "length (recorded s) = rscount s" using assms by (simp_all add: recorded_def)
  have log: "take (rscount s + 1) ?h = recorded s @ [filled pid num nm r (history s ! rscount s)]"
    using assms by (simp add: recorded_def take_Suc_conv_app_nth)
  show ?thesis
  proof (cases "rscount s + 1 < RSCOUNTMAX")
    case True
    then show ?thesis using assms log len by (simp add: register_history Let_def recorded_def)
  next
    case False
    then have n: "rscount s = 99" using assms by simp
    have "recorded t = take 51 (compact_history ?h)"
      using n unfolding assms(3) recorded_def register_history by (simp add: Let_def)
    also have "\<dots> = drop 50 ?h @ [?h ! 50]" by (rule compact_take [OF len(1)])
    also have "?h = recorded s @ [filled pid num nm r (history s ! rscount s)]"
      using log len(1) n by simp
    finally show ?thesis
      using n assms len unfolding assms(3) register_history
      by (simp add: Let_def compact_history_def hd_drop_conv_nth nth_append)
  qed
qed


text \<open>Recording the arguments of one call, in order.\<close>

fun record_args :: "cstr list \<Rightarrow> 'a pstate_scheme \<Rightarrow> 'a pstate_scheme option" where
  "record_args [] s = Some s"
| "record_args (x # xs) s = Option.bind (set_last_syscall_info x s) (record_args xs)"

lemma record_args_overflow:
  assumes "\<forall>x \<in> set xs. x 0 \<noteq> 0" "length (si_args (history s ! rscount s)) = 10"
    "10 < si_args_c (history s ! rscount s) + length xs" "si_args_c (history s ! rscount s) \<le> 10" "rscount s < length (history s)"
  shows "record_args xs s = None"
  using assms
proof (induction xs arbitrary: s)
  case (Cons x xs)
  let ?si = "history s ! rscount s"
  have n: "length (takeWhile (\<lambda>i. x i \<noteq> 0) [0 ..< 10]) \<noteq> 0"
    using Cons.prems(1) by (simp add: upt_rec)
  show ?case
  proof (cases "si_args_c ?si < 10")
    case False
    then show ?thesis using n Cons.prems(2) by (simp add: set_last_syscall_info_def Let_def)
  next
    case True
    then obtain u where u: "set_last_syscall_info x s = Some u"
      using Cons.prems(2) by (simp add: set_last_syscall_info_def Let_def)
    then have "rscount u = rscount s" "length (history u) = length (history s)"
      "length (si_args (history u ! rscount s)) = 10" "si_args_c (history u ! rscount s) = si_args_c ?si + 1"
      using True Cons.prems(2,5) by (auto simp: set_last_syscall_info_def Let_def)
    then have "record_args xs u = None" using Cons.prems True by (intro Cons.IH) auto
    then show ?thesis using u by simp
  qed
qed simp

text \<open>C37: when the history is compacted the argument count of the next slot is not reset: six arguments
  recorded for a \<^verbatim>\<open>read\<close> in slot 51 before, and six for another \<^verbatim>\<open>read\<close> after, write past
  the ten argument slots.\<close>

theorem compacted_slot_overflows:
  assumes "length (history s) = RSCOUNTMAX" "rscount s = 99" "t = register_syscall pid num nm r s"
    "si_args_c (history s ! 51) = 6" "length (si_args (history s ! 51)) = 10"
    "length xs = 6" "\<forall>x \<in> set xs. x 0 \<noteq> 0"
  shows "rscount t = 51 \<and> record_args xs t = None"
proof -
  have t: "rscount t = 51" "history t ! 51 = history s ! 51" "length (history t) = RSCOUNTMAX"
    using assms(1,2) unfolding assms(3) register_history
    by (simp_all add: Let_def compact_slot compact_history_def)
  then have "record_args xs t = None" using assms by (intro record_args_overflow) auto
  then show ?thesis using t(1) by simp
qed

section \<open>Example\<close>

definition blank_call :: syscall_info where
  "blank_call = \<lparr>si_name = None, si_id = 0, si_pid = 0,
     si_date = \<lparr>second = 0, minute = 0, hour = 0, day = 0, month = 0, year = 0\<rparr>,
     si_args = replicate 10 (replicate 10 0), si_args_c = 6\<rparr>"

definition full_history :: pstate where
  "full_history = (example_state ())\<lparr>history := replicate RSCOUNTMAX blank_call, rscount := 99\<rparr>"

lemma full_history:
  "length (history full_history) = RSCOUNTMAX" "rscount full_history = 99" "history full_history ! 51 = blank_call"
  "procs full_history = procs (example_state ())"
  by (simp_all add: full_history_def)

theorem register_syscall_appends_witness:
  "let s = full_history; t = register_syscall 1 5 (bytes ''read'') (si_date blank_call) s in
    length (history t) = RSCOUNTMAX \<and> rscount t < RSCOUNTMAX \<and>
    recorded t =
      (let log = recorded s @ [filled 1 5 (bytes ''read'') (si_date blank_call) (history s ! rscount s)]
       in if length log < RSCOUNTMAX then log else drop 50 log @ [hd (drop 50 log)])"
  unfolding Let_def [of full_history] Let_def [of "register_syscall _ _ _ _ _"]
  by (rule register_syscall_appends) (simp_all add: full_history)


theorem compacted_slot_overflows_witness:
  "rscount (register_syscall 1 5 (bytes ''read'') (si_date blank_call) full_history) = 51 \<and>
   record_args (replicate 6 (cstr_of (bytes ''int'')))
     (register_syscall 1 5 (bytes ''read'') (si_date blank_call) full_history) = None"
  by (rule compacted_slot_overflows [OF _ _ refl])
    (simp_all add: full_history blank_call_def cstr_of_def bytes_def)

end
