(* ===== verification/Userprog.thy ===== *)
theory Userprog
  imports Uaccess
begin

text \<open>
  User programs that compute something: the numbers that \<^verbatim>\<open>printf\<close> prints and \<^verbatim>\<open>atoi\<close> reads,
  \<^verbatim>\<open>wc.c\<close>, \<^verbatim>\<open>cat.c\<close> and the name column of \<^verbatim>\<open>ls.c\<close>. The input of a program is the list of the
  pieces that its calls of \<^verbatim>\<open>read\<close> return, up to the first that returns 0 or -1.
\<close>

section \<open>Decimal numbers\<close>

fun decimal_digits :: "nat \<Rightarrow> nat list" where
  "decimal_digits n = (if n < 10 then [n] else decimal_digits (n div 10) @ [n mod 10])"

declare decimal_digits.simps [simp del]

text \<open>The usual text of a number.\<close>

definition decimal :: "nat \<Rightarrow> u8 list" where
  "decimal n = map (\<lambda>d. of_nat (48 + d)) (decimal_digits n)"

lemma decimal_digits_less: "d \<in> set (decimal_digits n) \<Longrightarrow> d < 10"
proof (induction n rule: decimal_digits.induct)
  case (1 n)
  show ?case using 1 by (cases "n < 10") (auto simp: decimal_digits.simps [of n])
qed

lemma decimal_digits_value: "foldl (\<lambda>v d. v * 10 + d) 0 (decimal_digits n) = n"
proof (induction n rule: decimal_digits.induct)
  case (1 n)
  show ?case using 1 by (cases "n < 10") (simp_all add: decimal_digits.simps [of n])
qed

lemma digit_char:
  assumes "d < 10"
  shows "bytes ''0123456789abcdef'' ! d = of_nat (48 + d)" "bytes ''0123456789ABCDEF'' ! d = of_nat (48 + d)"
proof -
  have "d \<in> {0, 1, 2, 3, 4, 5, 6, 7, 8, 9}" using assms by auto
  then show "bytes ''0123456789abcdef'' ! d = of_nat (48 + d)" "bytes ''0123456789ABCDEF'' ! d = of_nat (48 + d)"
    by (auto simp: bytes_def)
qed

lemma digits_loop_decimal:
  assumes "\<And>d. d < 10 \<Longrightarrow> ds ! d = of_nat (48 + d)"
  shows "rev (digits_loop ds 10 x) = decimal (unat x)"
proof (induction "unat x" arbitrary: x rule: less_induct)
  case less
  have q: "unat (x div 10) = unat x div 10" and r: "unat (x mod 10) = unat x mod 10"
    by (simp_all add: unat_div unat_mod)
  have z: "x div 10 = 0 \<longleftrightarrow> unat x < 10" by (simp add: word_unat_eq_iff q div_eq_0_iff)
  have b: "\<not> (10 :: u32) < 2" by simp
  show ?case
  proof (cases "unat x < 10")
    case True
    then show ?thesis using z assms r
      by (subst digits_loop.simps) (simp add: Let_def decimal_def decimal_digits.simps)
  next
    case False
    then have "rev (digits_loop ds 10 (x div 10)) = decimal (unat x div 10)"
      using less [of "x div 10"] q by simp
    then show ?thesis using False z b assms r
      by (subst digits_loop.simps) (simp add: Let_def decimal_def decimal_digits.simps [of "unat x"])
  qed
qed

text \<open>The text of a signed number, as \<open>%d\<close> prints it.\<close>

definition signed_decimal :: "int \<Rightarrow> u8 list" where
  "signed_decimal n = (if n < 0 then 45 # decimal (nat (- n)) else decimal (nat n))"

lemma unat_sint_neg: "sint (x :: u32) < 0 \<Longrightarrow> unat (- x) = nat (- sint x)"
proof -
  assume n: "sint x < 0"
  have "- 2147483648 \<le> sint x" using sint_ge [of x] by simp
  have "uint (- x) = uint (word_of_int (- sint x) :: u32)" by simp
  also have "\<dots> = - sint x mod 4294967296" by (simp only: uint_word_of_int) simp
  also have "\<dots> = - sint x" using n \<open>- 2147483648 \<le> sint x\<close> by (intro mod_pos_pos_trivial) auto
  finally show ?thesis by (simp flip: nat_uint_eq)
qed

lemma unat_sint_pos: "0 \<le> sint (x :: u32) \<Longrightarrow> unat x = nat (sint x)"
proof -
  assume n: "0 \<le> sint x"
  have "sint x < 2147483648" using sint_lt [of x] by simp
  have "uint x = uint (word_of_int (sint x) :: u32)" by simp
  also have "\<dots> = sint x mod 4294967296" by (simp only: uint_word_of_int) simp
  also have "\<dots> = sint x" using n \<open>sint x < 2147483648\<close> by (intro mod_pos_pos_trivial) auto
  finally show ?thesis by (simp flip: nat_uint_eq)
qed

lemma printint_signed: "printint x 10 True = signed_decimal (sint x)" "user_printint x 10 True = signed_decimal (sint x)"
  using digits_loop_decimal [OF digit_char(1)] digits_loop_decimal [OF digit_char(2)]
  by (simp_all add: printint_def user_printint_def Let_def signed_decimal_def unat_sint_neg unat_sint_pos bytes_def
      del: bytes_def) (simp_all add: bytes_def)

section \<open>Reading a number\<close>

lemma digit_byte:
  assumes "d < 10"
  shows "48 \<le> (of_nat (48 + d) :: u8)" "(of_nat (48 + d) :: u8) \<le> 57" "uint (of_nat (48 + d) :: u8) = 48 + int d"
proof -
  have u: "unat (of_nat (48 + d) :: u8) = 48 + d" using assms by (simp add: unat_of_nat take_bit_eq_mod del: of_nat_add)
  then show "48 \<le> (of_nat (48 + d) :: u8)" "(of_nat (48 + d) :: u8) \<le> 57"
    using assms by (simp_all add: word_le_nat_alt del: of_nat_add)
  show "uint (of_nat (48 + d) :: u8) = 48 + int d" using u by (simp add: uint_nat del: of_nat_add)
qed

lemma atoi_digits:
  assumes "\<forall>d \<in> set ds. d < 10"
  shows "atoi_from (cstr_of (pre @ map (\<lambda>d. of_nat (48 + d)) ds)) (length pre) n =
    Some (foldl (\<lambda>v d. v * 10 + int d) n ds)"
  using assms
proof (induction ds arbitrary: pre n)
  case Nil
  have "cstr_of pre (length pre) = 0" by (simp add: cstr_of_def)
  then show ?case by (simp add: atoi_from_step(2))
next
  case (Cons d ds)
  let ?s = "cstr_of (pre @ map (\<lambda>d. of_nat (48 + d)) (d # ds))"
  have d: "d < 10" using Cons.prems by simp
  have c: "?s (length pre) = of_nat (48 + d)" by (simp add: cstr_of_def nth_append)
  have "atoi_from ?s (length pre) n = atoi_from ?s (Suc (length pre)) (n * 10 + uint (?s (length pre)) - 48)"
    by (rule atoi_from_step(1)) (simp_all only: c digit_byte [OF d])
  also have "\<dots> = atoi_from ?s (Suc (length pre)) (n * 10 + int d)"
    unfolding c digit_byte(3) [OF d] by simp
  also have "\<dots> = Some (foldl (\<lambda>v d. v * 10 + int d) (n * 10 + int d) ds)"
    using Cons.IH [of "pre @ [of_nat (48 + d)]" "n * 10 + int d"] Cons.prems by simp
  finally show ?case by simp
qed

lemma foldl_int: "foldl (\<lambda>v d. v * 10 + int d) (int n) ds = int (foldl (\<lambda>v d. v * 10 + d) n ds)"
proof (induction ds arbitrary: n)
  case (Cons d ds)
  have "int n * 10 + int d = int (n * 10 + d)" by simp
  then show ?case using Cons [of "n * 10 + d"] by (simp only: foldl_Cons)
qed simp

lemma atoi_decimal: "atoi (cstr_of (decimal n)) = Some (int n)"
  using atoi_digits [of "decimal_digits n" "[]" 0] decimal_digits_less foldl_int [of 0 "decimal_digits n"]
  by (simp add: atoi_def decimal_def decimal_digits_value)

text \<open>C39: \<^verbatim>\<open>%d\<close> prints a number in decimal, with a minus sign if it is negative (the smallest one
  included), in the kernel and in the user library; and \<^verbatim>\<open>atoi\<close> reads a number that is not
  negative back. It knows no sign.\<close>

theorem printint_then_atoi:
  "printint x 10 True = signed_decimal (sint x) \<and> user_printint x 10 True = signed_decimal (sint x) \<and>
   atoi (cstr_of (user_printint x 10 True)) = Some (if sint x < 0 then 0 else sint x)"
proof -
  have "atoi (cstr_of (45 # xs)) = Some 0" for xs
    by (simp add: atoi_def cstr_of_def atoi_from_step(2))
  then show ?thesis by (simp add: printint_signed signed_decimal_def atoi_decimal)
qed

section \<open>wc\<close>

definition white :: "u8 \<Rightarrow> bool" where
  "white b \<longleftrightarrow> strchr (cstr_of [32, 13, 9, 10, 11]) b \<noteq> Some None"

text \<open>The body of the inner loop, on the counts of lines, words and characters and \<^verbatim>\<open>inword\<close>.\<close>

fun wc_byte :: "u32 \<times> u32 \<times> u32 \<times> bool \<Rightarrow> u8 \<Rightarrow> u32 \<times> u32 \<times> u32 \<times> bool" where
  "wc_byte (l, w, c, inword) b =
     (let c = c + 1;
          l = (if b = 10 then l + 1 else l)
      in if white b then (l, w, c, False)
         else if \<not> inword then (l, w + 1, c, True)
         else (l, w, c, inword))"

text \<open>\<open>ok\<close> says that the last \<^verbatim>\<open>read\<close> returned 0; otherwise it returned -1.\<close>

definition wc :: "u8 list list \<Rightarrow> bool \<Rightarrow> u8 list \<Rightarrow> u8 list option" where
  "wc reads ok name =
     (let (l, w, c, inword) = foldl (foldl wc_byte) (0, 0, 0, False) reads
      in if \<not> ok then printf (bytes ''wc: read error'' @ [10]) []
         else printf (bytes ''%d %d %d %s'' @ [10]) [ArgInt l, ArgInt w, ArgInt c, ArgStr (Some name)])"

text \<open>A word starts at a byte that is not white and follows the start of the text or a white byte.\<close>

definition word_starts :: "u8 list \<Rightarrow> nat set" where
  "word_starts xs = {i. i < length xs \<and> \<not> white (xs ! i) \<and> (i = 0 \<or> white (xs ! (i - 1)))}"

lemma white_iff: "white b \<longleftrightarrow> b \<in> {32, 13, 9, 10, 11}"
proof -
  let ?s = "cstr_of [32, 13, 9, 10, 11 :: u8]"
  have s: "?s 0 = 32" "?s (Suc 0) = 13" "?s (Suc (Suc 0)) = 9" "?s (Suc (Suc (Suc 0))) = 10"
    "?s (Suc (Suc (Suc (Suc 0)))) = 11" "?s (Suc (Suc (Suc (Suc (Suc 0))))) = 0"
    by (simp_all add: cstr_of_def)
  note u = strchr_from.simps [of ?s b]
  show ?thesis
    unfolding white_def strchr_def
    by (subst u, subst u, subst u, subst u, subst u, subst u) (simp add: s)
qed

lemma word_starts_snoc:
  "word_starts (xs @ [b]) =
     word_starts xs \<union> (if \<not> white b \<and> (xs = [] \<or> white (last xs)) then {length xs} else {})"
proof -
  have l: "xs \<noteq> [] \<Longrightarrow> xs ! (length xs - Suc 0) = last xs" by (simp add: last_conv_nth)
  then show ?thesis by (cases "xs = []") (auto simp: word_starts_def nth_append less_Suc_eq)
qed

lemma card_word_starts_snoc:
  "card (word_starts (xs @ [b])) =
     card (word_starts xs) + (if \<not> white b \<and> (xs = [] \<or> white (last xs)) then 1 else 0)"
proof -
  have "finite (word_starts xs)" "length xs \<notin> word_starts xs" by (simp_all add: word_starts_def)
  then show ?thesis unfolding word_starts_snoc by simp
qed

lemma wc_scan:
  "foldl wc_byte (0, 0, 0, False) xs =
     (of_nat (count_list xs 10), of_nat (card (word_starts xs)), of_nat (length xs), xs \<noteq> [] \<and> \<not> white (last xs))"
proof (induction xs rule: rev_induct)
  case Nil
  then show ?case by (simp add: word_starts_def)
next
  case (snoc b xs)
  then show ?case by (auto simp: Let_def card_word_starts_snoc)
qed

lemma foldl_concat: "foldl (foldl f) a xss = foldl f a (concat xss)"
  by (induction xss arbitrary: a) simp_all

lemma sint_of_nat32: "n < 2147483648 \<Longrightarrow> sint (of_nat n :: u32) = int n"
  using int_word_sint [of "int n", where ?'a = 32] by simp

text \<open>C40: on any input below 2 GB, however its reads cut it up, \<^verbatim>\<open>wc\<close> prints in decimal the number of
  newlines, of words (runs of bytes that are not white space) and of bytes, and the name.\<close>

theorem wc_counts:
  assumes "length (concat reads) < 2147483648"
  shows "wc reads True name =
    Some (decimal (count_list (concat reads) 10) @ [32] @ decimal (card (word_starts (concat reads))) @ [32] @
      decimal (length (concat reads)) @ [32] @ name @ [10])"
proof -
  let ?xs = "concat reads"
  have "count_list ?xs 10 < 2147483648" using count_le_length [of ?xs 10] assms by linarith
  moreover have "word_starts ?xs \<subseteq> {..< length ?xs}" by (auto simp: word_starts_def)
  then have "card (word_starts ?xs) \<le> length ?xs" using card_mono [of "{..< length ?xs}"] by fastforce
  then have "card (word_starts ?xs) < 2147483648" using assms by linarith
  ultimately show ?thesis using assms
    by (simp add: wc_def foldl_concat wc_scan printf_def bytes_def emit_def printint_signed signed_decimal_def sint_of_nat32)
qed

theorem wc_counts_witness:
  "wc [bytes ''ab'', bytes ''c d'' @ [10]] True (bytes ''f'') = Some (bytes ''1 2 6 f'' @ [10])"
proof -
  let ?xs = "bytes ''ab'' @ bytes ''c d'' @ [10] :: u8 list"
  have e: "?xs = (((((([] @ [97]) @ [98]) @ [99]) @ [32]) @ [100]) @ [10])" by (simp add: bytes_def)
  have "card (word_starts ?xs) = 2"
    unfolding e card_word_starts_snoc by (simp add: white_iff word_starts_def)
  then show ?thesis
    using wc_counts [of "[bytes ''ab'', bytes ''c d'' @ [10]]" "bytes ''f''"]
    by (simp add: bytes_def decimal_def decimal_digits.simps)
qed

section \<open>cat\<close>

text \<open>
  \<open>writes\<close> are what the calls of \<^verbatim>\<open>write\<close> return, and each puts out that many bytes. The result is
  the output with the message, if there is one.
\<close>

fun cat :: "u8 list list \<Rightarrow> bool \<Rightarrow> int list \<Rightarrow> u8 list \<times> u8 list" where
  "cat [] ok ws = ([], if \<not> ok then bytes ''cat: read error'' @ [10] else [])"
| "cat (x # xs) ok ws =
     (let n = hd ws; out = take (nat n) x in
      if n \<noteq> int (length x) then (out, bytes ''cat: write error'' @ [10])
      else let (out', msg) = cat xs ok (tl ws) in (out @ out', msg))"

lemma cat_copies: "list_all2 (\<lambda>n x. n = int (length x)) ws xs \<Longrightarrow> cat xs True ws = (concat xs, [])"
  by (induction xs arbitrary: ws) (auto simp: list_all2_Cons2 Let_def)

end
