(* ===== verification/Umalloc.thy ===== *)
theory Umalloc
  imports Prelude
begin

text \<open>
  \<^verbatim>\<open>umalloc.c\<close>: the allocator of the user library. The header of a block is two words, its
  size in units of 8 bytes and, in a free block, the address of the next free block; the
  free blocks form a ring in the order of their addresses, with the static header \<^verbatim>\<open>base\<close>.
  The state has the headers as two functions of the address: the bytes behind a header
  belong to the client, who is taken not to write outside its blocks.
\<close>

record umem =
  hp :: "u32 \<Rightarrow> u32"
  hs :: "u32 \<Rightarrow> u32"
  freep :: u32
  base :: u32
  brk :: u32

section \<open>The code\<close>

text \<open>The loop of \<^verbatim>\<open>free\<close>: between which two free blocks the block \<open>bp\<close> lies.\<close>

partial_function (option) free_search :: "(u32 \<Rightarrow> u32) \<Rightarrow> u32 \<Rightarrow> u32 \<Rightarrow> u32 option" where
  "free_search ptr bp p =
     (if bp > p \<and> bp < ptr p then Some p
      else if p \<ge> ptr p \<and> (bp > p \<or> bp < ptr p) then Some p
      else free_search ptr bp (ptr p))"

definition free :: "u32 \<Rightarrow> umem \<Rightarrow> umem option" where
  "free ap s =
     (let bp = ap - 8 in
      Option.bind (free_search (hp s) bp (freep s)) (\<lambda>p.
      let s = (if bp + 8 * hs s bp = hp s p then
                 let s = s\<lparr>hs := (hs s)(bp := hs s bp + hs s (hp s p))\<rparr>
                 in s\<lparr>hp := (hp s)(bp := hp s (hp s p))\<rparr>
               else s\<lparr>hp := (hp s)(bp := hp s p)\<rparr>);
          s = (if p + 8 * hs s p = bp then
                 let s = s\<lparr>hs := (hs s)(p := hs s p + hs s bp)\<rparr>
                 in s\<lparr>hp := (hp s)(p := hp s bp)\<rparr>
               else s\<lparr>hp := (hp s)(p := bp)\<rparr>)
      in Some (s\<lparr>freep := p\<rparr>)))"

text \<open>
  The kernel's \<^verbatim>\<open>sbrk\<close>, as the process sees it: \<open>grant\<close> says whether it gives \<open>n\<close> more bytes
  at the end \<open>b\<close> of its memory. The result is the old end, or -1.
\<close>

definition sbrk :: "(u32 \<Rightarrow> u32 \<Rightarrow> bool) \<Rightarrow> u32 \<Rightarrow> umem \<Rightarrow> u32 \<times> umem" where
  "sbrk grant n s = (if grant (brk s) n then (brk s, s\<lparr>brk := brk s + n\<rparr>) else (- 1, s))"

definition morecore :: "(u32 \<Rightarrow> u32 \<Rightarrow> bool) \<Rightarrow> u32 \<Rightarrow> umem \<Rightarrow> (u32 \<times> umem) option" where
  "morecore grant nu s =
     (let nu = (if nu < 4096 then 4096 else nu);
          (p, s) = sbrk grant (nu * 8) s
      in if p = - 1 then Some (0, s)
         else
           let s = s\<lparr>hs := (hs s)(p := nu)\<rparr>
           in Option.bind (free (p + 8) s) (\<lambda>s. Some (freep s, s)))"

text \<open>A block \<open>p\<close> that is large enough is taken whole, or cut at its end.\<close>

definition carve :: "u32 \<Rightarrow> u32 \<Rightarrow> u32 \<Rightarrow> umem \<Rightarrow> u32 \<times> umem" where
  "carve nunits prevp p s =
     (let (p, s) =
        (if hs s p = nunits then (p, s\<lparr>hp := (hp s)(prevp := hp s p)\<rparr>)
         else
           let s = s\<lparr>hs := (hs s)(p := hs s p - nunits)\<rparr>;
               p = p + 8 * hs s p
           in (p, s\<lparr>hs := (hs s)(p := nunits)\<rparr>))
      in (p + 8, s\<lparr>freep := prevp\<rparr>))"

partial_function (option) malloc_loop ::
  "(u32 \<Rightarrow> u32 \<Rightarrow> bool) \<Rightarrow> u32 \<Rightarrow> u32 \<Rightarrow> u32 \<Rightarrow> umem \<Rightarrow> (u32 \<times> umem) option" where
  "malloc_loop grant nunits prevp p s =
     (if hs s p \<ge> nunits then Some (carve nunits prevp p s)
      else if p = freep s then
        Option.bind (morecore grant nunits s) (\<lambda>(p, s).
        if p = 0 then Some (0, s) else malloc_loop grant nunits p (hp s p) s)
      else malloc_loop grant nunits p (hp s p) s)"

definition units_for :: "u32 \<Rightarrow> u32" where
  "units_for nbytes = (nbytes + 8 - 1) div 8 + 1"

definition malloc :: "(u32 \<Rightarrow> u32 \<Rightarrow> bool) \<Rightarrow> u32 \<Rightarrow> umem \<Rightarrow> (u32 \<times> umem) option" where
  "malloc grant nbytes s =
     (let s = (if freep s = 0 then
                 s\<lparr>hp := (hp s)(base s := base s), freep := base s, hs := (hs s)(base s := 0)\<rparr>
               else s)
      in malloc_loop grant (units_for nbytes) (freep s) (hp s (freep s)) s)"

section \<open>The ring of free blocks\<close>

fun links :: "(u32 \<Rightarrow> u32) \<Rightarrow> u32 \<Rightarrow> u32 list \<Rightarrow> u32 \<Rightarrow> bool" where
  "links h p [] q \<longleftrightarrow> h p = q"
| "links h p (y # ys) q \<longleftrightarrow> h p = y \<and> links h y ys q"

text \<open>The blocks of \<open>L\<close> point to one another in this order, the last to the first.\<close>

fun ring :: "(u32 \<Rightarrow> u32) \<Rightarrow> u32 list \<Rightarrow> bool" where
  "ring h [] \<longleftrightarrow> False"
| "ring h (x # xs) \<longleftrightarrow> links h x xs x"

lemma links_append: "links h p (ys @ z # zs) q \<longleftrightarrow> links h p ys z \<and> links h z zs q"
  by (induction ys arbitrary: p) auto

lemma links_upd: "a \<noteq> p \<Longrightarrow> a \<notin> set ys \<Longrightarrow> links (h(a := v)) p ys q = links h p ys q"
  by (induction ys arbitrary: p) auto

lemma links_last: "links h p ys q \<Longrightarrow> h (last (p # ys)) = q"
  by (induction ys arbitrary: p) auto

lemma ring_from: "ring h (u @ x # v) \<longleftrightarrow> links h x (v @ u) x"
proof (cases u)
  case (Cons y w)
  then show ?thesis by (auto simp: links_append)
qed simp

lemma ring_insert:
  assumes "ring h (u @ x # v)" "distinct (b # u @ x # v)"
  shows "ring (h(b := h x, x := b)) (u @ x # b # v)"
proof -
  let ?h = "h(b := h x, x := b)"
  have l: "links h x (v @ u) x" using assms(1) by (simp only: ring_from)
  have "links ?h b (v @ u) x"
  proof (cases "v @ u")
    case Nil
    then show ?thesis using l assms(2) by simp
  next
    case (Cons y ys)
    have "b \<notin> set (v @ u)" "x \<notin> set (v @ u)" "b \<noteq> x" using assms(2) by auto
    then show ?thesis using l unfolding Cons by (simp add: links_upd)
  qed
  then have "links ?h x ((b # v) @ u) x" by simp
  then show ?thesis by (simp only: ring_from)
qed

lemma ring_remove:
  assumes "ring h (u @ x # y # v)" "distinct (u @ x # y # v)"
  shows "ring (h(x := h y)) (u @ x # v)"
proof -
  have l: "links h x ((y # v) @ u) x" using assms(1) by (simp only: ring_from)
  have "links (h(x := h y)) x (v @ u) x"
  proof (cases "v @ u")
    case Nil
    then show ?thesis using l by simp
  next
    case (Cons z zs)
    have "x \<notin> set (v @ u)" using assms(2) by auto
    then show ?thesis using l unfolding append_Cons Cons by (simp add: links_upd)
  qed
  then show ?thesis by (simp only: ring_from)
qed

text \<open>In a sorted ring every link but the last goes up.\<close>

lemma links_up: "links h x ys q \<Longrightarrow> sorted_wrt (<) (x # ys @ [q]) \<Longrightarrow> z \<in> set (x # ys) \<Longrightarrow> z < h z \<and> h z \<le> q"
proof (induction ys arbitrary: x)
  case Nil
  then show ?case by simp
next
  case (Cons y ys)
  then show ?case by (cases "z = x") (auto simp: less_imp_le)
qed

lemma links_up_or_last: "links h x ys q \<Longrightarrow> sorted_wrt (<) (x # ys) \<Longrightarrow> z \<in> set (x # ys) \<Longrightarrow> z < h z \<or> h z = q"
proof (induction ys arbitrary: x)
  case (Cons y ys)
  then show ?case by (cases "z = x") auto
qed simp

lemma search_skip:
  assumes "links h x ys q" "\<forall>z \<in> set (x # ys). \<not> (bp > z \<and> bp < h z) \<and> \<not> (z \<ge> h z \<and> (bp > z \<or> bp < h z))"
  shows "free_search h bp x = free_search h bp q"
  using assms
proof (induction ys arbitrary: x)
  case Nil
  then show ?case by (subst free_search.simps) auto
next
  case (Cons y ys)
  have "free_search h bp x = free_search h bp (h x)"
    using Cons.prems(2) by (subst free_search.simps) auto
  then show ?case using Cons by simp
qed

text \<open>The search ends at the block before \<open>bp\<close>, from wherever it starts.\<close>

lemma free_search_finds:
  assumes "ring h (u @ p # v)" "sorted_wrt (<) (u @ p # bp # v)" "f \<in> set (u @ p # v)"
  shows "free_search h bp f = Some p"
proof -
  have l: "links h p (v @ u) p" using assms(1) by (simp only: ring_from)
  have up: "\<forall>z \<in> set (u @ [p]). z < bp" "\<forall>z \<in> set v. bp < z" "\<forall>z \<in> set u. z < p" "\<forall>z \<in> set v. p < z" "p < bp"
    using assms(2) by (auto simp: sorted_wrt_append)
  have at_p: "free_search h bp p = Some p"
  proof (cases v)
    case Nil
    have "h p \<le> p"
      using l up(3) Nil by (cases u) auto
    then show ?thesis using up(5) by (subst free_search.simps) auto
  next
    case (Cons y w)
    then have "h p = y" "bp < y" using l up(2) by auto
    then show ?thesis using up(5) by (subst free_search.simps) auto
  qed
  have from_u: "free_search h bp x = free_search h bp p" if x: "x \<in> set u" for x
  proof -
    obtain a b where u: "u = a @ x # b" using x by (meson split_list)
    have k: "links h x b p" using l unfolding u by (auto simp: links_append simp flip: append_assoc)
    have "sorted_wrt (<) (x # b @ [p])" using assms(2) unfolding u by (auto simp: sorted_wrt_append)
    then have "z < h z \<and> h z \<le> p" if "z \<in> set (x # b)" for z using links_up [OF k] that by blast
    then show ?thesis using up(5) by (intro search_skip [OF k]) fastforce
  qed
  show ?thesis
  proof (cases "f \<in> set v")
    case False
    then show ?thesis using assms(3) at_p from_u by auto
  next
    case True
    then obtain a b where v: "v = a @ f # b" by (meson split_list)
    obtain r where r: "links h f b r" "r \<in> set (u @ [p])"
      using l unfolding v by (cases u) (auto simp: links_append)
    have "sorted_wrt (<) (f # b)" using assms(2) unfolding v by (auto simp: sorted_wrt_append)
    then have "z < h z \<or> h z = r" if "z \<in> set (f # b)" for z using links_up_or_last [OF r(1)] that by blast
    moreover have "bp < z" if "z \<in> set (f # b)" for z using up(2) that unfolding v by auto
    moreover have "r < bp" using up(1) r(2) by blast
    ultimately have "free_search h bp f = free_search h bp r"
      by (intro search_skip [OF r(1)]) fastforce
    then show ?thesis using r(2) from_u at_p by auto
  qed
qed

section \<open>The invariant\<close>

text \<open>Blocks, as pairs of a header's address and a size in units, that do not overlap.\<close>

definition block_end :: "u32 \<times> u32 \<Rightarrow> nat" where
  "block_end b = unat (fst b) + 8 * unat (snd b)"

definition apart :: "u32 \<times> u32 \<Rightarrow> u32 \<times> u32 \<Rightarrow> bool" where
  "apart a b \<longleftrightarrow> block_end a \<le> unat (fst b) \<or> block_end b \<le> unat (fst a)"

lemma apart_sym: "apart a b = apart b a"
  by (auto simp: apart_def)

text \<open>The heap lies above \<open>base\<close> and below 2 GB, where the kernel's half of the address space begins.\<close>

definition block_ok :: "umem \<Rightarrow> u32 \<times> u32 \<Rightarrow> bool" where
  "block_ok s b \<longleftrightarrow> 0 < snd b \<and> unat (base s) + 8 \<le> unat (fst b) \<and> block_end b \<le> unat (brk s) \<and> hs s (fst b) = snd b"

text \<open>The free blocks \<open>xs\<close> with \<open>base\<close>, and the blocks \<open>A\<close> that the client holds.\<close>

definition blocks :: "umem \<Rightarrow> u32 list \<Rightarrow> (u32 \<times> u32) set \<Rightarrow> (u32 \<times> u32) set" where
  "blocks s xs A = (\<lambda>x. (x, hs s x)) ` set xs \<union> A"

definition heap_ok :: "umem \<Rightarrow> u32 list \<Rightarrow> (u32 \<times> u32) set \<Rightarrow> bool" where
  "heap_ok s xs A \<longleftrightarrow>
     unat (base s) + 8 \<le> unat (brk s) \<and> unat (brk s) < 2147483648 \<and> base s \<noteq> 0 \<and> hs s (base s) = 0 \<and>
     ring (hp s) (base s # xs) \<and> sorted_wrt (<) (base s # xs) \<and> set xs \<inter> fst ` A = {} \<and>
     (\<forall>b \<in> blocks s xs A. block_ok s b) \<and>
     (\<forall>a \<in> blocks s xs A. \<forall>b \<in> blocks s xs A. fst a \<noteq> fst b \<longrightarrow> apart a b)"

lemma block_addr:
  assumes "block_ok s b" "unat (brk s) < 2147483648"
  shows "unat (fst b + 8 * snd b) = block_end b"
proof -
  have "unat (fst b) + 8 * unat (snd b) < 2147483648" using assms by (simp add: block_ok_def block_end_def)
  then have "unat (8 * snd b) = 8 * unat (snd b)" by (simp add: unat_word_ariths)
  then show ?thesis using assms by (subst unat_add32) (simp_all add: block_ok_def block_end_def)
qed

lemma apart_less:
  assumes "apart a b" "fst a < fst b" "0 < snd b"
  shows "block_end a \<le> unat (fst b)"
proof -
  have "unat (fst a) < unat (fst b)" "0 < unat (snd b)" using assms(2,3) by (simp_all add: word_less_nat_alt)
  then show ?thesis using assms(1) by (auto simp: apart_def block_end_def)
qed

lemma insertion_point:
  "sorted_wrt (<) (a # xs) \<Longrightarrow> a < bp \<Longrightarrow> bp \<notin> set xs \<Longrightarrow>
     \<exists>u p v. a # xs = u @ p # v \<and> sorted_wrt (<) (u @ p # bp # v)" for bp :: "'a :: linorder"
proof (induction xs arbitrary: a)
  case Nil
  then show ?case by (intro exI [of _ "[]"] exI [of _ a]) auto
next
  case (Cons y ys)
  show ?case
  proof (cases "y < bp")
    case True
    moreover have "sorted_wrt (<) (y # ys)" "bp \<notin> set ys" using Cons.prems by auto
    ultimately obtain u p v where "y # ys = u @ p # v" "sorted_wrt (<) (u @ p # bp # v)"
      using Cons.IH [of y] by blast
    moreover from this have "\<forall>z \<in> set (u @ p # v). a < z" using Cons.prems(1) by (metis list.set_intros sorted_wrt.simps(2))
    ultimately show ?thesis using Cons.prems(2)
      by (intro exI [of _ "a # u"] exI [of _ p] exI [of _ v]) auto
  next
    case False
    then have "bp < y" using Cons.prems(3) by auto
    then show ?thesis using Cons.prems
      by (intro exI [of _ "[]"] exI [of _ a] exI [of _ "y # ys"]) auto
  qed
qed

text \<open>Putting a block of the client into the ring, and joining it with the next one when they touch.\<close>

definition link_in :: "u32 \<Rightarrow> u32 \<Rightarrow> umem \<Rightarrow> umem" where
  "link_in p bp s = s\<lparr>hp := (hp s)(bp := hp s p, p := bp)\<rparr>"

definition absorb :: "u32 \<Rightarrow> umem \<Rightarrow> umem" where
  "absorb x s = (if x + 8 * hs s x = hp s x then
     s\<lparr>hs := (hs s)(x := hs s x + hs s (hp s x)), hp := (hp s)(x := hp s (hp s x))\<rparr> else s)"

lemma heap_okD:
  assumes "heap_ok s xs A"
  shows "unat (brk s) < 2147483648" "ring (hp s) (base s # xs)" "sorted_wrt (<) (base s # xs)"
    "\<And>b. b \<in> blocks s xs A \<Longrightarrow> block_ok s b"
    "\<And>a b. a \<in> blocks s xs A \<Longrightarrow> b \<in> blocks s xs A \<Longrightarrow> fst a \<noteq> fst b \<Longrightarrow> apart a b"
    "set xs \<inter> fst ` A = {}"
  using assms by (auto simp: heap_ok_def)

lemma heap_ok_consts:
  assumes "heap_ok s xs A"
  shows "unat (base s) + 8 \<le> unat (brk s)" "base s \<noteq> 0" "hs s (base s) = 0"
  using assms by (auto simp: heap_ok_def)

lemma heap_okI:
  assumes "unat (base s) + 8 \<le> unat (brk s)" "unat (brk s) < 2147483648" "base s \<noteq> 0" "hs s (base s) = 0"
    "ring (hp s) (base s # xs)" "sorted_wrt (<) (base s # xs)" "set xs \<inter> fst ` A = {}"
    "\<And>b. b \<in> blocks s xs A \<Longrightarrow> block_ok s b"
    "\<And>a b. a \<in> blocks s xs A \<Longrightarrow> b \<in> blocks s xs A \<Longrightarrow> fst a \<noteq> fst b \<Longrightarrow> apart a b"
  shows "heap_ok s xs A"
  using assms unfolding heap_ok_def by blast

lemma heap_ok_base: "heap_ok s xs A \<Longrightarrow> base s \<notin> set xs"
  by (drule heap_okD(3)) auto

lemma set_tail: "set (b # ys) = insert b Z \<Longrightarrow> b \<notin> set ys \<Longrightarrow> b \<notin> Z \<Longrightarrow> set ys = Z"
  by (simp add: insert_ident)

lemma link_in_ok:
  assumes ok: "heap_ok s xs A" and n: "(bp, n) \<in> A" and L: "base s # xs = u @ p # v"
    and L': "base s # ys = u @ p # bp # v" and sorted: "sorted_wrt (<) (base s # ys)"
  shows "heap_ok (link_in p bp s) ys (A - {(bp, n)})"
proof -
  let ?s = "link_in p bp s"
  have blk: "(bp, n) \<in> blocks s xs A" using n by (simp add: blocks_def)
  from heap_okD(4) [OF ok this] have bp: "hs s bp = n" "bp \<noteq> base s" by (auto simp: block_ok_def)
  have "set (base s # xs) = insert p (set u \<union> set v)" unfolding L by auto
  then have "set (base s # ys) = insert (base s) (insert bp (set xs))" unfolding L' by auto
  moreover have "base s \<notin> set ys" using sorted by auto
  ultimately have ys: "set ys = insert bp (set xs)"
    using bp(2) heap_ok_base [OF ok] set_tail [of "base s" ys "insert bp (set xs)"] by auto
  then have b: "blocks ?s ys (A - {(bp, n)}) = blocks s xs A"
    using n bp(1) by (auto simp: blocks_def link_in_def)
  have "distinct (base s # ys)" using sorted by (auto simp: strict_sorted_iff)
  then have "distinct (bp # u @ p # v)" unfolding L' by auto
  then have r: "ring (hp ?s) (base s # ys)"
    using heap_okD(2) [OF ok] ring_insert unfolding L L' by (simp add: link_in_def)
  have "a = n" if "(bp, a) \<in> A" for a
    using heap_okD(4) [OF ok, of "(bp, a)"] that bp(1) by (simp add: blocks_def block_ok_def)
  then have d: "set ys \<inter> fst ` (A - {(bp, n)}) = {}"
    using heap_okD(6) [OF ok] unfolding ys by auto
  have same: "base ?s = base s" "brk ?s = brk s" "hs ?s = hs s" "block_ok ?s c = block_ok s c" for c
    by (simp_all add: link_in_def block_ok_def)
  show ?thesis
    by (rule heap_okI) (use heap_ok_consts [OF ok] heap_okD [OF ok] r d sorted in \<open>simp_all only: same b not_False_eq_True\<close>)
qed

text \<open>The block after \<open>x\<close> touches it: it is a free block, not \<open>base\<close>, and is the next in the ring.\<close>

lemma touching_next:
  assumes "heap_ok s xs A" "base s # xs = u @ x # v" "x \<noteq> base s" "x + 8 * hs s x = hp s x"
  obtains w where "v = hp s x # w" "hp s x \<in> set xs" "unat (hp s x) = block_end (x, hs s x)"
proof -
  have x: "x \<in> set xs" using assms(2,3) by (metis in_set_conv_decomp set_ConsD)
  then have bx: "block_ok s (x, hs s x)" using heap_okD(4) [OF assms(1)] by (simp add: blocks_def)
  have y: "unat (hp s x) = block_end (x, hs s x)"
    using block_addr [OF bx heap_okD(1) [OF assms(1)]] assms(4) by simp
  then have "hp s x \<noteq> base s" using bx by (auto simp: block_ok_def block_end_def)
  moreover have "links (hp s) x (v @ u) x"
    using heap_okD(2) [OF assms(1)] unfolding assms(2) by (simp only: ring_from)
  moreover obtain u' where "u = base s # u'" using assms(2,3) by (cases u) auto
  ultimately obtain w where "v = hp s x # w" by (cases v) auto
  moreover from this have "hp s x \<in> set (base s # xs)" unfolding assms(2) by simp
  ultimately show thesis using that y \<open>hp s x \<noteq> base s\<close> by auto
qed

lemma absorb_ok:
  assumes ok: "heap_ok s xs A" and L: "base s # xs = u @ x # v" and xb: "x \<noteq> base s"
  shows "\<exists>ys w. heap_ok (absorb x s) ys A \<and> base s # ys = u @ x # w \<and> hs s x \<le> hs (absorb x s) x \<and>
    (x + 8 * hs s x = hp s x \<longrightarrow> hs s (hp s x) \<le> hs (absorb x s) x)"
proof (cases "x + 8 * hs s x = hp s x")
  case False
  then have "absorb x s = s" by (simp add: absorb_def)
  then show ?thesis using ok L False by auto
next
  case True
  let ?y = "hp s x"
  let ?m = "hs s x + hs s ?y"
  let ?s = "absorb x s"
  obtain w where w: "v = ?y # w" "?y \<in> set xs" "unat ?y = block_end (x, hs s x)"
    using touching_next [OF ok L xb True] by blast
  obtain ys where L': "base s # ys = u @ x # w" using L xb by (cases u) auto
  have x: "x \<in> set xs" using L xb by (metis in_set_conv_decomp set_ConsD)
  have s: "?s = s\<lparr>hs := (hs s)(x := ?m), hp := (hp s)(x := hp s ?y)\<rparr>" using True by (simp add: absorb_def)
  have bx: "block_ok s (x, hs s x)" and by': "block_ok s (?y, hs s ?y)"
    using heap_okD(4) [OF ok] x w(2) by (simp_all add: blocks_def)
  have "unat (hs s x) + unat (hs s ?y) < 4294967296"
    using by' w(3) heap_okD(1) [OF ok] by (simp add: block_ok_def block_end_def)
  then have m: "unat ?m = unat (hs s x) + unat (hs s ?y)" by (rule unat_add32)
  have e: "block_end (x, ?m) = block_end (?y, hs s ?y)"
    using m w(3) by (simp add: block_end_def)
  have dist: "distinct (u @ x # ?y # w)"
    using heap_okD(3) [OF ok] unfolding L w(1) by (simp add: strict_sorted_iff)
  have "ring (hp ?s) (base s # ys)"
    using ring_remove [OF _ dist] heap_okD(2) [OF ok] unfolding L L' w(1) s by simp
  moreover have "sorted_wrt (<) (base s # ys)"
    using heap_okD(3) [OF ok] unfolding L L' w(1) by (auto simp: sorted_wrt_append)
  moreover have ys: "set ys = set xs - {?y}"
  proof (rule set_tail)
    show "base s \<notin> set ys" using calculation(2) by auto
    show "base s \<notin> set xs - {?y}" using heap_ok_base [OF ok] by blast
    have "?y \<noteq> base s" using w(2) heap_ok_base [OF ok] by auto
    moreover have "set (base s # ys) = set (base s # xs) - {?y}" unfolding L L' w(1) using dist by auto
    ultimately show "set (base s # ys) = insert (base s) (set xs - {?y})" by auto
  qed
  moreover have new: "b = (x, ?m) \<or> b \<in> blocks s xs A \<and> fst b \<noteq> x \<and> fst b \<noteq> ?y" if "b \<in> blocks ?s ys A" for b
  proof -
    from that consider (free) z where "z \<in> set ys" "b = (z, hs ?s z)" | (held) "b \<in> A"
      unfolding blocks_def by blast
    then show ?thesis
    proof cases
      case free
      then show ?thesis using ys by (cases "z = x") (simp_all add: blocks_def s)
    next
      case held
      then have "fst b \<notin> set xs" using heap_okD(6) [OF ok] by blast
      then show ?thesis using held x w(2) by (auto simp: blocks_def)
    qed
  qed
  moreover have "block_ok ?s b" if "b \<in> blocks ?s ys A" for b
    using new [OF that]
  proof
    assume b: "b = (x, ?m)"
    have "0 < unat (hs s x)" using bx by (simp add: block_ok_def unat_gt_0 word_gt_0)
    then have "0 < ?m" using m by (simp add: word_less_nat_alt)
    moreover have "unat (base s) + 8 \<le> unat x" using bx by (simp add: block_ok_def)
    moreover have "block_end (x, ?m) \<le> unat (brk s)" using by' unfolding e by (simp add: block_ok_def)
    ultimately show ?thesis unfolding b block_ok_def s by simp
  next
    assume "b \<in> blocks s xs A \<and> fst b \<noteq> x \<and> fst b \<noteq> ?y"
    then show ?thesis using heap_okD(4) [OF ok, of b] by (simp add: block_ok_def s)
  qed
  moreover have far: "apart (x, ?m) b" if "b \<in> blocks s xs A" "fst b \<noteq> x" "fst b \<noteq> ?y" for b
  proof -
    have "apart (x, hs s x) b" "apart (?y, hs s ?y) b"
      using heap_okD(5) [OF ok] that x w(2) by (auto simp: blocks_def)
    moreover have "0 < unat (snd b)" using heap_okD(4) [OF ok that(1)] by (simp add: block_ok_def unat_gt_0 word_neq_0_conv)
    ultimately show ?thesis using w(3) e by (auto simp: apart_def block_end_def)
  qed
  moreover have "apart a b" if "a \<in> blocks ?s ys A" "b \<in> blocks ?s ys A" "fst a \<noteq> fst b" for a b
  proof -
    have sym: "apart b a" if "apart a b" for a b using that apart_sym by blast
    from new [OF that(1)] new [OF that(2)] show ?thesis
    proof (elim disjE)
      assume "a = (x, ?m)" "b = (x, ?m)"
      then show ?thesis using that(3) by simp
    next
      assume "a = (x, ?m)" "b \<in> blocks s xs A \<and> fst b \<noteq> x \<and> fst b \<noteq> ?y"
      then show ?thesis using far by blast
    next
      assume "a \<in> blocks s xs A \<and> fst a \<noteq> x \<and> fst a \<noteq> ?y" "b = (x, ?m)"
      then show ?thesis using far sym by blast
    next
      assume "a \<in> blocks s xs A \<and> fst a \<noteq> x \<and> fst a \<noteq> ?y" "b \<in> blocks s xs A \<and> fst b \<noteq> x \<and> fst b \<noteq> ?y"
      then show ?thesis using heap_okD(5) [OF ok] that(3) by blast
    qed
  qed
  moreover have "hs ?s (base s) = 0" "base ?s = base s" "brk ?s = brk s"
    using ok xb by (simp_all add: s heap_ok_def)
  moreover have "hs s x \<le> hs ?s x" "hs s ?y \<le> hs ?s x" using m by (simp_all add: s word_le_nat_alt)
  moreover have "set ys \<inter> fst ` A = {}" using heap_okD(6) [OF ok] ys by auto
  ultimately have "heap_ok ?s ys A"
    using heap_ok_consts [OF ok] heap_okD(1) [OF ok] by (intro heap_okI) simp_all
  then show ?thesis using L' \<open>hs s x \<le> hs ?s x\<close> \<open>hs s ?y \<le> hs ?s x\<close> by blast
qed

lemma absorb_fields [simp]: "base (absorb x s) = base s" "brk (absorb x s) = brk s" "freep (absorb x s) = freep s"
  by (simp_all add: absorb_def)

lemma link_in_fields [simp]: "base (link_in p bp s) = base s" "brk (link_in p bp s) = brk s"
    "hs (link_in p bp s) = hs s" "freep (link_in p bp s) = freep s"
  by (simp_all add: link_in_def)

text \<open>What \<open>free\<close> does, once the search has ended.\<close>

lemma free_eq:
  assumes "free_search (hp s) bp (freep s) = Some p" "p \<noteq> bp" "hp s p \<noteq> bp"
    "bp + 8 * hs s bp = hp s p \<Longrightarrow> hp s p \<noteq> p"
  shows "free (bp + 8) s = Some ((absorb p (absorb bp (link_in p bp s)))\<lparr>freep := p\<rparr>)"
proof (cases "bp + 8 * hs s bp = hp s p")
  case True
  then show ?thesis using assms
    by (auto simp: free_def Let_def absorb_def link_in_def fun_upd_twist)
next
  case False
  then show ?thesis using assms
    by (auto simp: free_def Let_def absorb_def link_in_def fun_upd_twist)
qed

lemma heap_ok_freep [simp]: "heap_ok (s\<lparr>freep := p\<rparr>) xs A = heap_ok s xs A"
  by (simp add: heap_ok_def blocks_def block_ok_def)

lemma free_ok:
  assumes ok: "heap_ok s xs A" and n: "(bp, n) \<in> A" and f: "freep s \<in> set (base s # xs)"
  shows "\<exists>t ys. free (bp + 8) s = Some t \<and> heap_ok t ys (A - {(bp, n)}) \<and> freep t \<in> set (base t # ys) \<and>
    base t = base s \<and> brk t = brk s \<and> (\<exists>x \<in> set ys. n \<le> hs t x)"
proof -
  have blk: "block_ok s (bp, n)" using heap_okD(4) [OF ok] n by (simp add: blocks_def)
  then have lo: "base s < bp" "hs s bp = n" "0 < unat n"
    by (simp_all add: block_ok_def word_less_nat_alt)
  have "bp \<notin> set xs" using heap_okD(6) [OF ok] n by force
  then obtain u p v where L: "base s # xs = u @ p # v" and S: "sorted_wrt (<) (u @ p # bp # v)"
    using insertion_point [OF heap_okD(3) [OF ok] lo(1)] by blast
  obtain ys where L': "base s # ys = u @ p # bp # v" using L by (cases u) auto
  let ?s1 = "link_in p bp s"
  have ok1: "heap_ok ?s1 ys (A - {(bp, n)})"
    using S unfolding L' [symmetric] by (rule link_in_ok [OF ok n L L'])
  have pb: "p < bp" using S by (auto simp: sorted_wrt_append)
  have search: "free_search (hp s) bp (freep s) = Some p"
    using free_search_finds [of "hp s" u p v bp "freep s"] heap_okD(2) [OF ok] S f unfolding L by blast
  have L1: "base ?s1 # ys = (u @ [p]) @ bp # v" using L' by simp
  have "bp \<noteq> base ?s1" using lo(1) by auto
  from absorb_ok [OF ok1 L1 this] obtain zs w where ok2: "heap_ok (absorb bp ?s1) zs (A - {(bp, n)})"
    and L2: "base s # zs = u @ p # bp # w" and big: "n \<le> hs (absorb bp ?s1) bp"
    using lo(2) by auto
  let ?s2 = "absorb bp ?s1"
  have p_bp: "hp ?s2 p = bp" using pb by (auto simp: absorb_def link_in_def)
  have "bp \<in> set (base s # zs)" unfolding L2 by simp
  then have zs: "bp \<in> set zs" using lo(1) by auto
  have eq: "free (bp + 8) s = Some ((absorb p ?s2)\<lparr>freep := p\<rparr>)"
  proof (rule free_eq [OF search])
    show "p \<noteq> bp" using pb by auto
    have "hp s p \<in> set (base s # xs)"
    proof -
      have "links (hp s) p (v @ u) p" using heap_okD(2) [OF ok] unfolding L by (simp only: ring_from)
      then have "hp s p \<in> set (v @ u) \<union> {p}" by (cases "v @ u") simp_all
      then show ?thesis unfolding L by auto
    qed
    then show "hp s p \<noteq> bp" using \<open>bp \<notin> set xs\<close> lo(1) by auto
    assume t: "bp + 8 * hs s bp = hp s p"
    have "unat (bp + 8 * hs s bp) = unat bp + 8 * unat n"
      using block_addr [OF blk heap_okD(1) [OF ok]] lo(2) by (simp add: block_end_def)
    then show "hp s p \<noteq> p" using t pb lo(3) by (auto simp: word_less_nat_alt)
  qed
  show ?thesis
  proof (cases "p \<noteq> base s \<and> p + 8 * hs ?s2 p = bp")
    case False
    moreover have "hs ?s2 (base s) = 0" using heap_ok_consts(3) [OF ok2] by simp
    ultimately have "absorb p ?s2 = ?s2" using lo(1) p_bp pb by (auto simp: absorb_def)
    moreover have "p \<in> set (base s # zs)" unfolding L2 by simp
    ultimately show ?thesis using eq ok2 zs big
      by (intro exI [of _ "?s2\<lparr>freep := p\<rparr>"] exI [of _ zs]) auto
  next
    case True
    have "base ?s2 # zs = u @ p # bp # w" using L2 by simp
    from absorb_ok [OF ok2 this] True obtain vs w' where ok3: "heap_ok (absorb p ?s2) vs (A - {(bp, n)})"
      and L3: "base s # vs = u @ p # w'" and big3: "hs ?s2 bp \<le> hs (absorb p ?s2) p"
      using p_bp by auto
    have "p \<in> set (base s # vs)" unfolding L3 by simp
    then have "p \<in> set vs" using True by simp
    then show ?thesis using eq ok3 order_trans [OF big big3]
      by (intro exI [of _ "(absorb p ?s2)\<lparr>freep := p\<rparr>"] exI [of _ vs]) auto
  qed
qed

section \<open>Finding a block\<close>

lemma loop_skip:
  assumes "links (hp s) x ys z" "\<forall>y \<in> set ys. hs s y < k \<and> y \<noteq> freep s"
  shows "malloc_loop g k x (hp s x) s = malloc_loop g k (last (x # ys)) z s"
  using assms
proof (induction ys arbitrary: x)
  case Nil
  then show ?case by simp
next
  case (Cons y ys)
  then have "malloc_loop g k x (hp s x) s = malloc_loop g k y (hp s y) s"
    by (subst malloc_loop.simps) auto
  then show ?case using Cons by simp
qed

text \<open>From its start at \<open>freep\<close> the loop goes once around the ring: to a block that fits, or back.\<close>

lemma loop_around:
  assumes ok: "heap_ok s xs A" and f: "freep s \<in> set (base s # xs)"
  obtains (found) prev p where "malloc_loop g k (freep s) (hp s (freep s)) s = Some (carve k prev p s)"
      "prev \<in> set (base s # xs)" "hp s prev = p" "p \<in> set (base s # xs)" "k \<le> hs s p"
  | (none) prev where "\<forall>x \<in> set (base s # xs). hs s x < k"
      "malloc_loop g k (freep s) (hp s (freep s)) s = malloc_loop g k prev (freep s) s"
proof -
  obtain u v where L: "base s # xs = u @ freep s # v" using f by (meson split_list)
  have l: "links (hp s) (freep s) (v @ u) (freep s)"
    using heap_okD(2) [OF ok] unfolding L by (simp only: ring_from)
  have "distinct (base s # xs)" using heap_okD(3) [OF ok] by (simp only: strict_sorted_iff)
  then have nf: "freep s \<notin> set (v @ u)" unfolding L by auto
  have S: "set (base s # xs) = insert (freep s) (set (v @ u))" unfolding L by auto
  show thesis
  proof (cases "\<exists>y \<in> set (v @ u). k \<le> hs s y")
    case True
    then obtain a y b where ab: "v @ u = a @ y # b" "k \<le> hs s y" "\<forall>z \<in> set a. \<not> k \<le> hs s z"
      using split_list_first_prop [of "v @ u" "\<lambda>y. k \<le> hs s y"] by blast
    have la: "links (hp s) (freep s) a y" using l unfolding ab(1) by (simp add: links_append)
    have "freep s \<notin> set a" using nf unfolding ab(1) by simp
    then have "\<forall>z \<in> set a. hs s z < k \<and> z \<noteq> freep s" using ab(3) by (auto simp: not_le)
    then have "malloc_loop g k (freep s) (hp s (freep s)) s = malloc_loop g k (last (freep s # a)) y s"
      by (rule loop_skip [OF la])
    moreover have "malloc_loop g k (last (freep s # a)) y s = Some (carve k (last (freep s # a)) y s)"
      using ab(2) by (subst malloc_loop.simps) simp
    moreover have "last (freep s # a) \<in> set (freep s # a)" by (rule last_in_set) simp
    then have "last (freep s # a) \<in> set (base s # xs)" unfolding S ab(1) by auto
    moreover have "y \<in> set (base s # xs)" unfolding S ab(1) by simp
    ultimately show ?thesis using found [of "last (freep s # a)" y] links_last [OF la] ab(2) by argo
  next
    case False
    then have "\<forall>z \<in> set (v @ u). hs s z < k \<and> z \<noteq> freep s" using nf by (auto simp: not_le)
    then have e: "malloc_loop g k (freep s) (hp s (freep s)) s = malloc_loop g k (last (freep s # v @ u)) (freep s) s"
      by (rule loop_skip [OF l])
    show ?thesis
    proof (cases "k \<le> hs s (freep s)")
      case True
      then have "malloc_loop g k (freep s) (hp s (freep s)) s = Some (carve k (last (freep s # v @ u)) (freep s) s)"
        unfolding e by (subst malloc_loop.simps) simp
      moreover have "last (freep s # v @ u) \<in> set (freep s # v @ u)" by (rule last_in_set) simp
      then have "last (freep s # v @ u) \<in> set (base s # xs)" unfolding S by auto
      ultimately show ?thesis using found [of "last (freep s # v @ u)" "freep s"] links_last [OF l] f True by argo
    next
      case small: False
      then have "\<forall>x \<in> set (base s # xs). hs s x < k" unfolding S using False by (auto simp: not_le)
      then show ?thesis using none e by blast
    qed
  qed
qed

text \<open>The predecessor of \<open>p\<close> is unique, and comes before it: \<open>p\<close> is not \<open>base\<close>.\<close>

lemma prev_split:
  assumes ok: "heap_ok s xs A" and "prev \<in> set (base s # xs)" "hp s prev = p" "p \<noteq> base s"
  obtains u v where "base s # xs = u @ prev # p # v"
proof -
  obtain u v where L: "base s # xs = u @ prev # v" using assms(2) by (meson split_list)
  have l: "links (hp s) prev (v @ u) prev"
    using heap_okD(2) [OF ok] unfolding L by (simp only: ring_from)
  show thesis
  proof (cases v)
    case (Cons y w)
    then show ?thesis using l assms(3) L that by auto
  next
    case Nil
    have "hp s prev = base s" using l L Nil by (cases u) auto
    then show ?thesis using assms(3,4) by simp
  qed
qed

section \<open>Taking a block\<close>

lemma unat_times8: "8 * unat x < 4294967296 \<Longrightarrow> unat (8 * x) = 8 * unat x" for x :: u32
  by (simp add: unat_word_ariths)

lemma take_whole_ok:
  assumes ok: "heap_ok s xs A" and prev: "prev \<in> set (base s # xs)" "hp s prev = p" and p: "p \<in> set xs"
  shows "\<exists>ys. heap_ok (s\<lparr>hp := (hp s)(prev := hp s p)\<rparr>) ys (insert (p, hs s p) A) \<and> prev \<in> set (base s # ys)"
proof -
  let ?s = "s\<lparr>hp := (hp s)(prev := hp s p)\<rparr>"
  have pb: "p \<noteq> base s" using p heap_ok_base [OF ok] by auto
  obtain u v where L: "base s # xs = u @ prev # p # v" using prev_split [OF ok prev pb] by blast
  obtain ys where L': "base s # ys = u @ prev # v" using L by (cases u) auto
  have "distinct (base s # xs)" using heap_okD(3) [OF ok] by (simp only: strict_sorted_iff)
  then have dist: "distinct (u @ prev # p # v)" unfolding L .
  have sorted: "sorted_wrt (<) (base s # ys)"
    using heap_okD(3) [OF ok] unfolding L L' by (auto simp: sorted_wrt_append)
  have "set (base s # ys) = set (base s # xs) - {p}" unfolding L L' using dist by auto
  moreover have "base s \<notin> set ys" using sorted by auto
  ultimately have ys: "set ys = set xs - {p}"
    using pb heap_ok_base [OF ok] set_tail [of "base s" ys "set xs - {p}"] by auto
  have b: "blocks ?s ys (insert (p, hs s p) A) = blocks s xs A"
    using p ys by (auto simp: blocks_def)
  have same: "base ?s = base s" "brk ?s = brk s" "hs ?s = hs s" "block_ok ?s c = block_ok s c" for c
    by (simp_all add: block_ok_def)
  have r: "ring (hp ?s) (base s # ys)"
    using ring_remove [OF _ dist] heap_okD(2) [OF ok] unfolding L L' by simp
  have d: "set ys \<inter> fst ` (insert (p, hs s p) A) = {}" using heap_okD(6) [OF ok] ys by auto
  have "heap_ok ?s ys (insert (p, hs s p) A)"
    by (rule heap_okI) (use heap_ok_consts [OF ok] heap_okD [OF ok] r d sorted in
      \<open>simp_all only: same b not_False_eq_True\<close>)
  moreover have "prev \<in> set (base s # ys)" unfolding L' by simp
  ultimately show ?thesis by blast
qed

lemma cut_ok:
  assumes ok: "heap_ok s xs A" and p: "p \<in> set xs" and k: "0 < k" "k < hs s p" and q: "q = p + 8 * (hs s p - k)"
  shows "heap_ok (s\<lparr>hs := (hs s)(p := hs s p - k, q := k)\<rparr>) xs (insert (q, k) A) \<and> q \<notin> fst ` A"
proof -
  let ?s = "s\<lparr>hs := (hs s)(p := hs s p - k, q := k)\<rparr>"
  let ?m = "hs s p - k"
  have bp: "(p, hs s p) \<in> blocks s xs A" using p by (simp add: blocks_def)
  note okp = heap_okD(4) [OF ok bp]
  have m: "unat ?m = unat (hs s p) - unat k" using k by (intro unat_sub32) (simp add: word_less_nat_alt)
  have k': "0 < unat k" "unat k < unat (hs s p)" using k by (simp_all add: word_less_nat_alt)
  have e: "unat p + 8 * unat (hs s p) < 2147483648" using okp heap_okD(1) [OF ok] by (simp add: block_ok_def block_end_def)
  have uq: "unat q = unat p + 8 * unat ?m"
  proof -
    have t: "unat (8 * ?m) = 8 * unat ?m" by (rule unat_times8) (use e m in linarith)
    show ?thesis unfolding q t [symmetric] by (rule unat_add32) (use e m t in linarith)
  qed
  have ends: "block_end (p, ?m) = unat q" "block_end (q, k) = block_end (p, hs s p)"
    using uq m k' by (simp_all add: block_end_def)
  have inside: "unat p < unat q" "unat q < block_end (p, hs s p)" using uq m k' by (simp_all add: block_end_def)
  have away: "fst b \<noteq> q" if "b \<in> blocks s xs A" for b
  proof
    assume e: "fst b = q"
    then have "apart (p, hs s p) b" using heap_okD(5) [OF ok bp that] inside by auto
    moreover have "0 < unat (snd b)" using heap_okD(4) [OF ok that] by (simp add: block_ok_def word_less_nat_alt)
    ultimately show False using inside e by (auto simp: apart_def block_end_def)
  qed
  have pq: "p \<noteq> q" using inside by auto
  have qxs: "q \<notin> set xs" using away by (force simp: blocks_def)
  have qA: "q \<notin> fst ` A" using away by (auto simp: blocks_def)
  have pA: "p \<notin> fst ` A" using p heap_okD(6) [OF ok] by blast
  have cases: "b = (p, ?m) \<or> b = (q, k) \<or> b \<in> blocks s xs A \<and> fst b \<noteq> p" if "b \<in> blocks ?s xs (insert (q, k) A)" for b
  proof -
    from that consider (free) z where "z \<in> set xs" "b = (z, hs ?s z)" | (new) "b = (q, k)" | (held) "b \<in> A"
      unfolding blocks_def by blast
    then show ?thesis
    proof cases
      case free
      then show ?thesis using qxs pq by (cases "z = p"; cases "z = q") (simp_all add: blocks_def)
    next
      case held
      then have "fst b \<noteq> p" using pA by force
      then show ?thesis using held by (simp add: blocks_def)
    qed simp
  qed
  have far: "apart (p, ?m) b \<and> apart (q, k) b" if "b \<in> blocks s xs A" "fst b \<noteq> p" for b
  proof -
    have "apart (p, hs s p) b" using heap_okD(5) [OF ok bp that(1)] that(2) by simp
    then show ?thesis using ends inside by (auto simp: apart_def)
  qed
  have sym: "apart b a" if "apart a b" for a b using that apart_sym by blast
  have pq_apart: "apart (p, ?m) (q, k)" using ends by (simp add: apart_def)
  have blk: "block_ok ?s b" if "b \<in> blocks ?s xs (insert (q, k) A)" for b
    using cases [OF that]
  proof (elim disjE)
    assume b: "b = (p, ?m)"
    have "0 < ?m" using m k' by (simp add: word_less_nat_alt)
    moreover have "block_end (p, ?m) \<le> unat (brk s)" using okp ends inside by (simp add: block_ok_def)
    ultimately show ?thesis using okp pq unfolding b block_ok_def by simp
  next
    assume b: "b = (q, k)"
    have "unat (base s) + 8 \<le> unat q" using okp inside by (simp add: block_ok_def)
    moreover have "block_end (q, k) \<le> unat (brk s)" using okp ends by (simp add: block_ok_def)
    ultimately show ?thesis using k(1) unfolding b block_ok_def by simp
  next
    assume b: "b \<in> blocks s xs A \<and> fst b \<noteq> p"
    then show ?thesis using heap_okD(4) [OF ok, of b] away [of b] by (simp add: block_ok_def)
  qed
  have ap: "apart a b" if "a \<in> blocks ?s xs (insert (q, k) A)" "b \<in> blocks ?s xs (insert (q, k) A)" "fst a \<noteq> fst b" for a b
    using cases [OF that(1)] cases [OF that(2)]
  proof (elim disjE)
  qed (use that(3) far sym pq_apart heap_okD(5) [OF ok] in \<open>simp; blast\<close>)+
  have bs: "hs ?s (base s) = 0"
  proof -
    have "p \<noteq> base s" using p heap_ok_base [OF ok] by auto
    moreover have "q \<noteq> base s" using okp inside by (auto simp: block_ok_def)
    ultimately show ?thesis using heap_ok_consts(3) [OF ok] by simp
  qed
  have d: "set xs \<inter> fst ` (insert (q, k) A) = {}" using heap_okD(6) [OF ok] qxs by auto
  have "heap_ok ?s xs (insert (q, k) A)"
    by (rule heap_okI) (use heap_ok_consts [OF ok] heap_okD [OF ok] d bs blk ap in simp_all)
  then show ?thesis using qA by blast
qed

lemma carve_ok:
  assumes ok: "heap_ok s xs A" and prev: "prev \<in> set (base s # xs)" "hp s prev = p" "p \<in> set (base s # xs)"
    and k: "0 < k" "k \<le> hs s p"
  shows "\<exists>a t ys. carve k prev p s = (a + 8, t) \<and> heap_ok t ys (insert (a, k) A) \<and> a \<notin> fst ` A \<and>
    freep t \<in> set (base t # ys) \<and> base t = base s \<and> brk t = brk s"
proof -
  have p: "p \<in> set xs" using prev(3) k heap_ok_consts(3) [OF ok] by auto
  show ?thesis
  proof (cases "hs s p = k")
    case True
    then have c: "carve k prev p s = (p + 8, s\<lparr>hp := (hp s)(prev := hp s p), freep := prev\<rparr>)"
      by (simp add: carve_def)
    obtain ys where ys: "heap_ok (s\<lparr>hp := (hp s)(prev := hp s p)\<rparr>) ys (insert (p, hs s p) A)" "prev \<in> set (base s # ys)"
      using take_whole_ok [OF ok prev(1,2) p] by blast
    have "heap_ok (s\<lparr>hp := (hp s)(prev := hp s p), freep := prev\<rparr>) ys (insert (p, k) A)"
      using heap_ok_freep [of prev "s\<lparr>hp := (hp s)(prev := hp s p)\<rparr>"] ys(1) True by simp
    moreover have "p \<notin> fst ` A" using heap_okD(6) [OF ok] p by blast
    ultimately show ?thesis unfolding c using ys(2)
      by (intro exI [of _ p] exI [of _ "s\<lparr>hp := (hp s)(prev := hp s p), freep := prev\<rparr>"] exI [of _ ys]) simp
  next
    case False
    then have k': "k < hs s p" using k(2) by simp
    let ?q = "p + 8 * (hs s p - k)"
    have c: "carve k prev p s = (?q + 8, s\<lparr>hs := (hs s)(p := hs s p - k, ?q := k), freep := prev\<rparr>)"
      using False by (simp add: carve_def Let_def)
    show ?thesis unfolding c
      using cut_ok [OF ok p k(1) k' refl] prev(1)
        heap_ok_freep [of prev "s\<lparr>hs := (hs s)(p := hs s p - k, ?q := k)\<rparr>"]
      by (intro exI [of _ ?q] exI [of _ "s\<lparr>hs := (hs s)(p := hs s p - k, ?q := k), freep := prev\<rparr>"] exI [of _ xs]) simp
  qed
qed

section \<open>Getting more memory\<close>

text \<open>The kernel does not let a process grow to 2 GB.\<close>

definition grants_ok :: "(u32 \<Rightarrow> u32 \<Rightarrow> bool) \<Rightarrow> bool" where
  "grants_ok g \<longleftrightarrow> (\<forall>b n. g b n \<longrightarrow> unat b + unat n < 2147483648)"

lemma grow_ok:
  assumes ok: "heap_ok s xs A" and k: "0 < k" "unat (brk s) + 8 * unat k < 2147483648"
  shows "heap_ok (s\<lparr>brk := brk s + 8 * k, hs := (hs s)(brk s := k)\<rparr>) xs (insert (brk s, k) A)"
proof -
  let ?s = "s\<lparr>brk := brk s + 8 * k, hs := (hs s)(brk s := k)\<rparr>"
  have k8: "unat (8 * k) = 8 * unat k" by (rule unat_times8) (use k(2) in linarith)
  have brk: "unat (brk ?s) = unat (brk s) + 8 * unat k"
    unfolding k8 [symmetric] by (simp, rule unat_add32) (use k(2) k8 in linarith)
  have below: "block_end b \<le> unat (brk s)" "fst b \<noteq> brk s" if "b \<in> blocks s xs A" for b
  proof -
    have "block_ok s b" by (rule heap_okD(4) [OF ok that])
    then show "block_end b \<le> unat (brk s)" "fst b \<noteq> brk s"
      by (auto simp: block_ok_def block_end_def word_less_nat_alt)
  qed
  have xs: "z \<in> set xs \<Longrightarrow> z \<noteq> brk s" for z using below(2) [of "(z, hs s z)"] by (simp add: blocks_def)
  have cases: "b = (brk s, k) \<or> b \<in> blocks s xs A" if "b \<in> blocks ?s xs (insert (brk s, k) A)" for b
    using that xs by (auto simp: blocks_def)
  have end': "block_end (brk s, k) = unat (brk ?s)" using brk by (simp add: block_end_def)
  have blk: "block_ok ?s b" if "b \<in> blocks ?s xs (insert (brk s, k) A)" for b
    using cases [OF that]
  proof
    assume "b = (brk s, k)"
    then show ?thesis using k(1) end' heap_ok_consts(1) [OF ok] by (simp add: block_ok_def)
  next
    assume b: "b \<in> blocks s xs A"
    then show ?thesis using heap_okD(4) [OF ok b] below [OF b] brk by (simp add: block_ok_def)
  qed
  have new: "apart b (brk s, k) \<and> apart (brk s, k) b" if "b \<in> blocks s xs A" for b
    using below(1) [OF that] by (simp add: apart_def)
  have ap: "apart a b" if "a \<in> blocks ?s xs (insert (brk s, k) A)" "b \<in> blocks ?s xs (insert (brk s, k) A)" "fst a \<noteq> fst b" for a b
    using cases [OF that(1)] cases [OF that(2)]
  proof (elim disjE)
  qed (use that(3) new heap_okD(5) [OF ok] in \<open>simp; blast\<close>)+
  have bs: "base s \<noteq> brk s" using heap_ok_consts(1) [OF ok] by auto
  have d: "set xs \<inter> fst ` (insert (brk s, k) A) = {}" using heap_okD(6) [OF ok] xs by auto
  show ?thesis
    by (rule heap_okI) (use heap_ok_consts [OF ok] heap_okD [OF ok] d bs blk ap brk k(2) in simp_all)
qed

lemma addr_nonzero: "heap_ok s xs A \<Longrightarrow> x \<in> set (base s # xs) \<Longrightarrow> x \<noteq> 0"
  using heap_okD(3) [of s xs A] heap_ok_consts(2) [of s xs A] by auto

lemma morecore_ok:
  assumes ok: "heap_ok s xs A" and f: "freep s \<in> set (base s # xs)" and g: "grants_ok g" and k: "unat k \<le> 268435457"
  obtains (refused) "morecore g k s = Some (0, s)"
  | (grown) t ys where "morecore g k s = Some (freep t, t)" "heap_ok t ys A" "freep t \<in> set (base t # ys)" "freep t \<noteq> 0"
      "base t = base s" "unat (brk s) \<le> unat (brk t)" "\<exists>x \<in> set ys. k \<le> hs t x"
proof -
  define nu where "nu = (if k < 4096 then 4096 else k)"
  have nu: "unat nu \<le> 268435457" "k \<le> nu" "0 < nu" using k by (auto simp: nu_def word_less_nat_alt word_le_nat_alt)
  have n8: "unat (nu * 8) = 8 * unat nu" using unat_times8 [of nu] nu(1) by (simp add: mult.commute)
  show thesis
  proof (cases "g (brk s) (nu * 8)")
    case False
    then have "morecore g k s = Some (0, s)"
      by (simp add: morecore_def sbrk_def Let_def nu_def [symmetric])
    then show thesis by (rule refused)
  next
    case True
    then have "unat (brk s) + unat (nu * 8) < 2147483648" using g unfolding grants_ok_def by blast
    then have room: "unat (brk s) + 8 * unat nu < 2147483648" unfolding n8 .
    let ?s = "s\<lparr>brk := brk s + 8 * nu, hs := (hs s)(brk s := nu)\<rparr>"
    have ok': "heap_ok ?s xs (insert (brk s, nu) A)" using grow_ok [OF ok nu(3) room] .
    have f': "freep ?s \<in> set (base ?s # xs)" using f by simp
    obtain t ys where t: "free (brk s + 8) ?s = Some t" "heap_ok t ys (insert (brk s, nu) A - {(brk s, nu)})"
      "freep t \<in> set (base t # ys)" "base t = base ?s" "brk t = brk ?s" "\<exists>x \<in> set ys. nu \<le> hs t x"
      using free_ok [OF ok' _ f'] by blast
    have "(brk s, nu) \<notin> A"
    proof
      assume "(brk s, nu) \<in> A"
      then have "block_ok s (brk s, nu)" using heap_okD(4) [OF ok] by (simp add: blocks_def)
      then show False by (auto simp: block_ok_def block_end_def word_less_nat_alt)
    qed
    then have ok2: "heap_ok t ys A" using t(2) by simp
    have "brk s \<noteq> - 1" using heap_okD(1) [OF ok] by auto
    then have m: "morecore g k s = Some (freep t, t)"
      using True t(1) by (simp add: morecore_def sbrk_def Let_def nu_def [symmetric] mult.commute)
    have b: "unat (brk s) \<le> unat (brk t)"
      using t(5) unat_add32 [of "brk s" "8 * nu"] room n8 by (simp add: mult.commute)
    have "\<exists>x \<in> set ys. k \<le> hs t x" using t(6) nu(2) order_trans by blast
    with m ok2 t(3) addr_nonzero [OF ok2 t(3)] b show thesis using t(4) by (intro grown) simp_all
  qed
qed

section \<open>malloc\<close>

text \<open>Before the first call there is no ring: \<^verbatim>\<open>freep\<close> is null.\<close>

definition usable :: "umem \<Rightarrow> u32 list \<Rightarrow> (u32 \<times> u32) set \<Rightarrow> bool" where
  "usable s xs A \<longleftrightarrow> heap_ok s xs A \<and> freep s \<in> set (base s # xs)"

definition fresh :: "umem \<Rightarrow> bool" where
  "fresh s \<longleftrightarrow> freep s = 0 \<and> base s \<noteq> 0 \<and> unat (base s) + 8 \<le> unat (brk s) \<and> unat (brk s) < 2147483648"

definition start_ring :: "umem \<Rightarrow> umem" where
  "start_ring s = s\<lparr>hp := (hp s)(base s := base s), freep := base s, hs := (hs s)(base s := 0)\<rparr>"

lemma start_ring_ok: "fresh s \<Longrightarrow> usable (start_ring s) [] {}"
  by (simp add: fresh_def usable_def start_ring_def heap_ok_def blocks_def)

lemma malloc_loop_ok:
  assumes s: "usable s xs A" and g: "grants_ok g" and k: "0 < k" "unat k \<le> 268435457"
  shows "malloc_loop g k (freep s) (hp s (freep s)) s = Some (0, s) \<or>
    (\<exists>a t ys. malloc_loop g k (freep s) (hp s (freep s)) s = Some (a + 8, t) \<and> usable t ys (insert (a, k) A) \<and>
       a \<notin> fst ` A \<and> base t = base s)"
proof -
  have ok: "heap_ok s xs A" and f: "freep s \<in> set (base s # xs)" using s by (simp_all add: usable_def)
  show ?thesis
  proof (rule loop_around [OF ok f, of g k])
    fix prev p
    assume e: "malloc_loop g k (freep s) (hp s (freep s)) s = Some (carve k prev p s)"
      and "prev \<in> set (base s # xs)" "hp s prev = p" "p \<in> set (base s # xs)" "k \<le> hs s p"
    then show ?thesis using carve_ok [OF ok _ _ _ k(1)] unfolding usable_def by metis
  next
    fix prev
    assume small: "\<forall>x \<in> set (base s # xs). hs s x < k"
      and e: "malloc_loop g k (freep s) (hp s (freep s)) s = malloc_loop g k prev (freep s) s"
    have "hs s (freep s) < k" using small f by blast
    then have e': "malloc_loop g k (freep s) (hp s (freep s)) s =
        Option.bind (morecore g k s) (\<lambda>(p, s). if p = 0 then Some (0, s) else malloc_loop g k p (hp s p) s)"
      unfolding e by (subst malloc_loop.simps) auto
    show ?thesis
    proof (rule morecore_ok [OF ok f g k(2)])
      assume "morecore g k s = Some (0, s)"
      then show ?thesis unfolding e' by simp
    next
      fix t ys
      assume m: "morecore g k s = Some (freep t, t)" and ok': "heap_ok t ys A" and f': "freep t \<in> set (base t # ys)"
        and "freep t \<noteq> 0" and b: "base t = base s" and big: "\<exists>x \<in> set ys. k \<le> hs t x"
      then have e2: "malloc_loop g k (freep s) (hp s (freep s)) s = malloc_loop g k (freep t) (hp t (freep t)) t"
        unfolding e' by simp
      show ?thesis
      proof (rule loop_around [OF ok' f', of g k])
        fix prev p
        assume "malloc_loop g k (freep t) (hp t (freep t)) t = Some (carve k prev p t)"
          "prev \<in> set (base t # ys)" "hp t prev = p" "p \<in> set (base t # ys)" "k \<le> hs t p"
        then show ?thesis using carve_ok [OF ok' _ _ _ k(1)] b unfolding e2 usable_def by metis
      next
        assume "\<forall>x \<in> set (base t # ys). hs t x < k"
        then show ?thesis using big by (auto simp: not_le [symmetric])
      qed
    qed
  qed
qed

lemma units_for_bounds:
  assumes "unat n \<le> 2147483648"
  shows "unat (units_for n) = (unat n + 7) div 8 + 1" "0 < units_for n" "unat (units_for n) \<le> 268435457"
    "unat n + 8 \<le> 8 * unat (units_for n)"
proof -
  have a: "n + 8 - 1 = n + 7" by simp
  have "unat (n + 7) = unat n + 7" using assms by (subst unat_add32) simp_all
  then have v: "unat ((n + 7) div 8) = (unat n + 7) div 8" by (simp add: unat_div)
  show u: "unat (units_for n) = (unat n + 7) div 8 + 1"
  proof -
    have "(unat n + 7) div 8 + 1 < 4294967296" using assms by presburger
    then show ?thesis unfolding units_for_def a by (subst unat_add32) (simp_all only: v unsigned_1)
  qed
  then show "0 < units_for n" by (simp add: word_less_nat_alt)
  show "unat (units_for n) \<le> 268435457" "unat n + 8 \<le> 8 * unat (units_for n)" unfolding u using assms by presburger+
qed

lemma malloc_ok:
  assumes s: "usable s xs A \<or> fresh s \<and> A = {}" and g: "grants_ok g" and n: "unat n \<le> 2147483648"
  shows "\<exists>p t ys. malloc g n s = Some (p, t) \<and> base t = base s \<and>
    (p = 0 \<and> usable t ys A \<or>
     (\<exists>a. p = a + 8 \<and> usable t ys (insert (a, units_for n) A) \<and> a \<notin> fst ` A))"
proof -
  define s' where "s' = (if freep s = 0 then start_ring s else s)"
  obtain ys where ok: "usable s' ys A"
  proof (cases "freep s = 0")
    case True
    then have "fresh s" "A = {}" using s addr_nonzero by (auto simp: usable_def)
    then show thesis using that start_ring_ok True by (auto simp: s'_def)
  next
    case False
    then show thesis using that s by (auto simp: fresh_def s'_def)
  qed
  have m: "malloc g n s = malloc_loop g (units_for n) (freep s') (hp s' (freep s')) s'"
    unfolding malloc_def Let_def start_ring_def s'_def by simp
  have b: "base s' = base s" by (simp add: start_ring_def s'_def)
  from malloc_loop_ok [OF ok g units_for_bounds(2,3) [OF n]] show ?thesis
  proof (elim disjE exE conjE)
    assume "malloc_loop g (units_for n) (freep s') (hp s' (freep s')) s' = Some (0, s')"
    then show ?thesis using m ok b by (intro exI [of _ 0] exI [of _ s'] exI [of _ ys]) simp
  next
    fix a t zs
    assume "malloc_loop g (units_for n) (freep s') (hp s' (freep s')) s' = Some (a + 8, t)"
      "usable t zs (insert (a, units_for n) A)" "a \<notin> fst ` A" "base t = base s'"
    then show ?thesis using m b by metis
  qed
qed

section \<open>Any client\<close>

text \<open>
  A client that calls \<^verbatim>\<open>malloc\<close> and \<^verbatim>\<open>free\<close> in any order, and frees only what it holds:
  \<open>h\<close> lists the addresses it holds with the sizes it asked for.
\<close>

inductive client :: "(u32 \<Rightarrow> u32 \<Rightarrow> bool) \<Rightarrow> umem \<Rightarrow> (u32 \<times> u32) list \<Rightarrow> bool" for g where
  start: "fresh s \<Longrightarrow> client g s []"
| got: "client g s h \<Longrightarrow> unat n \<le> 2147483648 \<Longrightarrow> malloc g n s = Some (p, t) \<Longrightarrow> p \<noteq> 0 \<Longrightarrow> client g t ((p, n) # h)"
| refused: "client g s h \<Longrightarrow> unat n \<le> 2147483648 \<Longrightarrow> malloc g n s = Some (0, t) \<Longrightarrow> client g t h"
| freed: "client g s h \<Longrightarrow> (p, n) \<in> set h \<Longrightarrow> free p s = Some t \<Longrightarrow> client g t (remove1 (p, n) h)"

definition holds :: "umem \<Rightarrow> (u32 \<times> u32) list \<Rightarrow> u32 list \<Rightarrow> (u32 \<times> u32) set \<Rightarrow> bool" where
  "holds s h xs A \<longleftrightarrow> (usable s xs A \<or> fresh s \<and> A = {}) \<and> distinct (map fst h) \<and>
     (\<forall>(p, n) \<in> set h. (p - 8, units_for n) \<in> A \<and> unat n \<le> 2147483648)"

lemma distinct_remove1_fst: "distinct (map fst h) \<Longrightarrow> distinct (map fst (remove1 x h))"
  by (auto simp: distinct_map intro: inj_on_diff)

lemma distinct_fst_unique:
  assumes "distinct (map fst h)" "(p, n) \<in> set h" "(q, m) \<in> set (remove1 (p, n) h)"
  shows "q \<noteq> p"
proof -
  have "distinct h" "inj_on fst (set h)" using assms(1) by (auto simp: distinct_map)
  then have "(q, m) \<in> set h" "(q, m) \<noteq> (p, n)" using assms(3) by auto
  then show ?thesis using \<open>inj_on fst (set h)\<close> assms(2) by (metis fst_conv inj_onD)
qed

lemma client_holds:
  assumes g: "grants_ok g" and "client g s h"
  shows "\<exists>xs A. holds s h xs A"
  using assms(2)
proof induction
  case (start s)
  then show ?case by (auto simp: holds_def)
next
  case (got s h n p t)
  then obtain xs A where h: "holds s h xs A" by blast
  then have "usable s xs A \<or> fresh s \<and> A = {}" by (simp add: holds_def)
  from malloc_ok [OF this g got.hyps(2)] got.hyps(3,4) obtain ys a where a: "p = a + 8"
    "usable t ys (insert (a, units_for n) A)" "a \<notin> fst ` A" by auto
  have "p \<notin> fst ` set h"
  proof
    assume "p \<in> fst ` set h"
    then obtain m where "(p, m) \<in> set h" by auto
    then have "(a, units_for m) \<in> A" using h a(1) by (auto simp: holds_def)
    then show False using a(3) by force
  qed
  then have "holds t ((p, n) # h) ys (insert (a, units_for n) A)"
    using h a got.hyps(2) by (auto simp: holds_def)
  then show ?case by blast
next
  case (refused s h n t)
  then obtain xs A where h: "holds s h xs A" by blast
  then have s: "usable s xs A \<or> fresh s \<and> A = {}" by (simp add: holds_def)
  from malloc_ok [OF s g refused.hyps(2)] refused.hyps(3) obtain ys where
    "usable t ys A \<or> (\<exists>a. 0 = a + 8 \<and> usable t ys (insert (a, units_for n) A))" by auto
  then have "usable t ys A"
  proof
    assume "\<exists>a. 0 = a + 8 \<and> usable t ys (insert (a, units_for n) A)"
    then obtain a where a: "0 = a + 8" "heap_ok t ys (insert (a, units_for n) A)" by (auto simp: usable_def)
    then have "block_ok t (a, units_for n)" using heap_okD(4) by (simp add: blocks_def)
    then have "unat a + 8 < 4294967296" using heap_okD(1) [OF a(2)] by (auto simp: block_ok_def block_end_def)
    then have "unat (a + 8) = unat a + 8" by (subst unat_add32) simp_all
    then show ?thesis using a(1) by simp
  qed
  then have "holds t h ys A" using h by (simp add: holds_def)
  then show ?case by blast
next
  case (freed s h p n t)
  then obtain xs A where h: "holds s h xs A" by blast
  have pA: "(p - 8, units_for n) \<in> A" using h freed.hyps(2) by (auto simp: holds_def)
  then have u: "heap_ok s xs A" "freep s \<in> set (base s # xs)" using h by (auto simp: holds_def usable_def)
  obtain ys where ys: "usable t ys (A - {(p - 8, units_for n)})"
    using free_ok [OF u(1) pA u(2)] freed.hyps(3) by (auto simp: usable_def)
  have "(q - 8, units_for m) \<in> A - {(p - 8, units_for n)}" if "(q, m) \<in> set (remove1 (p, n) h)" for q m
  proof -
    have "q \<noteq> p" using distinct_fst_unique [OF _ freed.hyps(2) that] h by (simp add: holds_def)
    moreover have "(q, m) \<in> set h" using that set_remove1_subset by fast
    ultimately show ?thesis using h by (auto simp: holds_def)
  qed
  then have "holds t (remove1 (p, n) h) ys (A - {(p - 8, units_for n)})"
    using ys h by (auto simp: holds_def distinct_remove1_fst dest: set_remove1_subset [THEN subsetD])
  then show ?case by blast
qed

text \<open>The bytes of two pieces of memory do not overlap.\<close>

definition disjoint :: "u32 \<times> u32 \<Rightarrow> u32 \<times> u32 \<Rightarrow> bool" where
  "disjoint a b \<longleftrightarrow> unat (fst a) + unat (snd a) \<le> unat (fst b) \<or> unat (fst b) + unat (snd b) \<le> unat (fst a)"

lemma held_block:
  assumes "heap_ok s xs A" "(p - 8, units_for n) \<in> A" "unat n \<le> 2147483648"
  shows "unat p = unat (p - 8) + 8" "unat p + unat n \<le> block_end (p - 8, units_for n)" "unat p + unat n \<le> unat (brk s)"
proof -
  have b: "block_ok s (p - 8, units_for n)" using heap_okD(4) [OF assms(1)] assms(2) by (simp add: blocks_def)
  then have "unat (p - 8) + 8 * unat (units_for n) < 2147483648"
    using heap_okD(1) [OF assms(1)] by (simp add: block_ok_def block_end_def)
  then have "unat ((p - 8) + 8) = unat (p - 8) + 8" using units_for_bounds(4) [OF assms(3)] by (subst unat_add32) simp_all
  then show u: "unat p = unat (p - 8) + 8" by simp
  then show "unat p + unat n \<le> block_end (p - 8, units_for n)"
    using units_for_bounds(4) [OF assms(3)] by (simp add: block_end_def)
  then show "unat p + unat n \<le> unat (brk s)" using b by (simp add: block_ok_def)
qed

lemma holds_disjoint:
  assumes h: "holds s h xs A"
  shows "sorted_wrt disjoint h"
proof (cases "h = []")
  case False
  then obtain b where "b \<in> set h" by (cases h) auto
  then have "A \<noteq> {}" using h by (auto simp: holds_def)
  then have ok: "heap_ok s xs A" using h by (auto simp: holds_def usable_def)
  have dist: "disjoint (p, n) (q, m)" if "(p, n) \<in> set h" "(q, m) \<in> set h" "p \<noteq> q" for p n q m
  proof -
    have pA: "(p - 8, units_for n) \<in> A" "unat n \<le> 2147483648" "(q - 8, units_for m) \<in> A" "unat m \<le> 2147483648"
      using h that by (auto simp: holds_def)
    then have "apart (p - 8, units_for n) (q - 8, units_for m)"
      using heap_okD(5) [OF ok] that(3) by (simp add: blocks_def)
    then show ?thesis
      using held_block [OF ok pA(1,2)] held_block [OF ok pA(3,4)] by (auto simp: apart_def disjoint_def)
  qed
  have d: "distinct (map fst h)" using h by (simp add: holds_def)
  show ?thesis unfolding sorted_wrt_iff_nth_less
  proof (intro allI impI)
    fix i j assume ij: "i < j" "j < length h"
    then have "fst (h ! i) \<noteq> fst (h ! j)"
      using nth_eq_iff_index_eq [OF d, of i j] by simp
    then show "disjoint (h ! i) (h ! j)"
      using dist [of "fst (h ! i)" "snd (h ! i)" "fst (h ! j)" "snd (h ! j)"] ij by simp
  qed
qed simp


text \<open>A size near 2^32 wraps when it is rounded up: the block has no room at all.\<close>

lemma malloc_size_wraps: "malloc g 0xFFFFFFFF s = malloc g 0 s"
  by (simp add: malloc_def units_for_def)

section \<open>Example\<close>

definition example_heap :: umem where
  "example_heap = \<lparr>hp = (\<lambda>a. 0), hs = (\<lambda>a. 0), freep = 0, base = 0x1000, brk = 0x2000\<rparr>"

definition example_grant :: "u32 \<Rightarrow> u32 \<Rightarrow> bool" where
  "example_grant b n \<longleftrightarrow> unat b + unat n < 2147483648"

lemma example_malloc: "\<exists>t. malloc example_grant 100 example_heap = Some (0x9F98, t)"
  by (simp add: malloc_def example_heap_def units_for_def malloc_loop.simps morecore_def sbrk_def
      example_grant_def free_def free_search.simps carve_def Let_def)


end
