(* ===== verification/Lineedit.thy ===== *)
theory Lineedit
  imports Ptable
begin

unbundle bit_operations_syntax

text \<open>
  What the console promises: the screen never leaves its bounds, and the interrupt handler
  and \<^verbatim>\<open>consoleread\<close> are a line editor over two lists of bytes, the lines handed over to
  the readers and the line still being typed.
\<close>

section \<open>The screen\<close>

text \<open>The cursor is in one of the first 24 of the 25 rows, and the kernel has not panicked.\<close>

definition screen_ok :: "'a constate_scheme \<Rightarrow> bool" where
  "screen_ok s \<longleftrightarrow> \<not> panicked s \<and> 0 \<le> cga_pos s \<and> cga_pos s < 24 * 80"

lemma cgaputc_ok:
  assumes "screen_ok s"
  shows "\<exists>t. cgaputc c s = Ok t \<and> screen_ok t \<and> constate.more t = constate.more s"
proof -
  let ?p = "cga_pos s"
  have p: "0 \<le> ?p" "?p < 1920" "\<not> panicked s" using assms by (simp_all add: screen_ok_def)
  have nl: "?p + (80 - ?p mod 80) \<le> 1920" "0 < ?p + (80 - ?p mod 80)" using p by presburger+
  define q where "q = (if c = 10 then ?p + (80 - ?p mod 80)
     else if c = BACKSPACE then if 0 < ?p then ?p - 1 else ?p else ?p + 1)"
  have q: "0 \<le> q" "q \<le> 1920" using p nl by (auto simp: q_def)
  have r: "q div 80 \<ge> 24 \<longleftrightarrow> q = 1920" using q by presburger
  define crt where "crt = (if c = 10 \<or> c = BACKSPACE then cga_crt s
     else (cga_crt s)(nat ?p := (word_of_int c AND 0xff) OR 0x0700))"
  have "(if c = 10 then (?p + (80 - ?p mod 80), cga_crt s)
      else if c = BACKSPACE then (if ?p > 0 then ?p - 1 else ?p, cga_crt s)
      else (?p + 1, (cga_crt s)(nat ?p := (word_of_int c AND 0xff) OR 0x0700))) = (q, crt)"
    by (simp add: q_def crt_def)
  then have "cgaputc c s =
      (if q < 0 \<or> q > 25 * 80 then Panic ''pos under/overflow''
       else let (pos, crt) = (if q div 80 \<ge> 24 then (q - 80, cga_scroll crt (nat (q - 80))) else (q, crt))
         in Ok (s\<lparr>cga_pos := pos, cga_crt := crt(nat pos := 0x0720)\<rparr>))"
    unfolding cgaputc_def by (simp only: Let_def prod.case)
  then show ?thesis using q r p(3) by (cases "q = 1920") (auto simp: Let_def screen_ok_def)
qed

lemma uartputc_same [simp]: "cga_pos (uartputc c s) = cga_pos s" "panicked (uartputc c s) = panicked s"
    "constate.more (uartputc c s) = constate.more s"
  by (simp_all add: uartputc_def)

lemma consputc_ok:
  assumes "screen_ok s"
  shows "\<exists>t. consputc c s = Ok t \<and> screen_ok t \<and> constate.more t = constate.more s"
proof -
  let ?s = "if c = BACKSPACE then uartputc 8 (uartputc 32 (uartputc 8 s)) else uartputc (word_of_int c) s"
  have "screen_ok ?s" "constate.more ?s = constate.more s" using assms by (simp_all add: screen_ok_def)
  moreover have "\<not> panicked s" using assms by (simp add: screen_ok_def)
  ultimately show ?thesis using cgaputc_ok [of ?s c] by (simp add: consputc_def)
qed

lemma consputs_ok:
  "screen_ok s \<Longrightarrow> \<exists>t. consputs cs s = Ok t \<and> screen_ok t \<and> constate.more t = constate.more s"
proof (induction cs arbitrary: s)
  case (Cons c cs)
  obtain u where "consputc (uint c) s = Ok u" "screen_ok u" "constate.more u = constate.more s"
    using consputc_ok [OF Cons.prems] by blast
  then show ?case using Cons.IH [of u] by auto
qed simp

lemma cprintf_ok:
  "screen_ok s \<Longrightarrow> \<exists>t. cprintf fmt as s = Ok t \<and> screen_ok t \<and> constate.more t = constate.more s"
  unfolding cprintf_def by (rule consputs_ok)

lemma print_pcs_ok:
  "screen_ok s \<Longrightarrow> \<exists>t. print_pcs pcs s = Ok t \<and> screen_ok t \<and> constate.more t = constate.more s"
proof (induction pcs arbitrary: s)
  case (Cons pc pcs)
  obtain u where "cprintf (bytes '' %p'') [ArgInt pc] s = Ok u" "screen_ok u" "constate.more u = constate.more s"
    using cprintf_ok [OF Cons.prems] by blast
  then show ?case using Cons.IH [of u] Cons.prems by auto
qed auto

lemma procdump_from_ok:
  "screen_ok s \<Longrightarrow> \<exists>t. procdump_from ps s = Ok t \<and> screen_ok t \<and> constate.more t = constate.more (s :: 'a pstate_scheme)"
proof (induction ps arbitrary: s)
  case (Cons p ps)
  show ?case
  proof (cases "p_state p = UNUSED")
    case True
    then show ?thesis using Cons by simp
  next
    case False
    obtain u where u: "cprintf (bytes ''%d %s %s'')
        [ArgInt (word_of_int (p_pid p)), ArgStr (Some (state_name (p_state p))), ArgStr (Some (cstr_text 16 (p_name p)))] s = Ok u"
      "screen_ok u" "constate.more u = constate.more s"
      using cprintf_ok [OF Cons.prems] by blast
    obtain v where v: "(if p_state p = SLEEPING
         then print_pcs (getcallerpcs (load32 (k_mem u)) (load32 (k_mem u) (p_context p + 12) + 8)) u else Ok u) = Ok v"
      "screen_ok v" "constate.more v = constate.more u"
      using print_pcs_ok [OF u(2)] u(2) by (cases "p_state p = SLEEPING") auto
    obtain w where w: "cprintf nl [] v = Ok w" "screen_ok w" "constate.more w = constate.more v"
      using cprintf_ok [OF v(2)] by blast
    obtain t where "procdump_from ps w = Ok t" "screen_ok t" "constate.more t = constate.more w"
      using Cons.IH [OF w(2)] by blast
    then show ?thesis using False u v w by simp
  qed
qed simp

lemma more_input:
  fixes s t :: "'a instate_scheme"
  assumes "constate.more t = constate.more s"
  shows "in_r t = in_r s" "in_w t = in_w s" "in_e t = in_e s" "in_buf t = in_buf s" "quiet t = quiet s" "procs t = procs s"
    "this_cpu t = this_cpu s"
  using assms by (cases s; cases t; simp add: quiet_def)+

section \<open>The ring of the console\<close>

lemma in_index_add:
  assumes "k < 4294967296"
  shows "in_index (r + of_nat k) = (unat r + k) mod 128"
proof -
  have "unat (r + of_nat k) = (unat r + k) mod 4294967296"
    using assms by (simp add: unat_word_ariths unat_of_nat32)
  then have "unat (r + of_nat k) mod 128 = (unat r + k) mod 128" by (simp add: mod_mod_cancel)
  moreover have "in_index q = unat q mod 128" for q by (simp add: in_index_def unat_mod)
  ultimately show ?thesis by simp
qed

lemma in_index_diff:
  assumes "in_index (r + of_nat i) = in_index (r + of_nat j)" "i < 128" "j < 128"
  shows "i = j"
proof -
  have "i < 4294967296" "j < 4294967296" using assms by simp_all
  then show ?thesis using add_mod_inj [of "unat r" i 128 j] assms in_index_add by simp
qed

definition in_used :: "'a instate_scheme \<Rightarrow> nat" where "in_used s = unat (in_e s - in_r s)"

definition in_put :: "u8 \<Rightarrow> 'a instate_scheme \<Rightarrow> 'a instate_scheme" where
  "in_put c s = s\<lparr>in_buf := (in_buf s)(in_index (in_e s) := c), in_e := in_e s + 1\<rparr>"

definition in_get :: "'a instate_scheme \<Rightarrow> u8 \<times> 'a instate_scheme" where
  "in_get s = (in_buf s (in_index (in_r s)), s\<lparr>in_r := in_r s + 1\<rparr>)"

lemma in_end: "in_e s = in_r s + of_nat (in_used s)"
  by (simp add: in_used_def)

lemma length_pending [simp]: "length (pending_input s) = in_used s"
  by (simp add: pending_input_def in_used_def)

lemma in_used_put:
  assumes "in_used s < INPUT_BUF"
  shows "in_used (in_put c s) = Suc (in_used s)"
proof -
  have "unat ((in_e s - in_r s) + 1) = unat (in_e s - in_r s) + 1"
    using assms by (subst unat_add32) (simp_all add: in_used_def)
  moreover have "in_e (in_put c s) - in_r (in_put c s) = (in_e s - in_r s) + 1" by (simp add: in_put_def)
  ultimately show ?thesis unfolding in_used_def by (metis Suc_eq_plus1)
qed

lemma pending_put:
  assumes "in_used s < INPUT_BUF"
  shows "pending_input (in_put c s) = pending_input s @ [c]"
proof (rule nth_equalityI)
  show "length (pending_input (in_put c s)) = length (pending_input s @ [c])"
    using in_used_put [OF assms] by simp
next
  fix k assume "k < length (pending_input (in_put c s))"
  then have k: "k \<le> in_used s" using in_used_put [OF assms, of c] by simp
  have e: "in_index (in_e s) = in_index (in_r s + of_nat (in_used s))" using in_end [of s] by simp
  have same: "in_index (in_r s + of_nat k) = in_index (in_e s) \<longleftrightarrow> k = in_used s"
    using in_index_diff [of "in_r s" k "in_used s"] k assms unfolding e by auto
  have "pending_input (in_put c s) ! k = in_buf (in_put c s) (in_index (in_r s + of_nat k))"
    using k in_used_put [OF assms, of c] unfolding pending_input_def in_used_def [symmetric]
    by (simp add: in_put_def del: upt_Suc)
  also have "\<dots> = (if k = in_used s then c else in_buf s (in_index (in_r s + of_nat k)))"
    using same by (simp add: in_put_def)
  also have "\<dots> = (pending_input s @ [c]) ! k"
  proof (cases "k = in_used s")
    case True
    then show ?thesis by (metis length_pending nth_append_length)
  next
    case False
    then have "k < in_used s" using k by simp
    then show ?thesis using False by (simp add: nth_append pending_input_def in_used_def)
  qed
  finally show "pending_input (in_put c s) ! k = (pending_input s @ [c]) ! k" .
qed

lemma in_get_ok:
  assumes "pending_input s = x # xs"
  shows "fst (in_get s) = x" "pending_input (snd (in_get s)) = xs" "in_used (snd (in_get s)) = length xs"
proof -
  have n: "in_used s = Suc (length xs)" using arg_cong [OF assms, of length] by simp
  then have nz: "in_e s - in_r s \<noteq> 0" by (auto simp: in_used_def)
  then have u: "in_used (snd (in_get s)) = length xs"
    using n unat_diff_Suc [of "in_e s" "in_r s"] unfolding in_used_def in_get_def by simp
  then show "in_used (snd (in_get s)) = length xs" .
  have p: "pending_input s ! k = in_buf s (in_index (in_r s + of_nat k))" if "k < in_used s" for k
    using that by (simp add: pending_input_def in_used_def)
  show "fst (in_get s) = x" using p [of 0] n by (simp add: assms in_get_def)
  show "pending_input (snd (in_get s)) = xs"
  proof (rule nth_equalityI)
    show "length (pending_input (snd (in_get s))) = length xs" using u by simp
  next
    fix k assume "k < length (pending_input (snd (in_get s)))"
    then have k: "k < length xs" using u by simp
    have "pending_input (snd (in_get s)) ! k = in_buf s (in_index (in_r s + 1 + of_nat k))"
      using k u by (simp add: pending_input_def in_used_def in_get_def)
    also have "in_r s + 1 + of_nat k = in_r s + of_nat (Suc k)" by simp
    also have "in_buf s (in_index (in_r s + of_nat (Suc k))) = xs ! k"
      using p [of "Suc k"] k n by (simp add: assms)
    finally show "pending_input (snd (in_get s)) ! k = xs ! k" .
  qed
qed

text \<open>The ring of the console keeps the contract of a byte queue, like that of a pipe.\<close>

interpretation cq: byte_queue pending_input in_put in_get INPUT_BUF "\<lambda>s. in_used s \<le> INPUT_BUF"
proof unfold_locales
  fix q :: "'a instate_scheme" and x
  assume "in_used q \<le> INPUT_BUF" "length (pending_input q) < INPUT_BUF"
  then show "pending_input (in_put x q) = pending_input q @ [x] \<and> in_used (in_put x q) \<le> INPUT_BUF"
    using in_used_put [of q x] pending_put [of q x] by simp
next
  fix q :: "'a instate_scheme" and x xs
  assume q: "in_used q \<le> INPUT_BUF" "pending_input q = x # xs"
  then have "length xs \<le> INPUT_BUF" using length_pending [of q] by simp
  with in_get_ok [OF q(2)]
  show "fst (in_get q) = x \<and> pending_input (snd (in_get q)) = xs \<and> in_used (snd (in_get q)) \<le> INPUT_BUF" by simp
qed

section \<open>The line editor\<close>

text \<open>
  The bytes handed over to the readers, and the line being typed. They share the ring, which
  has room for 128; a line ends at a newline or at control-D, so that none is still in it.
\<close>

definition in_ready :: "'a instate_scheme \<Rightarrow> nat" where "in_ready s = unat (in_w s - in_r s)"

definition handed :: "'a instate_scheme \<Rightarrow> u8 list" where
  "handed s = take (in_ready s) (pending_input s)"

definition typing :: "'a instate_scheme \<Rightarrow> u8 list" where
  "typing s = drop (in_ready s) (pending_input s)"

definition input_ok :: "'a instate_scheme \<Rightarrow> bool" where
  "input_ok s \<longleftrightarrow> in_ready s \<le> in_used s \<and> in_used s \<le> INPUT_BUF \<and> 10 \<notin> set (typing s) \<and> 4 \<notin> set (typing s)"

text \<open>What a key does to the two lists.\<close>

definition type_key :: "int \<Rightarrow> u8 list \<times> u8 list \<Rightarrow> u8 list \<times> u8 list" where
  "type_key c = (\<lambda>(ready, line).
     if c = 16 then (ready, line)
     else if c = 21 then (ready, [])
     else if c = 8 \<or> c = 127 then (ready, butlast line)
     else if c = 0 \<or> length ready + length line \<ge> 128 then (ready, line)
     else
       let b = (if c = 13 then 10 else word_of_int c) in
       if b = 10 \<or> b = 4 \<or> length ready + length line = 127 then (ready @ line @ [b], [])
       else (ready, line @ [b]))"

lemma input_fields:
  fixes s t :: "'a instate_scheme"
  assumes "in_r t = in_r s" "in_w t = in_w s" "in_e t = in_e s" "in_buf t = in_buf s"
  shows "in_used t = in_used s" "in_ready t = in_ready s" "pending_input t = pending_input s" "handed t = handed s"
    "typing t = typing s" "input_ok t = input_ok s"
proof -
  show u: "in_used t = in_used s" and r: "in_ready t = in_ready s" using assms by (simp_all add: in_used_def in_ready_def)
  show p: "pending_input t = pending_input s" using assms by (simp add: pending_input_def)
  show "handed t = handed s" and t: "typing t = typing s" using p r by (simp_all add: handed_def typing_def)
  show "input_ok t = input_ok s" using u r t by (simp add: input_ok_def)
qed

definition in_back :: "'a instate_scheme \<Rightarrow> 'a instate_scheme" where
  "in_back s = s\<lparr>in_e := in_e s - 1\<rparr>"

lemma in_back_ok:
  assumes "0 < in_used s"
  shows "in_used (in_back s) = in_used s - 1" "pending_input (in_back s) = butlast (pending_input s)"
proof -
  have "in_e s - in_r s \<noteq> 0" using assms by (auto simp: in_used_def)
  moreover have "in_e (in_back s) - in_r (in_back s) = (in_e s - in_r s) - 1" by (simp add: in_back_def)
  ultimately show u: "in_used (in_back s) = in_used s - 1"
    unfolding in_used_def using unat_minus_one [of "in_e s - in_r s"] by simp
  have "pending_input (in_back s) = map (\<lambda>k. in_buf s (in_index (in_r s + of_nat k))) [0 ..< in_used s - 1]"
    unfolding pending_input_def u [unfolded in_used_def [of "in_back s"]] by (simp add: in_back_def)
  also have "[0 ..< in_used s - 1] = butlast [0 ..< in_used s]" by (cases "in_used s") simp_all
  also have "map (\<lambda>k. in_buf s (in_index (in_r s + of_nat k))) \<dots> = butlast (pending_input s)"
    by (simp add: pending_input_def in_used_def map_butlast)
  finally show "pending_input (in_back s) = butlast (pending_input s)" .
qed

lemma in_ready_end: "in_ready s = in_used s \<longleftrightarrow> in_e s = in_w s"
  by (auto simp: in_ready_def in_used_def word_unat_eq_iff [symmetric])

lemma length_lists:
  assumes "input_ok s"
  shows "length (handed s) = in_ready s" "length (typing s) = in_used s - in_ready s"
    "length (handed s) + length (typing s) = in_used s" "handed s @ typing s = pending_input s"
  using assms by (simp_all add: handed_def typing_def input_ok_def)

lemma in_full_iff: "in_e s = in_r s + of_nat INPUT_BUF \<longleftrightarrow> in_used s = INPUT_BUF"
proof -
  have "in_e s = in_r s + of_nat INPUT_BUF \<longleftrightarrow> in_e s - in_r s = 128" by (auto simp: algebra_simps)
  also have "\<dots> \<longleftrightarrow> in_used s = 128" by (simp add: in_used_def word_unat_eq_iff)
  finally show ?thesis .
qed

lemma in_room_iff: "in_e s - in_r s < of_nat INPUT_BUF \<longleftrightarrow> in_used s < INPUT_BUF"
  by (simp add: in_used_def word_less_nat_alt)

text \<open>The editor with the lists \<open>ready\<close> and \<open>line\<close>.\<close>

definition editing :: "u8 list \<Rightarrow> u8 list \<Rightarrow> 'a instate_scheme \<Rightarrow> bool" where
  "editing ready line s \<longleftrightarrow>
     screen_ok s \<and> quiet s \<and> input_ok s \<and> handed s = ready \<and> typing s = line"

lemma editing_more:
  fixes s t :: "'a instate_scheme"
  assumes "constate.more t = constate.more s" "screen_ok t" "editing ready line s"
  shows "editing ready line t"
proof -
  note m = more_input [OF assms(1)]
  show ?thesis using assms(2,3) m(5) input_fields [OF m(1-4)] by (simp add: editing_def)
qed

lemma editing_back:
  assumes "editing ready line s" "line \<noteq> []"
  shows "editing ready (butlast line) (in_back s)"
proof -
  have ok: "input_ok s" "typing s = line" using assms(1) by (simp_all add: editing_def)
  then have lt: "in_ready s < in_used s" using assms(2) length_lists(2) [OF ok(1)]
    by (metis length_0_conv linorder_not_less diff_is_0_eq)
  have b: "in_used (in_back s) = in_used s - 1" "pending_input (in_back s) = butlast (pending_input s)"
    using in_back_ok [of s] lt by simp_all
  have r: "in_ready (in_back s) = in_ready s" by (simp add: in_ready_def in_back_def)
  have h: "handed (in_back s) = handed s" unfolding handed_def b r using lt by (simp add: take_butlast)
  have t: "typing (in_back s) = butlast (typing s)" unfolding typing_def b r by (simp add: drop_butlast)
  have "input_ok (in_back s)"
    using ok(1) lt by (auto simp: input_ok_def b r t dest: in_set_butlastD)
  then show ?thesis using assms(1) h t by (simp add: editing_def screen_ok_def quiet_def in_back_def)
qed

lemma typing_put:
  assumes "input_ok s" "in_used s < INPUT_BUF"
  shows "handed (in_put c s) = handed s" "typing (in_put c s) = typing s @ [c]"
proof -
  have "in_ready (in_put c s) = in_ready s" by (simp add: in_ready_def in_put_def)
  then show "handed (in_put c s) = handed s" "typing (in_put c s) = typing s @ [c]"
    using assms pending_put [OF assms(2)] by (simp_all add: handed_def typing_def input_ok_def)
qed

lemma commit:
  shows "handed (s\<lparr>in_w := in_e s\<rparr>) = pending_input s" "typing (s\<lparr>in_w := in_e s\<rparr>) = []"
    "in_ready (s\<lparr>in_w := in_e s\<rparr>) = in_used s" "in_used (s\<lparr>in_w := w\<rparr>) = in_used s"
  by (simp_all add: handed_def typing_def in_ready_def pending_input_def in_used_def)

lemma backspace_edits:
  assumes "editing ready line s" "line \<noteq> []"
  shows "\<exists>t. consputc BACKSPACE (in_back s) = Ok t \<and> editing ready (butlast line) t"
proof -
  have e: "editing ready (butlast line) (in_back s)" by (rule editing_back [OF assms])
  then have "screen_ok (in_back s)" by (simp add: editing_def)
  then show ?thesis using consputc_ok [of "in_back s" BACKSPACE] editing_more [OF _ _ e] by blast
qed

lemma editing_empty:
  assumes "editing ready line s"
  shows "in_e s = in_w s \<longleftrightarrow> line = []"
proof -
  have "input_ok s" "typing s = line" using assms by (simp_all add: editing_def)
  then show ?thesis using length_lists(2) [of s] in_ready_end [of s]
    by (auto simp: input_ok_def)
qed

lemma erase_char_edits:
  assumes "editing ready line s"
  shows "\<exists>t. erase_char s = Ok t \<and> editing ready (butlast line) t"
proof (cases "line = []")
  case True
  then show ?thesis using assms editing_empty [OF assms] by (simp add: erase_char_def)
next
  case False
  then show ?thesis using backspace_edits [OF assms False] editing_empty [OF assms]
    by (simp add: erase_char_def in_back_def)
qed

lemma last_typed:
  assumes "editing ready line s" "line \<noteq> []"
  shows "in_buf s (in_index (in_e s - 1)) = last line"
proof -
  have ok: "input_ok s" "typing s = line" using assms(1) by (simp_all add: editing_def)
  have p: "pending_input s = handed s @ line" using length_lists(4) [OF ok(1)] ok(2) by simp
  have n: "in_used s \<noteq> 0" using assms(2) ok length_lists(3) [OF ok(1)] by (cases line) auto
  have "last line = last (pending_input s)" using p assms(2) by simp
  also have "\<dots> = in_buf s (in_index (in_r s + of_nat (in_used s - 1)))"
    using n by (simp add: pending_input_def in_used_def last_map)
  also have "in_r s + of_nat (in_used s - 1) = in_e s - 1"
    using n by (simp add: in_end [of s] of_nat_diff)
  finally show ?thesis by simp
qed

lemma kill_line_edits: "editing ready line s \<Longrightarrow> \<exists>t. kill_line s = Ok t \<and> editing ready [] t"
proof (induction line arbitrary: s rule: rev_induct)
  case Nil
  then show ?case using editing_empty [OF Nil] by (subst kill_line.simps) simp
next
  case (snoc c line)
  have l: "in_buf s (in_index (in_e s - 1)) = c" using last_typed [OF snoc.prems] by simp
  have "c \<noteq> 10" using snoc.prems by (auto simp: editing_def input_ok_def)
  moreover have "in_e s \<noteq> in_w s" using editing_empty [OF snoc.prems] by simp
  moreover obtain t where t: "consputc BACKSPACE (in_back s) = Ok t" "editing ready line t"
    using backspace_edits [OF snoc.prems] by auto
  ultimately have "kill_line s = kill_line t" using l by (subst kill_line.simps) (simp add: in_back_def)
  then show ?case using snoc.IH [OF t(2)] by simp
qed

lemma wakeup_edits:
  assumes "editing ready line s"
  shows "\<exists>t. wakeup ch s = Ok t \<and> editing ready line t"
proof -
  obtain t where t: "wakeup ch s = Ok t" "quiet t"
      "same_but_lock (s\<lparr>procs := map (wake (Some ch)) (procs s)\<rparr>) t"
    using wakeup_Ok [of s ch] assms by (auto simp: editing_def)
  then have f: "in_r t = in_r s" "in_w t = in_w s" "in_e t = in_e s" "in_buf t = in_buf s" and "screen_ok t = screen_ok s"
    by (auto simp: same_but_lock_iff screen_ok_def)
  then have "editing ready line t" using assms t(2) input_fields [OF f] by (simp add: editing_def)
  with t(1) show ?thesis by blast
qed

lemma byte_of_key:
  assumes "0 \<le> c" "c < 256"
  shows "(word_of_int c :: u8) = 10 \<longleftrightarrow> c = 10" "(word_of_int c :: u8) = 4 \<longleftrightarrow> c = 4"
proof -
  have u: "uint (word_of_int c :: u8) = c" using assms by (simp add: uint_word_of_int)
  show "(word_of_int c :: u8) = 10 \<longleftrightarrow> c = 10" "(word_of_int c :: u8) = 4 \<longleftrightarrow> c = 4"
    by (simp_all add: word_uint_eq_iff u)
qed

lemma input_char_edits:
  assumes "editing ready line s" "0 \<le> c" "c < 256" "c \<noteq> 16" "c \<noteq> 21" "c \<noteq> 8" "c \<noteq> 127"
  shows "\<exists>t. input_char c s = Ok t \<and> (case type_key c (ready, line) of (r, l) \<Rightarrow> editing r l t)"
proof -
  have ok: "screen_ok s" "quiet s" "input_ok s" "handed s = ready" "typing s = line"
    using assms(1) by (simp_all add: editing_def)
  have n: "length ready + length line = in_used s" using length_lists(3) [OF ok(3)] ok(4,5) by simp
  show ?thesis
  proof (cases "c \<noteq> 0 \<and> in_used s < 128")
    case False
    then have "input_char c s = Ok s" using in_room_iff [of s] by (auto simp: input_char_def)
    moreover have "type_key c (ready, line) = (ready, line)" using False assms n by (auto simp: type_key_def)
    ultimately show ?thesis using assms(1) by simp
  next
    case True
    define d where "d = (if c = 13 then 10 else c)"
    let ?b = "word_of_int d :: u8"
    let ?u = "in_put ?b s"
    have d: "0 \<le> d" "d < 256" using assms by (auto simp: d_def)
    have u: "in_used ?u = Suc (in_used s)" "handed ?u = ready" "typing ?u = line @ [?b]" "in_w ?u = in_w s"
      using in_used_put [of s ?b] typing_put [OF ok(3), of ?b] True ok(4,5) by (simp_all add: in_put_def)
    have r: "in_ready ?u = in_ready s" by (simp add: in_ready_def in_put_def)
    have "screen_ok ?u" using ok(1) by (simp add: screen_ok_def in_put_def)
    then obtain v where v: "consputc d ?u = Ok v" "screen_ok v" "constate.more v = constate.more ?u"
      using consputc_ok by blast
    note vm = more_input [OF v(3)]
    note vi = input_fields [OF vm(1-4)]
    have q: "quiet v" using ok(2) vm(5) by (simp add: quiet_def in_put_def)
    have step: "input_char c s =
        (if d = 10 \<or> d = 4 \<or> in_used v = 128 then wakeup ChInput (v\<lparr>in_w := in_e v\<rparr>) else Ok v)"
      using True in_room_iff [of s] v(1) in_full_iff [of v]
      by (simp add: input_char_def Let_def d_def [symmetric] in_put_def)
    have key: "type_key c (ready, line) =
        (if d = 10 \<or> d = 4 \<or> in_used v = 128 then (ready @ line @ [?b], []) else (ready, line @ [?b]))"
      using True assms n byte_of_key [OF d] vi(1) u(1) by (auto simp: type_key_def d_def Let_def)
    show ?thesis
    proof (cases "d = 10 \<or> d = 4 \<or> in_used v = 128")
      case False
      have "input_ok v" using False ok(3) True byte_of_key [OF d]
        by (auto simp: input_ok_def vi(1,2,5) u(1,3) r ok(5))
      then have "editing ready (line @ [?b]) v" using v(2) q vi(4,5) u(2,3) by (simp add: editing_def)
      then show ?thesis using False step key by simp
    next
      case c: True
      let ?w = "v\<lparr>in_w := in_e v\<rparr>"
      have "pending_input v = ready @ line @ [?b]"
        using vi(3) pending_put [of s ?b] True length_lists(4) [OF ok(3)] ok(4,5) by simp
      moreover have "input_ok ?w" using True u(1) vi(1) by (simp add: input_ok_def commit)
      ultimately have "editing (ready @ line @ [?b]) [] ?w"
        using v(2) q by (simp add: editing_def commit screen_ok_def quiet_def)
      from wakeup_edits [OF this, of ChInput] show ?thesis using c step key by auto
    qed
  qed
qed

lemma consoleintr_loop_edits:
  assumes "editing ready line s" "\<forall>c \<in> set cs. 0 \<le> c \<and> c < 256"
  shows "\<exists>d t. consoleintr_loop cs dump s = Ok (d, t) \<and>
     (case fold type_key cs (ready, line) of (r, l) \<Rightarrow> editing r l t)"
  using assms
proof (induction cs arbitrary: ready line s dump)
  case (Cons c cs)
  obtain r l where k: "type_key c (ready, line) = (r, l)" by fastforce
  have c: "0 \<le> c" "c < 256" and cs: "\<forall>c \<in> set cs. 0 \<le> c \<and> c < 256" using Cons.prems(2) by simp_all
  consider "c = 16" | "c = 21" | "c = 8 \<or> c = 127" | "c \<notin> {16, 21, 8, 127}" by auto
  then have "\<exists>t d. editing r l t \<and> consoleintr_loop (c # cs) dump s = consoleintr_loop cs d t"
  proof cases
    case 1
    then show ?thesis using k Cons.prems(1) by (auto simp: type_key_def)
  next
    case 2
    then show ?thesis using k kill_line_edits [OF Cons.prems(1)] by (fastforce simp: type_key_def)
  next
    case 3
    then show ?thesis using k erase_char_edits [OF Cons.prems(1)] by (fastforce simp: type_key_def)
  next
    case 4
    then show ?thesis using k input_char_edits [OF Cons.prems(1) c] by fastforce
  qed
  then obtain t d where t: "editing r l t" "consoleintr_loop (c # cs) dump s = consoleintr_loop cs d t" by blast
  show ?case using Cons.IH [OF t(1) cs, of d] t(2) k by simp
qed auto

text \<open>
  C21: the interrupt handler of the console is a line editor: whatever keys come in, it
  returns (no panic, no write outside the screen), and the bytes handed over to the readers
  and the line being typed are those of the editor, whose line a control-U empties, an erase
  key shortens and a newline, a control-D or a full buffer hands over as a whole.
\<close>

theorem console_edits_line:
  assumes "screen_ok s" "quiet s" "input_ok s" "\<forall>c \<in> set cs. 0 \<le> c \<and> c < 256"
  shows "\<exists>t. consoleintr cs s = Ok t \<and> screen_ok t \<and> quiet t \<and> input_ok t \<and>
     (handed t, typing t) = fold type_key cs (handed s, typing s)"
proof -
  have e: "editing (handed s) (typing s) s" using assms by (simp add: editing_def)
  obtain r l where k: "fold type_key cs (handed s, typing s) = (r, l)" by fastforce
  obtain d t where t: "consoleintr_loop cs False s = Ok (d, t)" "editing r l t"
    using consoleintr_loop_edits [OF e assms(4), of False] k by auto
  have "\<exists>u. procdump t = Ok u \<and> screen_ok u \<and> constate.more u = constate.more t"
    unfolding procdump_def using t(2) by (intro procdump_from_ok) (simp add: editing_def)
  then have "\<exists>u. procdump t = Ok u \<and> editing r l u" using editing_more [OF _ _ t(2)] by blast
  then show ?thesis using t k by (auto simp: consoleintr_def editing_def)
qed

section \<open>Reading lines\<close>

definition in_taken :: "'a instate_scheme \<Rightarrow> 'a instate_scheme" where
  "in_taken s = s\<lparr>in_r := in_r s + 1\<rparr>"

lemma in_taken_eq: "in_taken s = snd (in_get s)"
  by (simp add: in_taken_def in_get_def)

text \<open>A byte that has been handed over can be taken.\<close>

lemma taken_ok:
  assumes "input_ok s" "handed s = c # cs"
  shows "in_r s \<noteq> in_w s" "in_buf s (in_index (in_r s)) = c" "input_ok (in_taken s)" "handed (in_taken s) = cs"
    "typing (in_taken s) = typing s"
proof -
  have p: "pending_input s = c # cs @ typing s" using length_lists(4) [OF assms(1)] assms(2) by simp
  note g = in_get_ok [OF p]
  have r: "in_ready s = Suc (length cs)" using length_lists(1) [OF assms(1)] assms(2) by simp
  then show ne: "in_r s \<noteq> in_w s" by (auto simp: in_ready_def)
  show "in_buf s (in_index (in_r s)) = c" using g(1) by (simp add: in_get_def)
  have "in_w s - in_r s \<noteq> 0" using ne by auto
  then have r': "in_ready (in_taken s) = length cs"
    using r unat_diff_Suc [of "in_w s" "in_r s"] by (simp add: in_ready_def in_taken_def)
  have g2: "pending_input (in_taken s) = cs @ typing s" using g(2) by (simp add: in_taken_eq)
  show h: "handed (in_taken s) = cs" using g2 r' by (simp add: handed_def)
  show t: "typing (in_taken s) = typing s" using g2 r' by (simp add: typing_def [of "in_taken s"])
  show "input_ok (in_taken s)"
    using assms(1) g(3) t r' length_lists(3) [OF assms(1)] assms(2) by (simp add: input_ok_def in_taken_eq)
qed

text \<open>What is read of the bytes handed over, and the bytes left: \<open>None\<close> where it has to wait.\<close>

fun take_line :: "nat \<Rightarrow> bool \<Rightarrow> u8 list \<Rightarrow> (u8 list \<times> u8 list) option" where
  "take_line 0 begins bs = Some ([], bs)"
| "take_line (Suc n) begins [] = None"
| "take_line (Suc n) begins (c # bs) =
     (if c = 4 then Some ([], if begins then bs else c # bs)
      else if c = 10 then Some ([c], bs)
      else map_option (map_prod ((#) c) id) (take_line n False bs))"

lemma consoleread_loop_takes:
  assumes "input_ok s" "take_line n (n = target) (handed s) = Some (xs, rest)" "n \<le> target"
  shows "\<exists>t. consoleread_loop ip target n acc s = console_done ip (Some (acc @ xs)) t \<and>
     input_ok t \<and> handed t = rest \<and> typing t = typing s"
  using assms
proof (induction n arbitrary: s acc xs)
  case 0
  then show ?case by auto
next
  case (Suc n)
  obtain c cs where h: "handed s = c # cs" using Suc.prems(2) by (cases "handed s") auto
  note t = taken_ok [OF Suc.prems(1) h]
  have undo: "(in_taken s)\<lparr>in_r := in_r (in_taken s) - 1\<rparr> = s" by (simp add: in_taken_def)
  consider "c = 4" | "c = 10" | "c \<noteq> 4" "c \<noteq> 10" by blast
  then show ?case
  proof cases
    case 1
    then have "consoleread_loop ip target (Suc n) acc s =
        console_done ip (Some acc) (if Suc n < target then s else in_taken s)"
      using t(1,2) undo by (simp add: Let_def in_taken_def [symmetric])
    moreover have "xs = []" "rest = (if Suc n < target then c # cs else cs)"
      using 1 Suc.prems(2,3) by (auto simp: h split: if_splits)
    ultimately show ?thesis using t(3-5) h Suc.prems(1) by auto
  next
    case 2
    then have "consoleread_loop ip target (Suc n) acc s = console_done ip (Some (acc @ [c])) (in_taken s)"
      using t(1,2) by (simp add: Let_def in_taken_def [symmetric])
    moreover have "xs = [c]" "rest = cs" using 2 Suc.prems(2) by (auto simp: h)
    ultimately show ?thesis using t(3-5) by auto
  next
    case 3
    then have e: "consoleread_loop ip target (Suc n) acc s = consoleread_loop ip target n (acc @ [c]) (in_taken s)"
      using t(1,2) by (simp add: Let_def in_taken_def [symmetric])
    obtain ys where ys: "take_line n False cs = Some (ys, rest)" "xs = c # ys"
      using 3 Suc.prems(2) by (auto simp: h)
    have "(n = target) = False" using Suc.prems(3) by simp
    then have "take_line n (n = target) (handed (in_taken s)) = Some (ys, rest)" using ys(1) t(4) by simp
    from Suc.IH [OF t(3) this, of "acc @ [c]"] show ?thesis using e ys(2) t(5) Suc.prems(3) by simp
  qed
qed

text \<open>
  C22: a read of the console takes the bytes handed over up to and including the first newline,
  at most as many as were asked for. A control-D ends it early: at the start of a read it is
  taken and the read returns nothing, the end of the file, and after other bytes it is left,
  so that the next read returns nothing. The line being typed is not touched.
\<close>

theorem consoleread_takes_line:
  assumes "iunlock (Some ip) s = Ok u" "input_ok u"
    and "take_line (nat (sint n)) True (handed u) = Some (xs, rest)"
  shows "\<exists>t. consoleread ip n s = console_done ip (Some xs) t \<and> input_ok t \<and> handed t = rest \<and> typing t = typing u"
  using assms consoleread_loop_takes [of u "nat (sint n)" "nat (sint n)" xs rest ip "[]"]
  by (simp add: consoleread_def)

section \<open>Example\<close>

text \<open>The keys \<open>a b\<close>, an erase, \<open>c\<close>, return, \<open>d\<close> at the idle console.\<close>

lemma example_idle_console:
  "screen_ok example_kstate" "input_ok example_kstate" "handed example_kstate = []" "typing example_kstate = []"
  by (simp_all add: example_kstate_def example_defs screen_ok_def input_ok_def handed_def typing_def pending_input_def
      in_ready_def in_used_def)

theorem console_edits_line_witness:
  "\<exists>t. consoleintr [97, 98, 127, 99, 13, 100] example_kstate = Ok t \<and>
     handed t = [97, 99, 10] \<and> typing t = [100]"
proof -
  have k: "fold type_key [97, 98, 127, 99, 13, 100] ([], []) = ([97, 99, 10], [100])"
    by (simp add: type_key_def)
  have "\<forall>c \<in> set [97, 98, 127, 99, 13, 100 :: int]. 0 \<le> c \<and> c < 256" by simp
  from console_edits_line [OF example_idle_console(1) example_table(4) example_idle_console(2) this]
  show ?thesis unfolding example_idle_console(3,4) k by blast
qed

text \<open>The running process has locked the console's inode and reads a typed line.\<close>

definition example_console :: kstate where
  "example_console = example_kstate\<lparr>in_buf := (\<lambda>k. if k = 0 then 97 else if k = 1 then 10 else 98), in_w := 2, in_e := 3,
     icache := (icache example_kstate)[0 := free_inode\<lparr>i_ref := 1,
       i_lock := (i_lock free_inode)\<lparr>sl_locked := True, sl_pid := 1\<rparr>\<rparr>]\<rparr>"

lemma example_console:
  "icache example_console ! 0 = free_inode\<lparr>i_ref := 1, i_lock := (i_lock free_inode)\<lparr>sl_locked := True, sl_pid := 1\<rparr>\<rparr>"
  "cur_pid example_console = 1" "quiet example_console"
  "in_r example_console = 0" "in_w example_console = 2" "in_e example_console = 3"
proof -
  have "length (icache example_kstate) = NINODE"
    unfolding example_kstate_def example_pipestate_def example_fstate_def example_lstate_def example_bstate_def
      example_state_def by simp
  then show "icache example_console ! 0 = free_inode\<lparr>i_ref := 1, i_lock := (i_lock free_inode)\<lparr>sl_locked := True, sl_pid := 1\<rparr>\<rparr>"
    by (simp add: example_console_def)
  show "quiet example_console" using example_table(4) by (simp add: example_console_def quiet_def)
  have "c_proc (this_cpu example_kstate) = Some 0"
    unfolding example_kstate_def example_pipestate_def example_fstate_def example_lstate_def example_bstate_def
      example_state_def by (simp add: example_cpu_def)
  then show "cur_pid example_console = 1"
    by (simp add: example_console_def cur_pid_def example_table example_proc_def)
  show "in_r example_console = 0"
    unfolding example_console_def example_kstate_def example_pipestate_def example_fstate_def example_lstate_def
      example_bstate_def example_state_def by simp
qed (simp_all add: example_console_def)

lemma example_console_lists:
  "input_ok example_console" "handed example_console = [97, 10]" "typing example_console = [98]"
proof -
  have p: "pending_input example_console = [97, 10, 98]"
  proof -
    have n: "[0 ..< unat (3 - 0 :: u32)] = [0, 1, 2]" by (simp add: upt_rec)
    have i: "in_index (0 + of_nat 0) = 0" "in_index (0 + of_nat 1) = 1" "in_index (0 + of_nat 2) = 2"
      using in_index_add [of 0 0] in_index_add [of 1 0] in_index_add [of 2 0] by simp_all
    show ?thesis unfolding pending_input_def example_console(4,6) n list.map i by (simp add: example_console_def)
  qed
  have n: "in_ready example_console = 2" "in_used example_console = 3"
    by (simp_all add: in_ready_def in_used_def example_console)
  show "handed example_console = [97, 10]" "typing example_console = [98]"
    by (simp_all add: handed_def typing_def p n)
  then show "input_ok example_console" by (simp add: input_ok_def n)
qed

theorem consoleread_takes_line_witness:
  "\<exists>t. consoleread 0 100 example_console = console_done 0 (Some [97, 10]) t \<and> handed t = [] \<and> typing t = [98]"
proof -
  obtain w where w: "wakeup (ChInodeLock 0) example_console = Ok w"
      "same_but_lock (example_console\<lparr>procs := map (wake (Some (ChInodeLock 0))) (procs example_console)\<rparr>) w"
    using wakeup_Ok [OF example_console(3)] by blast
  let ?u = "upd_inode 0 (\<lambda>ip. ip\<lparr>i_lock := (i_lock (icache example_console ! 0))\<lparr>sl_locked := False, sl_pid := 0\<rparr>\<rparr>) w"
  have u: "iunlock (Some 0) example_console = Ok ?u"
    using w(1) by (simp add: iunlock_def unlock_inode_def releasesleep_def holdingsleep_def example_console)
  have f: "in_r ?u = in_r example_console" "in_w ?u = in_w example_console"
      "in_e ?u = in_e example_console" "in_buf ?u = in_buf example_console"
    using w(2) by (auto simp: same_but_lock_iff upd_inode_def)
  note i = input_fields [OF f] example_console_lists
  have "take_line (nat (sint (100 :: u32))) True (handed ?u) = Some ([97, 10], [])"
  proof -
    have n: "nat (sint (100 :: u32)) = Suc (Suc 98)" by simp
    show ?thesis unfolding i n take_line.simps by simp
  qed
  moreover have "input_ok ?u" by (simp add: i)
  ultimately show ?thesis using consoleread_takes_line [OF u] unfolding i by blast
qed

end
