(* ===== verification/Blocks.thy ===== *)
theory Blocks
  imports Fs
begin

text \<open>
  How the file system uses the cache and the log: reading a block, and updating one in the
  log, with other buffers held or not; what these calls leave alone; and the allocation of
  blocks, which hands out only free ones.
\<close>

unbundle bit_operations_syntax

section \<open>What the calls leave alone\<close>

lemma wakeup_more: "wakeup ch s = Ok t \<Longrightarrow> pstate.more t = pstate.more s"
  by (auto simp: wakeup_def wakeup1_def ptable_acquire_def ptable_release_def obind_eq_Ok split: prod.splits)

lemma iderw_more: "iderw i s = Ok t \<Longrightarrow> bstate.more t = bstate.more s"
  by (auto simp: iderw_def upd_buf_def Let_def split: if_splits)

lemma lock_buf_more: "lock_buf i s = Ok t \<Longrightarrow> bstate.more t = bstate.more s"
  by (auto simp: lock_buf_def upd_buf_def obind_eq_Ok)

lemma bread_more:
  assumes "bread dev n s = Ok (i, t)"
  shows "bstate.more t = bstate.more s"
proof -
  obtain u where u: "bget dev n s = Ok (i, u)" "t = u \<or> iderw i u = Ok t"
    using assms by (auto simp: bread_def obind_eq_Ok split: if_splits)
  have "bstate.more u = bstate.more s"
    using u(1) by (auto simp: bget_def upd_buf_def Let_def obind_eq_Ok split: option.splits dest!: lock_buf_more)
  then show ?thesis using u(2) iderw_more [of i u t] by auto
qed

lemma brelse_more:
  assumes "brelse i s = Ok t"
  shows "bstate.more t = bstate.more s"
proof -
  let ?done = "\<lambda>lk u. let s = upd_buf i (\<lambda>b. b\<lparr>b_lock := lk\<rparr>) u;
            s = upd_buf i (\<lambda>b. b\<lparr>b_refcnt := b_refcnt b - 1\<rparr>) s
        in if b_refcnt (bufs s ! i) = 0 then s\<lparr>lru := i # remove1 i (lru s)\<rparr> else s"
  have h: "holdingsleep (b_lock (bufs s ! i)) s" using assms by (rule contrapos_pp) (simp add: brelse_def)
  obtain lk u where r: "releasesleep (ChBufLock i) (b_lock (bufs s ! i)) s = Ok (lk, u)"
    using assms h by (cases "releasesleep (ChBufLock i) (b_lock (bufs s ! i)) s") (auto simp: brelse_def)
  have "brelse i s = Ok (?done lk u)" unfolding brelse_def r using h by (simp add: Let_def)
  then have t: "t = ?done lk u" using assms by simp
  have "bstate.more t = bstate.more u" unfolding t Let_def by (simp add: upd_buf_def)
  moreover have "wakeup (ChBufLock i) s = Ok u" using r by (auto simp: releasesleep_def obind_eq_Ok)
  then have "pstate.more u = pstate.more s" by (rule wakeup_more)
  then have "bstate.more u = bstate.more s" by (cases u; cases s; simp)
  ultimately show ?thesis by simp
qed

lemma log_write_more: "log_write i s = Ok t \<Longrightarrow> lstate.more t = lstate.more s"
  by (auto simp: log_write_def Let_def upd_buf_def split: if_splits)

lemma log_update_more:
  assumes "log_update n d s = Ok t"
  shows "lstate.more t = lstate.more s"
proof -
  obtain i u v where u: "bread 1 n s = Ok (i, u)"
      and v: "log_write i (upd_buf i (\<lambda>b. b\<lparr>b_data := d\<rparr>) u) = Ok v" and t: "brelse i v = Ok t"
    using assms by (auto simp: log_update_def obind_eq_Ok)
  have "lstate.more u = lstate.more s" using bread_more [OF u] by (cases u; cases s; simp)
  moreover have "lstate.more v = lstate.more u" using log_write_more [OF v] by (simp add: upd_buf_def)
  moreover have "lstate.more t = lstate.more v" using brelse_more [OF t] by (cases t; cases v; simp)
  ultimately show ?thesis by simp
qed

section \<open>Reading and updating a block\<close>

text \<open>
  The state between two calls, in which the process holds the buffers \<open>H\<close>: the log is
  consistent, and a block that is not pinned is seen as it is on the disk.
\<close>

definition fs_held :: "nat set \<Rightarrow> 'a lstate_scheme \<Rightarrow> bool" where
  "fs_held H s \<longleftrightarrow> bio_ok s \<and> in_process s \<and> {i. i < NBUF \<and> buf_held s i} = H \<and> log_inv s \<and>
     (\<forall>n. n \<notin> bio_dirty s \<longrightarrow> blk_view s n = memdisk s (unat n))"

text \<open>A read changes the cache but not what is seen through it.\<close>

definition seen :: "'a lstate_scheme \<Rightarrow> 'a lstate_scheme \<Rightarrow> bool" where
  "seen s t \<longleftrightarrow> cache_only s t \<and> blk_view t = blk_view s \<and> memdisk t = memdisk s \<and>
     disk_writes t = disk_writes s \<and> bio_dirty t = bio_dirty s"

text \<open>Inside an operation \<open>r\<close> more blocks fit into the log, which holds the others.\<close>

definition in_op :: "nat set \<Rightarrow> nat \<Rightarrow> 'a lstate_scheme \<Rightarrow> bool" where
  "in_op H r s \<longleftrightarrow> fs_held H s \<and> 1 \<le> outstanding s \<and> lh_n s + int r < LOGSIZE"

definition logged :: "'a lstate_scheme \<Rightarrow> 'a lstate_scheme \<Rightarrow> bool" where
  "logged s t \<longleftrightarrow> disksize t = disksize s \<and> log_start t = log_start s \<and> memdisk t = memdisk s \<and>
     disk_writes t = disk_writes s \<and> cur_pid t = cur_pid s \<and> outstanding t = outstanding s \<and> committing t = committing s"

text \<open>The buffers \<open>H\<close> are as they were.\<close>

definition keeps :: "nat set \<Rightarrow> 'a bstate_scheme \<Rightarrow> 'a bstate_scheme \<Rightarrow> bool" where
  "keeps H s t \<longleftrightarrow> (\<forall>j \<in> H. bufs t ! j = bufs s ! j)"

definition blk_ok :: "'a lstate_scheme \<Rightarrow> u32 \<Rightarrow> bool" where
  "blk_ok s n \<longleftrightarrow> n \<noteq> 0 \<and> n < disksize s \<and> unat n \<notin> log_region s"

lemma fs_held_idle: "fs_held {} s \<longleftrightarrow> bio_idle s \<and> log_inv s"
  using idle_clean by (auto simp: fs_held_def bio_idle_def)

lemma keeps_refl [simp]: "keeps H s s"
  by (simp add: keeps_def)

lemma keeps_trans [trans]: "keeps H s t \<Longrightarrow> keeps H t u \<Longrightarrow> keeps H s u"
  by (simp add: keeps_def)

lemma seen_refl [simp]: "seen s s"
  by (simp add: seen_def)

lemma seen_trans [trans]: "seen s t \<Longrightarrow> seen t u \<Longrightarrow> seen s u"
  by (auto simp: seen_def intro: cache_only_trans)

lemma logged_refl [simp]: "logged s s"
  by (simp add: logged_def)

lemma logged_trans [trans]: "logged s t \<Longrightarrow> logged t u \<Longrightarrow> logged s u"
  by (simp add: logged_def)

lemma logged_blk: "logged s t \<Longrightarrow> blk_ok t = blk_ok s \<and> log_region t = log_region s \<and> disksize t = disksize s"
  by (auto simp: logged_def blk_ok_def log_region_def fun_eq_iff)

lemma cache_only_more: "cache_only s t \<Longrightarrow> lstate.more t = lstate.more s"
  unfolding cache_only_def by (elim conjE exE, simp)

lemma more_fs:
  fixes s t :: "'a fstate_scheme"
  assumes "lstate.more t = lstate.more s"
  shows "icache t = icache s" "sb t = sb s"
  using assms by (cases s; cases t; simp)+

lemma seen_logged: "seen s t \<Longrightarrow> logged s t"
  by (auto simp: seen_def logged_def cache_only_def)

lemma seen_more: "seen s t \<Longrightarrow> lstate.more t = lstate.more s"
  by (simp add: seen_def cache_only_more)

lemma seen_held:
  assumes "seen s t" "bio_ok t" "in_process t" "{i. i < NBUF \<and> buf_held t i} = H" "fs_held G s"
  shows "fs_held H t"
proof -
  have c: "cache_only s t" "bio_dirty t = bio_dirty s" "blk_view t = blk_view s" "memdisk t = memdisk s"
    using assms(1) by (simp_all add: seen_def)
  have g: "log_inv s" "\<forall>n. n \<notin> bio_dirty s \<longrightarrow> blk_view s n = memdisk s (unat n)"
    using assms(5) by (simp_all add: fs_held_def)
  have "log_inv t = log_inv s"
    unfolding log_inv_def homes_def log_region_def c(2) cache_only_log [OF c(1)] cache_only_disksize [OF c(1)] ..
  then show ?thesis using assms(2-4) c g by (simp add: fs_held_def)
qed

lemma seen_op: "seen s t \<Longrightarrow> fs_held H t \<Longrightarrow> in_op G r s \<Longrightarrow> in_op H r t"
proof -
  assume "seen s t" and o: "fs_held H t" "in_op G r s"
  then have "cache_only s t" by (simp add: seen_def)
  then have "lh_n t = lh_n s" "outstanding t = outstanding s" by simp_all
  then show ?thesis using o by (simp add: in_op_def)
qed

lemma in_op_less: "in_op H r s \<Longrightarrow> r' \<le> r \<Longrightarrow> in_op H r' s"
  by (simp add: in_op_def)

lemma in_op_held: "in_op H r s \<Longrightarrow> fs_held H s"
  by (simp add: in_op_def)

lemma held_lt: "fs_held H s \<Longrightarrow> j \<in> H \<Longrightarrow> j < NBUF"
  by (auto simp: fs_held_def)

lemma held_finite: "fs_held H s \<Longrightarrow> finite H"
proof -
  assume "fs_held H s"
  then have "H \<subseteq> {0 ..< NBUF}" by (auto simp: fs_held_def)
  then show ?thesis by (rule finite_subset) simp
qed

lemma held_dirty: "fs_held H s \<Longrightarrow> card (bio_dirty s) = nat (lh_n s)"
  using card_homes_inv by (auto simp: fs_held_def log_inv_def)

text \<open>Taking the buffer of block \<open>n\<close>, which is not one of those held.\<close>

lemma get_blk:
  assumes s: "fs_held H s" and n: "n < disksize s" "\<forall>j \<in> H. \<not> has_blk s j n" and r: "int (card H) + lh_n s < LOGSIZE"
  obtains i u where "bread 1 n s = Ok (i, u)" "i \<notin> H" "fs_held (insert i H) u" "buf_mine u i n"
    "b_data (bufs u ! i) = blk_view s n" "seen s u" "keeps H s u"
proof -
  have ok: "bio_ok s" "in_process s" and h: "{i. i < NBUF \<and> buf_held s i} = H" using s by (simp_all add: fs_held_def)
  have "0 \<le> lh_n s" using s by (simp add: fs_held_def log_inv_def)
  then have rm: "card H + card (bio_dirty s) < NBUF" using held_dirty [OF s] r by simp
  have hn: "\<forall>i < NBUF. buf_held s i \<longrightarrow> i \<in> H \<or> b_dirty (bufs s ! i)" "\<forall>i < NBUF. buf_held s i \<longrightarrow> \<not> has_blk s i n"
    using h n(2) by auto
  obtain i u where b: "bread 1 n s = Ok (i, u)" "read_ok s n i u"
    using bread_held [OF ok n(1) held_finite [OF s] hn disjI1 [OF rm]] .
  note R = read_okD [OF ok(1) b(2) ok(2)]
  have i: "i < NBUF" "buf_held u i" using R(3) mine_holds [OF R(3)] by (simp_all add: buf_mine_def)
  have iH: "i \<notin> H" using R(11) h by blast
  have se: "seen s u" using R(4-8) by (simp add: seen_def)
  have other: "buf_held u j = buf_held s j" if "j \<noteq> i" for j using R(12) [OF that] by (simp add: buf_held_def)
  have "{j. j < NBUF \<and> buf_held u j} = insert i H"
  proof (rule set_eqI)
    fix j show "j \<in> {j. j < NBUF \<and> buf_held u j} \<longleftrightarrow> j \<in> insert i H"
      using i h other [of j] by (cases "j = i") auto
  qed
  then have "fs_held (insert i H) u" using seen_held [OF se R(1,2) _ s] by blast
  moreover have "keeps H s u" unfolding keeps_def using iH by (auto intro!: R(12))
  ultimately show thesis using that [OF b(1) iH _ R(3,9) se] by blast
qed

text \<open>Releasing a buffer whose block is unchanged or in the log.\<close>

lemma put_blk:
  assumes s: "fs_held (insert i H) s" and i: "i \<notin> H" and m: "buf_mine s i n"
  obtains t where "brelse i s = Ok t" "fs_held H t" "seen s t" "keeps H s t"
proof -
  have ok: "bio_ok s" "in_process s" and h: "{i. i < NBUF \<and> buf_held s i} = insert i H"
    and d: "\<forall>n. n \<notin> bio_dirty s \<longrightarrow> blk_view s n = memdisk s (unat n)" using s by (simp_all add: fs_held_def)
  have ib: "i < NBUF" "has_blk s i n" using m by (simp_all add: buf_mine_def)
  have "b_dirty (bufs s ! i)" if "n \<in> bio_dirty s"
  proof -
    obtain j where j: "j < NBUF" "has_blk s j n" "b_dirty (bufs s ! j)" using \<open>n \<in> bio_dirty s\<close> by (auto simp: bio_dirty_def)
    then have "j = i" using bio_okD(4) [OF ok(1) j(1) ib(1) j(2) ib(2)] by simp
    then show ?thesis using j(3) by simp
  qed
  then have c: "b_dirty (bufs s ! i) \<or> blk_view s n = memdisk s (unat n)" using d by blast
  obtain t where t: "brelse i s = Ok t" "bio_ok t" "in_process t" "cache_only s t"
    "memdisk t = memdisk s" "disk_writes t = disk_writes s" "blk_view t = blk_view s" "bio_dirty t = bio_dirty s"
    "\<not> buf_held t i" "\<forall>k. k \<noteq> i \<longrightarrow> bufs t ! k = bufs s ! k" "\<forall>k m. k \<noteq> i \<longrightarrow> buf_mine s k m \<longrightarrow> buf_mine t k m"
    using brelse_idle [OF ok m c] .
  have se: "seen s t" using t(4-8) by (simp add: seen_def)
  have "{j. j < NBUF \<and> buf_held t j} = H"
  proof (rule set_eqI)
    fix j
    have "buf_held t j = buf_held s j" if "j \<noteq> i" using t(10) that by (simp add: buf_held_def)
    then show "j \<in> {j. j < NBUF \<and> buf_held t j} \<longleftrightarrow> j \<in> H" using h i t(9) by (cases "j = i") auto
  qed
  then have "fs_held H t" using seen_held [OF se t(2,3) _ s] by blast
  moreover have "keeps H s t" using i t(10) by (auto simp: keeps_def)
  ultimately show thesis using that [OF t(1) _ se] by blast
qed

text \<open>Changing the data of a buffer, writing it to the log and releasing it.\<close>

lemma log_blk:
  assumes s: "in_op (insert i H) (Suc r) s" and i: "i \<notin> H" and m: "buf_mine s i n" and n: "blk_ok s n"
  obtains u t where "log_write i (upd_buf i (\<lambda>b. b\<lparr>b_data := F (b_data b)\<rparr>) s) = Ok u" "brelse i u = Ok t"
    "in_op H r t" "n \<in> homes s \<longrightarrow> in_op H (Suc r) t" "blk_view t = (blk_view s)(n := F (blk_view s n))"
    "logged s t" "keeps H s t" "lstate.more t = lstate.more s" "homes t = insert n (homes s)"
proof -
  have held: "fs_held (insert i H) s" and out: "1 \<le> outstanding s" and rm: "lh_n s < LOGSIZE - 1"
    using s by (simp_all add: in_op_def)
  have ok: "bio_ok s" "in_process s" and h: "{k. k < NBUF \<and> buf_held s k} = insert i H" and li: "log_inv s"
    and d: "\<forall>k. k \<notin> bio_dirty s \<longrightarrow> blk_view s k = memdisk s (unat k)" using held by (simp_all add: fs_held_def)
  have ib: "i < NBUF" "has_blk s i n" using m by (simp_all add: buf_mine_def)
  define e where "e = F (blk_view s n)"
  have dat: "b_data (bufs s ! i) = blk_view s n" using view_has [OF ok(1) ib] by simp
  define s2 where "s2 = s\<lparr>bufs := (bufs s)[i := (bufs s ! i)\<lparr>b_data := e\<rparr>]\<rparr>"
  have u2: "upd_buf i (\<lambda>b. b\<lparr>b_data := F (b_data b)\<rparr>) s = s2" by (simp add: upd_buf_def s2_def dat e_def)
  note D = set_data [OF ok(1) m, of e, folded s2_def]
  have b2: "b_blockno (bufs s2 ! i) = n" using D(2) by (auto simp: buf_mine_def has_blk_def)
  have dirty2: "bio_dirty s2 = bio_dirty s"
    by (rule dirty_same [OF ok(1) ib(1), of _ "(bufs s ! i)\<lparr>b_data := e\<rparr>"]) (simp_all add: s2_def)
  have e2: "lh_n s2 = lh_n s" "log_size s2 = log_size s" "outstanding s2 = outstanding s" "lh_block s2 = lh_block s"
    by (simp_all add: s2_def)
  have inv: "log_size s = LOGSIZE" "0 \<le> lh_n s" "inj_on (lh_block s) {0 ..< nat (lh_n s)}" "bio_dirty s = homes s"
    using li by (auto simp: log_inv_def)
  have hom2: "homes s2 = homes s" by (simp add: homes_def e2)
  obtain f k where w: "log_write i s2 = Ok (upd_buf i (\<lambda>b. b\<lparr>b_dirty := True\<rparr>) (s2\<lparr>lh_block := f\<rparr>\<lparr>lh_n := k\<rparr>))"
    "f ` {0 ..< nat k} = insert n (homes s)" "inj_on f {0 ..< nat k}" "k = (if n \<in> homes s then lh_n s else lh_n s + 1)"
    using log_write_entry [of s2 i n, unfolded e2 hom2, OF rm inv(1) out inv(2,3) b2] .
  define s3 where "s3 = s2\<lparr>lh_block := f\<rparr>\<lparr>lh_n := k\<rparr>"
  have m3: "bio_ok s3" "buf_mine s3 i n" using D(1,2) by (simp_all add: s3_def)
  define s4 where "s4 = s3\<lparr>bufs := (bufs s3)[i := (bufs s3 ! i)\<lparr>b_dirty := True\<rparr>]\<rparr>"
  have u4: "upd_buf i (\<lambda>b. b\<lparr>b_dirty := True\<rparr>) (s2\<lparr>lh_block := f\<rparr>\<lparr>lh_n := k\<rparr>) = s4"
    by (simp add: upd_buf_def s4_def s3_def)
  note T = set_dirty [OF m3, folded s4_def]
  have run4: "in_process s4" using ok(2) by (simp add: s4_def s3_def s2_def)
  have v4: "blk_view s4 = (blk_view s)(n := e)" using T(3) D(3) by (simp add: s3_def)
  have md4: "memdisk s4 = memdisk s" "disk_writes s4 = disk_writes s" "cur_pid s4 = cur_pid s"
    by (simp_all add: s4_def s3_def s2_def cur_pid_def)
  have dt4: "bio_dirty s4 = insert n (homes s)" using T(4) dirty2 inv(4) by (simp add: s3_def)
  have f4: "lh_block s4 = f" "lh_n s4 = k" "log_start s4 = log_start s" "log_size s4 = log_size s" "log_dev s4 = log_dev s"
    "outstanding s4 = outstanding s" "committing s4 = committing s" "disksize s4 = disksize s"
    by (simp_all add: s4_def s3_def s2_def)
  have hm4: "homes s4 = insert n (homes s)" using w(2) by (simp add: homes_def f4)
  have li4: "log_inv s4" unfolding log_inv_def log_region_def hm4 f4
    using li n w(3,4) rm dt4 by (auto simp: log_inv_def log_region_def blk_ok_def)
  have nb: "bufs s4 ! j = (if j = i then (bufs s ! i)\<lparr>b_data := e, b_dirty := True\<rparr> else bufs s ! j)" for j
    using bufs_upd [OF ib(1) m3(1)] bufs_upd [OF ib(1) ok(1)] by (simp add: s4_def s3_def s2_def)
  have "buf_held s4 j = buf_held s j" for j by (simp add: buf_held_def nb)
  then have "{j. j < NBUF \<and> buf_held s4 j} = insert i H" using h by simp
  moreover have "\<forall>m. m \<notin> bio_dirty s4 \<longrightarrow> blk_view s4 m = memdisk s4 (unat m)"
    using d inv(4) by (simp add: v4 md4 dt4)
  ultimately have held4: "fs_held (insert i H) s4" using T(1) run4 li4 by (simp add: fs_held_def)
  obtain t where t: "brelse i s4 = Ok t" "fs_held H t" "seen s4 t" "keeps H s4 t"
    using put_blk [OF held4 i T(2)] .
  have ct: "cache_only s4 t" using t(3) by (simp add: seen_def)
  note ft = cache_only_log [OF ct] cache_only_disksize [OF ct]
  have op: "in_op H r t" "n \<in> homes s \<longrightarrow> in_op H (Suc r) t"
    using t(2) s w(4) by (auto simp: in_op_def ft f4 split: if_splits)
  have lg: "logged s t" using logged_trans [OF _ seen_logged [OF t(3)], of s] md4 f4 by (simp add: logged_def)
  have kp: "keeps H s t" using t(4) i nb by (auto simp: keeps_def)
  have mo: "lstate.more t = lstate.more s"
    using seen_more [OF t(3)] by (simp add: s4_def s3_def s2_def)
  have vt: "blk_view t = (blk_view s)(n := F (blk_view s n))" using t(3) v4 by (simp add: seen_def e_def)
  have ht: "homes t = insert n (homes s)" using hm4 by (simp add: homes_def ft)
  show thesis by (rule that [OF _ t(1) op vt lg kp mo ht]) (simp_all add: u2 w(1) u4)
qed

text \<open>The two uses of a block, on top of the buffers \<open>H\<close>.\<close>

lemma read_blk:
  assumes s: "fs_held H s" and n: "n < disksize s" "\<forall>j \<in> H. \<not> has_blk s j n" and r: "int (card H) + lh_n s < LOGSIZE"
  obtains i u t where "bread 1 n s = Ok (i, u)" "b_data (bufs u ! i) = blk_view s n" "brelse i u = Ok t"
    "fs_held H t" "seen s t" "keeps H s t" "seen s u"
proof -
  obtain i u where u: "bread 1 n s = Ok (i, u)" "i \<notin> H" "fs_held (insert i H) u" "buf_mine u i n"
    "b_data (bufs u ! i) = blk_view s n" "seen s u" "keeps H s u" using get_blk [OF s n r] .
  obtain t where t: "brelse i u = Ok t" "fs_held H t" "seen u t" "keeps H u t" using put_blk [OF u(3,2,4)] .
  show thesis
    by (rule that [OF u(1,5) t(1,2) seen_trans [OF u(6) t(3)] keeps_trans [OF u(7) t(4)] u(6)])
qed

lemma update_blk:
  assumes s: "in_op H (Suc r) s" and n: "blk_ok s n" "\<forall>j \<in> H. \<not> has_blk s j n" and c: "card H \<le> 1"
  obtains i u v t where "bread 1 n s = Ok (i, u)" "b_data (bufs u ! i) = blk_view s n" "seen s u"
    "log_write i (upd_buf i (\<lambda>b. b\<lparr>b_data := F (b_data b)\<rparr>) u) = Ok v" "brelse i v = Ok t"
    "in_op H r t" "n \<in> homes s \<longrightarrow> in_op H (Suc r) t" "blk_view t = (blk_view s)(n := F (blk_view s n))"
    "logged s t" "keeps H s t" "lstate.more t = lstate.more s" "homes t = insert n (homes s)"
proof -
  have b: "n < disksize s" "int (card H) + lh_n s < LOGSIZE" using s n(1) c by (simp_all add: in_op_def blk_ok_def)
  obtain i u where u: "bread 1 n s = Ok (i, u)" "i \<notin> H" "fs_held (insert i H) u" "buf_mine u i n"
    "b_data (bufs u ! i) = blk_view s n" "seen s u" "keeps H s u" using get_blk [OF in_op_held [OF s] b(1) n(2) b(2)] .
  have o: "in_op (insert i H) (Suc r) u" by (rule seen_op [OF u(6,3) s])
  have lu: "logged s u" by (rule seen_logged [OF u(6)])
  have n': "blk_ok u n" using n(1) logged_blk [OF lu] by simp
  have cu: "cache_only s u" and vu: "blk_view u = blk_view s" using u(6) by (simp_all add: seen_def)
  have "homes u = homes s" unfolding homes_def cache_only_log [OF cu] ..
  note hu = this vu
  obtain v t where t: "log_write i (upd_buf i (\<lambda>b. b\<lparr>b_data := F (b_data b)\<rparr>) u) = Ok v" "brelse i v = Ok t"
    "in_op H r t" "n \<in> homes u \<longrightarrow> in_op H (Suc r) t" "blk_view t = (blk_view u)(n := F (blk_view u n))"
    "logged u t" "keeps H u t" "lstate.more t = lstate.more u" "homes t = insert n (homes u)"
    using log_blk [OF o u(2,4) n', of F] .
  show thesis
    by (rule that [OF u(1,5,6) t(1,2,3) t(4) [unfolded hu] t(5) [unfolded hu] logged_trans [OF lu t(6)]
        keeps_trans [OF u(7) t(7)] _ t(9) [unfolded hu]]) (simp add: t(8) seen_more [OF u(6)])
qed

section \<open>Free blocks\<close>

definition blk_free :: "'a fstate_scheme \<Rightarrow> u32 \<Rightarrow> bool" where
  "blk_free s a \<longleftrightarrow> bit_free (blk_view s (BBLOCK a (sb s))) (unat a mod BPB)"

text \<open>The disk: boot block, super block, log, inodes, bitmap, data blocks.\<close>

definition data_start :: "'a fstate_scheme \<Rightarrow> nat" where
  "data_start s = unat (sb_bmapstart (sb s)) + unat (sb_size (sb s)) div BPB + 1"

definition data_blk :: "'a fstate_scheme \<Rightarrow> u32 \<Rightarrow> bool" where
  "data_blk s a \<longleftrightarrow> data_start s \<le> unat a \<and> unat a < unat (sb_size (sb s))"

definition layout_ok :: "'a fstate_scheme \<Rightarrow> bool" where
  "layout_ok s \<longleftrightarrow> unat (sb_size (sb s)) \<le> unat (disksize s) \<and> 0 < unat (log_start s) \<and>
     unat (log_start s) + nat LOGSIZE \<le> unat (sb_inodestart (sb s)) \<and>
     unat (sb_inodestart (sb s)) + unat (sb_ninodes (sb s)) div IPB + 1 \<le> unat (sb_bmapstart (sb s)) \<and>
     data_start s \<le> unat (sb_size (sb s))"

text \<open>Only data blocks are free: the others are marked in the bitmap when the disk is made.\<close>

definition space_ok :: "'a fstate_scheme \<Rightarrow> bool" where
  "space_ok s \<longleftrightarrow> layout_ok s \<and> (\<forall>a. unat a < unat (sb_size (sb s)) \<longrightarrow> blk_free s a \<longrightarrow> data_blk s a)"

lemma bit_free_iff: "bit_free d k \<longleftrightarrow> \<not> bit (d (k div 8)) (k mod 8)"
proof -
  have z: "(y = 0) = (\<forall>m. \<not> bit y m)" for y :: u8 by (auto intro: bit_eqI)
  have e: "(x AND push_bit n 1 = 0) = (\<not> bit x n)" if "n < 8" for x :: u8 and n
  proof -
    have b: "bit (push_bit n (1 :: u8)) m \<longleftrightarrow> m = n" for m
      using that bit_exp_iff [of n m, where ?'a = u8] by auto
    have "(x AND push_bit n 1 = 0) = (\<forall>m. \<not> (bit x m \<and> bit (push_bit n (1 :: u8)) m))"
      unfolding z by (simp add: bit_and_iff)
    also have "\<dots> = (\<not> bit x n)" unfolding b by blast
    finally show ?thesis .
  qed
  show ?thesis unfolding bit_free_def by (rule e) simp
qed

lemma bit_free_mark [simp]:
  "bit_free (mark_used j d) k \<longleftrightarrow> k \<noteq> j \<and> bit_free d k"
proof (cases "k div 8 = j div 8")
  case True
  have n: "k mod 8 < 8" "j mod 8 < 8" by simp_all
  have "k = j \<longleftrightarrow> k mod 8 = j mod 8" using True by (metis div_mult_mod_eq)
  then show ?thesis using True n
    by (auto simp: bit_free_iff mark_used_def bit_or_iff bit_push_bit_iff bit_1_iff bit_exp_iff possible_bit_word)
next
  case False
  then show ?thesis by (auto simp: bit_free_iff mark_used_def)
qed

lemma unat_BBLOCK:
  assumes "layout_ok s" "unat a < unat (sb_size (sb s))"
  shows "unat (BBLOCK a (sb s)) = unat (sb_bmapstart (sb s)) + unat a div BPB"
proof -
  have d: "unat (a div of_nat BPB) = unat a div 4096" by (simp add: unat_div)
  have "unat a div 4096 \<le> unat (sb_size (sb s)) div 4096" using assms(2) by (intro div_le_mono) simp
  then have "unat (sb_bmapstart (sb s)) + unat a div 4096 < data_start s" by (simp add: data_start_def)
  also have "\<dots> \<le> unat (sb_size (sb s))" using assms(1) by (simp add: layout_ok_def)
  also have "\<dots> < 4294967296" by simp
  finally have "unat (a div of_nat BPB) + unat (sb_bmapstart (sb s)) < 4294967296" unfolding d by simp
  from unat_add32 [OF this] show ?thesis unfolding BBLOCK_def d by simp
qed

lemma data_blk_ok:
  assumes "layout_ok s" "data_blk s a"
  shows "blk_ok s a"
proof -
  have l: "unat (log_start s) + 30 \<le> unat (sb_inodestart (sb s))" "0 < unat (log_start s)"
    "unat (sb_inodestart (sb s)) < data_start s" "unat (sb_size (sb s)) \<le> unat (disksize s)"
    using assms(1) by (auto simp: layout_ok_def data_start_def)
  have a: "data_start s \<le> unat a" "unat a < unat (sb_size (sb s))" using assms(2) by (simp_all add: data_blk_def)
  have "0 < unat a" "unat a < unat (disksize s)" "unat (log_start s) + 30 \<le> unat a" using l a by linarith+
  then show ?thesis by (auto simp: blk_ok_def log_region_def word_less_nat_alt)
qed

lemma bitmap_blk:
  assumes "layout_ok s" "unat a < unat (sb_size (sb s))"
  shows "blk_ok s (BBLOCK a (sb s))" "\<not> data_blk s (BBLOCK a (sb s))"
proof -
  note u = unat_BBLOCK [OF assms]
  have "unat a div 4096 \<le> unat (sb_size (sb s)) div 4096" using assms(2) by (intro div_le_mono) simp
  then have lt: "unat (BBLOCK a (sb s)) < data_start s" unfolding u by (simp add: data_start_def)
  then show "\<not> data_blk s (BBLOCK a (sb s))" by (simp add: data_blk_def)
  have l: "unat (log_start s) + 30 \<le> unat (sb_bmapstart (sb s))" "0 < unat (log_start s)"
    "data_start s \<le> unat (disksize s)" using assms(1) by (auto simp: layout_ok_def)
  have "0 < unat (BBLOCK a (sb s))" "unat (BBLOCK a (sb s)) < unat (disksize s)"
    "unat (log_start s) + 30 \<le> unat (BBLOCK a (sb s))" using l lt unfolding u by linarith+
  then show "blk_ok s (BBLOCK a (sb s))" by (auto simp: blk_ok_def log_region_def word_less_nat_alt)
qed

text \<open>The same bit of the same block is the same address.\<close>

lemma same_bit:
  assumes "layout_ok s" "unat a < unat (sb_size (sb s))" "unat b < unat (sb_size (sb s))"
  shows "BBLOCK a (sb s) = BBLOCK b (sb s) \<and> unat a mod BPB = unat b mod BPB \<longleftrightarrow> a = b"
proof
  assume e: "BBLOCK a (sb s) = BBLOCK b (sb s) \<and> unat a mod BPB = unat b mod BPB"
  then have "unat a div BPB = unat b div BPB" using unat_BBLOCK [OF assms(1,2)] unat_BBLOCK [OF assms(1,3)] by simp
  then have "unat a = unat b" using e by (metis div_mult_mod_eq)
  then show "a = b" by (simp add: word_unat_eq_iff)
qed simp

section \<open>Allocation\<close>

definition zeroed :: "block \<Rightarrow> block" where
  "zeroed d = (\<lambda>k. if k < BSIZE then 0 else d k)"

text \<open>What block \<open>a\<close> looks like once it is allocated: marked in the bitmap and zero.\<close>

definition take_blk :: "superblock \<Rightarrow> u32 \<Rightarrow> (u32 \<Rightarrow> block) \<Rightarrow> u32 \<Rightarrow> block" where
  "take_blk sblk a v = v(BBLOCK a sblk := mark_used (unat a mod BPB) (v (BBLOCK a sblk)), a := zeroed (v a))"

text \<open>The blocks in the buffers \<open>H\<close> are in use as data blocks.\<close>

definition held_used :: "nat set \<Rightarrow> 'a fstate_scheme \<Rightarrow> bool" where
  "held_used H s \<longleftrightarrow> card H \<le> 1 \<and> (\<forall>j \<in> H. \<forall>n. has_blk s j n \<longrightarrow> data_blk s n \<and> \<not> blk_free s n)"

definition allocated :: "nat set \<Rightarrow> 'a fstate_scheme \<Rightarrow> u32 \<Rightarrow> 'a fstate_scheme \<Rightarrow> bool" where
  "allocated H s a t \<longleftrightarrow> data_blk s a \<and> blk_free s a \<and> blk_view t = take_blk (sb s) a (blk_view s) \<and>
     logged s t \<and> keeps H s t \<and> lstate.more t = lstate.more s \<and> a \<in> homes t"

lemma keeps_has: "keeps H s t \<Longrightarrow> j \<in> H \<Longrightarrow> has_blk t j n = has_blk s j n"
  by (simp add: keeps_def has_blk_def)

lemma layout_cong:
  fixes s t :: "'a fstate_scheme"
  assumes "logged s t" "lstate.more t = lstate.more s"
  shows "layout_ok t = layout_ok s" "data_blk t = data_blk s" "data_start t = data_start s"
  using assms(1) more_fs [OF assms(2)] by (auto simp: layout_ok_def data_blk_def data_start_def logged_def fun_eq_iff)

lemma seen_free:
  fixes s t :: "'a fstate_scheme"
  assumes "seen s t"
  shows "blk_free t = blk_free s" "space_ok t = space_ok s" "layout_ok t = layout_ok s" "data_blk t = data_blk s"
proof -
  note m = more_fs [OF seen_more [OF assms]]
  have v: "blk_view t = blk_view s" using assms by (simp add: seen_def)
  show f: "blk_free t = blk_free s" by (rule ext) (simp add: blk_free_def v m)
  note l = layout_cong [OF seen_logged [OF assms] seen_more [OF assms]]
  show "space_ok t = space_ok s" by (simp add: space_ok_def f l m)
  show "layout_ok t = layout_ok s" "data_blk t = data_blk s" by (fact l)+
qed

lemma bzero_ok:
  fixes s :: "'a fstate_scheme"
  assumes "in_op H (Suc r) s" "blk_ok s a" "\<forall>j \<in> H. \<not> has_blk s j a" "card H \<le> 1"
  obtains t where "bzero 1 a s = Ok t" "in_op H r t" "blk_view t = (blk_view s)(a := zeroed (blk_view s a))"
    "logged s t" "keeps H s t" "lstate.more t = lstate.more s" "homes t = insert a (homes s)"
proof -
  obtain i u v t where t: "bread 1 a s = Ok (i, u)" "b_data (bufs u ! i) = blk_view s a" "seen s u"
    "log_write i (upd_buf i (\<lambda>b. b\<lparr>b_data := zeroed (b_data b)\<rparr>) u) = Ok v" "brelse i v = Ok t"
    "in_op H r t" "a \<in> homes s \<longrightarrow> in_op H (Suc r) t" "blk_view t = (blk_view s)(a := zeroed (blk_view s a))"
    "logged s t" "keeps H s t" "lstate.more t = lstate.more s" "homes t = insert a (homes s)"
    using update_blk [OF assms, of zeroed] .
  have "bzero 1 a s = Ok t" using t(1,4,5) by (simp add: bzero_def zeroed_def [abs_def])
  then show thesis using that t by blast
qed

text \<open>Taking the free bit that was found in the bitmap, and clearing its block.\<close>

lemma balloc_found:
  fixes s :: "'a fstate_scheme"
  assumes s: "in_op H (Suc (Suc r)) s" and l: "space_ok s" and h: "held_used H s"
    and a: "unat a < unat (sb_size (sb s))" "blk_free s a"
  obtains i u v w t where "bread 1 (BBLOCK a (sb s)) s = Ok (i, u)" "b_data (bufs u ! i) = blk_view s (BBLOCK a (sb s))" "seen s u"
    "log_write i (upd_buf i (\<lambda>b. b\<lparr>b_data := mark_used (unat a mod BPB) (b_data b)\<rparr>) u) = Ok v" "brelse i v = Ok w"
    "bzero 1 a w = Ok t" "in_op H r t" "allocated H s a t"
proof -
  have lo: "layout_ok s" and da: "data_blk s a" using l a by (simp_all add: space_ok_def)
  note bm = bitmap_blk [OF lo a(1)]
  have c: "card H \<le> 1" using h by (simp add: held_used_def)
  have hb: "\<forall>j \<in> H. \<not> has_blk s j (BBLOCK a (sb s))" using h bm(2) by (auto simp: held_used_def)
  have ha: "\<forall>j \<in> H. \<not> has_blk s j a" using h a(2) by (auto simp: held_used_def)
  have ne: "a \<noteq> BBLOCK a (sb s)" using bm(2) da by auto
  obtain i u v w where w: "bread 1 (BBLOCK a (sb s)) s = Ok (i, u)" "b_data (bufs u ! i) = blk_view s (BBLOCK a (sb s))" "seen s u"
    "log_write i (upd_buf i (\<lambda>b. b\<lparr>b_data := mark_used (unat a mod BPB) (b_data b)\<rparr>) u) = Ok v" "brelse i v = Ok w"
    "in_op H (Suc r) w" "BBLOCK a (sb s) \<in> homes s \<longrightarrow> in_op H (Suc (Suc r)) w"
    "blk_view w = (blk_view s)(BBLOCK a (sb s) := mark_used (unat a mod BPB) (blk_view s (BBLOCK a (sb s))))"
    "logged s w" "keeps H s w" "lstate.more w = lstate.more s" "homes w = insert (BBLOCK a (sb s)) (homes s)"
    using update_blk [OF s bm(1) hb c, of "mark_used (unat a mod BPB)"] .
  have aw: "blk_ok w a" using data_blk_ok [OF lo da] logged_blk [OF w(9)] by simp
  have hw: "\<forall>j \<in> H. \<not> has_blk w j a" using ha keeps_has [OF w(10)] by blast
  obtain t where t: "bzero 1 a w = Ok t" "in_op H r t" "blk_view t = (blk_view w)(a := zeroed (blk_view w a))"
    "logged w t" "keeps H w t" "lstate.more t = lstate.more w" "homes t = insert a (homes w)"
    using bzero_ok [OF w(6) aw hw c] .
  have "blk_view t = take_blk (sb s) a (blk_view s)" using ne by (simp add: t(3) w(8) take_blk_def)
  then have "allocated H s a t"
    using da a(2) logged_trans [OF w(9) t(4)] keeps_trans [OF w(10) t(5)] t(6,7) w(11) by (simp add: allocated_def)
  then show thesis using that [OF w(1-5) t(1,2)] by blast
qed

lemma balloc_from_ok:
  fixes s :: "'a fstate_scheme"
  assumes "in_op H (Suc (Suc r)) s" "space_ok s" "held_used H s"
    and "\<forall>b \<in> set bs. b mod BPB = 0 \<and> b < unat (sb_size (sb s))"
    and "\<exists>a. unat a < unat (sb_size (sb s)) \<and> blk_free s a \<and> BPB * (unat a div BPB) \<in> set bs"
  shows "\<exists>a t. balloc_from 1 bs s = Ok (a, t) \<and> in_op H r t \<and> allocated H s a t"
  using assms
proof (induction bs arbitrary: s)
  case Nil
  then show ?case by simp
next
  case (Cons b bs)
  let ?n = "unat (sb_size (sb s))" and ?bb = "BBLOCK (of_nat b) (sb s)"
  let ?P = "\<lambda>bi. b + bi < ?n \<and> bit_free (blk_view s ?bb) bi"
  have b: "b mod 4096 = 0" "b < ?n" using Cons.prems(4) by simp_all
  have lo: "layout_ok s" using Cons.prems(2) by (simp add: space_ok_def)
  have un: "unat (of_nat k :: u32) = k" if "k < ?n" for k
    using that by (intro unat_of_nat32) (rule less_trans [OF _ unat_lt32])
  have addr: "unat (of_nat (b + bi) :: u32) = b + bi" "BBLOCK (of_nat (b + bi)) (sb s) = ?bb"
      "unat (of_nat (b + bi) :: u32) mod BPB = bi" if "b + bi < ?n" "bi < 4096" for bi
  proof -
    show u: "unat (of_nat (b + bi) :: u32) = b + bi" by (rule un [OF that(1)])
    obtain q where q: "b = 4096 * q" using b(1) by (auto simp: mod_eq_0_iff_dvd elim: dvdE)
    show "unat (of_nat (b + bi) :: u32) mod BPB = bi" using that(2) by (simp only: u) (simp add: q)
    have "unat (BBLOCK (of_nat (b + bi)) (sb s)) = unat ?bb"
      using unat_BBLOCK [OF lo, of "of_nat (b + bi)"] unat_BBLOCK [OF lo, of "of_nat b"] u un [OF b(2)] b(2) that
      by (simp add: q)
    then show "BBLOCK (of_nat (b + bi)) (sb s) = ?bb" by (simp add: word_unat_eq_iff)
  qed
  show ?case
  proof (cases "find ?P [0 ..< BPB]")
    case (Some bi)
    then have bi: "?P bi" "bi < 4096" by (auto dest: find_SomeD)
    let ?a = "of_nat (b + bi) :: u32"
    note A = addr [OF conjunct1 [OF bi(1)] bi(2)]
    have a: "unat ?a < ?n" "blk_free s ?a" using bi A by (simp_all add: blk_free_def)
    obtain i u v w t where t: "bread 1 (BBLOCK ?a (sb s)) s = Ok (i, u)" "b_data (bufs u ! i) = blk_view s (BBLOCK ?a (sb s))" "seen s u"
      "log_write i (upd_buf i (\<lambda>b. b\<lparr>b_data := mark_used (unat ?a mod BPB) (b_data b)\<rparr>) u) = Ok v" "brelse i v = Ok w"
      "bzero 1 ?a w = Ok t" "in_op H r t" "allocated H s ?a t"
      using balloc_found [OF Cons.prems(1-3) a] .
    have su: "sb u = sb s" using more_fs [OF seen_more [OF t(3)]] by simp
    have "balloc_from 1 (b # bs) s = Ok (?a, t)"
      using t(1,2,4-6) Some unfolding A(2,3) by (simp add: su)
    then show ?thesis using t(7,8) by blast
  next
    case None
    have nb: "?bb < disksize s" "\<forall>j \<in> H. \<not> has_blk s j ?bb"
      using bitmap_blk [OF lo, of "of_nat b"] un [OF b(2)] b(2) Cons.prems(3) by (auto simp: held_used_def blk_ok_def)
    have rm: "int (card H) + lh_n s < LOGSIZE" using Cons.prems(1,3) by (simp add: in_op_def held_used_def)
    obtain i u t where t: "bread 1 ?bb s = Ok (i, u)" "b_data (bufs u ! i) = blk_view s ?bb" "brelse i u = Ok t"
      "fs_held H t" "seen s t" "keeps H s t" "seen s u" using read_blk [OF in_op_held [OF Cons.prems(1)] nb rm] .
    have su: "sb u = sb s" "sb t = sb s" using more_fs [OF seen_more [OF t(7)]] more_fs [OF seen_more [OF t(5)]] by simp_all
    have e: "balloc_from 1 (b # bs) s = balloc_from 1 bs t" using t(1-3) None by (simp add: su)
    obtain a where a: "unat a < ?n" "blk_free s a" "BPB * (unat a div BPB) \<in> set (b # bs)" using Cons.prems(5) by blast
    have "BPB * (unat a div BPB) \<noteq> b"
    proof
      assume q: "BPB * (unat a div BPB) = b"
      have k: "b + unat a mod BPB = unat a" unfolding q [symmetric] by simp
      have "BBLOCK (of_nat (b + unat a mod BPB)) (sb s) = ?bb" by (rule addr(2)) (use a(1) k in simp_all)
      then have "?P (unat a mod BPB)" using a(1,2) k by (simp add: blk_free_def)
      moreover have "unat a mod BPB \<in> set [0 ..< BPB]" by simp
      ultimately show False using None unfolding find_None_iff by blast
    qed
    then have ex: "\<exists>a. unat a < unat (sb_size (sb t)) \<and> blk_free t a \<and> BPB * (unat a div BPB) \<in> set bs"
      using a seen_free(1) [OF t(5)] by (auto simp: su)
    have hu: "held_used H t"
      using Cons.prems(3) seen_free [OF t(5)] keeps_has [OF t(6)] by (simp add: held_used_def)
    have "\<exists>a w. balloc_from 1 bs t = Ok (a, w) \<and> in_op H r w \<and> allocated H t a w"
      by (rule Cons.IH [OF seen_op [OF t(5,4) Cons.prems(1)] _ hu _ ex])
        (use Cons.prems(2,4) seen_free [OF t(5)] su in simp_all)
    then obtain a w where w: "balloc_from 1 bs t = Ok (a, w)" "in_op H r w" "allocated H t a w" by blast
    have "allocated H s a w"
      using w(3) seen_free [OF t(5)] t(5) su seen_more [OF t(5)] logged_trans [OF seen_logged [OF t(5)]] keeps_trans [OF t(6)]
      by (simp add: allocated_def seen_def)
    then show ?thesis using e w(1,2) by auto
  qed
qed

lemma balloc_ok:
  fixes s :: "'a fstate_scheme"
  assumes "in_op H (Suc (Suc r)) s" "space_ok s" "held_used H s"
    and "\<exists>a. unat a < unat (sb_size (sb s)) \<and> blk_free s a"
  obtains a t where "balloc 1 s = Ok (a, t)" "in_op H r t" "allocated H s a t"
proof -
  let ?n = "unat (sb_size (sb s))"
  let ?bs = "map (\<lambda>k. BPB * k) [0 ..< (?n + BPB - 1) div BPB]"
  have lt: "4096 * k < ?n" if "k < (?n + 4096 - 1) div 4096" for k using that by linarith
  obtain a where a: "unat a < ?n" "blk_free s a" using assms(4) by blast
  then have "unat a div 4096 < (?n + 4096 - 1) div 4096" by linarith
  then have "BPB * (unat a div BPB) \<in> set ?bs" by auto
  with a have ex: "\<exists>a. unat a < ?n \<and> blk_free s a \<and> BPB * (unat a div BPB) \<in> set ?bs" by blast
  have "\<forall>b \<in> set ?bs. b mod BPB = 0 \<and> b < ?n" using lt by auto
  from balloc_from_ok [OF assms(1-3) this ex] show thesis using that by (auto simp: balloc_def)
qed

definition free_blks :: "'a fstate_scheme \<Rightarrow> u32 set" where
  "free_blks s = {a. unat a < unat (sb_size (sb s)) \<and> blk_free s a}"

text \<open>What an allocation changes: the block itself, its bit, and no other block of interest.\<close>

lemma allocated_facts:
  fixes s t :: "'a fstate_scheme"
  assumes l: "space_ok s" and t: "allocated H s a t"
  shows "sb t = sb s" "icache t = icache s" "blk_view t a = zeroed (blk_view s a)"
    "\<And>n. n \<noteq> a \<Longrightarrow> data_blk s n \<or> unat n < unat (sb_bmapstart (sb s)) \<Longrightarrow> blk_view t n = blk_view s n"
    "free_blks t = free_blks s - {a}" "a \<in> free_blks s" "space_ok t"
    "\<And>n. data_blk s n \<Longrightarrow> blk_free t n \<longleftrightarrow> n \<noteq> a \<and> blk_free s n"
proof -
  have lo: "layout_ok s" using l by (simp add: space_ok_def)
  have T: "data_blk s a" "blk_free s a" "blk_view t = take_blk (sb s) a (blk_view s)" "logged s t"
    "lstate.more t = lstate.more s" using t by (simp_all add: allocated_def)
  show sb: "sb t = sb s" "icache t = icache s" using more_fs [OF T(5)] by simp_all
  have a: "unat a < unat (sb_size (sb s))" using T(1) by (simp add: data_blk_def)
  note bm = bitmap_blk [OF lo]
  show "blk_view t a = zeroed (blk_view s a)" by (simp add: T(3) take_blk_def)
  show "blk_view t n = blk_view s n" if n: "n \<noteq> a" "data_blk s n \<or> unat n < unat (sb_bmapstart (sb s))" for n
  proof -
    have "n \<noteq> BBLOCK a (sb s)" using n(2) bm(2) [OF a] unat_BBLOCK [OF lo a] by auto
    then show ?thesis using n(1) by (simp add: T(3) take_blk_def)
  qed
  have f: "blk_free t n \<longleftrightarrow> n \<noteq> a \<and> blk_free s n" if n: "unat n < unat (sb_size (sb s))" for n
  proof -
    have "BBLOCK n (sb s) \<noteq> a" using bm(2) [OF n] T(1) by auto
    then show ?thesis
      using same_bit [OF lo a n] by (auto simp: blk_free_def sb T(3) take_blk_def fun_upd_apply split: if_splits)
  qed
  show "blk_free t n \<longleftrightarrow> n \<noteq> a \<and> blk_free s n" if "data_blk s n" for n
    using f that by (simp add: data_blk_def)
  show "free_blks t = free_blks s - {a}" using f by (auto simp: free_blks_def sb)
  show "a \<in> free_blks s" using a T(2) by (simp add: free_blks_def)
  note lc = layout_cong [OF T(4,5)]
  show "space_ok t" using l f by (simp add: space_ok_def lc sb)
qed

end
