(* ===== verification/Files.thy ===== *)
theory Files
  imports Blocks
begin

text \<open>
  What the file system promises for the contents of a file: \<^verbatim>\<open>readi\<close> and \<^verbatim>\<open>writei\<close> on an
  inode are reads and writes of an array of bytes, also where \<^verbatim>\<open>bmap\<close> allocates the blocks
  that a write needs.
\<close>

unbundle bit_operations_syntax

section \<open>The blocks of a file\<close>

text \<open>
  Index 0 to 139 are the data blocks in their order in the file, of which those from 12 on
  are found in the indirect block, and index 140 is the indirect block itself.
\<close>

definition fblk :: "'a fstate_scheme \<Rightarrow> nat \<Rightarrow> nat \<Rightarrow> u32" where
  "fblk s i k =
     (let addrs = i_addrs (icache s ! i) in
      if k < NDIRECT then addrs ! k
      else if k = MAXFILE then addrs ! NDIRECT
      else if addrs ! NDIRECT = 0 then 0
      else get32 (blk_view s (addrs ! NDIRECT)) (4 * (k - NDIRECT)))"

text \<open>The blocks of an inode are data blocks in use, each at one place only.\<close>

definition file_ok :: "'a fstate_scheme \<Rightarrow> nat \<Rightarrow> bool" where
  "file_ok s i \<longleftrightarrow> i < length (icache s) \<and> i_dev (icache s ! i) = 1 \<and> i_type (icache s ! i) \<noteq> T_DEV \<and>
     length (i_addrs (icache s ! i)) = NDIRECT + 1 \<and>
     (\<forall>k \<le> MAXFILE. fblk s i k \<noteq> 0 \<longrightarrow> data_blk s (fblk s i k) \<and> \<not> blk_free s (fblk s i k)) \<and>
     (\<forall>j \<le> MAXFILE. \<forall>k \<le> MAXFILE. fblk s i j \<noteq> 0 \<longrightarrow> fblk s i j = fblk s i k \<longrightarrow> j = k)"

text \<open>A byte of the file; where no block is allocated it is zero.\<close>

definition file_byte :: "'a fstate_scheme \<Rightarrow> nat \<Rightarrow> nat \<Rightarrow> u8" where
  "file_byte s i x =
     (let n = fblk s i (x div BSIZE) in if n = 0 then 0 else blk_view s n (x mod BSIZE))"

lemma file_okD:
  assumes "file_ok s i"
  shows "i < length (icache s)" "i_dev (icache s ! i) = 1" "i_type (icache s ! i) \<noteq> T_DEV"
    "length (i_addrs (icache s ! i)) = 13"
    "k \<le> MAXFILE \<Longrightarrow> fblk s i k \<noteq> 0 \<Longrightarrow> data_blk s (fblk s i k)"
    "k \<le> MAXFILE \<Longrightarrow> fblk s i k \<noteq> 0 \<Longrightarrow> \<not> blk_free s (fblk s i k)"
    "j \<le> MAXFILE \<Longrightarrow> k \<le> MAXFILE \<Longrightarrow> fblk s i j \<noteq> 0 \<Longrightarrow> fblk s i j = fblk s i k \<Longrightarrow> j = k"
  using assms by (simp_all add: file_ok_def)

lemma seen_fblk:
  fixes s t :: "'a fstate_scheme"
  assumes "seen s t"
  shows "fblk t i = fblk s i" "file_byte t i = file_byte s i" "file_ok t i = file_ok s i"
proof -
  note m = more_fs [OF seen_more [OF assms]] seen_free [OF assms]
  have v: "blk_view t = blk_view s" using assms by (simp add: seen_def)
  show f: "fblk t i = fblk s i" by (rule ext) (simp add: fblk_def Let_def v m)
  show "file_byte t i = file_byte s i" by (rule ext) (simp add: file_byte_def Let_def f v)
  show "file_ok t i = file_ok s i" by (simp add: file_ok_def f m)
qed

section \<open>A file grows\<close>

text \<open>
  From \<open>s\<close> to \<open>t\<close> the inode \<open>i\<close> may have been given free blocks, which read as zeros;
  everything else on the disk but the bitmap is as it was.
\<close>

definition elsewhere :: "'a fstate_scheme \<Rightarrow> nat \<Rightarrow> u32 \<Rightarrow> bool" where
  "elsewhere s i n \<longleftrightarrow> unat n < unat (sb_bmapstart (sb s)) \<or>
     data_blk s n \<and> \<not> blk_free s n \<and> (\<forall>k \<le> MAXFILE. fblk s i k \<noteq> n)"

definition grown :: "nat \<Rightarrow> 'a fstate_scheme \<Rightarrow> 'a fstate_scheme \<Rightarrow> bool" where
  "grown i s t \<longleftrightarrow> logged s t \<and> sb t = sb s \<and> space_ok t \<and> file_ok t i \<and>
     (\<exists>as. icache t = (icache s)[i := (icache s ! i)\<lparr>i_addrs := as\<rparr>]) \<and>
     (\<forall>k \<le> MAXFILE. fblk s i k \<noteq> 0 \<longrightarrow> fblk t i k = fblk s i k) \<and>
     (\<forall>k \<le> MAXFILE. fblk s i k = 0 \<longrightarrow> fblk t i k \<noteq> 0 \<longrightarrow> blk_free s (fblk t i k)) \<and>
     free_blks t \<subseteq> free_blks s \<and> (\<forall>n. elsewhere s i n \<longrightarrow> blk_view t n = blk_view s n)"

lemma grownD:
  assumes "grown i s t"
  shows "logged s t" "sb t = sb s" "space_ok t" "file_ok t i" "free_blks t \<subseteq> free_blks s"
    "k \<le> MAXFILE \<Longrightarrow> fblk s i k \<noteq> 0 \<Longrightarrow> fblk t i k = fblk s i k"
    "k \<le> MAXFILE \<Longrightarrow> fblk s i k = 0 \<Longrightarrow> fblk t i k \<noteq> 0 \<Longrightarrow> blk_free s (fblk t i k)"
    "elsewhere s i n \<Longrightarrow> blk_view t n = blk_view s n" "data_blk t = data_blk s"
  using assms by (auto simp: grown_def data_blk_def data_start_def fun_eq_iff)

lemma data_nonzero: "layout_ok s \<Longrightarrow> data_blk s n \<Longrightarrow> n \<noteq> 0"
  using data_blk_ok by (auto simp: blk_ok_def)

lemma grown_elsewhere:
  assumes g: "grown i s t" and e: "elsewhere s i n"
  shows "elsewhere t i n"
proof (cases "unat n < unat (sb_bmapstart (sb s))")
  case True
  then show ?thesis using grownD(2) [OF g] by (simp add: elsewhere_def)
next
  case False
  then have d: "data_blk s n" "\<not> blk_free s n" "\<forall>k \<le> MAXFILE. fblk s i k \<noteq> n" using e by (auto simp: elsewhere_def)
  have "n \<notin> free_blks t" using d(1,2) grownD(5) [OF g] by (auto simp: free_blks_def)
  then have "\<not> blk_free t n" using d(1) grownD(2) [OF g] by (simp add: free_blks_def data_blk_def)
  moreover have "data_blk t n" using d(1) grownD(9) [OF g] by simp
  moreover have "n \<noteq> 0" using data_nonzero [of t n] grownD(3) [OF g] calculation(2) by (simp add: space_ok_def)
  then have "fblk t i k \<noteq> n" if "k \<le> MAXFILE" for k
    using grownD(6,7) [OF g that] d that by (cases "fblk s i k = 0") auto
  ultimately show ?thesis by (simp add: elsewhere_def)
qed

lemma grown_trans:
  assumes st: "grown i s t" and tu: "grown i t u"
  shows "grown i s u"
proof -
  note S = grownD [OF st]
  note U = grownD [OF tu]
  obtain as bs where a: "icache t = (icache s)[i := (icache s ! i)\<lparr>i_addrs := as\<rparr>]"
    "icache u = (icache t)[i := (icache t ! i)\<lparr>i_addrs := bs\<rparr>]" using st tu by (auto simp: grown_def)
  have "i < length (icache s)" using file_okD(1) [OF S(4)] a(1) by simp
  then have "icache u = (icache s)[i := (icache s ! i)\<lparr>i_addrs := bs\<rparr>]" unfolding a by simp
  moreover have "fblk u i k = fblk s i k" if "k \<le> MAXFILE" "fblk s i k \<noteq> 0" for k
    using S(6) [OF that] U(6) [OF that(1)] that(2) by simp
  moreover have "blk_free s (fblk u i k)" if k: "k \<le> MAXFILE" "fblk s i k = 0" "fblk u i k \<noteq> 0" for k
  proof (cases "fblk t i k = 0")
    case True
    then have f: "blk_free t (fblk u i k)" using U(7) k by simp
    have "data_blk t (fblk u i k)" using file_okD(5) [OF U(4) k(1,3)] U(9) by simp
    then have "fblk u i k \<in> free_blks t" using f by (simp add: free_blks_def data_blk_def)
    then show ?thesis using S(5) by (auto simp: free_blks_def)
  next
    case False
    then show ?thesis using U(6) [OF k(1) False] S(7) [OF k(1,2) False] by simp
  qed
  moreover have "blk_view u n = blk_view s n" if "elsewhere s i n" for n
    using U(8) [OF grown_elsewhere [OF st that]] S(8) [OF that] by simp
  ultimately show ?thesis using S(1,2,5) U(1-5) logged_trans by (auto simp: grown_def)
qed

lemma grown_seen:
  fixes s t :: "'a fstate_scheme"
  assumes "seen s t" "space_ok s" "file_ok s i"
  shows "grown i s t"
proof -
  note m = more_fs [OF seen_more [OF assms(1)]] seen_free [OF assms(1)] seen_fblk [OF assms(1)]
  have "\<exists>as. icache t = (icache s)[i := (icache s ! i)\<lparr>i_addrs := as\<rparr>]"
    by (rule exI [of _ "i_addrs (icache s ! i)"]) (simp add: m)
  then show ?thesis
    unfolding grown_def using assms m seen_logged [OF assms(1)] by (simp add: free_blks_def seen_def)
qed

text \<open>
  One block \<open>a\<close> is taken and becomes entry \<open>q\<close> of the file.
\<close>

lemma adopt_block:
  fixes s t :: "'a fstate_scheme"
  assumes f: "file_ok s i" and l: "space_ok s" "space_ok t" and g: "logged s t" "sb t = sb s"
    and a: "data_blk s a" "blk_free s a" and q: "q \<le> MAXFILE" "fblk s i q = 0"
    and c: "icache t = (icache s)[i := (icache s ! i)\<lparr>i_addrs := as\<rparr>]" "length as = 13"
    and n: "\<And>k. k \<le> MAXFILE \<Longrightarrow> fblk t i k = (if k = q then a else fblk s i k)"
    and fr: "free_blks t = free_blks s - {a}"
    and v: "\<And>n. n \<noteq> a \<Longrightarrow> n = 0 \<or> n \<noteq> fblk s i MAXFILE \<Longrightarrow> data_blk s n \<or> unat n < unat (sb_bmapstart (sb s)) \<Longrightarrow> blk_view t n = blk_view s n"
    and z: "\<And>k. k < BSIZE \<Longrightarrow> blk_view t a k = 0"
  shows "grown i s t" "x < MAXFILE * BSIZE \<Longrightarrow> file_byte t i x = file_byte s i x"
proof -
  have lo: "layout_ok s" using l(1) by (simp add: space_ok_def)
  note F = file_okD [OF f]
  have d: "data_blk t = data_blk s" using g(2) by (auto simp: data_blk_def data_start_def fun_eq_iff)
  have fre: "blk_free t b \<longleftrightarrow> b \<noteq> a \<and> blk_free s b" if "data_blk s b" for b
  proof -
    have "b \<in> free_blks t \<longleftrightarrow> b \<in> free_blks s - {a}" unfolding fr ..
    then show ?thesis using that g(2) by (simp add: free_blks_def data_blk_def conj_commute)
  qed
  have old: "fblk s i k \<noteq> a" if "k \<le> MAXFILE" for k using F(6) [OF that] a(2) data_nonzero [OF lo a(1)] by auto
  have "fblk t i k \<noteq> 0 \<longrightarrow> data_blk t (fblk t i k) \<and> \<not> blk_free t (fblk t i k)" if "k \<le> MAXFILE" for k
    using n [OF that] F(5,6) [OF that] a(1) fre d by auto
  moreover have "j = k" if "j \<le> MAXFILE" "k \<le> MAXFILE" "fblk t i j \<noteq> 0" "fblk t i j = fblk t i k" for j k
    using that n [OF that(1)] n [OF that(2)] old [OF that(1)] old [OF that(2)] F(7) [OF that(1,2)] by (auto split: if_splits)
  ultimately have fo: "file_ok t i" using F(1-4) c unfolding file_ok_def by simp
  have "blk_view t n = blk_view s n" if e: "elsewhere s i n" for n
  proof (cases "unat n < unat (sb_bmapstart (sb s))")
    case True
    then have nd: "\<not> data_blk s n" by (simp add: data_blk_def data_start_def)
    have "n \<noteq> a" using nd a(1) by blast
    moreover have "n = 0 \<or> n \<noteq> fblk s i MAXFILE" using F(5) [of MAXFILE] nd by auto
    ultimately show ?thesis using v True by blast
  next
    case False
    then have d: "data_blk s n" "\<not> blk_free s n" "\<forall>k \<le> MAXFILE. fblk s i k \<noteq> n" using e by (auto simp: elsewhere_def)
    then have "n \<noteq> a" "n \<noteq> fblk s i MAXFILE" using a(2) by auto
    then show ?thesis using v d(1) by blast
  qed
  moreover have "fblk s i k = 0 \<longrightarrow> fblk t i k \<noteq> 0 \<longrightarrow> blk_free s (fblk t i k)"
      "fblk s i k \<noteq> 0 \<longrightarrow> fblk t i k = fblk s i k" if "k \<le> MAXFILE" for k
    using n [OF that] a(2) q by auto
  ultimately show "grown i s t" using g l(2) fo c(1) fr by (auto simp: grown_def)
  show "file_byte t i x = file_byte s i x" if x: "x < MAXFILE * BSIZE"
  proof -
    have k: "x div 512 < 140" "x mod 512 < 512" using x by (simp_all add: div_less_iff_less_mult)
    let ?k = "x div 512"
    have nk: "fblk t i ?k = (if ?k = q then a else fblk s i ?k)" using n k(1) by simp
    show ?thesis
    proof (cases "?k = q")
      case True
      then show ?thesis using nk q(2) z k(2) data_nonzero [OF lo a(1)] by (simp add: file_byte_def Let_def)
    next
      case False
      show ?thesis
      proof (cases "fblk s i ?k = 0")
        case True
        then show ?thesis using nk False by (simp add: file_byte_def)
      next
        case nz: False
        have "fblk s i ?k \<noteq> fblk s i MAXFILE" using F(7) [of ?k MAXFILE] k(1) nz by auto
        moreover have "data_blk s (fblk s i ?k)" "fblk s i ?k \<noteq> a" using F(5) nz old k(1) by simp_all
        ultimately show ?thesis using v nk False nz by (simp add: file_byte_def)
      qed
    qed
  qed
qed

section \<open>The inode cache and the disk\<close>

lemma icache_blk [simp]:
  fixes s :: "'a fstate_scheme"
  shows "bio_ok (s\<lparr>icache := c\<rparr>) = bio_ok s" "in_process (s\<lparr>icache := c\<rparr>) = in_process s"
    "buf_held (s\<lparr>icache := c\<rparr>) = buf_held s" "blk_view (s\<lparr>icache := c\<rparr>) = blk_view s"
    "bio_dirty (s\<lparr>icache := c\<rparr>) = bio_dirty s" "has_blk (s\<lparr>icache := c\<rparr>) = has_blk s" "homes (s\<lparr>icache := c\<rparr>) = homes s"
    "buf_mine (s\<lparr>icache := c\<rparr>) = buf_mine s" "cur_pid (s\<lparr>icache := c\<rparr>) = cur_pid s"
  by (simp_all add: bio_ok_def in_process_def quiet_def buf_held_def has_blk_def blk_view_def bio_dirty_def homes_def
      buf_mine_def holdingsleep_def cur_pid_def fun_eq_iff cong: option.case_cong)

lemma icache_fs [simp]:
  fixes s :: "'a fstate_scheme"
  shows "in_op H r (s\<lparr>icache := c\<rparr>) = in_op H r s" "fs_held H (s\<lparr>icache := c\<rparr>) = fs_held H s"
    "keeps H s' (s\<lparr>icache := c\<rparr>) = keeps H s' s" "logged s' (s\<lparr>icache := c\<rparr>) = logged s' s"
    "space_ok (s\<lparr>icache := c\<rparr>) = space_ok s" "layout_ok (s\<lparr>icache := c\<rparr>) = layout_ok s"
    "blk_free (s\<lparr>icache := c\<rparr>) = blk_free s" "free_blks (s\<lparr>icache := c\<rparr>) = free_blks s"
    "data_blk (s\<lparr>icache := c\<rparr>) = data_blk s" "blk_ok (s\<lparr>icache := c\<rparr>) = blk_ok s"
proof -
  have i: "log_inv (s\<lparr>icache := c\<rparr>) = log_inv s" by (simp add: log_inv_def log_region_def)
  show h: "fs_held H (s\<lparr>icache := c\<rparr>) = fs_held H s" by (simp add: fs_held_def i)
  show "in_op H r (s\<lparr>icache := c\<rparr>) = in_op H r s" by (simp add: in_op_def h)
  show f: "blk_free (s\<lparr>icache := c\<rparr>) = blk_free s" by (rule ext) (simp add: blk_free_def)
  show d: "data_blk (s\<lparr>icache := c\<rparr>) = data_blk s" by (rule ext) (simp add: data_blk_def data_start_def)
  show l: "layout_ok (s\<lparr>icache := c\<rparr>) = layout_ok s" by (simp add: layout_ok_def data_start_def)
  show "space_ok (s\<lparr>icache := c\<rparr>) = space_ok s" by (simp add: space_ok_def f d l)
  show "free_blks (s\<lparr>icache := c\<rparr>) = free_blks s" by (simp add: free_blks_def f)
qed (simp_all add: keeps_def logged_def blk_ok_def log_region_def fun_eq_iff)

section \<open>Finding and allocating blocks\<close>

lemma get32_zeroed: "k + 4 \<le> BSIZE \<Longrightarrow> get32 (zeroed d) k = 0"
  by (simp add: get32_def zeroed_def)

text \<open>A new block enters the array of the inode, as a data block or as the indirect block.\<close>

lemma grow_addrs:
  fixes s t :: "'a fstate_scheme"
  assumes f: "file_ok s i" and l: "space_ok s" and t: "allocated {} s a t"
    and p: "p \<le> NDIRECT" "i_addrs (icache s ! i) ! p = 0"
  defines "u \<equiv> upd_inode i (\<lambda>ip. ip\<lparr>i_addrs := (i_addrs ip)[p := a]\<rparr>) t"
  defines "q \<equiv> if p = NDIRECT then MAXFILE else p"
  shows "grown i s u" "fblk u i q = a" "fblk s i q = 0" "x < MAXFILE * BSIZE \<Longrightarrow> file_byte u i x = file_byte s i x"
    "free_blks u = free_blks s - {a}" "a \<noteq> 0" "k \<le> MAXFILE \<Longrightarrow> k \<noteq> q \<Longrightarrow> fblk u i k = fblk s i k"
proof -
  note F = file_okD [OF f]
  note A = allocated_facts [OF l t]
  have al: "data_blk s a" "blk_free s a" "logged s t" using t by (simp_all add: allocated_def)
  have lo: "layout_ok s" using l by (simp add: space_ok_def)
  show nz: "a \<noteq> 0" by (rule data_nonzero [OF lo al(1)])
  let ?as = "(i_addrs (icache s ! i))[p := a]"
  have u: "u = t\<lparr>icache := (icache s)[i := (icache s ! i)\<lparr>i_addrs := ?as\<rparr>]\<rparr>"
    by (simp add: u_def upd_inode_def A(2))
  have cu: "icache u = (icache s)[i := (icache s ! i)\<lparr>i_addrs := ?as\<rparr>]" by (simp add: u)
  have vu: "blk_view u = blk_view t" by (simp add: u)
  have au: "i_addrs (icache u ! i) = ?as" using F(1) by (simp add: cu)
  have q: "q \<le> MAXFILE" using p by (auto simp: q_def)
  show q0: "fblk s i q = 0" using p F(4) by (auto simp: q_def fblk_def)
  let ?ind = "i_addrs (icache s ! i) ! NDIRECT"
  have ind: "fblk s i MAXFILE = ?ind" by (simp add: fblk_def)
  have n: "fblk u i k = (if k = q then a else fblk s i k)" if k: "k \<le> MAXFILE" for k
  proof -
    consider "k < NDIRECT" | "k = MAXFILE" | "NDIRECT \<le> k" "k < MAXFILE" using k by linarith
    then show ?thesis
    proof cases
      case 1
      then show ?thesis using p(1) F(4) by (auto simp: fblk_def au q_def nth_list_update)
    next
      case 2
      then show ?thesis using p(1) F(4) by (auto simp: fblk_def au q_def nth_list_update)
    next
      case 3
      then have kq: "k \<noteq> q" using p(1) by (auto simp: q_def)
      show ?thesis
      proof (cases "p = NDIRECT")
        case True
        then have "fblk u i k = get32 (zeroed (blk_view s a)) (4 * (k - NDIRECT))"
          using 3 nz F(4) by (simp add: fblk_def au vu A(3))
        also have "\<dots> = 0" using 3 by (intro get32_zeroed) simp
        finally show ?thesis using True p(2) 3 kq by (simp add: fblk_def)
      next
        case False
        then have e: "?as ! NDIRECT = ?ind" by simp
        have "blk_view t ?ind = blk_view s ?ind" if "?ind \<noteq> 0"
        proof (rule A(4))
          show "?ind \<noteq> a" using F(6) [of MAXFILE] that al(2) by (auto simp: ind)
          show "data_blk s ?ind \<or> unat ?ind < unat (sb_bmapstart (sb s))" using F(5) [of MAXFILE] that by (simp add: ind)
        qed
        then show ?thesis using 3 kq e by (auto simp: fblk_def au vu Let_def)
      qed
    qed
  qed
  show "fblk u i q = a" using n q by simp
  show "k \<le> MAXFILE \<Longrightarrow> k \<noteq> q \<Longrightarrow> fblk u i k = fblk s i k" using n by simp
  show fr: "free_blks u = free_blks s - {a}" by (simp add: u A(5))
  have c: "length ?as = 13" using F(4) by simp
  have v: "blk_view u m = blk_view s m"
    if "m \<noteq> a" "m = 0 \<or> m \<noteq> fblk s i MAXFILE" "data_blk s m \<or> unat m < unat (sb_bmapstart (sb s))" for m
    using A(4) [OF that(1,3)] by (simp add: vu)
  have z: "blk_view u a k = 0" if "k < BSIZE" for k using that by (simp add: vu A(3) zeroed_def)
  have su: "space_ok u" "logged s u" "sb u = sb s" using A(1,7) al(3) by (simp_all add: u)
  note R = adopt_block [OF f l su al(1,2) q q0 cu c n fr v z]
  show "grown i s u" by (rule R(1))
  show "x < MAXFILE * BSIZE \<Longrightarrow> file_byte u i x = file_byte s i x" by (rule R(2))
qed

text \<open>A new block enters the indirect block, whose buffer is held while it is allocated.\<close>

lemma grow_leaf:
  fixes s :: "'a fstate_scheme"
  assumes f: "file_ok s i" and l: "space_ok s" and o: "in_op {} (Suc (Suc (Suc r))) s"
    and ind: "i_addrs (icache s ! i) ! NDIRECT = ind" "ind \<noteq> 0"
    and k: "NDIRECT \<le> k" "k < MAXFILE" "fblk s i k = 0" and fr: "free_blks s \<noteq> {}"
  obtains b s1 a t v u where "bread 1 ind s = Ok (b, s1)" "get32 (b_data (bufs s1 ! b)) (4 * (k - NDIRECT)) = 0"
    "balloc 1 s1 = Ok (a, t)"
    "log_write b (upd_buf b (\<lambda>bf. bf\<lparr>b_data := put32 (b_data bf) (4 * (k - NDIRECT)) a\<rparr>) t) = Ok v" "brelse b v = Ok u"
    "in_op {} r u" "grown i s u" "fblk u i k = a" "a \<noteq> 0" "\<forall>x < MAXFILE * BSIZE. file_byte u i x = file_byte s i x"
    "free_blks u = free_blks s - {a}"
proof -
  note F = file_okD [OF f]
  have lo: "layout_ok s" using l by (simp add: space_ok_def)
  have fi: "fblk s i MAXFILE = ind" using ind by (simp add: fblk_def)
  have di: "data_blk s ind" "\<not> blk_free s ind" using F(5,6) [of MAXFILE] ind(2) by (simp_all add: fi)
  have ki: "blk_ok s ind" "ind < disksize s" using data_blk_ok [OF lo di(1)] by (simp_all add: blk_ok_def)
  let ?o = "4 * (k - NDIRECT)"
  have rm: "int (card {}) + lh_n s < LOGSIZE" using o by (simp add: in_op_def)
  obtain b s1 where s1: "bread 1 ind s = Ok (b, s1)" "b \<notin> {}" "fs_held (insert b {}) s1" "buf_mine s1 b ind"
    "b_data (bufs s1 ! b) = blk_view s ind" "seen s s1" "keeps {} s s1"
    using get_blk [OF in_op_held [OF o] ki(2) _ rm] by blast
  note M = more_fs [OF seen_more [OF s1(6)]] seen_free [OF s1(6)] seen_fblk [OF s1(6)]
  have v1: "blk_view s1 = blk_view s" using s1(6) by (simp add: seen_def)
  have o1: "in_op {b} (Suc (Suc (Suc r))) s1" using seen_op [OF s1(6) s1(3) o] .
  have hu: "held_used {b} s1" using s1(4) di by (auto simp: held_used_def M buf_mine_def has_blk_def)
  have "\<exists>a. unat a < unat (sb_size (sb s1)) \<and> blk_free s1 a" using fr by (auto simp: free_blks_def M)
  then obtain a t where t: "balloc 1 s1 = Ok (a, t)" "in_op {b} (Suc r) t" "allocated {b} s1 a t"
    using balloc_ok [OF o1 _ hu] l M(4) by auto
  have l1: "space_ok s1" using l M(4) by simp
  note A = allocated_facts [OF l1 t(3)]
  have al: "data_blk s a" "blk_free s a" "logged s1 t" "keeps {b} s1 t" "lstate.more t = lstate.more s1"
    using t(3) by (simp_all add: allocated_def M)
  have lt: "logged s t" by (rule logged_trans [OF seen_logged [OF s1(6)] al(3)])
  have ai: "ind \<noteq> a" using di(2) al(2) by auto
  have vt: "blk_view t ind = blk_view s ind" using A(4) [of ind] ai di(1) by (simp add: M v1)
  have "bufs t ! b = bufs s1 ! b" "cur_pid t = cur_pid s1" using al(3,4) by (simp_all add: keeps_def logged_def)
  then have mt: "buf_mine t b ind" using s1(4) by (simp add: buf_mine_def has_blk_def holdingsleep_def)
  have kt: "blk_ok t ind" using ki(1) logged_blk [OF lt] by simp
  let ?F = "\<lambda>d. put32 d ?o a"
  have ot: "in_op (insert b {}) (Suc r) t" using t(2) by simp
  obtain v u where u: "log_write b (upd_buf b (\<lambda>bf. bf\<lparr>b_data := ?F (b_data bf)\<rparr>) t) = Ok v" "brelse b v = Ok u"
    "in_op {} r u" "ind \<in> homes t \<longrightarrow> in_op {} (Suc r) u" "blk_view u = (blk_view t)(ind := ?F (blk_view t ind))"
    "logged t u" "keeps {} t u" "lstate.more u = lstate.more t" "homes u = insert ind (homes t)"
    using log_blk [OF ot _ mt kt, of ?F] by blast
  have U: "icache u = icache s" "sb u = sb s" using more_fs [OF u(8)] A(1,2) M(1,2) by simp_all
  have lu: "logged s u" by (rule logged_trans [OF lt u(6)])
  have au: "i_addrs (icache u ! i) = i_addrs (icache s ! i)" by (simp add: U)
  have nz: "a \<noteq> 0" by (rule data_nonzero [OF lo al(1)])
  have n: "fblk u i j = (if j = k then a else fblk s i j)" if "j \<le> MAXFILE" for j
  proof -
    have "get32 (?F (blk_view s ind)) (4 * (j - NDIRECT)) =
        (if j = k then a else get32 (blk_view s ind) (4 * (j - NDIRECT)))" if "NDIRECT \<le> j"
      using that k(1) by (auto intro!: get32_put32_other)
    then show ?thesis using k ind by (auto simp: fblk_def au u(5) vt Let_def)
  qed
  have bm: "BBLOCK m (sb s) \<noteq> ind" if "unat m < unat (sb_size (sb s))" for m using bitmap_blk(2) [OF lo that] di(1) by auto
  have "blk_free u m = blk_free t m" if "unat m < unat (sb_size (sb s))" for m
    using bm [OF that] by (simp add: blk_free_def U(2) A(1) M u(5))
  then have fu: "free_blks u = free_blks s - {a}" using A(1,5) by (auto simp: free_blks_def U(2) M)
  have c: "icache u = (icache s)[i := (icache s ! i)\<lparr>i_addrs := i_addrs (icache s ! i)\<rparr>]" by (simp add: U)
  have vv: "blk_view u m = blk_view s m"
    if "m \<noteq> a" "m = 0 \<or> m \<noteq> fblk s i MAXFILE" "data_blk s m \<or> unat m < unat (sb_bmapstart (sb s))" for m
  proof -
    have "m \<noteq> ind" using that(2) ind(2) by (auto simp: fi)
    then show ?thesis using A(4) [of m] that(1,3) by (simp add: u(5) M v1)
  qed
  have z: "blk_view u a j = 0" if "j < BSIZE" for j using that ai by (simp add: u(5) A(3) zeroed_def)
  have "blk_free u m \<Longrightarrow> data_blk u m" if "unat m < unat (sb_size (sb u))" for m
    using that fu l by (auto simp: free_blks_def space_ok_def U data_blk_def data_start_def)
  moreover have "layout_ok u" using lo lu by (simp add: layout_ok_def data_start_def U logged_def)
  ultimately have su: "space_ok u" by (simp add: space_ok_def)
  have q: "k \<le> MAXFILE" "fblk s i k = 0" using k by simp_all
  note R = adopt_block [OF f l su lu U(2) al(1,2) q c F(4) n fu vv z]
  have g0: "get32 (b_data (bufs s1 ! b)) ?o = 0" using k ind by (simp add: s1(5) fblk_def)
  have fk: "fblk u i k = a" using n [OF q(1)] by simp
  have gr: "grown i s u" by (rule R(1))
  have "\<forall>x < MAXFILE * BSIZE. file_byte u i x = file_byte s i x" by (intro allI impI) (rule R(2))
  then show thesis using that [OF s1(1) g0 t(1) u(1-3) gr fk nz _ fu] by blast
qed

lemma bn_words:
  assumes "bn < MAXFILE"
  shows "unat (of_nat bn :: u32) = bn" "(of_nat bn :: u32) < of_nat NDIRECT \<longleftrightarrow> bn < NDIRECT"
    "NDIRECT \<le> bn \<Longrightarrow> unat ((of_nat bn :: u32) - of_nat NDIRECT) = bn - NDIRECT"
    "NDIRECT \<le> bn \<Longrightarrow> (of_nat bn :: u32) - of_nat NDIRECT < of_nat NINDIRECT"
proof -
  show u: "unat (of_nat bn :: u32) = bn" using assms by (intro unat_of_nat32) simp
  show "(of_nat bn :: u32) < of_nat NDIRECT \<longleftrightarrow> bn < NDIRECT" unfolding word_less_nat_alt u by simp
  show k: "unat ((of_nat bn :: u32) - of_nat NDIRECT) = bn - NDIRECT" if "NDIRECT \<le> bn"
    using that u by (subst unat_sub32) simp_all
  show "(of_nat bn :: u32) - of_nat NDIRECT < of_nat NINDIRECT" if "NDIRECT \<le> bn"
    unfolding word_less_nat_alt k [OF that] using assms by simp
qed

lemma card_remove_le: "card A \<le> card (A - {x}) + 1"
  by (cases "x \<in> A") (auto simp: card_Diff_singleton_if)

text \<open>The three ways through \<^verbatim>\<open>bmap\<close>.\<close>

definition bmap_leaf :: "nat \<Rightarrow> nat \<Rightarrow> u32 \<Rightarrow> 'a fstate_scheme \<Rightarrow> (u32 \<times> 'a fstate_scheme) outcome" where
  "bmap_leaf i k ind s =
     obind (bread 1 ind s) (\<lambda>(bp, s).
     let addr = get32 (b_data (bufs s ! bp)) (4 * k) in
     obind
       (if addr = 0 then
          obind (balloc 1 s) (\<lambda>(addr, s).
          let s = upd_buf bp (\<lambda>b. b\<lparr>b_data := put32 (b_data b) (4 * k) addr\<rparr>) s in
          obind (log_write bp s) (\<lambda>s. Ok (addr, s)))
        else Ok (addr, s)) (\<lambda>(addr, s).
     obind (brelse bp s) (\<lambda>s. Ok (addr, s))))"

lemma bmap_direct:
  assumes "i_dev (icache s ! i) = 1" "bn < NDIRECT"
  shows "bmap i (of_nat bn) s =
    (let addr = i_addrs (icache s ! i) ! bn in
     if addr = 0 then obind (balloc 1 s) (\<lambda>(addr, s). Ok (addr, upd_inode i (\<lambda>ip. ip\<lparr>i_addrs := (i_addrs ip)[bn := addr]\<rparr>) s))
     else Ok (addr, s))"
proof -
  have "bn < MAXFILE" using assms(2) by simp
  note w = bn_words(1,2) [OF this]
  show ?thesis unfolding bmap_def Let_def w assms(1) using assms(2) by simp
qed

lemma bmap_indirect:
  assumes "i_dev (icache s ! i) = 1" "NDIRECT \<le> bn" "bn < MAXFILE"
  shows "bmap i (of_nat bn) s =
    (let ind = i_addrs (icache s ! i) ! NDIRECT in
     if ind = 0 then
       obind (balloc 1 s) (\<lambda>(ind, s). bmap_leaf i (bn - NDIRECT) ind (upd_inode i (\<lambda>ip. ip\<lparr>i_addrs := (i_addrs ip)[NDIRECT := ind]\<rparr>) s))
     else bmap_leaf i (bn - NDIRECT) ind s)"
proof -
  note w = bn_words [OF assms(3)]
  have nd: "\<not> (of_nat bn :: u32) < of_nat NDIRECT" using assms(2) unfolding w(2) by simp
  show ?thesis
    unfolding bmap_def bmap_leaf_def Let_def assms(1) if_not_P [OF nd] if_P [OF w(4) [OF assms(2)]] w(3) [OF assms(2)]
    by (simp add: obind_assoc split_def)
qed

text \<open>A block that is there is found, and nothing is changed.\<close>

lemma bmap_mapped:
  fixes s :: "'a fstate_scheme"
  assumes h: "fs_held {} s" and f: "file_ok s i" and l: "space_ok s" and k: "bn < MAXFILE" "fblk s i bn \<noteq> 0"
  obtains t where "bmap i (of_nat bn) s = Ok (fblk s i bn, t)" "seen s t" "fs_held {} t"
proof -
  note F = file_okD [OF f]
  show thesis
  proof (cases "bn < NDIRECT")
    case True
    then have "bmap i (of_nat bn) s = Ok (fblk s i bn, s)"
      using k(2) unfolding bmap_direct [OF F(2) True] by (simp add: fblk_def Let_def)
    then show thesis using that [of s] h by simp
  next
    case False
    let ?ind = "i_addrs (icache s ! i) ! NDIRECT"
    have nb: "NDIRECT \<le> bn" using False by simp
    have i0: "?ind \<noteq> 0" and g: "fblk s i bn = get32 (blk_view s ?ind) (4 * (bn - NDIRECT))"
      using k False by (auto simp: fblk_def Let_def split: if_splits)
    have "data_blk s ?ind" using F(5) [of MAXFILE] i0 by (simp add: fblk_def)
    then have n: "?ind < disksize s" using data_blk_ok [of s ?ind] l by (simp add: space_ok_def blk_ok_def)
    have rm: "int (card ({} :: nat set)) + lh_n s < LOGSIZE" using h by (simp add: fs_held_def log_inv_def)
    obtain b u t where u: "bread 1 ?ind s = Ok (b, u)" "b_data (bufs u ! b) = blk_view s ?ind" "brelse b u = Ok t"
      "fs_held {} t" "seen s t" "keeps {} s t" "seen s u" using read_blk [OF h n _ rm] by blast
    have "bmap i (of_nat bn) s = Ok (fblk s i bn, t)"
      using i0 k(2) u(1-3) unfolding bmap_indirect [OF F(2) nb k(1)] by (simp add: bmap_leaf_def g)
    then show thesis using that u(4,5) by blast
  qed
qed

lemma bmap_leaf_new:
  fixes s :: "'a fstate_scheme"
  assumes f: "file_ok s i" and l: "space_ok s" and o: "in_op {} (Suc (Suc (Suc r))) s"
    and ind: "i_addrs (icache s ! i) ! NDIRECT = ind" "ind \<noteq> 0"
    and k: "NDIRECT \<le> bn" "bn < MAXFILE" "fblk s i bn = 0" and fr: "free_blks s \<noteq> {}"
  obtains u where "bmap_leaf i (bn - NDIRECT) ind s = Ok (fblk u i bn, u)" "fblk u i bn \<noteq> 0"
    "in_op {} r u" "grown i s u" "\<forall>x < MAXFILE * BSIZE. file_byte u i x = file_byte s i x"
    "card (free_blks s) \<le> card (free_blks u) + 1"
proof -
  obtain b s1 a t v u where u: "bread 1 ind s = Ok (b, s1)" "get32 (b_data (bufs s1 ! b)) (4 * (bn - NDIRECT)) = 0"
    "balloc 1 s1 = Ok (a, t)"
    "log_write b (upd_buf b (\<lambda>bf. bf\<lparr>b_data := put32 (b_data bf) (4 * (bn - NDIRECT)) a\<rparr>) t) = Ok v" "brelse b v = Ok u"
    "in_op {} r u" "grown i s u" "fblk u i bn = a" "a \<noteq> 0" "\<forall>x < MAXFILE * BSIZE. file_byte u i x = file_byte s i x"
    "free_blks u = free_blks s - {a}" using grow_leaf [OF f l o ind k fr] .
  have e: "bmap_leaf i (bn - NDIRECT) ind s = Ok (fblk u i bn, u)" by (simp add: bmap_leaf_def u(1-5,8))
  have "card (free_blks s) \<le> card (free_blks u) + 1"
    unfolding u(11) by (rule card_remove_le)
  then show thesis using that [OF e _ u(6,7,10)] u(8,9) by simp
qed

text \<open>
  \<^verbatim>\<open>bmap\<close> gives block \<open>bn\<close> of the file, which it allocates where there is none; what the
  file reads as stays the same.
\<close>

lemma bmap_ok:
  fixes s :: "'a fstate_scheme"
  assumes f: "file_ok s i" and l: "space_ok s" and o: "in_op {} (5 + r) s"
    and k: "bn < MAXFILE" and fr: "2 \<le> card (free_blks s)"
  obtains u where "bmap i (of_nat bn) s = Ok (fblk u i bn, u)" "fblk u i bn \<noteq> 0"
    "in_op {} r u" "grown i s u" "\<forall>x < MAXFILE * BSIZE. file_byte u i x = file_byte s i x"
    "card (free_blks s) \<le> card (free_blks u) + 2" "fblk s i bn \<noteq> 0 \<longrightarrow> icache u = icache s"
proof -
  note F = file_okD [OF f]
  have ne: "free_blks s \<noteq> {}" using fr by auto
  have free1: "\<exists>a. unat a < unat (sb_size (sb s)) \<and> blk_free s a" using ne by (auto simp: free_blks_def)
  have hu: "held_used {} s" by (simp add: held_used_def)
  show thesis
  proof (cases "fblk s i bn = 0")
    case False
    obtain t where t: "bmap i (of_nat bn) s = Ok (fblk s i bn, t)" "seen s t" "fs_held {} t"
      using bmap_mapped [OF in_op_held [OF o] f l k False] .
    note m = more_fs [OF seen_more [OF t(2)]] seen_fblk [OF t(2)] seen_free [OF t(2)]
    have "in_op {} r t" using seen_op [OF t(2,3) o] by (rule in_op_less) simp
    moreover have "free_blks t = free_blks s" by (simp add: free_blks_def m)
    ultimately show thesis using that [of t] t(1) False grown_seen [OF t(2) l f] m by simp
  next
    case new: True
    show thesis
    proof (cases "bn < NDIRECT")
      case True
      have z: "i_addrs (icache s ! i) ! bn = 0" using new True by (simp add: fblk_def)
      have o2: "in_op {} (Suc (Suc r)) s" using o by (rule in_op_less) simp
      obtain a t where t: "balloc 1 s = Ok (a, t)" "in_op {} r t" "allocated {} s a t"
        using balloc_ok [OF o2 l hu free1] .
      let ?u = "upd_inode i (\<lambda>ip. ip\<lparr>i_addrs := (i_addrs ip)[bn := a]\<rparr>) t"
      have p: "bn \<le> NDIRECT" using True by simp
      note G = grow_addrs [OF f l t(3) p z]
      have fk: "fblk ?u i bn = a" using G(2) True by simp
      have e: "bmap i (of_nat bn) s = Ok (fblk ?u i bn, ?u)" unfolding fk bmap_direct [OF F(2) True] by (simp add: z t(1))
      have "card (free_blks s) \<le> card (free_blks ?u) + 2" using card_remove_le [of "free_blks s" a] by (simp add: G(5))
      moreover have "in_op {} r ?u" using t(2) by (simp add: upd_inode_def)
      ultimately show thesis using that [OF e _ _ G(1)] G(4,6) fk new by simp
    next
      case False
      then have nb: "NDIRECT \<le> bn" by simp
      let ?ind = "i_addrs (icache s ! i) ! NDIRECT"
      show thesis
      proof (cases "?ind = 0")
        case i0: False
        have o3: "in_op {} (Suc (Suc (Suc r))) s" using o by (rule in_op_less) simp
        obtain u where u: "bmap_leaf i (bn - NDIRECT) ?ind s = Ok (fblk u i bn, u)" "fblk u i bn \<noteq> 0"
          "in_op {} r u" "grown i s u" "\<forall>x < MAXFILE * BSIZE. file_byte u i x = file_byte s i x"
          "card (free_blks s) \<le> card (free_blks u) + 1" using bmap_leaf_new [OF f l o3 refl i0 nb k new ne] .
        have "bmap i (of_nat bn) s = Ok (fblk u i bn, u)" using i0 u(1) unfolding bmap_indirect [OF F(2) nb k] by simp
        then show thesis using that [OF _ u(2-5)] u(6) new by simp
      next
        case i0: True
        have o5: "in_op {} (Suc (Suc (3 + r))) s" using o by simp
        obtain a t where t: "balloc 1 s = Ok (a, t)" "in_op {} (3 + r) t" "allocated {} s a t"
          using balloc_ok [OF o5 l hu free1] .
        let ?t = "upd_inode i (\<lambda>ip. ip\<lparr>i_addrs := (i_addrs ip)[NDIRECT := a]\<rparr>) t"
        note G = grow_addrs [OF f l t(3) order_refl i0]
        have f1: "file_ok ?t i" "space_ok ?t" using grownD(4,3) [OF G(1)] .
        have o1: "in_op {} (Suc (Suc (Suc r))) ?t" using t(2) by (simp add: upd_inode_def numeral_3_eq_3)
        have c1: "card (free_blks s) \<le> card (free_blks ?t) + 1" using card_remove_le [of "free_blks s" a] by (simp add: G(5))
        then have ne1: "free_blks ?t \<noteq> {}" using fr by auto
        have i1: "i_addrs (icache ?t ! i) ! NDIRECT = a" using G(2) by (simp add: fblk_def)
        have "fblk ?t i bn = fblk s i bn" using G(7) [of bn] k by simp
        then have new1: "fblk ?t i bn = 0" using new by simp
        obtain u where u: "bmap_leaf i (bn - NDIRECT) a ?t = Ok (fblk u i bn, u)" "fblk u i bn \<noteq> 0"
          "in_op {} r u" "grown i ?t u" "\<forall>x < MAXFILE * BSIZE. file_byte u i x = file_byte ?t i x"
          "card (free_blks ?t) \<le> card (free_blks u) + 1" using bmap_leaf_new [OF f1 o1 i1 G(6) nb k new1 ne1] .
        have e: "bmap i (of_nat bn) s = Ok (fblk u i bn, u)" using i0 t(1) u(1) unfolding bmap_indirect [OF F(2) nb k] by simp
        have "\<forall>x < MAXFILE * BSIZE. file_byte u i x = file_byte s i x" using u(5) G(4) by simp
        then show thesis using that [OF e u(2,3) grown_trans [OF G(1) u(4)]] c1 u(6) new by simp
      qed
    qed
  qed
qed

section \<open>Reading\<close>

definition file_bytes :: "'a fstate_scheme \<Rightarrow> nat \<Rightarrow> nat \<Rightarrow> nat \<Rightarrow> u8 list" where
  "file_bytes s i off n = map (\<lambda>k. file_byte s i (off + k)) [0 ..< n]"

text \<open>A piece that does not cross a block boundary.\<close>

lemma block_part:
  assumes "m \<le> BSIZE - off mod BSIZE" "k < m"
  shows "(off + k) div BSIZE = off div BSIZE" "(off + k) mod BSIZE = off mod BSIZE + k"
proof -
  have lt: "off mod 512 + k < 512" using assms by simp
  have "off + k = 512 * (off div 512) + (off mod 512 + k)" using mult_div_mod_eq [of 512 off] by simp
  then show "(off + k) div 512 = off div 512" "(off + k) mod 512 = off mod 512 + k"
    using lt by (metis div_mult_self4 div_less add.right_neutral add.commute zero_neq_numeral,
      metis mod_mult_self4 mod_less)
qed

lemma block_part_iff:
  assumes "m \<le> BSIZE - off mod BSIZE" "0 < m"
  shows "off \<le> x \<and> x < off + m \<longleftrightarrow> x div BSIZE = off div BSIZE \<and> off mod BSIZE \<le> x mod BSIZE \<and> x mod BSIZE < off mod BSIZE + m"
proof
  assume "off \<le> x \<and> x < off + m"
  then obtain k where "x = off + k" "k < m" by (metis add_less_cancel_left le_Suc_ex)
  then show "x div BSIZE = off div BSIZE \<and> off mod BSIZE \<le> x mod BSIZE \<and> x mod BSIZE < off mod BSIZE + m"
    using block_part [OF assms(1)] by simp
next
  assume "x div BSIZE = off div BSIZE \<and> off mod BSIZE \<le> x mod BSIZE \<and> x mod BSIZE < off mod BSIZE + m"
  then have h: "x div 512 = off div 512" "off mod 512 \<le> x mod 512" "x mod 512 < off mod 512 + m" by simp_all
  show "off \<le> x \<and> x < off + m" using h div_mult_mod_eq [of x 512] div_mult_mod_eq [of off 512] by linarith
qed

lemma file_bytes_append: "file_bytes s i off (m + n) = file_bytes s i off m @ file_bytes s i (off + m) n"
  by (rule nth_equalityI) (auto simp: file_bytes_def nth_append)

lemma readi_loop_reads:
  fixes s :: "'a fstate_scheme"
  assumes "fs_held {} s" "file_ok s i" "space_ok s" "off + n \<le> MAXFILE * BSIZE"
    "\<forall>k. off \<le> k \<longrightarrow> k < off + n \<longrightarrow> fblk s i (k div BSIZE) \<noteq> 0"
  shows "\<exists>t. readi_loop i off n s = Ok (file_bytes s i off n, t) \<and> seen s t \<and> fs_held {} t"
  using assms
proof (induction n arbitrary: off s rule: less_induct)
  case (less n)
  show ?case
  proof (cases "n = 0")
    case True
    then show ?thesis using less.prems(1) by (subst readi_loop.simps) (simp add: file_bytes_def)
  next
    case False
    define m where "m = min n (BSIZE - off mod BSIZE)"
    have m: "0 < m" "m \<le> n" "m \<le> BSIZE - off mod BSIZE" using False by (auto simp: m_def)
    let ?k = "off div BSIZE"
    have k: "?k < MAXFILE" "fblk s i ?k \<noteq> 0" using less.prems(4,5) False by (auto simp: div_less_iff_less_mult)
    obtain u where u: "bmap i (of_nat ?k) s = Ok (fblk s i ?k, u)" "seen s u" "fs_held {} u"
      using bmap_mapped [OF less.prems(1,2,3) k] .
    let ?a = "fblk s i ?k"
    have "blk_ok s ?a" using data_blk_ok [of s] file_okD(5) [OF less.prems(2) _ k(2)] k(1) less.prems(3) by (simp add: space_ok_def)
    then have n: "?a < disksize u" using logged_blk [OF seen_logged [OF u(2)]] by (simp add: blk_ok_def)
    have d: "i_dev (icache u ! i) = 1" using file_okD(2) [OF less.prems(2)] more_fs [OF seen_more [OF u(2)]] by simp
    have rm: "int (card ({} :: nat set)) + lh_n u < LOGSIZE" using u(3) by (simp add: fs_held_def log_inv_def)
    obtain b v w where r: "bread 1 ?a u = Ok (b, v)" "b_data (bufs v ! b) = blk_view u ?a" "brelse b v = Ok w"
      "fs_held {} w" "seen u w" "keeps {} u w" "seen u v" using read_blk [OF u(3) n _ rm] by blast
    have sw: "seen s w" by (rule seen_trans [OF u(2) r(5)])
    note W = seen_fblk [OF sw] seen_free [OF sw]
    have "\<exists>t. readi_loop i (off + m) (n - m) w = Ok (file_bytes w i (off + m) (n - m), t) \<and> seen w t \<and> fs_held {} t"
      by (rule less.IH) (use m less.prems r(4) W in simp_all)
    then obtain t where t: "readi_loop i (off + m) (n - m) w = Ok (file_bytes s i (off + m) (n - m), t)" "seen w t" "fs_held {} t"
      unfolding file_bytes_def W(2) by blast
    have xs: "map (\<lambda>k. b_data (bufs v ! b) (off mod BSIZE + k)) [0 ..< m] = file_bytes s i off m"
      unfolding file_bytes_def r(2) file_byte_def using block_part [OF m(3)] k(2) u(2) by (simp add: seen_def)
    have "readi_loop i off n s = Ok (file_bytes s i off m @ file_bytes s i (off + m) (n - m), t)"
      using False by (subst readi_loop.simps) (simp add: u(1) r(1,3) d Let_def m_def [symmetric] xs t(1))
    then show ?thesis using file_bytes_append [of s i off m "n - m"] m(2) seen_trans [OF sw t(2)] t(3) by auto
  qed
qed

section \<open>Writing\<close>

lemma file_write_blk:
  fixes s t :: "'a fstate_scheme"
  assumes f: "file_ok s i" and l: "space_ok s" and k: "k < MAXFILE" "fblk s i k \<noteq> 0"
    and t: "logged s t" "lstate.more t = lstate.more s" "blk_view t = (blk_view s)(fblk s i k := d)"
  shows "grown i s t" "free_blks t = free_blks s" "icache t = icache s" "fblk t i j = fblk s i j"
    "x < MAXFILE * BSIZE \<Longrightarrow> file_byte t i x = (if x div BSIZE = k then d (x mod BSIZE) else file_byte s i x)"
proof -
  let ?a = "fblk s i k"
  note F = file_okD [OF f]
  have lo: "layout_ok s" using l by (simp add: space_ok_def)
  have da: "data_blk s ?a" "\<not> blk_free s ?a" using F(5,6) k by simp_all
  have ni: "?a \<noteq> fblk s i MAXFILE" using F(7) [of k MAXFILE] k by auto
  have U: "icache t = icache s" "sb t = sb s" using more_fs [OF t(2)] by simp_all
  then show "icache t = icache s" by simp
  note lc = layout_cong [OF t(1,2)]
  have bm: "BBLOCK m (sb s) \<noteq> ?a" if "unat m < unat (sb_size (sb s))" for m using bitmap_blk(2) [OF lo that] da(1) by auto
  have fr: "blk_free t m = blk_free s m" if "unat m < unat (sb_size (sb s))" for m
    using bm [OF that] by (simp add: blk_free_def U(2) t(3))
  then show fb: "free_blks t = free_blks s" by (auto simp: free_blks_def U(2))
  have so: "space_ok t" using l fr by (simp add: space_ok_def lc U(2))
  show fk: "fblk t i j = fblk s i j" for j using ni by (simp add: fblk_def Let_def U(1) t(3))
  have "data_blk s m \<Longrightarrow> blk_free t m = blk_free s m" for m using fr by (simp add: data_blk_def)
  then have fo: "file_ok t i" using f by (auto simp: file_ok_def U(1) fk lc)
  have "blk_view t m = blk_view s m" if "elsewhere s i m" for m
  proof -
    have "fblk s i k \<noteq> m"
    proof
      assume e: "fblk s i k = m"
      then have "\<not> (\<forall>k \<le> MAXFILE. fblk s i k \<noteq> m)" using k(1) less_imp_le by blast
      then show False using that da(1) e by (auto simp: elsewhere_def data_blk_def data_start_def)
    qed
    then show ?thesis by (simp add: t(3))
  qed
  moreover have "\<exists>as. icache t = (icache s)[i := (icache s ! i)\<lparr>i_addrs := as\<rparr>]"
    by (rule exI [of _ "i_addrs (icache s ! i)"]) (simp add: U(1))
  ultimately show "grown i s t" unfolding grown_def using t(1) U(2) so fo by (simp add: fk fb)
  show "file_byte t i x = (if x div BSIZE = k then d (x mod BSIZE) else file_byte s i x)" if x: "x < MAXFILE * BSIZE"
  proof (cases "x div BSIZE = k")
    case True
    then show ?thesis using k(2) by (simp add: file_byte_def fk t(3) Let_def)
  next
    case False
    have "x div BSIZE < MAXFILE" using x by (simp add: div_less_iff_less_mult)
    then have "fblk s i (x div BSIZE) \<noteq> ?a \<or> fblk s i (x div BSIZE) = 0" using F(7) [of "x div BSIZE" k] False k by auto
    then show ?thesis using False by (auto simp: file_byte_def fk t(3) Let_def)
  qed
qed

text \<open>The blocks that a write of \<open>n\<close> bytes from \<open>off\<close> on touches.\<close>

definition nblks :: "nat \<Rightarrow> nat \<Rightarrow> nat" where
  "nblks off n = (if n = 0 then 0 else (off mod BSIZE + n + BSIZE - 1) div BSIZE)"

lemma nblks_step:
  assumes "0 < n" "m = min n (BSIZE - off mod BSIZE)"
  shows "nblks off n = Suc (nblks (off + m) (n - m))"
proof (cases "n \<le> BSIZE - off mod BSIZE")
  case True
  have "off mod 512 < 512" by simp
  then have "off mod 512 + n + 512 - 1 < 1024" "512 \<le> off mod 512 + n + 512 - 1" using True assms(1) by linarith+
  then have "(off mod 512 + n + 512 - 1) div 512 = 1" by (intro div_nat_eqI) simp_all
  then show ?thesis using True assms by (simp add: nblks_def)
next
  case False
  define r where "r = off mod 512"
  have lt: "r < 512" by (simp add: r_def)
  have m: "m = 512 - r" using False assms by (simp add: r_def)
  define q where "q = off div 512"
  have "off = 512 * q + r" by (simp add: r_def q_def)
  then have "off + m = 512 * (q + 1)" using m lt by simp
  then have z: "(off + m) mod 512 = 0" by (simp only: mod_mult_self1_is_0)
  have nm: "n - m \<noteq> 0" using m False by (simp add: r_def)
  then have "r + n + 512 - 1 = 512 + (n - m + 512 - 1)" using m lt by simp
  then have "nblks off n = (512 + (n - m + 512 - 1)) div 512" using assms(1) by (simp add: nblks_def r_def)
  also have "\<dots> = Suc ((n - m + 512 - 1) div 512)" by (rule div_add_self1 [THEN trans]) simp_all
  also have "(n - m + 512 - 1) div 512 = nblks (off + m) (n - m)" using nm z by (simp add: nblks_def)
  finally show ?thesis .
qed

text \<open>One round of the loop writes the piece \<open>xs\<close>, which lies in one block.\<close>

lemma write_piece:
  fixes s :: "'a fstate_scheme"
  assumes f: "file_ok s i" and l: "space_ok s" and o: "in_op {} (6 + r) s"
    and k: "off div BSIZE < MAXFILE" and fr: "2 \<le> card (free_blks s)"
    and xs: "xs \<noteq> []" "length xs \<le> BSIZE - off mod BSIZE"
  obtains u b v w t where "bmap i (of_nat (off div BSIZE)) s = Ok (fblk t i (off div BSIZE), u)"
    "i_dev (icache u ! i) = 1" "bread 1 (fblk t i (off div BSIZE)) u = Ok (b, v)"
    "log_write b (upd_buf b (\<lambda>bf. bf\<lparr>b_data := put_bytes (b_data bf) (off mod BSIZE) xs\<rparr>) v) = Ok w" "brelse b w = Ok t"
    "in_op {} r t" "grown i s t" "fblk t i (off div BSIZE) \<noteq> 0" "card (free_blks s) \<le> card (free_blks t) + 2"
    "\<forall>x < MAXFILE * BSIZE. file_byte t i x = (if off \<le> x \<and> x < off + length xs then xs ! (x - off) else file_byte s i x)"
    "fblk s i (off div BSIZE) \<noteq> 0 \<longrightarrow> icache t = icache s"
proof -
  let ?k = "off div BSIZE" and ?F = "\<lambda>d. put_bytes d (off mod BSIZE) xs"
  have o': "in_op {} (5 + Suc r) s" using o by simp
  obtain u where u: "bmap i (of_nat ?k) s = Ok (fblk u i ?k, u)" "fblk u i ?k \<noteq> 0"
    "in_op {} (Suc r) u" "grown i s u" "\<forall>x < MAXFILE * BSIZE. file_byte u i x = file_byte s i x"
    "card (free_blks s) \<le> card (free_blks u) + 2" "fblk s i ?k \<noteq> 0 \<longrightarrow> icache u = icache s"
    using bmap_ok [OF f l o' k fr] .
  have fu: "file_ok u i" "space_ok u" using grownD(4,3) [OF u(4)] .
  have lo: "layout_ok u" using fu(2) by (simp add: space_ok_def)
  have no: "\<forall>j \<in> {}. \<not> has_blk u j (fblk u i ?k)" "card ({} :: nat set) \<le> 1" by simp_all
  have da: "data_blk u (fblk u i ?k)" using file_okD(5) [OF fu(1) _ u(2)] k by simp
  obtain b v w t where t: "bread 1 (fblk u i ?k) u = Ok (b, v)" "b_data (bufs v ! b) = blk_view u (fblk u i ?k)" "seen u v"
    "log_write b (upd_buf b (\<lambda>bf. bf\<lparr>b_data := ?F (b_data bf)\<rparr>) v) = Ok w" "brelse b w = Ok t"
    "in_op {} r t" "fblk u i ?k \<in> homes u \<longrightarrow> in_op {} (Suc r) t" "blk_view t = (blk_view u)(fblk u i ?k := ?F (blk_view u (fblk u i ?k)))"
    "logged u t" "keeps {} u t" "lstate.more t = lstate.more u" "homes t = insert (fblk u i ?k) (homes u)"
    using update_blk [OF u(3) data_blk_ok [OF lo da] no, of ?F] .
  note W = file_write_blk [OF fu k u(2) t(9,11,8)]
  have "file_byte t i x = (if off \<le> x \<and> x < off + length xs then xs ! (x - off) else file_byte s i x)"
    if x: "x < MAXFILE * BSIZE" for x
  proof -
    have fbu: "file_byte u i x = file_byte s i x" using u(5) x by blast
    have i: "off \<le> x \<and> x < off + length xs \<longleftrightarrow> x div BSIZE = ?k \<and> off mod BSIZE \<le> x mod BSIZE \<and> x mod BSIZE < off mod BSIZE + length xs"
      using block_part_iff [OF xs(2)] xs(1) by simp
    show ?thesis
    proof (cases "x div BSIZE = ?k")
      case True
      have e: "x mod BSIZE - off mod BSIZE = x - off"
        using True div_mult_mod_eq [of x 512] div_mult_mod_eq [of off 512] by linarith
      have "file_byte t i x = ?F (blk_view u (fblk u i ?k)) (x mod BSIZE)" using W(5) [OF x] True by simp
      also have "\<dots> = (if off \<le> x \<and> x < off + length xs then xs ! (x - off) else blk_view u (fblk u i ?k) (x mod BSIZE))"
        unfolding put_bytes_def i e using True by simp
      also have "blk_view u (fblk u i ?k) (x mod BSIZE) = file_byte s i x"
        using fbu True u(2) by (simp add: file_byte_def Let_def)
      finally show ?thesis .
    next
      case False
      then show ?thesis using W(5) [OF x] i fbu by auto
    qed
  qed
  moreover have "i_dev (icache u ! i) = 1" by (rule file_okD(2) [OF fu(1)])
  moreover have "fblk s i ?k \<noteq> 0 \<longrightarrow> icache t = icache s" using u(7) W(3) by simp
  ultimately show thesis
    using that [of t u b v w] u(1,2,6) t(1,4-6) grown_trans [OF u(4) W(1)] W(2,4) by simp
qed

lemma writei_loop_writes:
  fixes s :: "'a fstate_scheme"
  assumes "file_ok s i" "space_ok s" "in_op {} (6 * nblks off (length src) + r) s" "off + length src \<le> MAXFILE * BSIZE"
    "2 * nblks off (length src) \<le> card (free_blks s)"
  shows "\<exists>t. writei_loop i off src s = Ok (off + length src, t) \<and> in_op {} r t \<and> grown i s t \<and>
     (\<forall>x < MAXFILE * BSIZE. file_byte t i x = (if off \<le> x \<and> x < off + length src then src ! (x - off) else file_byte s i x)) \<and>
     (\<forall>x. off \<le> x \<longrightarrow> x < off + length src \<longrightarrow> fblk t i (x div BSIZE) \<noteq> 0) \<and>
     ((\<forall>x. off \<le> x \<longrightarrow> x < off + length src \<longrightarrow> fblk s i (x div BSIZE) \<noteq> 0) \<longrightarrow> icache t = icache s)"
  using assms
proof (induction "length src" arbitrary: off src s rule: less_induct)
  case less
  show ?case
  proof (cases "src = []")
    case True
    have "grown i s s" by (rule grown_seen [OF seen_refl less.prems(2,1)])
    then show ?thesis using True less.prems(3) by (subst writei_loop.simps) (auto simp: nblks_def)
  next
    case False
    define m where "m = min (length src) (BSIZE - off mod BSIZE)"
    have m: "0 < m" "m \<le> length src" "m \<le> BSIZE - off mod BSIZE" using False by (auto simp: m_def)
    have nb: "nblks off (length src) = Suc (nblks (off + m) (length (drop m src)))"
      using nblks_step [OF _ m_def] False by simp
    let ?k = "off div BSIZE"
    have len: "length (take m src) = m" using m by simp
    have k: "?k < MAXFILE" using less.prems(4) False by (cases src) (auto simp: div_less_iff_less_mult)
    have o: "in_op {} (6 + (6 * nblks (off + m) (length (drop m src)) + r)) s" using less.prems(3) nb by (simp add: add.assoc)
    have fr: "2 \<le> card (free_blks s)" using less.prems(5) nb by simp
    have xs: "take m src \<noteq> []" "length (take m src) \<le> BSIZE - off mod BSIZE" using False m(1,3) len by auto
    obtain u b v w t where t: "bmap i (of_nat ?k) s = Ok (fblk t i ?k, u)"
      "i_dev (icache u ! i) = 1" "bread 1 (fblk t i ?k) u = Ok (b, v)"
      "log_write b (upd_buf b (\<lambda>bf. bf\<lparr>b_data := put_bytes (b_data bf) (off mod BSIZE) (take m src)\<rparr>) v) = Ok w" "brelse b w = Ok t"
      "in_op {} (6 * nblks (off + m) (length (drop m src)) + r) t" "grown i s t" "fblk t i ?k \<noteq> 0" "card (free_blks s) \<le> card (free_blks t) + 2"
      "\<forall>x < MAXFILE * BSIZE. file_byte t i x = (if off \<le> x \<and> x < off + length (take m src) then take m src ! (x - off) else file_byte s i x)"
      "fblk s i ?k \<noteq> 0 \<longrightarrow> icache t = icache s"
      using write_piece [OF less.prems(1,2) o k fr xs] .
    have e: "writei_loop i off src s = writei_loop i (off + m) (drop m src) t"
      using False by (subst writei_loop.simps) (simp add: t(1-3) m_def [symmetric] t(4,5))
    have "length (drop m src) < length src" using m by simp
    then have "\<exists>w. writei_loop i (off + m) (drop m src) t = Ok (off + m + length (drop m src), w) \<and> in_op {} r w \<and> grown i t w \<and>
      (\<forall>x < MAXFILE * BSIZE. file_byte w i x = (if off + m \<le> x \<and> x < off + m + length (drop m src) then drop m src ! (x - (off + m)) else file_byte t i x)) \<and>
      (\<forall>x. off + m \<le> x \<longrightarrow> x < off + m + length (drop m src) \<longrightarrow> fblk w i (x div BSIZE) \<noteq> 0) \<and>
      ((\<forall>x. off + m \<le> x \<longrightarrow> x < off + m + length (drop m src) \<longrightarrow> fblk t i (x div BSIZE) \<noteq> 0) \<longrightarrow> icache w = icache t)"
      by (rule less.hyps) (use grownD(3,4) [OF t(7)] t(6,9) less.prems(4,5) nb m in simp_all)
    then obtain w where w: "writei_loop i (off + m) (drop m src) t = Ok (off + length src, w)" "in_op {} r w" "grown i t w"
      "\<forall>x < MAXFILE * BSIZE. file_byte w i x = (if off + m \<le> x \<and> x < off + length src then drop m src ! (x - (off + m)) else file_byte t i x)"
      "\<forall>x. off + m \<le> x \<longrightarrow> x < off + length src \<longrightarrow> fblk w i (x div BSIZE) \<noteq> 0"
      "(\<forall>x. off + m \<le> x \<longrightarrow> x < off + length src \<longrightarrow> fblk t i (x div BSIZE) \<noteq> 0) \<longrightarrow> icache w = icache t"
      using m by auto
    have bytes: "file_byte w i x = (if off \<le> x \<and> x < off + length src then src ! (x - off) else file_byte s i x)"
      if x: "x < MAXFILE * BSIZE" for x
    proof -
      have "file_byte w i x = (if off + m \<le> x \<and> x < off + length src then src ! (x - off) else file_byte t i x)"
        using w(4) x m by auto
      moreover have "file_byte t i x = (if off \<le> x \<and> x < off + m then src ! (x - off) else file_byte s i x)"
        using t(10) x m by auto
      ultimately show ?thesis using m by auto
    qed
    have here: "x div BSIZE = ?k" if "off \<le> x" "x < off + m" for x
      using block_part(1) [OF m(3), of "x - off"] that by simp
    have nz: "fblk w i (x div BSIZE) \<noteq> 0" if x: "off \<le> x" "x < off + length src" for x
    proof (cases "x < off + m")
      case True
      then show ?thesis using here [OF x(1)] grownD(6) [OF w(3), of ?k] k t(8) by simp
    next
      case False
      then show ?thesis using w(5) x by simp
    qed
    have same: "icache w = icache s" if all: "\<forall>x. off \<le> x \<longrightarrow> x < off + length src \<longrightarrow> fblk s i (x div BSIZE) \<noteq> 0"
    proof -
      have "fblk s i ?k \<noteq> 0" using all False by simp
      then have it: "icache t = icache s" using t(11) by blast
      have "fblk t i (x div BSIZE) \<noteq> 0" if "off + m \<le> x" "x < off + length src" for x
      proof -
        have s0: "fblk s i (x div BSIZE) \<noteq> 0" using all that by simp
        have "x div BSIZE \<le> MAXFILE" using that less.prems(4) by (intro less_imp_le) (simp add: div_less_iff_less_mult)
        from grownD(6) [OF t(7) this s0] s0 show ?thesis by simp
      qed
      then show ?thesis using w(6) it by simp
    qed
    show ?thesis
      using e w(1,2) grown_trans [OF t(7) w(3)] bytes nz same by (intro exI [of _ w]) simp
  qed
qed

section \<open>Inodes on the disk\<close>

lemma get16_put16 [simp]: "get16 (put16 b k v) k = v"
  by (rule bit_eqI) (auto simp: get16_def put16_def bit_simps)

lemma get16_put16_other: "j + 2 \<le> k \<or> k + 2 \<le> j \<Longrightarrow> get16 (put16 b k v) j = get16 b j"
  by (auto simp: get16_def put16_def)

lemma get16_put32_other: "j + 2 \<le> k \<or> k + 4 \<le> j \<Longrightarrow> get16 (put32 b k v) j = get16 b j"
  by (auto simp: get16_def put32_def)

lemma get32_put16_other: "j + 4 \<le> k \<or> k + 2 \<le> j \<Longrightarrow> get32 (put16 b k v) j = get32 b j"
  by (auto simp: get32_def put16_def)

lemma put_words_other:
  "j + 4 \<le> off \<Longrightarrow> get32 (put_words d off ws) j = get32 d j"
  "j + 2 \<le> off \<Longrightarrow> get16 (put_words d off ws) j = get16 d j"
  by (induction ws arbitrary: d off) (simp_all add: get32_put32_other get16_put32_other)

lemma put_words_after:
  "off + 4 * length ws \<le> j \<Longrightarrow> get32 (put_words d off ws) j = get32 d j"
  "off + 4 * length ws \<le> j \<Longrightarrow> get16 (put_words d off ws) j = get16 d j"
  by (induction ws arbitrary: d off) (simp_all add: get32_put32_other get16_put32_other)

lemma get_put_words: "k < length ws \<Longrightarrow> get32 (put_words d off ws) (off + 4 * k) = ws ! k"
proof (induction ws arbitrary: d off k)
  case (Cons w ws)
  show ?case
  proof (cases k)
    case 0
    then show ?thesis by (simp add: put_words_other)
  next
    case (Suc j)
    then show ?thesis using Cons.IH [of j "put32 d off w" "off + 4"] Cons.prems by (simp add: algebra_simps)
  qed
qed simp

lemma get_put_dinode:
  assumes "length (i_addrs ip) = NDIRECT + 1"
  shows "get_dinode (put_dinode d off ip) off jp =
    jp\<lparr>i_type := i_type ip, i_major := i_major ip, i_minor := i_minor ip, i_nlink := i_nlink ip, i_size := i_size ip,
       i_addrs := i_addrs ip\<rparr>"
proof -
  have "map (\<lambda>k. get32 (put_words e (off + 12) (i_addrs ip)) (off + 12 + 4 * k)) [0 ..< 13] = i_addrs ip" for e
    using assms by (intro nth_equalityI) (simp_all add: get_put_words)
  then show ?thesis
    by (simp add: get_dinode_def put_dinode_def Let_def put_words_other get16_put16_other get16_put32_other
        get32_put16_other get32_put32_other)
qed

text \<open>The inode number is one of the disk's, and the copy in memory is what the disk holds.\<close>

definition saved :: "'a fstate_scheme \<Rightarrow> nat \<Rightarrow> bool" where
  "saved s i \<longleftrightarrow> unat (i_inum (icache s ! i)) < unat (sb_ninodes (sb s)) \<and>
     get_dinode (blk_view s (IBLOCK (i_inum (icache s ! i)) (sb s))) (dinode_off (i_inum (icache s ! i))) (icache s ! i) =
       icache s ! i"

lemma inode_blk:
  assumes "layout_ok s" "unat m < unat (sb_ninodes (sb s))"
  shows "unat (IBLOCK m (sb s)) = unat (sb_inodestart (sb s)) + unat m div IPB"
    "unat (IBLOCK m (sb s)) < unat (sb_bmapstart (sb s))" "blk_ok s (IBLOCK m (sb s))"
proof -
  have d: "unat (m div of_nat IPB) = unat m div 8" by (simp add: unat_div)
  have "unat m div 8 \<le> unat (sb_ninodes (sb s)) div 8" using assms(2) by (intro div_le_mono) simp
  then have lt: "unat (sb_inodestart (sb s)) + unat m div 8 < unat (sb_bmapstart (sb s))"
    using assms(1) by (simp add: layout_ok_def)
  have bl: "unat (sb_bmapstart (sb s)) < 4294967296" by simp
  have "unat (m div of_nat IPB) + unat (sb_inodestart (sb s)) < 4294967296" unfolding d using lt bl by linarith
  from unat_add32 [OF this] show u: "unat (IBLOCK m (sb s)) = unat (sb_inodestart (sb s)) + unat m div IPB"
    unfolding IBLOCK_def d by simp
  show b: "unat (IBLOCK m (sb s)) < unat (sb_bmapstart (sb s))" using u lt by simp
  have l: "unat (log_start s) + 30 \<le> unat (sb_inodestart (sb s))" "0 < unat (log_start s)"
    "data_start s \<le> unat (disksize s)" using assms(1) by (auto simp: layout_ok_def)
  have "0 < unat (IBLOCK m (sb s))" "unat (IBLOCK m (sb s)) < unat (disksize s)"
    "unat (log_start s) + 30 \<le> unat (IBLOCK m (sb s))"
    using l b unfolding u data_start_def by linarith+
  then show "blk_ok s (IBLOCK m (sb s))" by (auto simp: blk_ok_def log_region_def word_less_nat_alt)
qed

text \<open>An update of an inode block does not touch the contents of files, nor the bitmap.\<close>

lemma inode_blk_write:
  fixes s t :: "'a fstate_scheme"
  assumes l: "space_ok s" and n: "unat n < unat (sb_bmapstart (sb s))"
    and t: "logged s t" "lstate.more t = lstate.more s" "blk_view t = (blk_view s)(n := d)"
  shows "space_ok t" "free_blks t = free_blks s" "file_ok s j \<Longrightarrow> file_ok t j"
    "file_ok s j \<Longrightarrow> fblk t j k = fblk s j k" "file_ok s j \<Longrightarrow> x < MAXFILE * BSIZE \<Longrightarrow> file_byte t j x = file_byte s j x"
proof -
  have lo: "layout_ok s" using l by (simp add: space_ok_def)
  have U: "icache t = icache s" "sb t = sb s" using more_fs [OF t(2)] by simp_all
  note lc = layout_cong [OF t(1,2)]
  have nd: "\<not> data_blk s n" using n by (simp add: data_blk_def data_start_def)
  have fr: "blk_free t m = blk_free s m" if "unat m < unat (sb_size (sb s))" for m
    using unat_BBLOCK [OF lo that] n by (auto simp: blk_free_def U(2) t(3))
  then show "free_blks t = free_blks s" by (auto simp: free_blks_def U(2))
  show "space_ok t" using l fr by (simp add: space_ok_def lc U(2))
  have fd: "data_blk s m \<Longrightarrow> blk_free t m = blk_free s m" for m using fr by (simp add: data_blk_def)
  show fk: "fblk t j k = fblk s j k" if "file_ok s j" for j k
  proof -
    have "fblk s j MAXFILE \<noteq> n \<or> fblk s j MAXFILE = 0" using file_okD(5) [OF that, of MAXFILE] nd by auto
    then show ?thesis by (auto simp: fblk_def Let_def U(1) t(3))
  qed
  show "file_ok t j" if "file_ok s j"
    using that fk [OF that] fd by (auto simp: file_ok_def U(1) lc)
  show "file_byte t j x = file_byte s j x" if "file_ok s j" "x < MAXFILE * BSIZE"
  proof -
    have "x div BSIZE \<le> MAXFILE" using that(2) by (intro less_imp_le) (simp add: div_less_iff_less_mult)
    then have "fblk s j (x div BSIZE) \<noteq> n \<or> fblk s j (x div BSIZE) = 0" using file_okD(5) [OF that(1)] nd by auto
    then show ?thesis using fk [OF that(1)] by (auto simp: file_byte_def Let_def t(3))
  qed
qed

lemma iupdate_saves:
  fixes s :: "'a fstate_scheme"
  assumes f: "file_ok s i" and l: "space_ok s" and o: "in_op {} (Suc r) s" and n: "unat (i_inum (icache s ! i)) < unat (sb_ninodes (sb s))"
  obtains t where "iupdate i s = Ok t" "in_op {} r t" "logged s t" "lstate.more t = lstate.more s" "saved t i"
    "blk_view t = (blk_view s)(IBLOCK (i_inum (icache s ! i)) (sb s) :=
       put_dinode (blk_view s (IBLOCK (i_inum (icache s ! i)) (sb s))) (dinode_off (i_inum (icache s ! i))) (icache s ! i))"
proof -
  let ?ip = "icache s ! i" and ?n = "IBLOCK (i_inum (icache s ! i)) (sb s)"
  let ?F = "\<lambda>d. put_dinode d (dinode_off (i_inum ?ip)) ?ip"
  have lo: "layout_ok s" using l by (simp add: space_ok_def)
  have no: "\<forall>j \<in> {}. \<not> has_blk s j ?n" "card ({} :: nat set) \<le> 1" by simp_all
  obtain b u v t where t: "bread 1 ?n s = Ok (b, u)" "b_data (bufs u ! b) = blk_view s ?n" "seen s u"
    "log_write b (upd_buf b (\<lambda>bf. bf\<lparr>b_data := ?F (b_data bf)\<rparr>) u) = Ok v" "brelse b v = Ok t"
    "in_op {} r t" "?n \<in> homes s \<longrightarrow> in_op {} (Suc r) t" "blk_view t = (blk_view s)(?n := ?F (blk_view s ?n))"
    "logged s t" "keeps {} s t" "lstate.more t = lstate.more s" "homes t = insert ?n (homes s)"
    using update_blk [OF o inode_blk(3) [OF lo n] no, of ?F] .
  have e: "iupdate i s = Ok t" using t(1,4,5) file_okD(2) [OF f] by (simp add: iupdate_def Let_def)
  have U: "icache t = icache s" "sb t = sb s" using more_fs [OF t(11)] by simp_all
  have "saved t i" unfolding saved_def U t(8) using n file_okD(4) [OF f] by (simp add: get_put_dinode)
  then show thesis using that [OF e t(6,9,11)] t(8) by simp
qed

section \<open>A file as an array of bytes\<close>

text \<open>A file has a block for each byte below its size, and its inode on the disk is up to date.\<close>

definition contents :: "'a fstate_scheme \<Rightarrow> nat \<Rightarrow> u8 list" where
  "contents s i = file_bytes s i 0 (unat (i_size (icache s ! i)))"

definition intact :: "'a fstate_scheme \<Rightarrow> nat \<Rightarrow> bool" where
  "intact s i \<longleftrightarrow> file_ok s i \<and> unat (i_size (icache s ! i)) \<le> MAXFILE * BSIZE \<and>
     (\<forall>x < unat (i_size (icache s ! i)). fblk s i (x div BSIZE) \<noteq> 0) \<and> saved s i"

lemma length_contents [simp]: "length (contents s i) = unat (i_size (icache s ! i))"
  by (simp add: contents_def file_bytes_def)

lemma nth_contents: "x < unat (i_size (icache s ! i)) \<Longrightarrow> contents s i ! x = file_byte s i x"
  by (simp add: contents_def file_bytes_def)

lemma file_bytes_contents:
  assumes "off + n \<le> unat (i_size (icache s ! i))"
  shows "file_bytes s i off n = take n (drop off (contents s i))"
  using assms by (intro nth_equalityI) (auto simp: file_bytes_def nth_contents)

lemma readi_ok:
  fixes s :: "'a fstate_scheme"
  assumes "fs_held {} s" "space_ok s" "intact s i" "off \<le> i_size (icache s ! i)" "unat off + unat n < 2 ^ 32"
  shows "\<exists>t. readi devs i off n s = Ok (Some (take (unat n) (drop (unat off) (contents s i))), t) \<and>
     seen s t \<and> fs_held {} t"
proof -
  let ?sz = "i_size (icache s ! i)"
  have f: "file_ok s i" and sz: "unat ?sz \<le> 71680" and nz: "\<forall>x < unat ?sz. fblk s i (x div BSIZE) \<noteq> 0"
    using assms(3) by (simp_all add: intact_def)
  have off: "unat off \<le> unat ?sz" using assms(4) by (simp add: word_le_nat_alt)
  have sum: "unat (off + n) = unat off + unat n" using assms(5) by (intro unat_add32) simp
  define m where "m = (if off + n > ?sz then ?sz - off else n)"
  have m: "unat m = min (unat n) (unat ?sz - unat off)"
    using off sum by (auto simp: m_def word_less_nat_alt unat_sub32 min_def)
  have le: "unat off + unat m \<le> unat ?sz" using m off by simp
  have "\<exists>t. readi_loop i (unat off) (unat m) s = Ok (file_bytes s i (unat off) (unat m), t) \<and> seen s t \<and> fs_held {} t"
    by (rule readi_loop_reads [OF assms(1) f assms(2)]) (use le sz nz in auto)
  then obtain t where t: "readi_loop i (unat off) (unat m) s = Ok (file_bytes s i (unat off) (unat m), t)" "seen s t" "fs_held {} t"
    by blast
  have xs: "file_bytes s i (unat off) (unat m) = take (unat n) (drop (unat off) (contents s i))"
    by (subst file_bytes_contents [OF le]) (simp add: m min_def)
  have g: "\<not> (off > ?sz \<or> off + n < off)" using assms(4) sum by (auto simp: word_less_nat_alt word_le_nat_alt)
  have "readi devs i off n s = Ok (Some (take (unat n) (drop (unat off) (contents s i))), t)"
    unfolding readi_def Let_def using file_okD(3) [OF f] g t(1) by (simp add: m_def [symmetric] xs)
  then show ?thesis using t(2,3) by blast
qed

text \<open>
  C4: reading a file returns its bytes: from an offset within the file, \<^verbatim>\<open>readi\<close> delivers the \<open>n\<close>
  bytes that follow it, or those up to the end of the file if there are fewer, from whichever
  direct and indirect blocks hold them. The disk and what the cache shows of it do not change.
\<close>

theorem readi_reads_contents:
  fixes s :: "'a fstate_scheme"
  assumes "fs_held {} s" "space_ok s" "intact s i" "off \<le> i_size (icache s ! i)" "unat off + unat n < 2 ^ 32"
  shows "\<exists>t. readi devs i off n s = Ok (Some (take (unat n) (drop (unat off) (contents s i))), t) \<and>
     fs_held {} t \<and> blk_view t = blk_view s \<and> memdisk t = memdisk s \<and> icache t = icache s"
proof -
  obtain t where t: "readi devs i off n s = Ok (Some (take (unat n) (drop (unat off) (contents s i))), t)" "seen s t" "fs_held {} t"
    using readi_ok [OF assms] by blast
  then show ?thesis using more_fs [OF seen_more [OF t(2)]] by (auto simp: seen_def)
qed

text \<open>The bytes \<open>xs\<close> laid over a list from \<open>off\<close> on.\<close>

definition overwrite :: "'b list \<Rightarrow> nat \<Rightarrow> 'b list \<Rightarrow> 'b list" where
  "overwrite ys off xs = take off ys @ xs @ drop (off + length xs) ys"

lemma nth_overwrite:
  assumes "off \<le> length ys" "x < length (overwrite ys off xs)"
  shows "overwrite ys off xs ! x = (if off \<le> x \<and> x < off + length xs then xs ! (x - off) else ys ! x)"
  using assms by (auto simp: overwrite_def nth_append min_def)

lemma length_overwrite: "off \<le> length ys \<Longrightarrow> length (overwrite ys off xs) = max (length ys) (off + length xs)"
  by (auto simp: overwrite_def)

text \<open>After the loop of \<^verbatim>\<open>writei\<close>, with the size and the inode brought up to date.\<close>

lemma writei_finish:
  fixes s t :: "'a fstate_scheme"
  assumes f: "intact s i" and off: "off \<le> unat (i_size (icache s ! i))" and xs: "off + length xs \<le> MAXFILE * BSIZE"
    and t: "in_op {} 1 t" "grown i s t"
      "\<forall>x < MAXFILE * BSIZE. file_byte t i x = (if off \<le> x \<and> x < off + length xs then xs ! (x - off) else file_byte s i x)"
      "\<forall>x. off \<le> x \<longrightarrow> x < off + length xs \<longrightarrow> fblk t i (x div BSIZE) \<noteq> 0"
      "off + length xs \<le> unat (i_size (icache s ! i)) \<longrightarrow> icache t = icache s"
  defines "t' \<equiv> if length xs \<noteq> 0 \<and> unat (i_size (icache s ! i)) < off + length xs
      then iupdate i (upd_inode i (\<lambda>ip. ip\<lparr>i_size := of_nat (off + length xs)\<rparr>) t) else Ok t"
  shows "\<exists>u. t' = Ok u \<and> in_op {} 0 u \<and> space_ok u \<and> intact u i \<and> contents u i = overwrite (contents s i) off xs \<and>
     logged s u \<and> (\<forall>n. elsewhere s i n \<longrightarrow> n \<noteq> IBLOCK (i_inum (icache s ! i)) (sb s) \<longrightarrow> blk_view u n = blk_view s n) \<and>
     (\<exists>as sz. icache u = (icache s)[i := (icache s ! i)\<lparr>i_addrs := as, i_size := sz\<rparr>]) \<and> sb u = sb s \<and> free_blks u \<subseteq> free_blks s"
proof -
  let ?sz = "unat (i_size (icache s ! i))" and ?e = "off + length xs"
  have fs: "file_ok s i" and sz: "?sz \<le> 71680" and nz: "\<forall>x < ?sz. fblk s i (x div BSIZE) \<noteq> 0" and sv: "saved s i"
    using f by (simp_all add: intact_def)
  note G = grownD [OF t(2)]
  obtain as where c: "icache t = (icache s)[i := (icache s ! i)\<lparr>i_addrs := as\<rparr>]" using t(2) by (auto simp: grown_def)
  have il: "i < length (icache s)" by (rule file_okD(1) [OF fs])
  have mapped: "fblk t i (x div BSIZE) \<noteq> 0" if "x < max ?sz ?e" for x
  proof (cases "x < ?sz")
    case True
    then have "fblk s i (x div BSIZE) \<noteq> 0" "x div BSIZE \<le> MAXFILE"
      using nz sz by (auto intro!: less_imp_le simp: div_less_iff_less_mult)
    then show ?thesis using G(6) by simp
  next
    case False
    then show ?thesis using t(4) off that by simp
  qed
  have ow: "map (file_byte t i) [0 ..< max ?sz ?e] = overwrite (contents s i) off xs"
  proof (rule nth_equalityI)
    show "length (map (file_byte t i) [0 ..< max ?sz ?e]) = length (overwrite (contents s i) off xs)"
      using off by (simp add: length_overwrite)
  next
    fix x assume "x < length (map (file_byte t i) [0 ..< max ?sz ?e])"
    then have x: "x < max ?sz ?e" "x < 71680" using sz xs by auto
    have "x < length (overwrite (contents s i) off xs)" using x(1) off by (simp add: length_overwrite)
    from nth_overwrite [OF _ this] off
    have "overwrite (contents s i) off xs ! x = (if off \<le> x \<and> x < ?e then xs ! (x - off) else contents s i ! x)" by simp
    also have "\<dots> = file_byte t i x"
    proof (cases "off \<le> x \<and> x < ?e")
      case True
      then show ?thesis using t(3) x(2) by simp
    next
      case False
      then have "x < ?sz" using x(1) off by linarith
      then show ?thesis using False t(3) x(2) nth_contents [of x s i] by auto
    qed
    finally show "map (file_byte t i) [0 ..< max ?sz ?e] ! x = overwrite (contents s i) off xs ! x" using x(1) by simp
  qed
  show ?thesis
  proof (cases "length xs \<noteq> 0 \<and> ?sz < ?e")
    case False
    then have le: "?e \<le> ?sz" using off by auto
    then have ic: "icache t = icache s" using t(5) by blast
    have m: "max ?sz ?e = ?sz" using le by simp
    have cw: "contents t i = overwrite (contents s i) off xs"
      using ow unfolding m by (simp add: contents_def file_bytes_def ic)
    have "unat (i_inum (icache s ! i)) < unat (sb_ninodes (sb s))" using sv by (simp add: saved_def)
    moreover have "layout_ok t" using G(3) by (simp add: space_ok_def)
    ultimately have "unat (IBLOCK (i_inum (icache s ! i)) (sb s)) < unat (sb_bmapstart (sb s))"
      using inode_blk(2) [of t "i_inum (icache s ! i)"] by (simp add: G(2))
    then have "saved t i" using sv G(8) by (simp add: saved_def ic G(2) elsewhere_def)
    then have "intact t i" using G(4) sz mapped m by (simp add: intact_def ic)
    moreover have "t' = Ok t" using False by (auto simp: t'_def)
    moreover have "in_op {} 0 t" using t(1) by (rule in_op_less) simp
    moreover have "\<exists>as sz. icache t = (icache s)[i := (icache s ! i)\<lparr>i_addrs := as, i_size := sz\<rparr>]"
      by (intro exI [of _ "i_addrs (icache s ! i)"] exI [of _ "i_size (icache s ! i)"]) (simp add: ic)
    ultimately show ?thesis using G cw by auto
  next
    case True
    then have gt: "?sz < ?e" by simp
    then have m: "max ?sz ?e = ?e" by simp
    define w where "w = upd_inode i (\<lambda>ip. ip\<lparr>i_size := of_nat ?e\<rparr>) t"
    have v: "w = t\<lparr>icache := (icache s)[i := (icache s ! i)\<lparr>i_addrs := as, i_size := of_nat ?e\<rparr>]\<rparr>"
      using il by (simp add: w_def upd_inode_def c)
    have iv: "icache w ! i = (icache s ! i)\<lparr>i_addrs := as, i_size := of_nat ?e\<rparr>" using il by (simp add: v)
    have av: "i_addrs (icache w ! i) = i_addrs (icache t ! i)" using il by (simp add: v c)
    have fv: "fblk w i = fblk t i" by (rule ext) (simp add: fblk_def Let_def av, simp add: v)
    have bv: "file_byte w i = file_byte t i" by (rule ext) (simp add: file_byte_def Let_def fv, simp add: v)
    have ov: "in_op {} (Suc 0) w" using t(1) by (simp add: v)
    have lv: "space_ok w" using G(3) by (simp add: v)
    have okv: "file_ok w i"
    proof -
      have "file_ok t i" by (rule G(4))
      moreover have "length (icache w) = length (icache t)" "i_dev (icache w ! i) = i_dev (icache t ! i)"
        "i_type (icache w ! i) = i_type (icache t ! i)" using il by (simp_all add: v c)
      moreover have "data_blk w = data_blk t" "blk_free w = blk_free t" by (simp_all add: v)
      ultimately show ?thesis unfolding file_ok_def fv av by simp
    qed
    have inum: "i_inum (icache w ! i) = i_inum (icache s ! i)" "sb w = sb s" by (simp_all add: iv) (simp add: v G(2))
    have nn: "unat (i_inum (icache w ! i)) < unat (sb_ninodes (sb w))" using sv unfolding inum saved_def by blast
    obtain u where u: "iupdate i w = Ok u" "in_op {} 0 u" "logged w u" "lstate.more u = lstate.more w" "saved u i"
      "blk_view u = (blk_view w)(IBLOCK (i_inum (icache w ! i)) (sb w) :=
         put_dinode (blk_view w (IBLOCK (i_inum (icache w ! i)) (sb w))) (dinode_off (i_inum (icache w ! i))) (icache w ! i))"
      using iupdate_saves [OF okv lv ov nn] .
    have lo: "layout_ok w" using lv by (simp add: space_ok_def)
    note W = inode_blk_write [OF lv inode_blk(2) [OF lo nn] u(3,4,6)]
    have U: "icache u = icache w" "sb u = sb s" using more_fs [OF u(4)] inum(2) by simp_all
    have su: "unat (i_size (icache u ! i)) = ?e"
      unfolding U iv using xs by (simp del: of_nat_add add: unat_of_nat32)
    have fb: "file_byte u i x = file_byte t i x" if "x < 71680" for x using W(5) [OF okv] that by (simp add: bv)
    have "contents u i = map (file_byte u i) [0 ..< ?e]" by (simp add: contents_def file_bytes_def su)
    also have "\<dots> = map (file_byte t i) [0 ..< ?e]" using fb xs by simp
    finally have cu: "contents u i = overwrite (contents s i) off xs" using ow unfolding m by simp
    have "intact u i"
      unfolding intact_def su using W(3) [OF okv] W(4) [OF okv] xs mapped u(5) unfolding fv m by simp
    moreover have "logged s u" using logged_trans [OF G(1)] u(3) by (simp add: v logged_def)
    moreover have "blk_view u n = blk_view s n" if "elsewhere s i n" "n \<noteq> IBLOCK (i_inum (icache s ! i)) (sb s)" for n
      using G(8) [OF that(1)] that(2) unfolding u(6) inum by (simp add: v)
    moreover have "\<exists>as sz. icache u = (icache s)[i := (icache s ! i)\<lparr>i_addrs := as, i_size := sz\<rparr>]"
      by (intro exI [of _ as] exI [of _ "of_nat ?e"]) (simp add: U v)
    moreover have "free_blks u \<subseteq> free_blks s" using W(2) G(5) by (simp add: v)
    moreover have "t' = Ok u" using True u(1) by (simp add: t'_def w_def)
    ultimately show ?thesis using u(2) W(1) cu U(2) by blast
  qed
qed

lemma writei_ok:
  fixes s :: "'a fstate_scheme"
  assumes "space_ok s" "intact s i" "in_op {} (6 * nblks (unat off) (length src) + 1) s"
    and "off \<le> i_size (icache s ! i)" "unat off + length src \<le> MAXFILE * BSIZE"
    and "2 * nblks (unat off) (length src) \<le> card (free_blks s)"
  shows "\<exists>t. writei devs i src off s = Ok (int (length src), t) \<and> in_op {} 0 t \<and> space_ok t \<and> intact t i \<and>
     contents t i = overwrite (contents s i) (unat off) src \<and> logged s t \<and> sb t = sb s \<and>
     (\<exists>as sz. icache t = (icache s)[i := (icache s ! i)\<lparr>i_addrs := as, i_size := sz\<rparr>]) \<and> free_blks t \<subseteq> free_blks s \<and>
     (\<forall>n. elsewhere s i n \<longrightarrow> n \<noteq> IBLOCK (i_inum (icache s ! i)) (sb s) \<longrightarrow> blk_view t n = blk_view s n)"
proof -
  let ?sz = "i_size (icache s ! i)" and ?n = "of_nat (length src) :: u32"
  have f: "file_ok s i" and nz: "\<forall>x < unat ?sz. fblk s i (x div BSIZE) \<noteq> 0" using assms(2) by (simp_all add: intact_def)
  have n: "unat ?n = length src" using assms(5) by (intro unat_of_nat32) simp
  have sum: "unat (off + ?n) = unat off + length src" using assms(5) n by (subst unat_add32) simp_all
  have off: "unat off \<le> unat ?sz" using assms(4) by (simp add: word_le_nat_alt)
  obtain t where t: "writei_loop i (unat off) src s = Ok (unat off + length src, t)" "in_op {} 1 t" "grown i s t"
    "\<forall>x < MAXFILE * BSIZE. file_byte t i x = (if unat off \<le> x \<and> x < unat off + length src then src ! (x - unat off) else file_byte s i x)"
    "\<forall>x. unat off \<le> x \<longrightarrow> x < unat off + length src \<longrightarrow> fblk t i (x div BSIZE) \<noteq> 0"
    "(\<forall>x. unat off \<le> x \<longrightarrow> x < unat off + length src \<longrightarrow> fblk s i (x div BSIZE) \<noteq> 0) \<longrightarrow> icache t = icache s"
    using writei_loop_writes [OF f assms(1,3,5,6)] by blast
  have ic: "unat off + length src \<le> unat ?sz \<longrightarrow> icache t = icache s" using t(6) nz by simp
  obtain as where c: "icache t = (icache s)[i := (icache s ! i)\<lparr>i_addrs := as\<rparr>]" using t(3) by (auto simp: grown_def)
  have szt: "i_size (icache t ! i) = ?sz" using file_okD(1) [OF f] by (simp add: c)
  have g: "\<not> (off > ?sz \<or> off + ?n < off)" "\<not> off + ?n > of_nat (MAXFILE * BSIZE)"
    using assms(4,5) sum by (auto simp: word_less_nat_alt word_le_nat_alt)
  have gt: "of_nat (unat off + length src) > ?sz \<longleftrightarrow> unat ?sz < unat off + length src"
    using assms(5) by (simp del: of_nat_add add: word_less_nat_alt unat_of_nat32)
  have n0: "?n > 0 \<longleftrightarrow> length src \<noteq> 0" using n by (metis unat_gt_0 word_gt_0 neq0_conv)
  let ?t' = "if length src \<noteq> 0 \<and> unat ?sz < unat off + length src
      then iupdate i (upd_inode i (\<lambda>ip. ip\<lparr>i_size := of_nat (unat off + length src)\<rparr>) t) else Ok t"
  obtain u where u: "?t' = Ok u" "in_op {} 0 u" "space_ok u" "intact u i" "contents u i = overwrite (contents s i) (unat off) src"
    "logged s u" "\<forall>n. elsewhere s i n \<longrightarrow> n \<noteq> IBLOCK (i_inum (icache s ! i)) (sb s) \<longrightarrow> blk_view u n = blk_view s n"
    "free_blks u \<subseteq> free_blks s" "sb u = sb s" "\<exists>as sz. icache u = (icache s)[i := (icache s ! i)\<lparr>i_addrs := as, i_size := sz\<rparr>]"
    using writei_finish [OF assms(2) off assms(5) t(2-5) ic] by blast
  have "writei devs i src off s = obind ?t' (\<lambda>s. Ok (int (length src), s))"
    unfolding writei_def Let_def if_not_P [OF file_okD(3) [OF f]] if_not_P [OF g(1)] if_not_P [OF g(2)] t(1) obind.simps(1)
      prod.case szt gt n0 ..
  then have "writei devs i src off s = Ok (int (length src), u)" unfolding u(1) by simp
  then show ?thesis using u(2-10) by blast
qed

text \<open>
  C3: writing to a file is writing to an array of bytes: from an offset within the file, \<^verbatim>\<open>writei\<close>
  lays the bytes over the contents, which grow when they reach past the end. It allocates the
  direct, indirect and data blocks it needs from the free ones, leaves every other block of
  the disk alone (those of other files, and the inodes in other blocks), and keeps the inode
  on the disk up to date. The log room asked for, six blocks for each block touched and one
  for the inode, suffices for the most that \<^verbatim>\<open>filewrite\<close> writes in one operation, 1536 bytes, when the log is empty.
\<close>

theorem writei_writes_contents:
  fixes s :: "'a fstate_scheme"
  assumes "space_ok s" "intact s i" "in_op {} (6 * nblks (unat off) (length src) + 1) s"
    and "off \<le> i_size (icache s ! i)" "unat off + length src \<le> MAXFILE * BSIZE"
    and "2 * nblks (unat off) (length src) \<le> card (free_blks s)"
  shows "\<exists>t. writei devs i src off s = Ok (int (length src), t) \<and> in_op {} 0 t \<and> space_ok t \<and> intact t i \<and>
     contents t i = overwrite (contents s i) (unat off) src \<and> memdisk t = memdisk s \<and> free_blks t \<subseteq> free_blks s \<and>
     (\<forall>n. elsewhere s i n \<longrightarrow> n \<noteq> IBLOCK (i_inum (icache s ! i)) (sb s) \<longrightarrow> blk_view t n = blk_view s n)"
  using writei_ok [OF assms, of devs] unfolding logged_def by blast

text \<open>
  C5: \<^verbatim>\<open>balloc\<close> hands out a block that was free: as long as one is, it returns a data block
  whose bit was clear, now set, and whose bytes are zero. No block in use is handed out, and no
  other block of data, nor its bit, changes.
\<close>

theorem balloc_takes_free_block:
  fixes s :: "'a fstate_scheme"
  assumes "in_op {} 2 s" "space_ok s" "free_blks s \<noteq> {}"
  shows "\<exists>a t. balloc 1 s = Ok (a, t) \<and> data_blk s a \<and> blk_free s a \<and> \<not> blk_free t a \<and> space_ok t \<and>
     (\<forall>k < BSIZE. blk_view t a k = 0) \<and> free_blks t = free_blks s - {a} \<and>
     (\<forall>n. data_blk s n \<longrightarrow> n \<noteq> a \<longrightarrow> blk_view t n = blk_view s n \<and> blk_free t n = blk_free s n)"
proof -
  have o: "in_op {} (Suc (Suc 0)) s" using assms(1) by (simp add: numeral_2_eq_2)
  have h: "held_used {} s" by (simp add: held_used_def)
  obtain a t where t: "balloc 1 s = Ok (a, t)" "in_op {} 0 t" "allocated {} s a t"
    using balloc_ok [OF o assms(2) h] assms(3) by (auto simp: free_blks_def)
  have "data_blk s a" "blk_free s a" using t(3) by (simp_all add: allocated_def)
  then show ?thesis
    using t(1) allocated_facts [OF assms(2) t(3)] by (intro exI [of _ a] exI [of _ t]) (simp add: zeroed_def)
qed

section \<open>An example file\<close>

text \<open>
  Inode 2, in the first slot of the inode cache, is a file or a directory with the bytes \<open>xs\<close>
  in block 100. The bitmap, block 58, has the first 59 blocks and block 100 marked.
\<close>

definition example_bitmap :: block where
  "example_bitmap k = (if k < 7 then 255 else if k = 7 then 7 else if k = 12 then 16 else 0)"

definition example_disk_blocks :: "u16 \<Rightarrow> u8 list \<Rightarrow> nat \<Rightarrow> block" where
  "example_disk_blocks ty xs n =
     (if n = 58 then example_bitmap
      else if n = 32 then \<lambda>k. if k = 128 then ucast ty else if k = 136 then of_nat (length xs) else if k = 140 then 100 else 0
      else if n = 100 then \<lambda>k. if k < length xs then xs ! k else 0
      else (\<lambda>k. 0))"

definition example_inode :: "u16 \<Rightarrow> u8 list \<Rightarrow> inode" where
  "example_inode ty xs = free_inode\<lparr>i_dev := 1, i_inum := 2, i_ref := 1, i_valid := True, i_type := ty,
     i_size := of_nat (length xs), i_addrs := (replicate (NDIRECT + 1) 0)[0 := 100]\<rparr>"

definition example_files :: "u16 \<Rightarrow> u8 list \<Rightarrow> fstate" where
  "example_files ty xs = (example_fstate ())\<lparr>memdisk := example_disk_blocks ty xs,
     icache := example_inode ty xs # replicate 49 free_inode, outstanding := 1\<rparr>"

lemma example_fields:
  "sb (example_files ty xs) = example_sb" "icache (example_files ty xs) ! 0 = example_inode ty xs"
  "disksize (example_files ty xs) = 1000" "log_start (example_files ty xs) = 2"
  "memdisk (example_files ty xs) = example_disk_blocks ty xs" "outstanding (example_files ty xs) = 1"
  "lh_n (example_files ty xs) = 0" "log_dev (example_files ty xs) = 1" "log_size (example_files ty xs) = 30"
  "length (icache (example_files ty xs)) = 50"
  unfolding example_files_def example_fstate_def example_lstate_def example_bstate_def example_state_def by simp_all

lemma example_held: "fs_held {} (example_files ty xs)" "bio_dirty (example_files ty xs) = {}"
  "blk_view (example_files ty xs) n = example_disk_blocks ty xs (unat n)"
proof -
  let ?s = "example_files ty xs"
  have b: "bufs ?s ! i = empty_buf" if "i < NBUF" for i
    using that unfolding example_files_def example_fstate_def example_lstate_def example_bstate_def example_state_def by simp
  have l: "length (bufs ?s) = NBUF" "lru ?s = rev [0 ..< NBUF]"
    "procs ?s = procs (example_state ())" "pt_lock ?s = pt_lock (example_state ())" "this_cpu ?s = example_cpu"
    unfolding example_files_def example_fstate_def example_lstate_def example_bstate_def example_state_def by simp_all
  have "in_process ?s" by (simp add: in_process_def quiet_def l example_cpu_def example_state_def)
  then have i: "bio_idle ?s"
    by (auto simp: bio_idle_def bio_ok_def has_blk_def buf_held_def b buf_ok_def empty_buf_def l)
  show d: "bio_dirty ?s = {}" by (auto simp: bio_dirty_def has_blk_def b empty_buf_def)
  have "log_inv ?s" by (simp add: log_inv_def homes_def d example_fields)
  then show "fs_held {} ?s" using i by (simp add: fs_held_idle)
  show "blk_view ?s n = example_disk_blocks ty xs (unat n)" using idle_clean [OF i, of n] d by (simp add: example_fields)
qed

lemma example_op: "r < 30 \<Longrightarrow> in_op {} r (example_files ty xs)"
  using example_held(1) [of ty xs] by (simp add: in_op_def example_fields)

lemma example_bits: "\<forall>k < 59. \<not> bit_free example_bitmap k"
proof -
  have "list_all (\<lambda>k. \<not> bit_free example_bitmap k) [0 ..< 59]" by code_simp
  then show ?thesis by (auto simp: list_all_iff)
qed

lemma example_BBLOCK: "unat a < 1000 \<Longrightarrow> BBLOCK a example_sb = 58"
proof -
  assume "unat a < 1000"
  then have "unat (a div of_nat BPB) = 0" by (simp add: unat_div)
  then have "a div of_nat BPB = 0" by (simp add: unat_eq_0)
  then show ?thesis by (simp add: BBLOCK_def example_sb_def)
qed

lemma example_free: "unat a < 1000 \<Longrightarrow> blk_free (example_files ty xs) a \<longleftrightarrow> bit_free example_bitmap (unat a)"
  by (simp add: blk_free_def example_fields example_held example_BBLOCK example_disk_blocks_def)

lemma example_space: "space_ok (example_files ty xs)"
proof -
  let ?s = "example_files ty xs"
  have sz: "unat (sb_size example_sb) = 1000" by (simp add: example_sb_def)
  have st: "data_start ?s = 59" by (simp add: data_start_def example_fields example_sb_def)
  have "layout_ok ?s" by (simp add: layout_ok_def st example_fields) (simp add: example_sb_def)
  moreover have "data_blk ?s a" if "unat a < 1000" "blk_free ?s a" for a
  proof (rule ccontr)
    assume "\<not> data_blk ?s a"
    then have "unat a < 59" using that(1) by (simp add: data_blk_def st example_fields sz)
    then show False using example_bits that(2) example_free [OF that(1)] by blast
  qed
  ultimately show ?thesis by (simp add: space_ok_def example_fields sz)
qed

lemma example_fblk: "k \<le> MAXFILE \<Longrightarrow> fblk (example_files ty xs) 0 k = (if k = 0 then 100 else 0)"
proof -
  have as: "i_addrs (icache (example_files ty xs) ! 0) = (replicate 13 0)[0 := 100]"
    by (simp add: example_fields example_inode_def)
  show "k \<le> MAXFILE \<Longrightarrow> ?thesis" unfolding fblk_def Let_def as by (auto simp: nth_list_update)
qed

lemma example_intact:
  assumes ty: "ty = T_FILE \<or> ty = T_DIR" and len: "length xs < 256"
  shows "intact (example_files ty xs) 0"
proof -
  let ?s = "example_files ty xs"
  have b: "\<not> bit_free example_bitmap 100" by code_simp
  have f: "fblk ?s 0 k \<noteq> 0 \<Longrightarrow> k \<le> MAXFILE \<Longrightarrow> k = 0" "fblk ?s 0 0 = 100" for k
    using example_fblk [of k ty xs] example_fblk [of 0 ty xs] by (auto split: if_splits)
  have d: "data_blk ?s 100" by (simp add: data_blk_def data_start_def example_fields example_sb_def)
  have "file_ok ?s 0"
    unfolding file_ok_def
  proof (intro conjI allI impI)
    fix k assume k: "k \<le> MAXFILE" "fblk ?s 0 k \<noteq> 0"
    then have "fblk ?s 0 k = 100" using f by blast
    then show "data_blk ?s (fblk ?s 0 k)" "\<not> blk_free ?s (fblk ?s 0 k)"
      using d b example_free [of 100] by simp_all
  next
    fix j k assume "j \<le> MAXFILE" "k \<le> MAXFILE" "fblk ?s 0 j \<noteq> 0" "fblk ?s 0 j = fblk ?s 0 k"
    then have "j = 0" "k = 0" using f(1) by simp_all
    then show "j = k" by simp
  qed (use ty in \<open>auto simp: example_fields example_inode_def\<close>)
  moreover have sz: "unat (i_size (icache ?s ! 0)) = length xs"
    using len by (simp add: example_fields example_inode_def unat_of_nat32)
  then have "\<forall>x < unat (i_size (icache ?s ! 0)). fblk ?s 0 (x div BSIZE) \<noteq> 0" using f(2) len by simp
  moreover have "saved ?s 0"
  proof -
    let ?d = "example_disk_blocks ty xs 32"
    have n: "i_inum (icache ?s ! 0) = 2" "dinode_off 2 = 128" "IBLOCK 2 example_sb = 32"
      by (simp_all add: example_fields example_inode_def dinode_off_def IBLOCK_def example_sb_def)
    have l: "(ucast (of_nat (length xs) :: u8) :: u32) = of_nat (length xs)"
      using len by (simp add: word_unat_eq_iff unsigned_ucast_eq unat_of_nat take_bit_eq_mod)
    have g: "get16 ?d 128 = ty" "get16 ?d 130 = 0" "get16 ?d 132 = 0" "get16 ?d 134 = 0" "get32 ?d 136 = of_nat (length xs)"
      using ty l by (auto simp: get16_def get32_def example_disk_blocks_def)
    have a: "map (\<lambda>k. get32 ?d (140 + 4 * k)) [0 ..< 13] = (replicate 13 0)[0 := 100]"
      by (rule nth_equalityI) (auto simp: get32_def example_disk_blocks_def nth_list_update)
    show ?thesis
      unfolding saved_def n(1) example_fields(1) n(2,3) example_held(3)
      by (simp add: get_dinode_def g a example_fields) (simp add: example_inode_def example_sb_def free_inode_def)
  qed
  ultimately show ?thesis using len sz by (simp add: intact_def)
qed

lemma example_contents:
  assumes "length xs < 256"
  shows "contents (example_files ty xs) 0 = xs" "unat (i_size (icache (example_files ty xs) ! 0)) = length xs"
proof -
  let ?s = "example_files ty xs"
  show sz: "unat (i_size (icache ?s ! 0)) = length xs"
    using assms by (simp add: example_fields example_inode_def unat_of_nat32)
  have "file_byte ?s 0 x = xs ! x" if "x < length xs" for x
    using that assms example_fblk [of 0 ty xs] by (simp add: file_byte_def Let_def example_held example_disk_blocks_def)
  then show "contents ?s 0 = xs" by (intro nth_equalityI) (simp_all add: sz nth_contents)
qed

lemma example_two_free: "2 \<le> card (free_blks (example_files ty xs))"
proof -
  have "bit_free example_bitmap 200" "bit_free example_bitmap 201" by code_simp+
  then have "{200, 201} \<subseteq> free_blks (example_files ty xs)"
    using example_free [of 200] example_free [of 201] by (simp add: free_blks_def example_fields example_sb_def)
  from card_mono [OF _ this] show ?thesis by simp
qed

theorem balloc_takes_free_block_witness:
  "\<exists>a t. balloc 1 (example_files T_FILE []) = Ok (a, t) \<and> blk_free (example_files T_FILE []) a \<and> \<not> blk_free t a"
proof -
  have "free_blks (example_files T_FILE []) \<noteq> {}" using example_two_free [of T_FILE "[]"] by auto
  then show ?thesis using balloc_takes_free_block [OF example_op example_space] by simp blast
qed

theorem readi_reads_contents_witness:
  "\<exists>t. readi no_devs 0 1 10 (example_files T_FILE [7, 8, 9]) = Ok (Some [8, 9], t)"
proof -
  have l: "length [7, 8, 9 :: u8] < 256" by simp
  have "(1 :: u32) \<le> i_size (icache (example_files T_FILE [7, 8, 9]) ! 0)" by (simp add: example_fields example_inode_def)
  from readi_reads_contents [OF example_held(1) example_space example_intact [OF _ l] this, of 10 no_devs]
  show ?thesis by (auto simp: example_contents)
qed

theorem writei_writes_contents_witness:
  "\<exists>t. writei no_devs 0 [1, 2, 3] 2 (example_files T_FILE [7, 8, 9]) = Ok (3, t) \<and> contents t 0 = [7, 8, 1, 2, 3]"
proof -
  let ?s = "example_files T_FILE [7, 8, 9]"
  have l: "length [7, 8, 9 :: u8] < 256" by simp
  have len: "length [1, 2, 3 :: u8] = 3" by simp
  have two: "unat (2 :: u32) = 2" by simp
  have nb: "nblks 2 3 = 1" by (simp add: nblks_def)
  have le: "(2 :: u32) \<le> i_size (icache ?s ! 0)" by (simp add: example_fields example_inode_def)
  have it: "intact ?s 0" using l by (intro example_intact) simp_all
  have h: "in_op {} (6 * nblks (unat (2 :: u32)) (length [1, 2, 3 :: u8]) + 1) ?s" "unat (2 :: u32) + length [1, 2, 3 :: u8] \<le> MAXFILE * BSIZE"
      "2 * nblks (unat (2 :: u32)) (length [1, 2, 3 :: u8]) \<le> card (free_blks ?s)"
    unfolding two len nb using example_op example_two_free [of T_FILE "[7, 8, 9]"] by simp_all
  obtain t where t: "writei no_devs 0 [1, 2, 3] 2 ?s = Ok (int (length [1, 2, 3 :: u8]), t)"
      "contents t 0 = overwrite (contents ?s 0) (unat (2 :: u32)) [1, 2, 3]"
    using writei_writes_contents [OF example_space it h(1) le h(2,3), of no_devs] by blast
  then show ?thesis by (auto simp: example_contents overwrite_def)
qed

end
