(* ===== verification/Dir.thy ===== *)
theory Dir
  imports Files
begin

text \<open>
  A directory is a map from names to inode numbers: \<^verbatim>\<open>dirlookup\<close> looks a name up and
  \<^verbatim>\<open>dirlink\<close> adds one.
\<close>

section \<open>Names\<close>

text \<open>A name is what comes before the first NUL of its 14 bytes.\<close>

definition cname :: "u8 list \<Rightarrow> u8 list" where
  "cname xs = takeWhile (\<lambda>c. c \<noteq> 0) (map (cstr_of xs) [0 ..< DIRSIZ])"

lemma takeWhile_eq_iff:
  fixes p q :: cstr
  shows "takeWhile (\<lambda>c. c \<noteq> 0) (map p [0 ..< n]) = takeWhile (\<lambda>c. c \<noteq> 0) (map q [0 ..< n]) \<longleftrightarrow>
    (\<forall>i < n. (\<forall>j < i. p j \<noteq> 0) \<longrightarrow> p i = q i)"
proof (induction n arbitrary: p q)
  case (Suc n)
  have m: "map p [0 ..< Suc n] = p 0 # map (\<lambda>i. p (Suc i)) [0 ..< n]" for p :: cstr
    by (simp add: map_upt_Suc del: upt_Suc)
  have ex: "(\<forall>i < Suc n. (\<forall>j < i. p j \<noteq> 0) \<longrightarrow> p i = q i) \<longleftrightarrow>
     p 0 = q 0 \<and> (p 0 \<noteq> 0 \<longrightarrow> (\<forall>i < n. (\<forall>j < i. p (Suc j) \<noteq> 0) \<longrightarrow> p (Suc i) = q (Suc i)))"
    by (simp add: All_less_Suc2) blast
  show ?case unfolding m ex Suc.IH [symmetric] by auto
qed simp

lemma namecmp_eq: "namecmp p q = 0 \<longleftrightarrow> cname p = cname q"
  unfolding namecmp_def cname_def strncmp_eq_0 takeWhile_eq_iff ..

section \<open>Entries\<close>

definition dir_entry :: "'a fstate_scheme \<Rightarrow> nat \<Rightarrow> nat \<Rightarrow> u8 list" where
  "dir_entry s dp k = take 16 (drop (16 * k) (contents s dp))"

definition dir_len :: "'a fstate_scheme \<Rightarrow> nat \<Rightarrow> nat" where
  "dir_len s dp = unat (i_size (icache s ! dp)) div 16"

definition entry_is :: "u8 list \<Rightarrow> u8 list \<Rightarrow> bool" where
  "entry_is n de \<longleftrightarrow> de_inum de \<noteq> 0 \<and> cname (de_name de) = n"

text \<open>The first entry with the name, and the map of the directory.\<close>

definition dir_find :: "'a fstate_scheme \<Rightarrow> nat \<Rightarrow> u8 list \<Rightarrow> nat option" where
  "dir_find s dp n = find (\<lambda>k. entry_is n (dir_entry s dp k)) [0 ..< dir_len s dp]"

definition dir_map :: "'a fstate_scheme \<Rightarrow> nat \<Rightarrow> u8 list \<Rightarrow> u32 option" where
  "dir_map s dp n = map_option (\<lambda>k. de_inum (dir_entry s dp k)) (dir_find s dp n)"

definition dir_ok :: "'a fstate_scheme \<Rightarrow> nat \<Rightarrow> bool" where
  "dir_ok s dp \<longleftrightarrow> space_ok s \<and> intact s dp \<and> i_type (icache s ! dp) = T_DIR \<and> unat (i_size (icache s ! dp)) mod 16 = 0"

lemma seen_dir:
  fixes s t :: "'a fstate_scheme"
  assumes "seen s t"
  shows "dir_ok t dp = dir_ok s dp" "dir_entry t dp = dir_entry s dp" "dir_len t dp = dir_len s dp"
    "dir_find t dp = dir_find s dp" "dir_map t dp = dir_map s dp" "contents t dp = contents s dp"
proof -
  note m = more_fs [OF seen_more [OF assms]] seen_free [OF assms] seen_fblk [OF assms]
  have v: "blk_view t = blk_view s" using assms by (simp add: seen_def)
  show c: "contents t dp = contents s dp" by (simp add: contents_def file_bytes_def m)
  show "dir_ok t dp = dir_ok s dp" by (simp add: dir_ok_def intact_def saved_def m v)
  show e: "dir_entry t dp = dir_entry s dp" by (rule ext) (simp add: dir_entry_def c)
  show l: "dir_len t dp = dir_len s dp" by (simp add: dir_len_def m)
  show f: "dir_find t dp = dir_find s dp" by (rule ext) (simp add: dir_find_def e l)
  show "dir_map t dp = dir_map s dp" by (rule ext) (simp add: dir_map_def e f)
qed

text \<open>Reading one entry.\<close>

lemma read_entry:
  fixes s :: "'a fstate_scheme"
  assumes "fs_held {} s" "dir_ok s dp" "k < dir_len s dp"
  obtains t where "readi devs dp (of_nat (16 * k)) 16 s = Ok (Some (dir_entry s dp k), t)" "seen s t" "fs_held {} t"
    "length (dir_entry s dp k) = 16"
proof -
  let ?sz = "i_size (icache s ! dp)"
  have d: "space_ok s" "intact s dp" "unat ?sz mod 16 = 0" using assms(2) by (simp_all add: dir_ok_def)
  have sz: "unat ?sz = 16 * dir_len s dp" using d(3) by (auto simp: dir_len_def elim!: dvdE dest: mod_0_imp_dvd)
  have le: "16 * k + 16 \<le> unat ?sz" using assms(3) sz by simp
  have mx: "unat ?sz \<le> 71680" using d(2) by (simp add: intact_def)
  have o: "unat (of_nat (16 * k) :: u32) = 16 * k" using le mx by (intro unat_of_nat32) simp
  have g: "of_nat (16 * k) \<le> ?sz" unfolding word_le_nat_alt o using le by simp
  have w: "unat (of_nat (16 * k) :: u32) + unat (16 :: u32) < 2 ^ 32" unfolding o using le mx by simp
  obtain t where t: "readi devs dp (of_nat (16 * k)) 16 s = Ok (Some (take (unat (16 :: u32)) (drop (unat (of_nat (16 * k) :: u32)) (contents s dp))), t)"
    "seen s t" "fs_held {} t" using readi_ok [OF assms(1) d(1,2) g w, of devs] by blast
  have "length (dir_entry s dp k) = 16" using le by (simp add: dir_entry_def)
  then show thesis using that t unfolding o dir_entry_def by simp
qed

lemma dirlookup_from_finds:
  fixes s :: "'a fstate_scheme"
  assumes "fs_held {} s" "dir_ok s dp" "\<forall>k \<in> set ks. k < dir_len s dp"
  shows "\<exists>t. seen s t \<and> fs_held {} t \<and> dirlookup_from dp nm (map (\<lambda>k. 16 * k) ks) s =
    (case find (\<lambda>k. entry_is (cname nm) (dir_entry s dp k)) ks of
       None \<Rightarrow> Ok (None, t)
     | Some k \<Rightarrow> obind (iget 1 (de_inum (dir_entry s dp k)) t) (\<lambda>(i, t). Ok (Some (i, 16 * k), t)))"
  using assms
proof (induction ks arbitrary: s)
  case Nil
  then show ?case by auto
next
  case (Cons k ks)
  have k: "k < dir_len s dp" using Cons.prems(3) by simp
  obtain t where t: "readi no_devs dp (of_nat (16 * k)) 16 s = Ok (Some (dir_entry s dp k), t)" "seen s t" "fs_held {} t"
    "length (dir_entry s dp k) = 16" using read_entry [OF Cons.prems(1,2) k] .
  note D = seen_dir [OF t(2)]
  have dev: "i_dev (icache t ! dp) = 1"
    using Cons.prems(2) file_okD(2) [of s dp] more_fs [OF seen_more [OF t(2)]] by (simp add: dir_ok_def intact_def)
  have step: "dirlookup_from dp nm (map (\<lambda>k. 16 * k) (k # ks)) s =
      (if entry_is (cname nm) (dir_entry s dp k)
       then obind (iget 1 (de_inum (dir_entry s dp k)) t) (\<lambda>(i, t). Ok (Some (i, 16 * k), t))
       else dirlookup_from dp nm (map (\<lambda>k. 16 * k) ks) t)"
    using t(1,4) dev by (auto simp: entry_is_def namecmp_eq)
  show ?case
  proof (cases "entry_is (cname nm) (dir_entry s dp k)")
    case True
    then show ?thesis using step t(2,3) by (intro exI [of _ t]) simp
  next
    case False
    have "\<exists>u. seen t u \<and> fs_held {} u \<and> dirlookup_from dp nm (map (\<lambda>k. 16 * k) ks) t =
      (case find (\<lambda>k. entry_is (cname nm) (dir_entry t dp k)) ks of
         None \<Rightarrow> Ok (None, u)
       | Some k \<Rightarrow> obind (iget 1 (de_inum (dir_entry t dp k)) u) (\<lambda>(i, u). Ok (Some (i, 16 * k), u)))"
      by (rule Cons.IH [OF t(3)]) (use Cons.prems D in simp_all)
    then obtain u where u: "seen t u" "fs_held {} u" "dirlookup_from dp nm (map (\<lambda>k. 16 * k) ks) t =
      (case find (\<lambda>k. entry_is (cname nm) (dir_entry s dp k)) ks of
         None \<Rightarrow> Ok (None, u)
       | Some k \<Rightarrow> obind (iget 1 (de_inum (dir_entry s dp k)) u) (\<lambda>(i, u). Ok (Some (i, 16 * k), u)))"
      unfolding D(2) by blast
    show ?thesis using step False u(2,3) seen_trans [OF t(2) u(1)] by (intro exI [of _ u]) simp
  qed
qed

lemma dirent_offsets_eq:
  "sz mod 16 = 0 \<Longrightarrow> dirent_offsets sz = map (\<lambda>k. 16 * k) [0 ..< sz div 16]"
  by (auto simp: dirent_offsets_def elim!: dvdE dest!: mod_0_imp_dvd)

lemma dirlookup_ok:
  fixes s :: "'a fstate_scheme"
  assumes "fs_held {} s" "dir_ok s dp"
  shows "\<exists>t. seen s t \<and> fs_held {} t \<and> dirlookup dp nm s =
    (case dir_find s dp (cname nm) of
       None \<Rightarrow> Ok (None, t)
     | Some k \<Rightarrow> obind (iget 1 (de_inum (dir_entry s dp k)) t) (\<lambda>(i, t). Ok (Some (i, 16 * k), t)))"
proof -
  have d: "i_type (icache s ! dp) = T_DIR" "unat (i_size (icache s ! dp)) mod 16 = 0" using assms(2) by (simp_all add: dir_ok_def)
  have "\<forall>k \<in> set [0 ..< dir_len s dp]. k < dir_len s dp" by simp
  from dirlookup_from_finds [OF assms this, of nm] show ?thesis
    unfolding dirlookup_def dir_find_def using d(1) dirent_offsets_eq [OF d(2)] by (simp add: dir_len_def)
qed

text \<open>
  C7: \<^verbatim>\<open>dirlookup\<close> looks the name up in the map of the directory: where the name is bound it
  returns the inode that \<^verbatim>\<open>iget\<close> gives for the number bound to it, with the offset of the
  first entry of that name, and otherwise nothing. It leaves the disk as it is.
\<close>

theorem dirlookup_looks_up:
  fixes s :: "'a fstate_scheme"
  assumes "fs_held {} s" "dir_ok s dp"
  shows "\<exists>t. blk_view t = blk_view s \<and> memdisk t = memdisk s \<and> icache t = icache s \<and>
    (case dir_map s dp (cname nm) of
       None \<Rightarrow> dirlookup dp nm s = Ok (None, t)
     | Some inum \<Rightarrow> \<exists>k < dir_len s dp. entry_is (cname nm) (dir_entry s dp k) \<and> de_inum (dir_entry s dp k) = inum \<and>
         (\<forall>j < k. \<not> entry_is (cname nm) (dir_entry s dp j)) \<and>
         dirlookup dp nm s = obind (iget 1 inum t) (\<lambda>(i, t). Ok (Some (i, 16 * k), t)))"
proof -
  obtain t where t: "seen s t" "fs_held {} t" "dirlookup dp nm s =
    (case dir_find s dp (cname nm) of
       None \<Rightarrow> Ok (None, t)
     | Some k \<Rightarrow> obind (iget 1 (de_inum (dir_entry s dp k)) t) (\<lambda>(i, t). Ok (Some (i, 16 * k), t)))"
    using dirlookup_ok [OF assms] by blast
  have same: "blk_view t = blk_view s" "memdisk t = memdisk s" "icache t = icache s"
    using t(1) more_fs [OF seen_more [OF t(1)]] by (simp_all add: seen_def)
  show ?thesis
  proof (cases "dir_find s dp (cname nm)")
    case None
    then show ?thesis using t(3) same by (intro exI [of _ t]) (simp add: dir_map_def)
  next
    case (Some k)
    then have "k < dir_len s dp" "entry_is (cname nm) (dir_entry s dp k)" "\<forall>j < k. \<not> entry_is (cname nm) (dir_entry s dp j)"
      by (auto simp: dir_find_def find_Some_iff)
    then show ?thesis using Some t(3) same by (intro exI [of _ t]) (auto simp: dir_map_def)
  qed
qed

section \<open>Adding a name\<close>

lemma dirlink_slot_finds:
  fixes s :: "'a fstate_scheme"
  assumes "fs_held {} s" "dir_ok s dp" "\<forall>k \<in> set ks. k < dir_len s dp"
  shows "\<exists>t. seen s t \<and> fs_held {} t \<and> dirlink_slot dp (map (\<lambda>k. 16 * k) ks) e s =
    Ok (case find (\<lambda>k. de_inum (dir_entry s dp k) = 0) ks of None \<Rightarrow> e | Some k \<Rightarrow> 16 * k, t)"
  using assms
proof (induction ks arbitrary: s)
  case Nil
  then show ?case by auto
next
  case (Cons k ks)
  have k: "k < dir_len s dp" using Cons.prems(3) by simp
  obtain t where t: "readi no_devs dp (of_nat (16 * k)) 16 s = Ok (Some (dir_entry s dp k), t)" "seen s t" "fs_held {} t"
    "length (dir_entry s dp k) = 16" using read_entry [OF Cons.prems(1,2) k] .
  note D = seen_dir [OF t(2)]
  have step: "dirlink_slot dp (map (\<lambda>k. 16 * k) (k # ks)) e s =
      (if de_inum (dir_entry s dp k) = 0 then Ok (16 * k, t) else dirlink_slot dp (map (\<lambda>k. 16 * k) ks) e t)"
    using t(1,4) by simp
  show ?case
  proof (cases "de_inum (dir_entry s dp k) = 0")
    case True
    then show ?thesis using step t(2,3) by (intro exI [of _ t]) simp
  next
    case False
    have "\<exists>u. seen t u \<and> fs_held {} u \<and> dirlink_slot dp (map (\<lambda>k. 16 * k) ks) e t =
      Ok (case find (\<lambda>k. de_inum (dir_entry t dp k) = 0) ks of None \<Rightarrow> e | Some k \<Rightarrow> 16 * k, u)"
      by (rule Cons.IH [OF t(3)]) (use Cons.prems D in simp_all)
    then obtain u where u: "seen t u" "fs_held {} u" "dirlink_slot dp (map (\<lambda>k. 16 * k) ks) e t =
      Ok (case find (\<lambda>k. de_inum (dir_entry s dp k) = 0) ks of None \<Rightarrow> e | Some k \<Rightarrow> 16 * k, u)"
      unfolding D(2) by blast
    show ?thesis using step False u(2,3) seen_trans [OF t(2) u(1)] by (intro exI [of _ u]) simp
  qed
qed

text \<open>The entry that is written holds the name and the number.\<close>

lemma length_make_dirent [simp]: "length (make_dirent nm inum) = 16"
  by (simp add: make_dirent_def Let_def)

lemma de_inum_make_dirent: "de_inum (make_dirent nm inum) = ucast (ucast inum :: u16)"
proof -
  have "get16 (cstr_of (make_dirent nm inum)) 0 = (ucast inum :: u16)"
    by (rule bit_eqI) (auto simp: get16_def make_dirent_def Let_def cstr_of_def bit_simps)
  then show ?thesis by (simp add: de_inum_def)
qed

lemma cname_make_dirent: "cname (de_name (make_dirent nm inum)) = cname nm"
proof -
  have n: "de_name (make_dirent nm inum) = map (strncpy (\<lambda>k. 0) (cstr_of nm) (int DIRSIZ)) [0 ..< DIRSIZ]"
    by (simp add: de_name_def make_dirent_def Let_def)
  have "cstr_of (de_name (make_dirent nm inum)) i = cstr_of nm i" if "i < 14" "\<forall>j < i. cstr_of nm j \<noteq> 0" for i
    using that unfolding n by (simp add: cstr_of_def [of "map f xs" for f xs] strncpy_apply)
  then have "namecmp nm (de_name (make_dirent nm inum)) = 0" unfolding namecmp_def strncmp_eq_0 by simp
  then show ?thesis by (simp add: namecmp_eq)
qed

lemma entry_overwrite:
  assumes "length ys = 16 * n" "k \<le> n" "length de = 16" "j < max n (k + 1)"
  shows "take 16 (drop (16 * j) (overwrite ys (16 * k) de)) = (if j = k then de else take 16 (drop (16 * j) ys))"
proof (rule nth_equalityI)
  have len: "length (overwrite ys (16 * k) de) = 16 * max n (k + 1)"
    using assms(1-3) by (auto simp: length_overwrite max_def)
  have j: "j < n \<or> j = k" using assms(2,4) by auto
  have le: "16 * j + 16 \<le> 16 * max n (k + 1)" using assms(4) by simp
  show l: "length (take 16 (drop (16 * j) (overwrite ys (16 * k) de))) = length (if j = k then de else take 16 (drop (16 * j) ys))"
    using le j assms(1,3) by (auto simp: len)
  fix x assume "x < length (take 16 (drop (16 * j) (overwrite ys (16 * k) de)))"
  then have x: "x < 16" "16 * j + x < length (overwrite ys (16 * k) de)" by (auto simp: less_diff_conv add.commute)
  have off: "16 * k \<le> length ys" using assms(1,2) by simp
  have i: "16 * k \<le> 16 * j + x \<and> 16 * j + x < 16 * k + length de \<longleftrightarrow> j = k" using x(1) assms(3) by auto
  have "overwrite ys (16 * k) de ! (16 * j + x) = (if j = k then de ! (16 * j + x - 16 * k) else ys ! (16 * j + x))"
    using nth_overwrite [OF off x(2)] unfolding i .
  then show "take 16 (drop (16 * j) (overwrite ys (16 * k) de)) ! x = (if j = k then de else take 16 (drop (16 * j) ys)) ! x"
    using x j assms(1) by auto
qed

text \<open>Where entry \<open>k\<close>, which was empty or the end, becomes one for a new name.\<close>

lemma find_upt_cong: "(\<And>j. j < n \<Longrightarrow> P j = Q j) \<Longrightarrow> find P [0 ..< n] = find Q [0 ..< n]"
  by (rule find_cong) simp_all

lemma find_snoc: "find P (xs @ [x]) = (case find P xs of Some y \<Rightarrow> Some y | None \<Rightarrow> if P x then Some x else None)"
  by (induction xs) auto

lemma dir_map_insert:
  fixes s t :: "'a fstate_scheme"
  assumes k: "k \<le> dir_len s dp" "k < dir_len s dp \<Longrightarrow> de_inum (dir_entry s dp k) = 0"
    and t: "dir_len t dp = max (dir_len s dp) (k + 1)" "\<And>j. j < dir_len t dp \<Longrightarrow> dir_entry t dp j = (if j = k then de else dir_entry s dp j)"
    and de: "entry_is n de" and new: "dir_map s dp n = None"
  shows "dir_map t dp = (dir_map s dp)(n \<mapsto> de_inum de)"
proof (rule ext)
  fix m
  show "dir_map t dp m = ((dir_map s dp)(n \<mapsto> de_inum de)) m"
  proof (cases "m = n")
    case True
    have no: "\<not> entry_is n (dir_entry s dp j)" if "j < dir_len s dp" for j
      using new that by (auto simp: dir_map_def dir_find_def find_None_iff)
    have kt: "k < dir_len t dp" using t(1) by simp
    have "\<not> entry_is n (dir_entry t dp j)" if "j < k" for j using no [of j] t(2) [of j] that k(1) kt by simp
    moreover have "entry_is n (dir_entry t dp k)" using t(2) [OF kt] de by simp
    ultimately have "dir_find t dp n = Some k"
      unfolding dir_find_def find_Some_iff using kt by (intro exI [of _ k]) simp
    then show ?thesis using t(2) [OF kt] True by (simp add: dir_map_def)
  next
    case False
    have nk: "\<not> entry_is m de" using de False by (auto simp: entry_is_def)
    have nk': "\<not> entry_is m (dir_entry s dp k)" if "k < dir_len s dp" using k(2) [OF that] by (simp add: entry_is_def)
    have e: "entry_is m (dir_entry t dp j) = entry_is m (dir_entry s dp j)" if "j < dir_len s dp" for j
      using t(2) [of j] that nk nk' by (cases "j = k") (simp_all add: t(1))
    have "dir_find t dp m = dir_find s dp m"
    proof (cases "k < dir_len s dp")
      case True
      then have "dir_len t dp = dir_len s dp" using t(1) by simp
      then show ?thesis unfolding dir_find_def using find_upt_cong [OF e] by simp
    next
      case past: False
      then have kn: "k = dir_len s dp" "dir_len t dp = Suc k" using k(1) t(1) by simp_all
      have "\<not> entry_is m (dir_entry t dp k)" using t(2) [of k] kn(2) nk by simp
      moreover have "find (\<lambda>j. entry_is m (dir_entry t dp j)) [0 ..< k] = find (\<lambda>j. entry_is m (dir_entry s dp j)) [0 ..< k]"
        by (rule find_upt_cong) (use e kn in simp)
      ultimately show ?thesis unfolding dir_find_def kn(2) kn(1) [symmetric]
        by (simp add: find_snoc split: option.splits)
    qed
    moreover have "dir_entry t dp j = dir_entry s dp j" if "dir_find s dp m = Some j" for j
    proof -
      have j: "j < dir_len s dp" "entry_is m (dir_entry s dp j)" using that by (auto simp: dir_find_def find_Some_iff)
      then have "j \<noteq> k" using nk' by auto
      then show ?thesis using t(2) [of j] j(1) t(1) by simp
    qed
    ultimately show ?thesis using False by (cases "dir_find s dp m") (simp_all add: dir_map_def)
  qed
qed

text \<open>
  C6: \<^verbatim>\<open>dirlink\<close> inserts into the map of the directory: a name that is not bound is bound to
  the number, in the first empty entry or in a new one at the end, and every other name stays
  bound as it was. The directory stays well formed, with its inode on the disk up to date.
\<close>

theorem dirlink_inserts:
  fixes s :: "'a fstate_scheme"
  assumes d: "dir_ok s dp" and o: "in_op {} 7 s" and fr: "2 \<le> card (free_blks s)"
    and rm: "unat (i_size (icache s ! dp)) + 16 \<le> MAXFILE * BSIZE"
    and n: "inum \<noteq> 0" "unat inum < 65536" and new: "dir_map s dp (cname nm) = None"
  shows "\<exists>t. dirlink dp nm inum s = Ok (True, t) \<and> dir_ok t dp \<and> in_op {} 0 t \<and>
     dir_map t dp = (dir_map s dp)(cname nm \<mapsto> inum)"
proof -
  have ds: "space_ok s" "intact s dp" "i_type (icache s ! dp) = T_DIR" "unat (i_size (icache s ! dp)) mod 16 = 0"
    using d by (simp_all add: dir_ok_def)
  let ?l = "dir_len s dp" and ?de = "make_dirent nm inum"
  have sz: "unat (i_size (icache s ! dp)) = 16 * ?l" using ds(4) by (auto simp: dir_len_def elim!: dvdE dest: mod_0_imp_dvd)
  have nf: "dir_find s dp (cname nm) = None" using new by (simp add: dir_map_def)
  obtain t where t: "seen s t" "fs_held {} t" "dirlookup dp nm s = Ok (None, t)"
    using dirlookup_ok [OF in_op_held [OF o] d, of nm] nf by auto
  note T = seen_dir [OF t(1)]
  have ic: "icache t = icache s" using more_fs [OF seen_more [OF t(1)]] by simp
  have offs: "dirent_offsets (unat (i_size (icache t ! dp))) = map (\<lambda>k. 16 * k) [0 ..< ?l]"
    unfolding ic dirent_offsets_eq [OF ds(4)] by (simp add: dir_len_def)
  have all: "\<forall>k \<in> set [0 ..< ?l]. k < dir_len t dp" by (simp add: T)
  define k where "k = (case find (\<lambda>k. de_inum (dir_entry s dp k) = 0) [0 ..< ?l] of None \<Rightarrow> ?l | Some k \<Rightarrow> k)"
  have "k \<le> ?l \<and> (k < ?l \<longrightarrow> de_inum (dir_entry s dp k) = 0)"
  proof (cases "find (\<lambda>k. de_inum (dir_entry s dp k) = 0) [0 ..< ?l]")
    case None
    then show ?thesis by (simp add: k_def)
  next
    case (Some j)
    then have "j < ?l" "de_inum (dir_entry s dp j) = 0" by (auto simp: find_Some_iff)
    then show ?thesis by (simp add: k_def Some)
  qed
  then have k: "k \<le> ?l" "k < ?l \<Longrightarrow> de_inum (dir_entry s dp k) = 0" by blast+
  have "dir_ok t dp" using d T by simp
  from dirlink_slot_finds [OF t(2) this all, of "16 * ?l"] obtain u where u: "seen t u" "fs_held {} u"
    "dirlink_slot dp (map (\<lambda>k. 16 * k) [0 ..< ?l]) (16 * ?l) t = Ok (16 * k, u)"
    by (auto simp: T k_def split: option.splits)
  have su: "seen s u" by (rule seen_trans [OF t(1) u(1)])
  note U = seen_dir [OF su]
  have iu: "icache u = icache s" using more_fs [OF seen_more [OF su]] by simp
  have off: "unat (of_nat (16 * k) :: u32) = 16 * k" using k(1) sz rm by (intro unat_of_nat32) simp
  have le: "of_nat (16 * k) \<le> i_size (icache u ! dp)" unfolding word_le_nat_alt off iu sz using k(1) by simp
  have "(16 * k) mod 512 \<le> 496"
  proof -
    have "(16 * k) mod (16 * 32) = 16 * (k mod 32)" by (rule mod_mult_mult1)
    moreover have "k mod 32 < 32" by simp
    ultimately show ?thesis by simp
  qed
  then have "((16 * k) mod 512 + 16 + 512 - 1) div 512 = 1" by (intro div_nat_eqI) simp_all
  then have nb: "nblks (16 * k) 16 = 1" by (simp add: nblks_def)
  have ou: "in_op {} (6 * nblks (unat (of_nat (16 * k) :: u32)) (length ?de) + 1) u"
    unfolding off length_make_dirent nb using seen_op [OF su u(2) o] by simp
  have fu: "2 * nblks (unat (of_nat (16 * k) :: u32)) (length ?de) \<le> card (free_blks u)"
    unfolding off length_make_dirent nb using fr seen_free [OF su] more_fs [OF seen_more [OF su]] by (simp add: free_blks_def)
  have ru: "unat (of_nat (16 * k) :: u32) + length ?de \<le> MAXFILE * BSIZE"
    unfolding off using k(1) sz rm by simp
  have "dir_ok u dp" using U(1) d by simp
  then have du: "space_ok u" "intact u dp" by (simp_all add: dir_ok_def)
  obtain w where w: "writei no_devs dp ?de (of_nat (16 * k)) u = Ok (int (length ?de), w)" "in_op {} 0 w" "space_ok w" "intact w dp"
    "contents w dp = overwrite (contents u dp) (unat (of_nat (16 * k) :: u32)) ?de"
    "\<exists>as sz. icache w = (icache u)[dp := (icache u ! dp)\<lparr>i_addrs := as, i_size := sz\<rparr>]"
    using writei_ok [OF du ou le ru fu, of no_devs] by blast
  have len: "length (contents u dp) = 16 * ?l" using sz by (simp add: iu)
  have lw: "unat (i_size (icache w ! dp)) = 16 * max ?l (k + 1)"
    using length_overwrite [of "16 * k" "contents u dp" ?de] len k(1) arg_cong [OF w(5), of length]
    unfolding off length_contents length_make_dirent by (auto simp: max_def iu sz)
  have dl: "dir_len w dp = max ?l (k + 1)" by (simp add: dir_len_def lw)
  have ent: "dir_entry w dp j = (if j = k then ?de else dir_entry s dp j)" if "j < dir_len w dp" for j
    using entry_overwrite [OF len k(1) length_make_dirent] that U(6) unfolding dl dir_entry_def w(5) off by simp
  have idp: "dp < length (icache u)" using file_okD(1) [of u dp] du(2) by (simp add: intact_def)
  have ty: "i_type (icache w ! dp) = T_DIR" using w(6) idp ds(3) by (auto simp: iu)
  have inum: "de_inum ?de = inum"
  proof -
    have "unat (ucast (ucast inum :: u16) :: u32) = unat inum" using n(2) by (simp add: unsigned_ucast_eq take_bit_eq_mod unat_mod)
    then show ?thesis unfolding de_inum_make_dirent by (simp add: word_unat_eq_iff)
  qed
  have ei: "entry_is (cname nm) ?de" using n(1) by (simp add: entry_is_def inum cname_make_dirent)
  have "dir_map w dp = (dir_map s dp)(cname nm \<mapsto> de_inum ?de)"
    by (rule dir_map_insert [OF k dl ent ei new])
  moreover have "dir_ok w dp" using w(3,4) ty lw by (simp add: dir_ok_def)
  moreover have "dirlink dp nm inum s = Ok (True, w)"
    unfolding dirlink_def t(3) obind.simps(1) prod.case option.case Let_def offs length_map length_upt
    using u(3) w(1) by simp
  ultimately show ?thesis using w(2) inum by auto
qed

section \<open>An example directory\<close>

text \<open>A directory with one entry, \<^verbatim>\<open>a\<close> for inode 5; \<^verbatim>\<open>b\<close> is linked to inode 6.\<close>

abbreviation example_dir :: fstate where
  "example_dir \<equiv> example_files T_DIR (make_dirent [97] 5)"

lemma example_dir_ok: "dir_ok example_dir 0" "dir_len example_dir 0 = 1" "dir_entry example_dir 0 0 = make_dirent [97] 5"
proof -
  have l: "length (make_dirent [97] 5) < 256" by simp
  note c = example_contents [OF l, of T_DIR]
  have "i_type (icache example_dir ! 0) = T_DIR" by (simp add: example_fields example_inode_def)
  then show "dir_ok example_dir 0"
    using example_intact [OF _ l, of T_DIR] example_space by (simp add: dir_ok_def c)
  show "dir_len example_dir 0 = 1" by (simp add: dir_len_def c)
  show "dir_entry example_dir 0 0 = make_dirent [97] 5" by (simp add: dir_entry_def c)
qed

lemma example_names: "cname [97] = [97]" "cname [98] = [98]"
  by (simp_all add: cname_def cstr_of_def upt_rec)

lemma example_dir_map: "dir_map example_dir 0 [97] = Some 5" "dir_map example_dir 0 [98] = None"
  by (simp_all add: dir_map_def dir_find_def example_dir_ok entry_is_def de_inum_make_dirent cname_make_dirent example_names)

theorem dirlookup_looks_up_witness:
  "\<exists>t. dirlookup 0 [97] example_dir = obind (iget 1 5 t) (\<lambda>(i, t). Ok (Some (i, 0), t)) \<and> icache t = icache example_dir"
proof -
  have "cname [97] = [97]" by (rule example_names)
  then show ?thesis using dirlookup_looks_up [OF example_held(1) example_dir_ok(1), of "[97]"]
    by (auto simp: example_dir_map example_dir_ok(2))
qed

theorem dirlink_inserts_witness:
  "\<exists>t. dirlink 0 [98] 6 example_dir = Ok (True, t) \<and> dir_map t 0 [97] = Some 5 \<and> dir_map t 0 [98] = Some 6"
proof -
  have sz: "unat (i_size (icache example_dir ! 0)) + 16 \<le> MAXFILE * BSIZE" by (simp add: example_contents)
  have "dir_map example_dir 0 (cname [98]) = None" unfolding example_names by (rule example_dir_map)
  then obtain t where "dirlink 0 [98] 6 example_dir = Ok (True, t)" "dir_map t 0 = (dir_map example_dir 0)(cname [98] \<mapsto> 6)"
    using dirlink_inserts [OF example_dir_ok(1) example_op example_two_free sz, of 6 "[98]"] by auto
  then show ?thesis by (auto simp: example_names example_dir_map)
qed

end
