(* ===== verification/Uargs.thy ===== *)
theory Uargs
  imports Uaccess
begin

text \<open>
  System call arguments stay inside the process: whatever a process puts in its registers and
  on its stack, fetching arguments reads only memory below its size, and a pointer that is
  accepted names a block that lies below it.
\<close>

section \<open>Reads below the size of the process\<close>

text \<open>The pages below \<^verbatim>\<open>sz\<close> are mapped, and \<^verbatim>\<open>sz\<close> is below the kernel.\<close>

definition user_ok :: "'a pstate_scheme \<Rightarrow> bool" where
  "user_ok s \<longleftrightarrow> cur_sz s \<le> 0x80000000 \<and> (\<forall>va < cur_sz s. user_pte va s AND PTE_P \<noteq> 0)"

definition inside :: "u32 \<Rightarrow> nat \<Rightarrow> 'a pstate_scheme \<Rightarrow> bool" where
  "inside va n s \<longleftrightarrow> unat va + n \<le> unat (cur_sz s)"

lemma user_load_inside: "user_ok s \<Longrightarrow> va < cur_sz s \<Longrightarrow> user_load va s = Ok (k_mem s (user_addr va s))"
  by (simp add: user_ok_def user_load_def)

lemma inside_step:
  assumes "inside va (Suc n) s"
  shows "va < cur_sz s" "inside (va + 1) n s"
proof -
  have lt: "unat va < unat (cur_sz s)" using assms by (simp add: inside_def)
  then show "va < cur_sz s" by (simp add: word_less_nat_alt)
  have b: "unat (cur_sz s) < 4294967296" by simp
  have one: "unat (1 :: u32) = 1" by simp
  have "unat va + unat (1 :: u32) < 4294967296" unfolding one using lt b by linarith
  then have "unat (va + 1) = unat va + 1" using unat_add32 [of va 1] by simp
  then show "inside (va + 1) n s" using assms by (simp add: inside_def)
qed

lemma user_bytes_inside:
  "user_ok s \<Longrightarrow> inside va n s \<Longrightarrow>
   user_bytes va n s = Ok (map (\<lambda>k. k_mem s (user_addr (va + of_nat k) s)) [0 ..< n])"
proof (induction n arbitrary: va)
  case (Suc n)
  note i = inside_step [OF Suc.prems(2)]
  have "user_bytes (va + 1) n s = Ok (map (\<lambda>k. k_mem s (user_addr (va + 1 + of_nat k) s)) [0 ..< n])"
    by (rule Suc.IH [OF Suc.prems(1) i(2)])
  then show ?case using user_load_inside [OF Suc.prems(1) i(1)]
    by (simp add: map_upt_Suc add.assoc del: upt_Suc)
qed simp

text \<open>What the C string at \<open>va\<close> is, if there is a NUL among the next \<open>n\<close> bytes.\<close>

definition user_string :: "u32 \<Rightarrow> nat \<Rightarrow> 'a pstate_scheme \<Rightarrow> u8 list option" where
  "user_string va n s =
     (let bs = map (\<lambda>k. k_mem s (user_addr (va + of_nat k) s)) [0 ..< n]
      in if 0 \<in> set bs then Some (takeWhile (\<lambda>c. c \<noteq> 0) bs) else None)"

lemma fetchstr_scan_inside:
  "user_ok s \<Longrightarrow> inside va n s \<Longrightarrow> fetchstr_scan va n s = Ok (user_string va n s)"
proof (induction n arbitrary: va)
  case (Suc n)
  note i = inside_step [OF Suc.prems(2)]
  have "fetchstr_scan (va + 1) n s = Ok (user_string (va + 1) n s)" by (rule Suc.IH [OF Suc.prems(1) i(2)])
  then show ?case using user_load_inside [OF Suc.prems(1) i(1)]
    by (auto simp: user_string_def Let_def map_upt_Suc add.assoc simp del: upt_Suc)
qed (simp add: user_string_def)

text \<open>The checks of the code, without wrapping round.\<close>

lemma check_inside:
  assumes "a < cur_sz s" "unat n \<le> 2147483648" "cur_sz s \<le> 0x80000000"
  shows "a + n \<le> cur_sz s \<longleftrightarrow> inside a (unat n) s"
proof -
  have "unat a < unat (cur_sz s)" "unat (cur_sz s) \<le> 2147483648"
    using assms by (simp_all add: word_less_nat_alt word_le_nat_alt)
  then have "unat (a + n) = unat a + unat n" using assms(2) by (intro unat_add32) simp
  then show ?thesis by (simp add: inside_def word_le_nat_alt)
qed

lemma fetchint_inside:
  assumes "user_ok s"
  shows "fetchint addr s =
    Ok (if inside addr 4 s then Some (get32 (cstr_of (map (\<lambda>k. k_mem s (user_addr (addr + of_nat k) s)) [0 ..< 4])) 0) else None)"
proof (cases "addr < cur_sz s")
  case True
  have c: "addr + 4 \<le> cur_sz s \<longleftrightarrow> inside addr 4 s"
    using check_inside [OF True, of 4] assms by (simp add: user_ok_def)
  then show ?thesis using True user_bytes_inside [OF assms]
    by (auto simp: fetchint_def user_word_def not_le)
next
  case False
  then have "\<not> inside addr 4 s" by (simp add: inside_def word_less_nat_alt)
  then show ?thesis using False by (simp add: fetchint_def not_less)
qed

lemma unat_sint: "0 \<le> sint (n :: u32) \<Longrightarrow> unat n = nat (sint n) \<and> unat n < 2147483648"
proof -
  assume p: "0 \<le> sint n"
  have e: "sint n = signed_take_bit 31 (uint n)" by (simp add: sint_uint)
  have lt: "sint n < 2147483648" using sint_lt [of n] by simp
  have "uint n = take_bit 32 (sint n)" by (simp add: uint_sint)
  also have "\<dots> = sint n" using p lt by (simp add: take_bit_int_eq_self)
  finally have "uint n = sint n" .
  then show ?thesis using lt p by (simp add: unat_eq_nat_uint)
qed

lemma string_bytes:
  assumes u: "user_ok s" and i: "inside p n s" and cs: "user_string p n s = Some cs"
  shows "length cs < n" "0 \<notin> set cs" "user_bytes p (Suc (length cs)) s = Ok (cs @ [0])"
proof -
  let ?f = "\<lambda>k. k_mem s (user_addr (p + of_nat k) s)"
  have z: "0 \<in> set (map ?f [0 ..< n])" and c: "cs = takeWhile (\<lambda>c. c \<noteq> 0) (map ?f [0 ..< n])"
    using cs by (auto simp: user_string_def Let_def split: if_splits)
  show "0 \<notin> set cs" unfolding c by (auto dest: set_takeWhileD)
  let ?l = "map ?f [0 ..< n]"
  have "length cs \<noteq> length ?l"
  proof
    assume "length cs = length ?l"
    then have "cs = ?l" unfolding c by (metis takeWhile_eq_take take_all order_refl)
    then show False using z \<open>0 \<notin> set cs\<close> by simp
  qed
  then have l: "length cs < length ?l" unfolding c using length_takeWhile_le [of "\<lambda>c. c \<noteq> 0" ?l] by simp
  then show lt: "length cs < n" by simp
  have "take (Suc (length cs)) (map ?f [0 ..< n]) = cs @ [map ?f [0 ..< n] ! length cs]"
    using take_Suc_conv_app_nth [OF l] takeWhile_eq_take [of "\<lambda>c. c \<noteq> 0" "map ?f [0 ..< n]"] by (simp add: c)
  moreover have "map ?f [0 ..< n] ! length cs = 0"
    using nth_length_takeWhile [of "\<lambda>c. c \<noteq> 0" "map ?f [0 ..< n]"] l unfolding c by simp
  moreover have "take (Suc (length cs)) (map ?f [0 ..< n]) = map ?f [0 ..< Suc (length cs)]"
    using lt by (simp add: take_map del: upt_Suc)
  moreover have "inside p (Suc (length cs)) s" using i lt by (simp add: inside_def)
  ultimately show "user_bytes p (Suc (length cs)) s = Ok (cs @ [0])" using user_bytes_inside [OF u] by (simp del: user_bytes.simps)
qed

text \<open>
  C8: whatever a process passes, fetching an argument never faults in the kernel: \<^verbatim>\<open>argint\<close>,
  \<^verbatim>\<open>argptr\<close> and \<^verbatim>\<open>argstr\<close> return. A pointer that \<^verbatim>\<open>argptr\<close> accepts names a block of the asked
  size that lies wholly below the size of the process, without wrapping round the end of the
  address space, so that reading it does not fault; and a string that \<^verbatim>\<open>argstr\<close> accepts ends
  with its NUL below the size of the process.
\<close>

theorem arguments_stay_inside:
  fixes s :: "'a pstate_scheme"
  assumes "user_ok s"
  shows "(\<exists>r. argint n s = Ok r) \<and>
    (\<exists>r. argptr n len s = Ok r \<and> (\<forall>p. r = Some p \<longrightarrow>
       0 \<le> sint len \<and> p < cur_sz s \<and> unat p + nat (sint len) \<le> unat (cur_sz s) \<and> (\<exists>bs. user_bytes p (nat (sint len)) s = Ok bs))) \<and>
    (\<exists>r. argstr n s = Ok r \<and> (\<forall>cs. r = Some cs \<longrightarrow>
       (\<exists>p. argint n s = Ok (Some p) \<and> unat p + length cs < unat (cur_sz s) \<and> 0 \<notin> set cs \<and> user_bytes p (Suc (length cs)) s = Ok (cs @ [0]))))"
proof (intro conjI)
  obtain r where r: "argint n s = Ok r" using fetchint_inside [OF assms] by (auto simp: argint_def)
  then show "\<exists>r. argint n s = Ok r" by blast
  have k: "cur_sz s \<le> 0x80000000" using assms by (simp add: user_ok_def)
  have kn: "unat (cur_sz s) \<le> 2147483648" using k by (simp add: word_le_nat_alt)
  show "\<exists>r. argptr n len s = Ok r \<and> (\<forall>p. r = Some p \<longrightarrow>
       0 \<le> sint len \<and> p < cur_sz s \<and> unat p + nat (sint len) \<le> unat (cur_sz s) \<and> (\<exists>bs. user_bytes p (nat (sint len)) s = Ok bs))"
  proof (cases "\<exists>p. r = Some p \<and> 0 \<le> sint len \<and> p < cur_sz s \<and> p + len \<le> cur_sz s")
    case True
    then obtain p where p: "r = Some p" "0 \<le> sint len" "p < cur_sz s" "p + len \<le> cur_sz s" by blast
    have l: "unat len = nat (sint len)" "unat len \<le> 2147483648" using unat_sint [OF p(2)] by simp_all
    then have i: "inside p (nat (sint len)) s" using check_inside [OF p(3) l(2) k] p(4) by simp
    have "argptr n len s = Ok (Some p)" using r p by (simp add: argptr_def not_less not_le)
    then show ?thesis using p(2,3) i user_bytes_inside [OF assms i] by (simp add: inside_def)
  next
    case False
    then have "argptr n len s = Ok None" using r by (auto simp: argptr_def not_less not_le split: option.splits)
    then show ?thesis by simp
  qed
  show "\<exists>r. argstr n s = Ok r \<and> (\<forall>cs. r = Some cs \<longrightarrow>
       (\<exists>p. argint n s = Ok (Some p) \<and> unat p + length cs < unat (cur_sz s) \<and> 0 \<notin> set cs \<and> user_bytes p (Suc (length cs)) s = Ok (cs @ [0])))"
  proof (cases "\<exists>p. r = Some p \<and> p < cur_sz s")
    case True
    then obtain p where p: "r = Some p" "p < cur_sz s" by blast
    let ?n = "unat (cur_sz s) - unat p"
    have lt: "unat p < unat (cur_sz s)" using p(2) by (simp add: word_less_nat_alt)
    then have i: "inside p ?n s" by (simp add: inside_def)
    have e: "argstr n s = Ok (user_string p ?n s)"
      using r p fetchstr_scan_inside [OF assms i] by (simp add: argstr_def fetchstr_def not_le [symmetric])
    have "unat p + length cs < unat (cur_sz s) \<and> 0 \<notin> set cs \<and> user_bytes p (Suc (length cs)) s = Ok (cs @ [0])"
      if cs: "user_string p ?n s = Some cs" for cs
      using string_bytes [OF assms i cs] lt by simp
    then show ?thesis using e r p(1) by blast
  next
    case False
    then have "argstr n s = Ok None" using r by (auto simp: argstr_def fetchstr_def not_less split: option.splits)
    then show ?thesis by simp
  qed
qed

section \<open>Example\<close>

text \<open>
  A memory of bytes 7 maps every page to the page at \<^verbatim>\<open>0x7070000\<close>, and every word of it is
  \<^verbatim>\<open>0x7070707\<close>, a pointer below the process's size of 128 MB.
\<close>

definition example_user :: "unit pstate_scheme" where
  "example_user = (example_state ())\<lparr>k_mem := (\<lambda>a. 7), procs := [(example_proc RUNNING 1 None)\<lparr>p_sz := 0x8000000\<rparr>]\<rparr>"

lemma example_user_ok: "user_ok example_user" "cur_sz example_user = 0x8000000" "curproc example_user = 0" "k_mem example_user = (\<lambda>a. 7)"
proof -
  show m: "k_mem example_user = (\<lambda>a. 7)" by (simp add: example_user_def)
  show c: "curproc example_user = 0" by (simp add: example_user_def curproc_def example_state_def example_cpu_def)
  show z: "cur_sz example_user = 0x8000000" by (simp add: cur_sz_def c) (simp add: example_user_def)
  have l: "load32 (\<lambda>a. 7) a = 0x7070707" for a by (simp add: load32_def)
  have "user_pte va example_user AND PTE_P \<noteq> 0" for va
    by (simp add: user_pte_def m pte_of_def pde_present_def entry_def l PTE_P_def)
  then show "user_ok example_user" by (simp add: user_ok_def z)
qed

lemma arguments_stay_inside_witness:
  "argint 0 example_user = Ok (Some 0x7070707) \<and> argptr 0 16 example_user = Ok (Some 0x7070707) \<and>
   (\<exists>bs. user_bytes 0x7070707 16 example_user = Ok bs)"
proof -
  note t = arguments_stay_inside [OF example_user_ok(1)]
  have b: "tf_get 0 tf_esp example_user = 0x7070707"
    by (simp add: tf_get_def example_user_ok(4) load32_def)
  have i: "inside (0x7070707 + 4) 4 example_user" by (simp add: inside_def example_user_ok(2))
  have m: "map (\<lambda>k. 7) [0 ..< 4] = [7, 7, 7, 7 :: u8]" by (simp add: upt_conv_Cons)
  have g: "get32 (cstr_of [7, 7, 7, 7 :: u8]) 0 = 0x7070707" by (simp add: get32_def cstr_of_def)
  have "fetchint (0x7070707 + 4) example_user = Ok (Some 0x7070707)"
    unfolding fetchint_inside [OF example_user_ok(1)] example_user_ok(4) m g if_P [OF i] ..
  then have a: "argint 0 example_user = Ok (Some 0x7070707)"
    by (simp add: argint_def example_user_ok(3) b)
  then have p: "argptr 0 16 example_user = Ok (Some 0x7070707)"
    by (simp add: argptr_def example_user_ok)
  obtain r where r: "argptr 0 16 example_user = Ok r"
      "\<forall>p. r = Some p \<longrightarrow> (\<exists>bs. user_bytes p (nat (sint (16 :: u32))) example_user = Ok bs)"
    using t [where n = 0 and len = 16] by blast
  then have "\<exists>bs. user_bytes 0x7070707 (nat (sint (16 :: u32))) example_user = Ok bs" using p by simp
  moreover have "nat (sint (16 :: u32)) = 16" by simp
  ultimately have "\<exists>bs. user_bytes 0x7070707 16 example_user = Ok bs" by metis
  then show ?thesis using a p by blast
qed

end
