(* ===== verification/Spec2Isabelle.thy ===== *)
theory Spec2Isabelle
  imports Prelude CString Rand Kalloc Spinlock Vm Console Proc Sleeplock Bio Log Fs Pipe File Input
    Uaccess Exec Sysproc Sysfile Trap Scheduler Sleepwake Ide Grep Sh
    Ptable Syslog Userprog Umalloc Lineedit
    Blocks Files Dir Uargs
begin

text \<open>
  A model of the xv6 kernel of this repository (\<^verbatim>\<open>src/Lottery\<close> and \<^verbatim>\<open>src/RR\<close>, which differ
  only in \<^verbatim>\<open>proc.c\<close>), and of the parts of its user programs that compute something.

  How the program is put together. A process enters the kernel through \<^verbatim>\<open>trap\<close>, which calls
  \<^verbatim>\<open>syscall\<close>; a handler of \<^verbatim>\<open>sysproc.c\<close> or \<^verbatim>\<open>sysfile.c\<close> fetches its arguments from user
  memory and calls the process table (\<^verbatim>\<open>proc.c\<close>), the open files (\<^verbatim>\<open>file.c\<close>), the file system
  (\<^verbatim>\<open>fs.c\<close>) or a pipe. The file system reads and writes blocks through the buffer cache
  (\<^verbatim>\<open>bio.c\<close>) and makes an operation atomic with the log (\<^verbatim>\<open>log.c\<close>); the cache calls the disk
  driver. Memory comes from \<^verbatim>\<open>kalloc.c\<close> and is mapped by \<^verbatim>\<open>vm.c\<close>. The schedulers give the
  CPU to runnable processes; \<^verbatim>\<open>sleep\<close>, \<^verbatim>\<open>wakeup\<close> and the locks order what they do.

  State. Each theory extends the record of the one below it, so that an operation is a
  function on every state that has its fields: \<open>kmem\<close> (memory as bytes, the free list),
  \<open>constate\<close> (screen and serial port), \<open>pstate\<close> (process table, CPU, history of system
  calls), \<open>bstate\<close> (buffers and disk), \<open>logstate\<close>, the state of the file system, of pipes,
  of open files and of the keyboard. Operations return an \<open>outcome\<close>: a result, a panic with
  its message, a sleep on a channel, or a spin on a lock that is never released.

  Theories, in the order of the calls, with their sources under \<^verbatim>\<open>src/Lottery\<close>:
  \<^item> \<open>Prelude\<close>: outcomes, scans of tables, 32-bit arithmetic.
  \<^item> \<open>CString\<close> (\<^verbatim>\<open>string.c\<close>, \<^verbatim>\<open>ulib.c\<close>): the memory and string routines; which bytes each changes.
  \<^item> \<open>Rand\<close> (\<^verbatim>\<open>rand.c\<close>): the generator and the bounded draw; range, uniformity, when it returns.
  \<^item> \<open>Kalloc\<close> (\<^verbatim>\<open>kalloc.c\<close>): the free list threaded through the free pages; no page is given twice.
  \<^item> \<open>Spinlock\<close> (\<^verbatim>\<open>spinlock.c\<close>): locks and the nesting of interrupt disabling; mutual exclusion
    of any number of CPUs.
  \<^item> \<open>Vm\<close> (\<^verbatim>\<open>vm.c\<close>): two-level page tables in memory; \<^verbatim>\<open>mappages\<close> gives exactly the translations asked for.
  \<^item> \<open>Console\<close>, \<open>Input\<close> (\<^verbatim>\<open>console.c\<close>, \<^verbatim>\<open>printf.c\<close>, \<^verbatim>\<open>uart.c\<close>): formatted output, the screen, line editing.
  \<^item> \<open>Lineedit\<close> (\<^verbatim>\<open>console.c\<close>): the keyboard ring of \<open>Input\<close> as a line editor over two lists; the
    screen stays within its memory.
  \<^item> \<open>Proc\<close> (\<^verbatim>\<open>proc.c\<close>): the process table. An operation that gives up the CPU is two functions,
    before and after the switch (\<open>_enter\<close>, \<open>_resume\<close>).
  \<^item> \<open>Scheduler\<close>: one pass of the lottery scheduler and of the round-robin scheduler of \<^verbatim>\<open>RR/proc.c\<close>.
  \<^item> \<open>Sleepwake\<close>: the lines of \<^verbatim>\<open>sleep\<close> and \<^verbatim>\<open>wakeup\<close>, interleaved.
  \<^item> \<open>Sleeplock\<close>, \<open>Bio\<close>, \<open>Log\<close> (\<^verbatim>\<open>sleeplock.c\<close>, \<^verbatim>\<open>bio.c\<close>, \<^verbatim>\<open>memide.c\<close>, \<^verbatim>\<open>log.c\<close>): the cache behaves as
    the disk; an operation between \<^verbatim>\<open>begin_op\<close> and \<^verbatim>\<open>end_op\<close> survives a crash at any disk write.
  \<^item> \<open>Ptable\<close> (\<^verbatim>\<open>proc.c\<close>): the invariant of the process table over every interleaving of its
    operations, which \<open>Proc\<close> defines; what \<^verbatim>\<open>wait\<close> and \<^verbatim>\<open>kill\<close> do on a reachable table.
  \<^item> \<open>Syslog\<close> (\<^verbatim>\<open>proc.c\<close>): the history of system calls that \<open>Proc\<close> keeps, its counts and its compaction.
  \<^item> \<open>Ide\<close> (\<^verbatim>\<open>ide.c\<close>): the driver with the request queue and the interrupt.
  \<^item> \<open>Fs\<close>, \<open>Pipe\<close>, \<open>File\<close> (\<^verbatim>\<open>fs.c\<close>, \<^verbatim>\<open>pipe.c\<close>, \<^verbatim>\<open>file.c\<close>): blocks, inodes, directories, paths; the
    ring of a pipe as a queue; the table of open files.
  \<^item> \<open>Blocks\<close>, \<open>Files\<close>, \<open>Dir\<close> (\<^verbatim>\<open>fs.c\<close> over \<^verbatim>\<open>bio.c\<close> and \<^verbatim>\<open>log.c\<close>): what \<open>Fs\<close> means. \<open>Blocks\<close>: every
    block has one contents, which a read sees and a logged write changes, and allocation takes
    only free blocks. \<open>Files\<close>: a file is an array of bytes, read and written through direct
    and indirect blocks, with its inode on the disk. \<open>Dir\<close>: a directory is a map from names to
    inode numbers, which \<^verbatim>\<open>dirlookup\<close> looks up and \<^verbatim>\<open>dirlink\<close> extends.
  \<^item> \<open>Uaccess\<close>, \<open>Exec\<close>, \<open>Sysproc\<close>, \<open>Sysfile\<close>, \<open>Trap\<close> (\<^verbatim>\<open>syscall.c\<close>, \<^verbatim>\<open>exec.c\<close>, \<^verbatim>\<open>sysproc.c\<close>, \<^verbatim>\<open>sysfile.c\<close>,
    \<^verbatim>\<open>trap.c\<close>): arguments from user memory, program loading, the handlers and the dispatch.
  \<^item> \<open>Uargs\<close> (\<^verbatim>\<open>syscall.c\<close>): fetching an argument never faults and accepts nothing outside the process.
  \<^item> \<open>Grep\<close> (\<^verbatim>\<open>grep.c\<close>): the matcher against the meaning of patterns, and the loop over lines.
  \<^item> \<open>Sh\<close> (\<^verbatim>\<open>sh.c\<close>): the parser of the shell, which returns on every line, reads every
    command back from its printed text, and ends the words in place.
  \<^item> \<open>Umalloc\<close> (\<^verbatim>\<open>umalloc.c\<close>): the circular list of free blocks in a heap of headers; the pieces a
    client holds never overlap.
  \<^item> \<open>Userprog\<close> (\<^verbatim>\<open>wc.c\<close>, \<^verbatim>\<open>cat.c\<close>): the programs that compute; numbers printed and read back.

  Bounds and fuel. Integers have the widths of the i386; where C leaves an overflow
  undefined the model wraps, as the compiler's code does. Loops that need not end are
  \<^theory_text>\<open>partial_function (option)\<close>, with \<open>None\<close> turned into \<open>Spin\<close>. Loops over an address range
  count pages as fuel, which the number of pages of the range bounds; the recursion
  of the shell's parser takes four units of fuel for each byte of the line. An operation on a
  file is stated with the room it needs in the log: six blocks for each block of the file that
  is written and one for the inode.

  Not modelled, and why. Assembly (boot sector, entry, trap vectors, context switch) and the
  set-up of the hardware (segment and interrupt descriptors, the interrupt controllers, the
  multiprocessor tables) have no state that the C code of the kernel computes with. The test
  programs, the image builder and the user programs that only make system calls are left
  out. A cache of translations is not modelled: the page table in memory is what a user
  access sees.
\<close>

end
